(* ===== verification/Prelude.thy ===== *)
theory Prelude
  imports Main "HOL-Library.Word" "HOL-Library.Monad_Syntax"
begin

text \<open>
  Shared vocabulary of the development: machine integers as words, byte-addressed memory as a
  list of bytes with bounds-checked access, C strings, and the generic list and word lemmas the
  component theories rely on.

  A read or a write outside a memory block is the value \<^const>\<open>None\<close>: the option monad of
  \<^theory_text>\<open>HOL-Library.Monad_Syntax\<close> threads it, so that a theorem that an operation returns
  \<^const>\<open>Some\<close> is also a theorem that it stays inside its buffers.
\<close>

unbundle bit_operations_syntax

section \<open>Machine integers\<close>

type_synonym u8 = "8 word"
type_synonym u16 = "16 word"
type_synonym u32 = "32 word"
type_synonym u64 = "64 word"

type_synonym bytes = "u8 list"

text \<open>The conversion of an unbounded integer to C's 32-bit \<^verbatim>\<open>int\<close> (two's complement).\<close>

definition c_int :: "int \<Rightarrow> int" where
  "c_int x = sint (word_of_int x :: u32)"

lemma c_int_small: "- (2 ^ 31) \<le> x \<Longrightarrow> x < 2 ^ 31 \<Longrightarrow> c_int x = x"
  by (simp add: c_int_def sint_sbintrunc' signed_take_bit_int_eq_self)

lemma c_int_nat: "n < 2 ^ 31 \<Longrightarrow> c_int (int n) = int n"
  by (rule c_int_small) auto

lemma c_int_add [simp]: "c_int (c_int a + b) = c_int (a + b)"
  by (simp add: c_int_def)

lemma c_int_idem [simp]: "c_int (c_int a) = c_int a"
  by (simp add: c_int_def)

lemma mask_numerals:
  "(0xff::'a::len word) = mask 8"
  "(0xff00::u32) = push_bit 8 (mask 8)"
  "(0xff0000::u32) = push_bit 16 (mask 8)"
  by (simp_all add: mask_eq_exp_minus_1)

text \<open>A byte has eight bits, and two words are equal when their bytes are.\<close>

lemma u8_bit: "8 \<le> n \<Longrightarrow> \<not> bit (a::u8) n"
  by (auto dest: bit_imp_le_length)

lemma u8_eqI: "(\<And>k. k < 8 \<Longrightarrow> bit v k = bit w k) \<Longrightarrow> v = (w::u8)"
  by (rule bit_word_eqI) auto

lemma u32_eqI:
  assumes "\<And>k. k < 8 \<Longrightarrow> bit v k = bit w k" "\<And>k. k < 8 \<Longrightarrow> bit v (8 + k) = bit w (8 + k)"
    "\<And>k. k < 8 \<Longrightarrow> bit v (16 + k) = bit w (16 + k)" "\<And>k. k < 8 \<Longrightarrow> bit v (24 + k) = bit w (24 + k)"
  shows "v = (w::u32)"
proof (rule bit_word_eqI)
  fix n assume "n < LENGTH(32)"
  then consider "n < 8" | "8 \<le> n" "n - 8 < 8" | "16 \<le> n" "n - 16 < 8" | "24 \<le> n" "n - 24 < 8" by fastforce
  then show "bit v n = bit w n"
    using assms(1)[of n] assms(2)[of "n - 8"] assms(3)[of "n - 16"] assms(4)[of "n - 24"] by cases auto
qed

lemma u16_eqI:
  assumes "\<And>k. k < 8 \<Longrightarrow> bit v k = bit w k" "\<And>k. k < 8 \<Longrightarrow> bit v (8 + k) = bit w (8 + k)"
  shows "v = (w::u16)"
proof (rule bit_word_eqI)
  fix n assume "n < LENGTH(16)"
  then consider "n < 8" | "8 \<le> n" "n - 8 < 8" by fastforce
  then show "bit v n = bit w n"
    using assms(1)[of n] assms(2)[of "n - 8"] by cases auto
qed

section \<open>Collections of facts\<close>

named_theorems mem_simps \<open>bounds-checked memory access\<close>
named_theorems inv_intros \<open>invariants kept by the operations\<close>

section \<open>Memory blocks\<close>

definition rdn :: "'a list \<Rightarrow> nat \<Rightarrow> nat \<Rightarrow> 'a list option" where
  "rdn m i n = (if i + n \<le> length m then Some (take n (drop i m)) else None)"

definition rd :: "'a list \<Rightarrow> nat \<Rightarrow> 'a option" where
  "rd m i = (if i < length m then Some (m ! i) else None)"

definition wrn :: "'a list \<Rightarrow> nat \<Rightarrow> 'a list \<Rightarrow> 'a list option" where
  "wrn m i bs = (if i + length bs \<le> length m
     then Some (take i m @ bs @ drop (i + length bs) m) else None)"

lemma rdn_Some [mem_simps]: "rdn m i n = Some bs \<longleftrightarrow> i + n \<le> length m \<and> bs = take n (drop i m)"
  by (auto simp: rdn_def)

lemma rdn_length: "rdn m i n = Some bs \<Longrightarrow> length bs = n"
  by (auto simp: rdn_def split: if_splits)

lemma rdn_None [mem_simps]: "rdn m i n = None \<longleftrightarrow> length m < i + n"
  by (auto simp: rdn_def)

lemma wrn_Some [mem_simps]:
  "wrn m i bs = Some m' \<longleftrightarrow>
     i + length bs \<le> length m \<and> m' = take i m @ bs @ drop (i + length bs) m"
  by (auto simp: wrn_def)

lemma wrn_length: "wrn m i bs = Some m' \<Longrightarrow> length m' = length m"
  by (auto simp: wrn_def split: if_splits)

lemma rd_Some [mem_simps]: "rd m i = Some x \<longleftrightarrow> i < length m \<and> x = m ! i"
  by (auto simp: rd_def)

lemma rdn_append1: "i + n \<le> length a \<Longrightarrow> rdn (a @ b) i n = rdn a i n"
  by (simp add: rdn_def)

lemma rdn_append2: "rdn (a @ b) (length a + i) n = rdn b i n"
  by (simp add: rdn_def)

lemma rdn_prefix [simp]: "rdn (a @ b) 0 (length a) = Some a"
  by (simp add: rdn_def)

text \<open>Reading at an offset that is known as the length of a prefix.\<close>

lemma rdn_at: "i = length a \<Longrightarrow> n = length b \<Longrightarrow> rdn (a @ b @ c) i n = Some b"
  by (simp add: rdn_def)

lemma wrn_at: "i = length a \<Longrightarrow> length b' = length b \<Longrightarrow>
    wrn (a @ b @ c) i b' = Some (a @ b' @ c)"
  by (simp add: wrn_def)

text \<open>Two adjacent writes are one.\<close>

lemma wrn_append:
  "wrn m i (a @ b) = do { m' \<leftarrow> wrn m i a; wrn m' (i + length a) b }"
  by (simp add: wrn_def add.commute add.left_commute)

lemma wrn_appendE:
  assumes "wrn m i (a @ b) = Some m'"
  obtains m1 where "wrn m i a = Some m1" "wrn m1 (i + length a) b = Some m'"
  using assms by (auto simp: wrn_append split: bind_splits)

section \<open>C strings\<close>

text \<open>
  A C string is the list of its bytes without the terminator; \<open>cstr_at m i\<close> is the string
  stored at offset \<open>i\<close> of a block, \<^const>\<open>None\<close> if no terminator follows inside the block.
\<close>

definition cstr_at :: "bytes \<Rightarrow> nat \<Rightarrow> bytes option" where
  "cstr_at m i = (if i \<le> length m \<and> 0 \<in> set (drop i m)
     then Some (takeWhile (\<lambda>b. b \<noteq> 0) (drop i m)) else None)"

definition is_cstr :: "bytes \<Rightarrow> bool" where
  "is_cstr s \<longleftrightarrow> 0 \<notin> set s"

lemma takeWhile_nonzero: "0 \<notin> set s \<Longrightarrow> takeWhile (\<lambda>b. b \<noteq> (0::u8)) (s @ 0 # r) = s"
  by (induction s) auto

lemma cstr_at_append: "is_cstr s \<Longrightarrow> i = length a \<Longrightarrow> cstr_at (a @ s @ 0 # r) i = Some s"
  by (simp add: cstr_at_def is_cstr_def takeWhile_nonzero)

lemma cstr_at_is_cstr: "cstr_at m i = Some s \<Longrightarrow> is_cstr s"
  by (auto simp: cstr_at_def is_cstr_def dest: set_takeWhileD split: if_splits)

text \<open>
  \<^verbatim>\<open>strcmp\<close>: bytes compare as unsigned values, and the terminator as 0. The C standard fixes the sign
  of the result only; the model returns the difference of the first bytes that differ.
\<close>

fun c_strcmp :: "bytes \<Rightarrow> bytes \<Rightarrow> int" where
  "c_strcmp [] [] = 0"
| "c_strcmp (a # as) [] = uint a"
| "c_strcmp [] (b # bs) = - uint b"
| "c_strcmp (a # as) (b # bs) =
     (if a \<noteq> b then uint a - uint b else if a = 0 then 0 else c_strcmp as bs)"

lemma c_strcmp_flip: "c_strcmp as bs = - c_strcmp bs as"
  by (induction as bs rule: c_strcmp.induct) auto

lemma c_strcmp_le_trans: "c_strcmp as bs \<le> 0 \<Longrightarrow> c_strcmp bs cs \<le> 0 \<Longrightarrow> c_strcmp as cs \<le> 0"
proof (induction as bs arbitrary: cs rule: c_strcmp.induct)
  case (2 a as)
  then have "a = 0" by (simp add: uint_0_iff)
  then show ?case by (cases cs) auto
next
  case (4 a as b bs)
  note prems = 4(2,3)
  show ?case
  proof (cases cs)
    case Nil
    then have "b = 0" using prems by (simp add: uint_0_iff)
    then show ?thesis using prems Nil by (cases "a = b") (auto simp: uint_0_iff)
  next
    case (Cons c cs')
    show ?thesis
    proof (cases "a = b \<and> b = c")
      case True
      then show ?thesis using 4 Cons by (cases "a = 0") auto
    next
      case False
      then have "uint a \<le> uint b" "uint b \<le> uint c" "\<not> (uint a = uint b \<and> uint b = uint c)"
        using prems Cons by (auto split: if_splits simp flip: word_uint_eq_iff)
      then show ?thesis using Cons by auto
    qed
  qed
qed (case_tac [!] cs; simp)+

lemma c_strcmp_eq: "is_cstr as \<Longrightarrow> is_cstr bs \<Longrightarrow> c_strcmp as bs = 0 \<longleftrightarrow> as = bs"
  by (induction as bs rule: c_strcmp.induct) (auto simp: is_cstr_def uint_0_iff simp flip: word_uint_eq_iff)

text \<open>The bytes of an ASCII literal.\<close>

definition ascii :: "string \<Rightarrow> bytes" where
  "ascii s = map (\<lambda>c. of_nat (of_char c)) s"

section \<open>Lists\<close>

text \<open>A loop over a list whose body may fail.\<close>

primrec foldM :: "('a \<Rightarrow> 's \<Rightarrow> 's option) \<Rightarrow> 'a list \<Rightarrow> 's \<Rightarrow> 's option" where
  "foldM body [] s = Some s"
| "foldM body (x # xs) s = do { s \<leftarrow> body x s; foldM body xs s }"

lemma foldM_append [simp]: "foldM f (xs @ ys) s = do { s \<leftarrow> foldM f xs s; foldM f ys s }"
  by (induction xs arbitrary: s) (auto split: bind_splits)

lemma take_list_update_ge: "n \<le> i \<Longrightarrow> take n (xs[i := x]) = take n xs"
  by (simp add: take_update_swap list_update_beyond)

lemma take_Suc_update: "i < length xs \<Longrightarrow> take (Suc i) (xs[i := x]) = take i xs @ [x]"
  by (simp add: take_Suc_conv_app_nth take_list_update_ge)

lemma length_div_induct [case_names short long]:
  assumes "\<And>xs. length xs < k \<Longrightarrow> P xs"
    and "\<And>xs. k \<le> length xs \<Longrightarrow> P (drop k xs) \<Longrightarrow> P xs" and "0 < k"
  shows "P xs"
proof (induction xs rule: length_induct)
  case (1 xs)
  then show ?case using assms by (cases "length xs < k") auto
qed

end
