(* ===== verification/Utils.thy ===== *)
theory Utils
  imports Prelude
begin

text \<open>
  The helpers of \<^verbatim>\<open>utils.h\<close> and \<^verbatim>\<open>utils.c\<close>: byte swapping and the conversions between host and
  network byte order, bit fields in arrays of \<^verbatim>\<open>unsigned long\<close>, and the address computation of
  \<^verbatim>\<open>calloc_a\<close>. The host byte order is a parameter; the theorems say that what a
  conversion leaves in memory does not depend on it.
\<close>

section \<open>Byte order\<close>

datatype byte_order = LITTLE_ENDIAN | BIG_ENDIAN

text \<open>\<^verbatim>\<open>__u_bswap16\<close>, shifts and masks as in the source.\<close>

definition u_bswap16 :: "u16 \<Rightarrow> u16" where
  "u_bswap16 val = ((drop_bit 8 val) AND 0xff) OR (push_bit 8 (val AND 0xff))"

text \<open>
  \<^verbatim>\<open>__builtin_bswap32\<close> and \<^verbatim>\<open>__builtin_bswap64\<close> are compiler built-ins that reverse the bytes.
\<close>

definition u_bswap32 :: "u32 \<Rightarrow> u32" where
  "u_bswap32 x = push_bit 24 (x AND 0xff) OR push_bit 8 (x AND 0xff00)
     OR drop_bit 8 (x AND 0xff0000) OR drop_bit 24 x"

definition u_bswap64 :: "u64 \<Rightarrow> u64" where
  "u_bswap64 x = push_bit 32 (ucast (u_bswap32 (ucast x)))
     OR ucast (u_bswap32 (ucast (drop_bit 32 x)))"

definition cpu_to_be16 :: "byte_order \<Rightarrow> u16 \<Rightarrow> u16" where
  "cpu_to_be16 e x = (case e of LITTLE_ENDIAN \<Rightarrow> u_bswap16 x | BIG_ENDIAN \<Rightarrow> x)"

definition cpu_to_be32 :: "byte_order \<Rightarrow> u32 \<Rightarrow> u32" where
  "cpu_to_be32 e x = (case e of LITTLE_ENDIAN \<Rightarrow> u_bswap32 x | BIG_ENDIAN \<Rightarrow> x)"

definition cpu_to_be64 :: "byte_order \<Rightarrow> u64 \<Rightarrow> u64" where
  "cpu_to_be64 e x = (case e of LITTLE_ENDIAN \<Rightarrow> u_bswap64 x | BIG_ENDIAN \<Rightarrow> x)"

definition be16_to_cpu :: "byte_order \<Rightarrow> u16 \<Rightarrow> u16" where
  "be16_to_cpu e x = (case e of LITTLE_ENDIAN \<Rightarrow> u_bswap16 x | BIG_ENDIAN \<Rightarrow> x)"

definition be32_to_cpu :: "byte_order \<Rightarrow> u32 \<Rightarrow> u32" where
  "be32_to_cpu e x = (case e of LITTLE_ENDIAN \<Rightarrow> u_bswap32 x | BIG_ENDIAN \<Rightarrow> x)"

definition be64_to_cpu :: "byte_order \<Rightarrow> u64 \<Rightarrow> u64" where
  "be64_to_cpu e x = (case e of LITTLE_ENDIAN \<Rightarrow> u_bswap64 x | BIG_ENDIAN \<Rightarrow> x)"

definition cpu_to_le32 :: "byte_order \<Rightarrow> u32 \<Rightarrow> u32" where
  "cpu_to_le32 e x = (case e of LITTLE_ENDIAN \<Rightarrow> x | BIG_ENDIAN \<Rightarrow> u_bswap32 x)"

definition le32_to_cpu :: "byte_order \<Rightarrow> u32 \<Rightarrow> u32" where
  "le32_to_cpu e x = (case e of LITTLE_ENDIAN \<Rightarrow> x | BIG_ENDIAN \<Rightarrow> u_bswap32 x)"

text \<open>What the machine stores for a word: its bytes, least significant first or last.\<close>

definition byte :: "nat \<Rightarrow> 'a::len word \<Rightarrow> u8" where
  "byte i w = ucast (drop_bit (8 * i) w)"

definition store16 :: "byte_order \<Rightarrow> u16 \<Rightarrow> bytes" where
  "store16 e w = (case e of LITTLE_ENDIAN \<Rightarrow> [byte 0 w, byte 1 w] | BIG_ENDIAN \<Rightarrow> [byte 1 w, byte 0 w])"

definition le_bytes32 :: "u32 \<Rightarrow> bytes" where
  "le_bytes32 w = [byte 0 w, byte 1 w, byte 2 w, byte 3 w]"

definition store32 :: "byte_order \<Rightarrow> u32 \<Rightarrow> bytes" where
  "store32 e w = (case e of LITTLE_ENDIAN \<Rightarrow> le_bytes32 w | BIG_ENDIAN \<Rightarrow> rev (le_bytes32 w))"

definition store64 :: "byte_order \<Rightarrow> u64 \<Rightarrow> bytes" where
  "store64 e w = (let b = le_bytes32 (ucast w) @ le_bytes32 (ucast (drop_bit 32 w))
     in case e of LITTLE_ENDIAN \<Rightarrow> b | BIG_ENDIAN \<Rightarrow> rev b)"

definition le_word32 :: "bytes \<Rightarrow> u32" where
  "le_word32 bs = ucast (bs ! 0) OR push_bit 8 (ucast (bs ! 1))
     OR push_bit 16 (ucast (bs ! 2)) OR push_bit 24 (ucast (bs ! 3))"

definition load32 :: "byte_order \<Rightarrow> bytes \<Rightarrow> u32" where
  "load32 e bs = (case e of LITTLE_ENDIAN \<Rightarrow> le_word32 bs | BIG_ENDIAN \<Rightarrow> le_word32 (rev bs))"

definition load16 :: "byte_order \<Rightarrow> bytes \<Rightarrow> u16" where
  "load16 e bs = (case e of
      LITTLE_ENDIAN \<Rightarrow> ucast (bs ! 0) OR push_bit 8 (ucast (bs ! 1))
    | BIG_ENDIAN \<Rightarrow> ucast (bs ! 1) OR push_bit 8 (ucast (bs ! 0)))"

text \<open>Network byte order: the most significant byte first.\<close>

definition be_bytes16 :: "u16 \<Rightarrow> bytes" where
  "be_bytes16 w = [byte 1 w, byte 0 w]"

definition be_bytes32 :: "u32 \<Rightarrow> bytes" where
  "be_bytes32 w = [byte 3 w, byte 2 w, byte 1 w, byte 0 w]"

definition be_word16 :: "bytes \<Rightarrow> u16" where
  "be_word16 bs = push_bit 8 (ucast (bs ! 0)) OR ucast (bs ! 1)"

definition be_word32 :: "bytes \<Rightarrow> u32" where
  "be_word32 bs = push_bit 24 (ucast (bs ! 0)) OR push_bit 16 (ucast (bs ! 1))
     OR push_bit 8 (ucast (bs ! 2)) OR ucast (bs ! 3)"

lemma length_be_bytes [simp]: "length (be_bytes16 w) = 2" "length (be_bytes32 x) = 4"
  by (simp_all add: be_bytes16_def be_bytes32_def)

lemma length_4_cases: "length bs = 4 \<Longrightarrow> \<exists>a b c d. bs = [a, b, c, d]"
  by (auto simp: numeral_eq_Suc length_Suc_conv)

lemma length_2_cases: "length bs = 2 \<Longrightarrow> \<exists>a b. bs = [a, b]"
  by (auto simp: numeral_eq_Suc length_Suc_conv)

section \<open>The wire format does not depend on the host\<close>

lemma be_load16: "be16_to_cpu e (load16 e [a,b]) = be_word16 [a,b]"
  by (cases e; rule u16_eqI)
  (auto simp: be16_to_cpu_def load16_def be_word16_def u_bswap16_def mask_numerals bit_simps u8_bit)


lemma be_load32: "be32_to_cpu e (load32 e [a,b,c,d]) = be_word32 [a,b,c,d]"
  by (cases e; rule u32_eqI)
   (simp_all add: be32_to_cpu_def load32_def be_word32_def u_bswap32_def le_word32_def mask_numerals bit_simps u8_bit)


lemma be_bytes32_inv: "be_word32 (be_bytes32 w) = w"
  by (rule u32_eqI) (simp_all add: be_word32_def be_bytes32_def byte_def bit_simps)

lemma be_word32_inv: "be_bytes32 (be_word32 [a,b,c,d]) = [a,b,c,d]"
  by (auto simp: be_word32_def be_bytes32_def byte_def bit_simps u8_bit intro!: u8_eqI)

lemma be_bytes16_inv: "be_word16 (be_bytes16 w) = w"
  by (rule u16_eqI) (simp_all add: be_word16_def be_bytes16_def byte_def bit_simps)

lemma be_word16_inv: "be_bytes16 (be_word16 [a,b]) = [a,b]"
  by (auto simp: be_word16_def be_bytes16_def byte_def bit_simps u8_bit intro!: u8_eqI)

lemma le_bytes32_inv: "le_word32 (le_bytes32 w) = w"
  by (rule u32_eqI) (simp_all add: le_word32_def le_bytes32_def byte_def bit_simps)

lemma be_store32: "store32 e (cpu_to_be32 e w) = be_bytes32 w"
  by (cases e) (auto simp: store32_def cpu_to_be32_def be_bytes32_def le_bytes32_def byte_def u_bswap32_def mask_numerals bit_simps u8_bit intro!: u8_eqI)

lemma be_store16: "store16 e (cpu_to_be16 e w) = be_bytes16 w"
  by (cases e) (auto simp: store16_def cpu_to_be16_def be_bytes16_def byte_def u_bswap16_def mask_numerals bit_simps u8_bit intro!: u8_eqI)

lemma be_store64:
  "store64 e (cpu_to_be64 e w) = be_bytes32 (ucast (drop_bit 32 w)) @ be_bytes32 (ucast w)"
  by (cases e) (auto simp: store64_def cpu_to_be64_def be_bytes32_def le_bytes32_def byte_def
      u_bswap64_def u_bswap32_def mask_numerals bit_simps u8_bit intro!: u8_eqI)

lemma be_load32_at: "length bs = 4 \<Longrightarrow> be32_to_cpu e (load32 e bs) = be_word32 bs"
  using be_load32 length_4_cases by metis

lemma be_load16_at: "length bs = 2 \<Longrightarrow> be16_to_cpu e (load16 e bs) = be_word16 bs"
  using be_load16 length_2_cases by metis

text \<open>
  C1: a 32-bit word that one host converts to network order and stores is stored with its most
  significant byte first, whatever the host's byte order, and any other host that loads those
  bytes and converts them back gets the same word.
\<close>

theorem wire_word32_roundtrip:
  "store32 e (cpu_to_be32 e w) = be_bytes32 w \<and>
   be32_to_cpu e' (load32 e' (store32 e (cpu_to_be32 e w))) = w"
  by (simp add: be_store32 be_load32_at be_bytes32_inv)

section \<open>Bit fields\<close>

text \<open>
  \<^verbatim>\<open>bitfield_set\<close> and \<^verbatim>\<open>bitfield_test\<close> on an array of \<^verbatim>\<open>unsigned long\<close> (64 bits); an index past the
  array is an access outside it.
\<close>

definition BITS_PER_LONG :: nat where
  "BITS_PER_LONG = 64"

definition BITFIELD_SIZE :: "nat \<Rightarrow> nat" where
  "BITFIELD_SIZE n = (n + (BITS_PER_LONG - 1)) div BITS_PER_LONG"

definition bitfield_set :: "u64 list \<Rightarrow> nat \<Rightarrow> u64 list option" where
  "bitfield_set bits b = (let i = b div BITS_PER_LONG in
     do { w \<leftarrow> rd bits i; Some (bits[i := w OR push_bit (b mod BITS_PER_LONG) 1]) })"

definition bitfield_test :: "u64 list \<Rightarrow> nat \<Rightarrow> bool option" where
  "bitfield_test bits b =
     do { w \<leftarrow> rd bits (b div BITS_PER_LONG);
          Some (w AND push_bit (b mod BITS_PER_LONG) 1 \<noteq> 0) }"

lemma and_bit_iff: "(w AND 2 ^ n = 0) = (\<not> bit w n)" for w :: "'a::len word"
  using bit_iff_and_push_bit_not_eq_0 [of w n] by simp

lemma bitfield_index: "b < n \<Longrightarrow> b div 64 < BITFIELD_SIZE n"
  by (simp add: BITFIELD_SIZE_def BITS_PER_LONG_def div_less_iff_less_mult)

text \<open>
  In an array sized by \<^verbatim>\<open>BITFIELD_SIZE(n)\<close>, setting bit \<open>b\<close> and testing bit \<open>c\<close> never leave
  the array for \<open>b, c < n\<close>; the tested bit is set afterwards exactly if it is the one just set or
  was set before.
\<close>

theorem bitfield_test_set:
  assumes "length bits = BITFIELD_SIZE n" and "b < n" and "c < n"
  shows "\<exists>bits' t. bitfield_set bits b = Some bits' \<and> length bits' = length bits \<and>
     bitfield_test bits c = Some t \<and> bitfield_test bits' c = Some (t \<or> b = c)"
proof -
  have i: "b div 64 < length bits" "c div 64 < length bits"
    using assms by (simp_all add: bitfield_index)
  have eq: "b = c \<longleftrightarrow> b div 64 = c div 64 \<and> b mod 64 = c mod 64"
    by (metis div_mod_decomp)
  show ?thesis
    using i by (auto simp: bitfield_set_def bitfield_test_def BITS_PER_LONG_def rd_def and_bit_iff
        nth_list_update bit_simps Let_def eq)
qed

lemma bitfield_test_set_witness:
  "\<exists>bits' t. bitfield_set [0, 0] 70 = Some bits' \<and> length bits' = length [0::u64, 0] \<and>
     bitfield_test [0, 0] 5 = Some t \<and> bitfield_test bits' 5 = Some (t \<or> (70::nat) = 5)"
  by (rule bitfield_test_set [of _ 100]) (simp_all add: BITFIELD_SIZE_def BITS_PER_LONG_def)

section \<open>calloc_a\<close>

text \<open>
  \<^verbatim>\<open>__calloc_a\<close> sums the chunk lengths into an \<^verbatim>\<open>int\<close>, allocates one zeroed block and hands out the
  running sums as addresses. The argument \<open>p\<close> is the address \<^verbatim>\<open>calloc\<close> returned, the list holds
  the lengths up to the terminating \<^verbatim>\<open>NULL\<close>; the result is the size requested from \<^verbatim>\<open>calloc\<close>
  (a negative \<^verbatim>\<open>int\<close> converts to a huge \<^verbatim>\<open>size_t\<close>) and the address of each chunk.
\<close>

fun calloc_len :: "int \<Rightarrow> nat list \<Rightarrow> int" where
  "calloc_len alloc_len [] = alloc_len"
| "calloc_len alloc_len (cur_len # r) = calloc_len (c_int (alloc_len + int cur_len)) r"

fun calloc_addrs :: "int \<Rightarrow> int \<Rightarrow> nat list \<Rightarrow> int list" where
  "calloc_addrs p alloc_len [] = []"
| "calloc_addrs p alloc_len (cur_len # r) =
     (p + alloc_len) # calloc_addrs p (c_int (alloc_len + int cur_len)) r"

definition calloc_a :: "int \<Rightarrow> nat list \<Rightarrow> int \<times> int list" where
  "calloc_a p lens = (calloc_len 0 lens, calloc_addrs p 0 lens)"

lemma calloc_len_sum:
  "0 \<le> a \<Longrightarrow> a + int (sum_list lens) < 2 ^ 31 \<Longrightarrow> calloc_len a lens = a + int (sum_list lens)"
  by (induction lens arbitrary: a) (simp_all add: c_int_small)

lemma calloc_addrs_nth:
  "0 \<le> a \<Longrightarrow> a + int (sum_list lens) < 2 ^ 31 \<Longrightarrow> i < length lens \<Longrightarrow>
     calloc_addrs p a lens ! i = p + a + int (sum_list (take i lens))"
proof (induction lens arbitrary: a i)
  case (Cons n lens)
  then show ?case by (cases i) (simp_all add: c_int_small)
qed simp

lemma length_calloc_addrs [simp]: "length (calloc_addrs p a lens) = length lens"
  by (induction lens arbitrary: a) auto

lemma sum_list_take_le: "i < j \<Longrightarrow> j < length lens \<Longrightarrow>
    sum_list (take i lens) + lens ! i \<le> sum_list (take j (lens::nat list))"
proof -
  assume ij: "i < j" "j < length lens"
  then have "take j lens = take (Suc i) lens @ take (j - Suc i) (drop (Suc i) lens)"
    by (metis Suc_leI le_add_diff_inverse take_add)
  with ij show ?thesis by (simp add: take_Suc_conv_app_nth)
qed

lemma sum_list_take_total: "i < length lens \<Longrightarrow>
    sum_list (take i lens) + lens ! i \<le> sum_list (lens::nat list)"
  by (metis append_take_drop_id sum_list_append le_add1 take_Suc_conv_app_nth sum_list.Cons
      sum_list.Nil add_0_right)

text \<open>
  C2: as long as the lengths sum to less than \<open>2 ^ 31\<close>, the chunks \<^verbatim>\<open>calloc_a\<close> hands out lie inside
  the block it asked for and do not overlap.
\<close>

theorem calloc_a_disjoint:
  assumes "calloc_a p lens = (n, as)" and "sum_list lens < 2 ^ 31" and "i < j" and "j < length lens"
  shows "p \<le> as ! i \<and> as ! i + int (lens ! i) \<le> as ! j \<and> as ! j + int (lens ! j) \<le> p + n"
proof -
  have n: "n = int (sum_list lens)" and as: "as = calloc_addrs p 0 lens"
    using assms(1,2) by (auto simp: calloc_a_def calloc_len_sum)
  have nth: "as ! k = p + int (sum_list (take k lens))" if "k < length lens" for k
    using that assms(2) as by (simp add: calloc_addrs_nth)
  show ?thesis
    using assms nth [of i] nth [of j] sum_list_take_le [of i j lens] sum_list_take_total [of j lens] n
    by (simp add: nth)
qed

lemma calloc_a_disjoint_witness:
  "\<exists>n as. calloc_a 1000 [24, 5, 9] = (n, as) \<and>
     1000 \<le> as ! 1 \<and> as ! 1 + int ([24, 5, 9] ! 1) \<le> as ! 2 \<and> as ! 2 + int ([24, 5, 9] ! 2) \<le> 1000 + n"
  using calloc_a_disjoint [of 1000 "[24, 5, 9]" _ _ 1 2] by (cases "calloc_a 1000 [24, 5, 9]") simp

end
