(* ===== verification/Base64.thy ===== *)
theory Base64
  imports Utils
begin

text \<open>
  \<^verbatim>\<open>base64.c\<close>: the encoder and the decoder over byte memory. \<open>target\<close> is the caller's buffer; a
  store goes through the bounds-checked write of theory \<^verbatim>\<open>Prelude\<close>, so the outer option is
  \<^const>\<open>None\<close> exactly when the code would write outside that buffer (or through \<^verbatim>\<open>NULL\<close>). The
  integer is the C return value.
\<close>

section \<open>The alphabet\<close>

definition Base64 :: bytes where
  "Base64 = ascii ''ABCDEFGHIJKLMNOPQRSTUVWXYZabcdefghijklmnopqrstuvwxyz0123456789+/''"

definition Pad64 :: u8 where
  "Pad64 = 61"

definition b64_digit :: "u8 \<Rightarrow> u8" where
  "b64_digit v = Base64 ! unat v"

text \<open>\<^verbatim>\<open>strchr\<close> as an index, and \<^verbatim>\<open>isspace\<close> in the C locale.\<close>

definition strchr_idx :: "bytes \<Rightarrow> u8 \<Rightarrow> nat option" where
  "strchr_idx s ch = (if ch \<in> set s then Some (length (takeWhile (\<lambda>x. x \<noteq> ch) s)) else None)"

definition isspace :: "u8 \<Rightarrow> bool" where
  "isspace ch \<longleftrightarrow> ch \<in> {9, 10, 11, 12, 13, 32}"

section \<open>b64\_encode\<close>

text \<open>\<^verbatim>\<open>B64_ENCODE_LEN\<close> and \<^verbatim>\<open>B64_DECODE_LEN\<close> of \<^verbatim>\<open>utils.h\<close>.\<close>

definition B64_ENCODE_LEN :: "nat \<Rightarrow> nat" where
  "B64_ENCODE_LEN len = ((len + 2) div 3) * 4 + 1"

definition B64_DECODE_LEN :: "nat \<Rightarrow> nat" where
  "B64_DECODE_LEN len = (len div 4) * 3 + 1"

text \<open>The four 6-bit groups of three input bytes.\<close>

definition output0 :: "u8 \<Rightarrow> u8" where
  "output0 i0 = drop_bit 2 i0"

definition output1 :: "u8 \<Rightarrow> u8 \<Rightarrow> u8" where
  "output1 i0 i1 = push_bit 4 (i0 AND 0x03) + drop_bit 4 i1"

definition output2 :: "u8 \<Rightarrow> u8 \<Rightarrow> u8" where
  "output2 i1 i2 = push_bit 2 (i1 AND 0x0f) + drop_bit 6 i2"

definition output3 :: "u8 \<Rightarrow> u8" where
  "output3 i2 = i2 AND 0x3f"

text \<open>
  The \<^verbatim>\<open>while (2 < srclength)\<close> loop. \<^const>\<open>Inl\<close> is the early \<^verbatim>\<open>return (-1)\<close> with the buffer as
  it is then; \<^const>\<open>Inr\<close> hands the buffer, the rest of the source and \<open>datalength\<close> on.
\<close>

fun b64_encode_loop ::
  "bytes \<Rightarrow> nat \<Rightarrow> bytes \<Rightarrow> nat \<Rightarrow> (bytes + bytes \<times> bytes \<times> nat) option" where
  "b64_encode_loop target targsize (i0 # i1 # i2 # src) datalength =
     (if datalength + 4 > targsize then Some (Inl target)
      else do {
        target \<leftarrow> wrn target datalength
          [b64_digit (output0 i0), b64_digit (output1 i0 i1),
           b64_digit (output2 i1 i2), b64_digit (output3 i2)];
        b64_encode_loop target targsize src (datalength + 4) })"
| "b64_encode_loop target targsize src datalength = Some (Inr (target, src, datalength))"

definition b64_encode_pad ::
  "bytes \<Rightarrow> nat \<Rightarrow> bytes \<Rightarrow> nat \<Rightarrow> (bytes + bytes \<times> nat) option" where
  "b64_encode_pad target targsize src datalength =
     (if length src \<noteq> 0 then
        let i0 = src ! 0; i1 = (if 1 < length src then src ! 1 else 0); i2 = 0 in
        if datalength + 4 > targsize then Some (Inl target)
        else do {
          target \<leftarrow> wrn target datalength
            [b64_digit (output0 i0), b64_digit (output1 i0 i1),
             if length src = 1 then Pad64 else b64_digit (output2 i1 i2), Pad64];
          Some (Inr (target, datalength + 4)) }
      else Some (Inr (target, datalength)))"

definition b64_encode :: "bytes \<Rightarrow> bytes \<Rightarrow> nat \<Rightarrow> (bytes \<times> int) option" where
  "b64_encode src target targsize =
     do { r \<leftarrow> b64_encode_loop target targsize src 0;
          (case r of Inl target \<Rightarrow> Some (target, -1)
           | Inr (target, src, datalength) \<Rightarrow>
             do { r \<leftarrow> b64_encode_pad target targsize src datalength;
                  (case r of Inl target \<Rightarrow> Some (target, -1)
                   | Inr (target, datalength) \<Rightarrow>
                      if datalength \<ge> targsize then Some (target, -1)
                      else do { target \<leftarrow> wrn target datalength [0];
                                Some (target, c_int (int datalength)) }) }) }"

section \<open>b64\_decode\<close>

text \<open>
  The character loop. The source is a C string, given by its bytes; the end of the list is the
  terminator. \<open>target\<close> is \<^const>\<open>None\<close> for a \<^verbatim>\<open>NULL\<close> pointer, in which case the loop only counts.
\<close>

fun b64_put :: "bytes option \<Rightarrow> nat \<Rightarrow> u8 \<Rightarrow> bytes option option" where
  "b64_put None i b = None"
| "b64_put (Some target) i b = map_option Some (wrn target i [b])"

fun b64_or :: "bytes option \<Rightarrow> nat \<Rightarrow> u8 \<Rightarrow> bytes option option" where
  "b64_or None i b = None"
| "b64_or (Some target) i b =
     do { old \<leftarrow> rd target i; map_option Some (wrn target i [old OR b]) }"

text \<open>
  One \<^verbatim>\<open>case\<close> of the \<^verbatim>\<open>switch (state)\<close> for a base64 digit of value \<open>k\<close>: the outer option is the
  memory fault, \<^const>\<open>Inl\<close> the \<^verbatim>\<open>return (-1)\<close> with the buffer as it is then, \<^const>\<open>Inr\<close> the
  new buffer, index and state. States 1 and 2 share their code up to the shifts.
\<close>

definition b64_carry_step ::
  "bytes option \<Rightarrow> nat \<Rightarrow> nat \<Rightarrow> nat \<Rightarrow> u8 \<Rightarrow> u8 \<Rightarrow> (bytes option + bytes option \<times> nat \<times> nat) option" where
  "b64_carry_step target targsize tarindex state' hi nextbyte =
     (if target = None then Some (Inr (target, tarindex + 1, state'))
      else do {
        target \<leftarrow> b64_or target tarindex hi;
        if tarindex + 1 < targsize
        then do { target \<leftarrow> b64_put target (tarindex + 1) nextbyte;
                  Some (Inr (target, tarindex + 1, state')) }
        else if nextbyte \<noteq> 0 then Some (Inl target)
        else Some (Inr (target, tarindex + 1, state')) })"

definition b64_digit_step ::
  "bytes option \<Rightarrow> nat \<Rightarrow> nat \<Rightarrow> nat \<Rightarrow> u8 \<Rightarrow> (bytes option + bytes option \<times> nat \<times> nat) option" where
  "b64_digit_step target targsize tarindex state k =
     (if target \<noteq> None \<and> tarindex \<ge> targsize then Some (Inl target)
      else if state = 0 then
        if target = None then Some (Inr (target, tarindex, 1))
        else do { target \<leftarrow> b64_put target tarindex (push_bit 2 k); Some (Inr (target, tarindex, 1)) }
      else if state = 1 then
        b64_carry_step target targsize tarindex 2 (drop_bit 4 k) (push_bit 4 (k AND 0x0f))
      else if state = 2 then
        b64_carry_step target targsize tarindex 3 (drop_bit 2 k) (push_bit 6 (k AND 0x03))
      else
        if target = None then Some (Inr (target, tarindex + 1, 0))
        else do { target \<leftarrow> b64_or target tarindex k; Some (Inr (target, tarindex + 1, 0)) })"

text \<open>
  The \<^verbatim>\<open>while\<close> loop. \<^const>\<open>Inr\<close> is the state at its end: the buffer, the index, the state, whether
  it stopped at a pad character, and the characters after the one it stopped at.
\<close>

fun b64_decode_loop ::
  "bytes option \<Rightarrow> nat \<Rightarrow> nat \<Rightarrow> nat \<Rightarrow> bytes
     \<Rightarrow> (bytes option + bytes option \<times> nat \<times> nat \<times> bool \<times> bytes) option" where
  "b64_decode_loop target targsize tarindex state [] = Some (Inr (target, tarindex, state, False, []))"
| "b64_decode_loop target targsize tarindex state (ch # src) =
     (if ch = 0 then Some (Inr (target, tarindex, state, False, src))
      else if isspace ch then b64_decode_loop target targsize tarindex state src
      else if ch = Pad64 then Some (Inr (target, tarindex, state, True, src))
      else case strchr_idx Base64 ch of
          None \<Rightarrow> Some (Inl target)
        | Some p \<Rightarrow>
            do { r \<leftarrow> b64_digit_step target targsize tarindex state (of_nat p);
                 (case r of Inl target \<Rightarrow> Some (Inl target)
                  | Inr (target, tarindex, state) \<Rightarrow>
                      b64_decode_loop target targsize tarindex state src) })"

text \<open>The remaining characters up to the terminator.\<close>

definition until_nul :: "bytes \<Rightarrow> bytes" where
  "until_nul s = takeWhile (\<lambda>b. b \<noteq> 0) s"

text \<open>
  After the loop: the rules for the pad characters (in state 2 a second pad must follow, then and
  in state 3 only white space), and the check of the bits left over in the byte after the last
  full one. \<open>src\<close> starts behind the first pad character.
\<close>

definition b64_check_pad :: "bytes option \<Rightarrow> nat \<Rightarrow> nat \<Rightarrow> nat \<Rightarrow> bytes \<Rightarrow> bool option" where
  "b64_check_pad target targsize tarindex state src =
     (let s = until_nul src;
          s' = (if state = 2 then dropWhile isspace s else s);
          bad = (state = 0 \<or> state = 1 \<or> (state = 2 \<and> (s' = [] \<or> hd s' \<noteq> Pad64)));
          rest = (if state = 2 then tl s' else s')
      in if bad \<or> \<not> list_all isspace rest then Some False
         else case target of None \<Rightarrow> Some True
           | Some t \<Rightarrow> if tarindex < targsize then do { b \<leftarrow> rd t tarindex; Some (b = 0) }
                       else Some True)"

definition b64_decode :: "bytes \<Rightarrow> bytes option \<Rightarrow> nat \<Rightarrow> (bytes option \<times> int) option" where
  "b64_decode src target targsize =
     do { r \<leftarrow> b64_decode_loop target targsize 0 0 src;
          (case r of Inl target \<Rightarrow> Some (target, -1)
           | Inr (target, tarindex, state, pad, rest) \<Rightarrow>
             do { ok \<leftarrow> (if pad then b64_check_pad target targsize tarindex state rest
                        else Some (state = 0));
                 if \<not> ok then Some (target, -1)
                 else if tarindex < targsize
                 then do { target \<leftarrow> b64_put target tarindex 0; Some (target, c_int (int tarindex)) }
                 else Some (target, c_int (int tarindex)) }) }"

section \<open>The encoder\<close>

text \<open>The encoded text, as a function of the source alone.\<close>

fun b64_text :: "bytes \<Rightarrow> bytes" where
  "b64_text (i0 # i1 # i2 # src) =
     b64_digit (output0 i0) # b64_digit (output1 i0 i1) # b64_digit (output2 i1 i2)
       # b64_digit (output3 i2) # b64_text src"
| "b64_text [i0, i1] = [b64_digit (output0 i0), b64_digit (output1 i0 i1), b64_digit (output2 i1 0), Pad64]"
| "b64_text [i0] = [b64_digit (output0 i0), b64_digit (output1 i0 0), Pad64, Pad64]"
| "b64_text [] = []"

lemma length_b64_text: "length (b64_text src) = (length src + 2) div 3 * 4"
proof (induction src rule: b64_text.induct)
  case (1 i0 i1 i2 src)
  have "(length (i0 # i1 # i2 # src) + 2) div 3 = Suc ((length src + 2) div 3)" by simp
  with 1 show ?case by simp
qed auto

lemma wrn_overlay: "d + length xs \<le> length t \<Longrightarrow> wrn t d xs = Some (take d t @ xs @ drop (d + length xs) t)"
  by (simp add: wrn_def)

lemma b64_encode_loop_spec:
  assumes "d \<le> targsize" "targsize \<le> length t"
  shows "(\<exists>t'. b64_encode_loop t targsize src d = Some (Inl t') \<and> length t' = length t \<and>
            targsize < d + length (b64_text src)) \<or>
    (\<exists>t' src' d'. b64_encode_loop t targsize src d = Some (Inr (t', src', d')) \<and> length src' < 3 \<and>
       d' \<le> targsize \<and> length t' = length t \<and>
       take d' t' @ b64_text src' = take d t @ b64_text src)"
  using assms
proof (induction t targsize src d rule: b64_encode_loop.induct)
  case (1 t targsize i0 i1 i2 src d)
  show ?case
  proof (cases "d + 4 > targsize")
    case True
    then show ?thesis by auto
  next
    case False
    let ?q = "[b64_digit (output0 i0), b64_digit (output1 i0 i1),
           b64_digit (output2 i1 i2), b64_digit (output3 i2)]"
    let ?t = "take d t @ ?q @ drop (d + 4) t"
    have w: "wrn t d ?q = Some ?t"
      using False 1(3) by (simp add: wrn_overlay numeral_eq_Suc)
    have l: "length ?t = length t" "take (d + 4) ?t = take d t @ ?q"
      using False 1(3) by auto
    show ?thesis
      using 1(1)[OF False w] False 1(3) w l by auto
  qed
qed auto

lemma b64_encode_pad_spec:
  assumes "d \<le> targsize" "targsize \<le> length t" "length src < 3"
  shows "if d + length (b64_text src) \<le> targsize
    then \<exists>t'. b64_encode_pad t targsize src d = Some (Inr (t', d + length (b64_text src))) \<and>
       length t' = length t \<and> take (d + length (b64_text src)) t' = take d t @ b64_text src
    else b64_encode_pad t targsize src d = Some (Inl t)"
proof -
  consider "src = []" | i0 where "src = [i0]" | i0 i1 where "src = [i0, i1]"
    using assms(3) by (cases src rule: b64_text.cases) auto
  then show ?thesis
    using assms(1,2) by cases (auto simp: b64_encode_pad_def wrn_overlay Let_def)
qed

lemma b64_encode_spec:
  assumes "targsize \<le> length t" "length src < 2 ^ 31"
  shows "if B64_ENCODE_LEN (length src) \<le> targsize
    then \<exists>t'. b64_encode src t targsize = Some (t', c_int (int (length (b64_text src)))) \<and>
       length t' = length t \<and> take (length (b64_text src) + 1) t' = b64_text src @ [0]
    else \<exists>t'. b64_encode src t targsize = Some (t', -1) \<and> length t' = length t"
proof -
  have fit: "B64_ENCODE_LEN (length src) \<le> targsize \<longleftrightarrow> length (b64_text src) < targsize"
    by (auto simp: B64_ENCODE_LEN_def length_b64_text)
  from b64_encode_loop_spec [of 0 targsize t src] assms(1)
  consider t' where "b64_encode_loop t targsize src 0 = Some (Inl t')" "length t' = length t"
        "targsize < length (b64_text src)"
    | t' s' d' where "b64_encode_loop t targsize src 0 = Some (Inr (t', s', d'))" "length s' < 3"
       "d' \<le> targsize" "length t' = length t" "take d' t' @ b64_text s' = b64_text src"
    by auto
  then show ?thesis
  proof cases
    case 1
    then show ?thesis by (auto simp: b64_encode_def fit)
  next
    case 2
    let ?n = "length (b64_text src)"
    have n: "d' + length (b64_text s') = ?n"
      using 2 assms(1) by (metis length_append length_take min.absorb2 order_trans)
    show ?thesis
    proof (cases "?n \<le> targsize")
      case True
      with b64_encode_pad_spec [OF 2(3) _ 2(2), of t'] 2 assms(1) n
      obtain t'' where p: "b64_encode_pad t' targsize s' d' = Some (Inr (t'', ?n))"
        "length t'' = length t" "take ?n t'' = b64_text src" by auto
      have "take (?n + 1) (take ?n t'' @ 0 # drop (?n + 1) t'') = b64_text src @ [0]"
        if "?n < targsize"
        using that p assms(1) by (simp add: take_Cons')
      then show ?thesis
        using 2(1) p True assms(1) by (auto simp: b64_encode_def fit wrn_overlay)
    next
      case False
      with b64_encode_pad_spec [OF 2(3) _ 2(2), of t'] 2 assms(1) n
      show ?thesis by (auto simp: b64_encode_def fit)
    qed
  qed
qed

section \<open>Digits\<close>

lemma Base64_bytes: "Base64 =
    [65, 66, 67, 68, 69, 70, 71, 72, 73, 74, 75, 76, 77, 78, 79, 80, 81, 82, 83, 84, 85, 86,
     87, 88, 89, 90, 97, 98, 99, 100, 101, 102, 103, 104, 105, 106, 107, 108, 109, 110, 111,
     112, 113, 114, 115, 116, 117, 118, 119, 120, 121, 122, 48, 49, 50, 51, 52, 53, 54, 55, 56,
     57, 43, 47]"
  by (simp add: Base64_def ascii_def)

lemma Base64_distinct: "distinct Base64"
  by (simp add: Base64_bytes)

lemma Base64_chars: "ch \<in> set Base64 \<Longrightarrow> ch \<noteq> 0 \<and> \<not> isspace ch \<and> ch \<noteq> Pad64"
  by (auto simp: Base64_bytes Pad64_def isspace_def)

lemma takeWhile_distinct: "distinct xs \<Longrightarrow> i < length xs \<Longrightarrow> length (takeWhile (\<lambda>x. x \<noteq> xs ! i) xs) = i"
proof (induction xs arbitrary: i)
  case (Cons x xs)
  then show ?case by (cases i) (auto simp: nth_mem)
qed simp

lemma b64_digit_props:
  assumes "k < 64"
  shows "b64_digit k \<noteq> 0" "\<not> isspace (b64_digit k)" "b64_digit k \<noteq> Pad64"
    "strchr_idx Base64 (b64_digit k) = Some (unat k)"
proof -
  have k: "unat k < length Base64" using assms by (simp add: word_less_nat_alt Base64_bytes)
  then have "b64_digit k \<in> set Base64" by (simp add: b64_digit_def)
  with Base64_chars show "b64_digit k \<noteq> 0" "\<not> isspace (b64_digit k)" "b64_digit k \<noteq> Pad64" by auto
  show "strchr_idx Base64 (b64_digit k) = Some (unat k)"
    using k takeWhile_distinct [OF Base64_distinct k] by (simp add: strchr_idx_def b64_digit_def)
qed

lemma u8_eqI_bits:
  "bit v 0 = bit w 0 \<Longrightarrow> bit v 1 = bit w 1 \<Longrightarrow> bit v 2 = bit w 2 \<Longrightarrow> bit v 3 = bit w 3 \<Longrightarrow>
   bit v 4 = bit w 4 \<Longrightarrow> bit v 5 = bit w 5 \<Longrightarrow> bit v 6 = bit w 6 \<Longrightarrow> bit v 7 = bit w 7 \<Longrightarrow> v = (w::u8)"
  by (rule u8_eqI) (auto simp: less_Suc_eq numeral_eq_Suc)

lemma b64_masks: "(3::u8) = mask 2" "(0xf::u8) = mask 4" "(0x3f::u8) = mask 6"
  by (simp_all add: mask_eq_exp_minus_1)

lemma output_or:
  "output1 i0 i1 = push_bit 4 (i0 AND 3) OR drop_bit 4 i1"
  "output2 i1 i2 = push_bit 2 (i1 AND 15) OR drop_bit 6 i2"
  unfolding output1_def output2_def
  by (rule disjunctive_add_eq_or, rule u8_eqI_bits; simp add: b64_masks bit_simps u8_bit)+

lemma less_64: "k AND mask 6 = k \<Longrightarrow> k < (64::u8)"
proof -
  assume "k AND mask 6 = k"
  then have "take_bit 6 k = k" by (simp add: take_bit_eq_mask)
  then have "uint k < 2 ^ 6" by (metis take_bit_int_less_exp unsigned_take_bit_eq)
  then show ?thesis by (simp add: word_less_def)
qed

lemma output_less [simp]:
  "output0 i0 < 64" "output1 i0 i1 < 64" "output2 i1 i2 < 64" "output3 i2 < 64"
  by (rule less_64, rule u8_eqI_bits;
      simp add: output0_def output_or output3_def b64_masks bit_simps u8_bit)+

section \<open>The decoder\<close>

lemma wr1: "i < length t \<Longrightarrow> wrn t i [b] = Some (t[i := b])"
  by (simp add: wrn_def upd_conv_take_nth_drop)

lemma b64_decode_digit:
  "k < 64 \<Longrightarrow> b64_decode_loop target targsize i st (b64_digit k # src) =
     do { r \<leftarrow> b64_digit_step target targsize i st k;
          case r of Inl target \<Rightarrow> Some (Inl target)
          | Inr (target, i, st) \<Rightarrow> b64_decode_loop target targsize i st src }"
  by (simp add: b64_decode_loop.simps b64_digit_props)

lemma b64_quad_bits:
  "push_bit 2 (output0 i0) OR drop_bit 4 (output1 i0 i1) = i0"
  "push_bit 4 (output1 i0 i1 AND 15) OR drop_bit 2 (output2 i1 i2) = i1"
  "push_bit 6 (output2 i1 i2 AND 3) OR output3 i2 = i2"
  "push_bit 6 (output2 i1 0 AND 3) = 0"
  "push_bit 4 (output1 i0 0 AND 15) = 0"
  by (rule u8_eqI_bits; simp add: output0_def output_or output3_def b64_masks bit_simps u8_bit)+

declare b64_decode_loop.simps(2) [simp del]

lemma b64_decode_pad [simp]:
  "b64_decode_loop target targsize i st (Pad64 # src) = Some (Inr (target, i, st, True, src))"
  by (simp add: b64_decode_loop.simps Pad64_def isspace_def)

lemma b64_decode_quad:
  assumes "targsize \<le> length t" "Suc (Suc i) < targsize"
  shows "b64_decode_loop (Some t) targsize i 0 (b64_digit (output0 i0) # b64_digit (output1 i0 i1)
      # b64_digit (output2 i1 i2) # b64_digit (output3 i2) # src)
    = b64_decode_loop (Some (t[i := i0, Suc i := i1, Suc (Suc i) := i2])) targsize (Suc (Suc (Suc i))) 0 src"
  using assms
  by (simp add: b64_decode_digit b64_digit_step_def b64_carry_step_def wr1 rd_def Let_def
      b64_quad_bits list_update_swap del: push_bit_and)

lemma b64_decode_pad1:
  assumes "targsize \<le> length t" "i < targsize"
  shows "\<exists>t'. b64_decode_loop (Some t) targsize i 0 [b64_digit (output0 i0), b64_digit (output1 i0 0), Pad64, Pad64]
    = Some (Inr (Some t', Suc i, 2, True, [Pad64])) \<and> length t' = length t \<and> take (Suc i) t' = take i t @ [i0]
     \<and> (Suc i < targsize \<longrightarrow> t' ! Suc i = 0)"
  using assms
  by (auto simp: b64_decode_digit b64_digit_step_def b64_carry_step_def wr1 rd_def Let_def
      b64_quad_bits take_Suc_update take_list_update_ge simp del: push_bit_and)

lemma b64_decode_pad2:
  assumes "targsize \<le> length t" "Suc i < targsize"
  shows "\<exists>t'. b64_decode_loop (Some t) targsize i 0
      [b64_digit (output0 i0), b64_digit (output1 i0 i1), b64_digit (output2 i1 0), Pad64]
    = Some (Inr (Some t', Suc (Suc i), 3, True, [])) \<and> length t' = length t \<and>
      take (Suc (Suc i)) t' = take i t @ [i0, i1]
     \<and> (Suc (Suc i) < targsize \<longrightarrow> t' ! Suc (Suc i) = 0)"
  using assms
  by (auto simp: b64_decode_digit b64_digit_step_def b64_carry_step_def wr1 rd_def Let_def
      b64_quad_bits take_Suc_update take_list_update_ge simp del: push_bit_and)

text \<open>What the loop has to leave behind for the decoder to accept.\<close>

definition b64_final :: "bytes \<Rightarrow> nat \<Rightarrow> nat \<Rightarrow> nat \<Rightarrow> bool \<Rightarrow> bytes \<Rightarrow> bool" where
  "b64_final t targsize n st pad rest \<longleftrightarrow>
     (if pad then b64_check_pad (Some t) targsize n st rest = Some True else st = 0)"

lemma b64_final_pad1: "(n < targsize \<longrightarrow> n < length t \<and> t ! n = 0) \<Longrightarrow> b64_final t targsize n 2 True [Pad64]"
  by (auto simp: b64_final_def b64_check_pad_def until_nul_def Let_def rd_def Pad64_def isspace_def)

lemma b64_final_pad2: "(n < targsize \<longrightarrow> n < length t \<and> t ! n = 0) \<Longrightarrow> b64_final t targsize n 3 True []"
  by (auto simp: b64_final_def b64_check_pad_def until_nul_def Let_def rd_def)

lemma b64_decode_text:
  assumes "targsize \<le> length t" "i + length src \<le> targsize"
  shows "\<exists>t' st pad rest. b64_decode_loop (Some t) targsize i 0 (b64_text src)
      = Some (Inr (Some t', i + length src, st, pad, rest)) \<and> length t' = length t \<and>
      take (i + length src) t' = take i t @ src \<and> b64_final t' targsize (i + length src) st pad rest"
  using assms
proof (induction src arbitrary: t i rule: b64_text.induct)
  case (1 i0 i1 i2 src)
  let ?t = "t[i := i0, Suc i := i1, Suc (Suc i) := i2]"
  have "take (Suc (Suc (Suc i))) ?t = take i t @ [i0, i1, i2]"
    using 1(2,3) by (simp add: take_Suc_update)
  with 1(1) [of ?t "Suc (Suc (Suc i))"] 1(2,3) show ?case
    by (simp add: b64_decode_quad)
next
  case (2 i0 i1)
  then obtain t' where t': "b64_decode_loop (Some t) targsize i 0 (b64_text [i0, i1]) =
      Some (Inr (Some t', i + 2, 3, True, []))" "length t' = length t"
      "take (i + 2) t' = take i t @ [i0, i1]" "i + 2 < targsize \<longrightarrow> t' ! (i + 2) = 0"
    using b64_decode_pad2 [of targsize t i i0 i1] by auto
  have "b64_final t' targsize (i + 2) 3 True []"
    using t' 2 by (intro b64_final_pad2) auto
  with t' show ?case by auto
next
  case (3 i0)
  then obtain t' where t': "b64_decode_loop (Some t) targsize i 0 (b64_text [i0]) =
      Some (Inr (Some t', i + 1, 2, True, [Pad64]))" "length t' = length t"
      "take (i + 1) t' = take i t @ [i0]" "i + 1 < targsize \<longrightarrow> t' ! (i + 1) = 0"
    using b64_decode_pad1 [of targsize t i i0] by auto
  have "b64_final t' targsize (i + 1) 2 True [Pad64]"
    using t' 3 by (intro b64_final_pad1) auto
  with t' show ?case by auto
next
  case 4
  then show ?case by (auto simp: b64_final_def)
qed

lemma b64_decode_encode:
  assumes "length src < 2 ^ 31" "targsize \<le> length t" "length src \<le> targsize"
  shows "\<exists>t'. b64_decode (b64_text src) (Some t) targsize = Some (Some t', int (length src)) \<and>
     length t' = length t \<and> take (length src) t' = src"
proof -
  from b64_decode_text [of targsize t 0 src] assms obtain t' st pad rest where
    l: "b64_decode_loop (Some t) targsize 0 0 (b64_text src) = Some (Inr (Some t', length src, st, pad, rest))"
    and len: "length t' = length t" and tk: "take (length src) t' = src"
    and pd: "b64_final t' targsize (length src) st pad rest"
    by auto
  show ?thesis
    using l len tk pd [unfolded b64_final_def] assms
    by (auto simp: b64_decode_def c_int_nat wr1 take_list_update_ge split: if_splits)
qed

section \<open>What the decoder accepts\<close>

lemma b64_text_append: "length a mod 3 = 0 \<Longrightarrow> b64_text (a @ b) = b64_text a @ b64_text b"
  by (induction a rule: b64_text.induct) auto

lemma b64_digit_bits:
  assumes "k0 < 64" "k1 < 64" "k2 < 64" "k3 < 64"
  shows "output0 (push_bit 2 k0 OR drop_bit 4 k1) = k0"
    "output1 (push_bit 2 k0 OR drop_bit 4 k1) (push_bit 4 (k1 AND 15) OR drop_bit 2 k2) = k1"
    "output2 (push_bit 4 (k1 AND 15) OR drop_bit 2 k2) (push_bit 6 (k2 AND 3) OR k3) = k2"
    "output3 (push_bit 6 (k2 AND 3) OR k3) = k3"
    "push_bit 4 (k1 AND 15) = 0 \<Longrightarrow> output1 (push_bit 2 k0 OR drop_bit 4 k1) 0 = k1"
    "push_bit 6 (k2 AND 3) = 0 \<Longrightarrow> output2 (push_bit 4 (k1 AND 15) OR drop_bit 2 k2) 0 = k2"
proof -
  have b: "\<not> bit k n" if "k < 64" "6 \<le> n" for k :: u8 and n
  proof -
    have "take_bit 6 k = k"
      using that by (simp add: take_bit_eq_mod word_mod_def word_less_def)
    then show ?thesis using that by (metis bit_take_bit_iff linorder_not_le)
  qed
  note [simp] = b [OF assms(1)] b [OF assms(2)] b [OF assms(3)] b [OF assms(4)]
  show "output0 (push_bit 2 k0 OR drop_bit 4 k1) = k0"
    "output1 (push_bit 2 k0 OR drop_bit 4 k1) (push_bit 4 (k1 AND 15) OR drop_bit 2 k2) = k1"
    "output2 (push_bit 4 (k1 AND 15) OR drop_bit 2 k2) (push_bit 6 (k2 AND 3) OR k3) = k2"
    "output3 (push_bit 6 (k2 AND 3) OR k3) = k3"
    by (rule u8_eqI_bits; simp add: output0_def output_or output3_def b64_masks bit_simps u8_bit)+
  {
    assume z: "push_bit 4 (k1 AND 15) = 0"
    then have z': "\<not> bit k1 n" if "n < 4" for n
    proof -
      have "\<not> bit (push_bit 4 (k1 AND 15)) (n + 4)" using z by (metis bit_0_eq bot_apply bot_bool_def)
      with that show ?thesis by (simp add: bit_push_bit_iff bit_and_iff b64_masks bit_mask_iff del: push_bit_and)
    qed
    show "output1 (push_bit 2 k0 OR drop_bit 4 k1) 0 = k1"
      by (rule u8_eqI_bits; use z' in \<open>simp add: output_or b64_masks bit_simps u8_bit\<close>)
  }
  {
    assume z: "push_bit 6 (k2 AND 3) = 0"
    then have z': "\<not> bit k2 n" if "n < 2" for n
    proof -
      have "\<not> bit (push_bit 6 (k2 AND 3)) (n + 6)" using z by (metis bit_0_eq bot_apply bot_bool_def)
      with that show ?thesis by (simp add: bit_push_bit_iff bit_and_iff b64_masks bit_mask_iff del: push_bit_and)
    qed
    show "output2 (push_bit 4 (k1 AND 15) OR drop_bit 2 k2) 0 = k2"
      by (rule u8_eqI_bits; use z' in \<open>simp add: output_or b64_masks bit_simps u8_bit\<close>)
  }
qed

lemma strchr_idx_Base64:
  assumes "strchr_idx Base64 ch = Some p"
  shows "p < 64 \<and> b64_digit (of_nat p) = ch"
proof -
  have *: "length (takeWhile (\<lambda>x. x \<noteq> c) xs) < length xs \<and> xs ! length (takeWhile (\<lambda>x. x \<noteq> c) xs) = c"
    if "c \<in> set xs" for c and xs :: bytes
    using that by (induction xs) auto
  have "length Base64 = 64" by (simp add: Base64_def ascii_def)
  with assms * [of ch Base64] show ?thesis
    by (auto simp: strchr_idx_def b64_digit_def take_bit_eq_mod unat_of_nat split: if_splits)
qed

text \<open>
  The loop invariant: \<open>acc\<close> are the characters consumed so far (white space left out), of which the
  last \<open>st\<close> digits belong to a group that is not complete.
\<close>

inductive b64_inv :: "bytes \<Rightarrow> nat \<Rightarrow> nat \<Rightarrow> nat \<Rightarrow> bytes \<Rightarrow> bool" for t ts where
  inv0: "i \<le> ts \<Longrightarrow> i mod 3 = 0 \<Longrightarrow> b64_inv t ts i 0 (b64_text (take i t))"
| inv1: "i < ts \<Longrightarrow> i mod 3 = 0 \<Longrightarrow> k0 < 64 \<Longrightarrow> t ! i = push_bit 2 k0 \<Longrightarrow>
     b64_inv t ts i 1 (b64_text (take i t) @ [b64_digit k0])"
| inv2: "i < ts \<Longrightarrow> i mod 3 = 0 \<Longrightarrow> k0 < 64 \<Longrightarrow> k1 < 64 \<Longrightarrow>
     t ! i = push_bit 2 k0 OR drop_bit 4 k1 \<Longrightarrow>
     (if Suc i < ts then t ! Suc i else 0) = push_bit 4 (k1 AND 15) \<Longrightarrow>
     b64_inv t ts (Suc i) 2 (b64_text (take i t) @ [b64_digit k0, b64_digit k1])"
| inv3: "Suc i < ts \<Longrightarrow> i mod 3 = 0 \<Longrightarrow> k0 < 64 \<Longrightarrow> k1 < 64 \<Longrightarrow> k2 < 64 \<Longrightarrow>
     t ! i = push_bit 2 k0 OR drop_bit 4 k1 \<Longrightarrow>
     t ! Suc i = push_bit 4 (k1 AND 15) OR drop_bit 2 k2 \<Longrightarrow>
     (if Suc (Suc i) < ts then t ! Suc (Suc i) else 0) = push_bit 6 (k2 AND 3) \<Longrightarrow>
     b64_inv t ts (Suc (Suc i)) 3 (b64_text (take i t) @ [b64_digit k0, b64_digit k1, b64_digit k2])"

text \<open>The step keeps the invariant, stays inside the buffer, and consumes the digit.\<close>

definition b64_ok :: "bytes \<Rightarrow> nat \<Rightarrow> bytes \<Rightarrow> (bytes option + bytes option \<times> nat \<times> nat) \<Rightarrow> bool" where
  "b64_ok t ts acc r \<longleftrightarrow> (case r of Inl t' \<Rightarrow> \<exists>u. t' = Some u \<and> length u = length t
     | Inr (t', i, st) \<Rightarrow> \<exists>u. t' = Some u \<and> length u = length t \<and> b64_inv u ts i st acc)"

lemma b64_step:
  assumes "b64_inv t ts i st acc" "ts \<le> length t" "k < 64"
  shows "\<exists>r. b64_digit_step (Some t) ts i st k = Some r \<and> b64_ok t ts (acc @ [b64_digit k]) r"
  using assms(1)
proof cases
  case inv0
  show ?thesis
  proof (cases "i < ts")
    case True
    with inv0 assms(2,3) b64_inv.inv1 [of i ts k "t[i := push_bit 2 k]"] show ?thesis
      by (simp add: b64_digit_step_def wr1 b64_ok_def take_list_update_ge)
  qed (use inv0 in \<open>auto simp: b64_digit_step_def b64_ok_def\<close>)
next
  case (inv1 k0)
  let ?t = "t[i := t ! i OR drop_bit 4 k]"
  show ?thesis
  proof (cases "Suc i < ts")
    case True
    with inv1 assms(2,3) b64_inv.inv2 [of i ts k0 k "?t[Suc i := push_bit 4 (k AND 15)]"] show ?thesis
      by (simp add: b64_digit_step_def b64_carry_step_def wr1 rd_def b64_ok_def take_list_update_ge
          del: push_bit_and)
  next
    case False
    with inv1 assms(2,3) b64_inv.inv2 [of i ts k0 k ?t] show ?thesis
      by (simp add: b64_digit_step_def b64_carry_step_def wr1 rd_def b64_ok_def take_list_update_ge
          del: push_bit_and)
  qed
next
  case (inv2 j k0 k1)
  let ?t = "t[i := t ! i OR drop_bit 2 k]"
  show ?thesis
  proof (cases "i < ts")
    case i: True
    show ?thesis
    proof (cases "Suc i < ts")
      case True
      with i inv2 assms(2,3) b64_inv.inv3 [of j ts k0 k1 k "?t[Suc i := push_bit 6 (k AND 3)]"]
      show ?thesis
        by (simp add: b64_digit_step_def b64_carry_step_def wr1 rd_def b64_ok_def take_list_update_ge
            del: push_bit_and)
    next
      case False
      with i inv2 assms(2,3) b64_inv.inv3 [of j ts k0 k1 k ?t] show ?thesis
        by (simp add: b64_digit_step_def b64_carry_step_def wr1 rd_def b64_ok_def take_list_update_ge
            del: push_bit_and)
    qed
  qed (use inv2 in \<open>auto simp: b64_digit_step_def b64_ok_def\<close>)
next
  case (inv3 j k0 k1 k2)
  show ?thesis
  proof (cases "i < ts")
    case True
    let ?u = "t[i := t ! i OR k]"
    have tk: "take (Suc i) ?u = take j t @ [t ! j, t ! Suc j, t ! i OR k]"
      using True assms(2) inv3 by (simp add: take_Suc_conv_app_nth take_list_update_ge)
    have "b64_text (take (Suc i) ?u) = acc @ [b64_digit k]"
      using inv3 True assms(2,3) b64_digit_bits [OF _ _ _ assms(3), of k0 k1 k2]
      unfolding tk by (subst b64_text_append) (auto simp: min_absorb1 simp del: push_bit_and)
    moreover have "b64_inv ?u ts (Suc i) 0 (b64_text (take (Suc i) ?u))"
      using True inv3 by (intro b64_inv.inv0) (auto simp: mod_Suc)
    ultimately show ?thesis
      using True assms(2) inv3 by (simp add: b64_digit_step_def rd_def wr1 b64_ok_def)
  qed (use inv3 in \<open>auto simp: b64_digit_step_def b64_ok_def\<close>)
qed

text \<open>The text without its white space, up to the terminator.\<close>

definition nonspace :: "bytes \<Rightarrow> bytes" where
  "nonspace s = filter (\<lambda>c. \<not> isspace c) (until_nul s)"

lemma b64_decode_loop_sound:
  assumes "b64_inv t ts i st acc" "ts \<le> length t"
  shows "(\<exists>u. b64_decode_loop (Some t) ts i st src = Some (Inl (Some u)) \<and> length u = length t) \<or>
    (\<exists>u i' st' pad rest acc'. b64_decode_loop (Some t) ts i st src = Some (Inr (Some u, i', st', pad, rest)) \<and>
       length u = length t \<and> b64_inv u ts i' st' acc' \<and>
       acc @ nonspace src = acc' @ (if pad then Pad64 # nonspace rest else []))"
  using assms
proof (induction src arbitrary: t i st acc)
  case Nil
  then show ?case by (auto simp: nonspace_def until_nul_def)
next
  case (Cons ch src)
  consider "ch = 0" | "ch \<noteq> 0" "isspace ch" | "ch \<noteq> 0" "\<not> isspace ch" "ch = Pad64"
    | "ch \<noteq> 0" "\<not> isspace ch" "ch \<noteq> Pad64" "strchr_idx Base64 ch = None"
    | p where "ch \<noteq> 0" "\<not> isspace ch" "ch \<noteq> Pad64" "strchr_idx Base64 ch = Some p"
    by blast
  then show ?case
  proof cases
    case 1
    with Cons.prems show ?thesis by (auto simp: b64_decode_loop.simps nonspace_def until_nul_def)
  next
    case 2
    with Cons.IH [OF Cons.prems] show ?thesis
      by (simp add: b64_decode_loop.simps nonspace_def until_nul_def)
  next
    case 3
    with Cons.prems show ?thesis by (auto simp: nonspace_def until_nul_def)
  next
    case 4
    then show ?thesis by (simp add: b64_decode_loop.simps)
  next
    case 5
    then have p: "p < 64" "b64_digit (of_nat p) = ch" "of_nat p < (64::u8)"
      using strchr_idx_Base64 [OF 5(4)] by (auto simp: word_less_nat_alt unat_of_nat)
    from b64_step [OF Cons.prems p(3)] obtain r where
      r: "b64_digit_step (Some t) ts i st (of_nat p) = Some r" "b64_ok t ts (acc @ [ch]) r"
      using p by auto
    have ns: "nonspace (ch # src) = ch # nonspace src" using 5 by (simp add: nonspace_def until_nul_def)
    show ?thesis
    proof (cases r)
      case (Inl a)
      with r 5 show ?thesis by (auto simp: b64_decode_loop.simps b64_ok_def)
    next
      case (Inr b)
      then obtain u i' st' where b: "r = Inr (Some u, i', st')" "length u = length t" "b64_inv u ts i' st' (acc @ [ch])"
        using r(2) by (cases b) (auto simp: b64_ok_def)
      with Cons.IH [OF b(3)] Cons.prems(2) r 5 ns show ?thesis
        by (simp add: b64_decode_loop.simps)
    qed
  qed
qed

lemma b64_inv_le: "b64_inv t ts i st acc \<Longrightarrow> i \<le> ts"
  by (induction rule: b64_inv.induct) auto

lemma until_nul_nonzero: "0 \<notin> set (until_nul s)"
  by (auto simp: until_nul_def dest: set_takeWhileD)

text \<open>What an accepted pad sequence looks like without its white space.\<close>

lemma b64_check_pad_2:
  assumes "b64_check_pad (Some u) ts i 2 rest = Some True"
  shows "nonspace rest = [Pad64]" "i < ts \<Longrightarrow> i < length u \<and> u ! i = 0"
proof -
  let ?d = "dropWhile isspace (until_nul rest)"
  from assms have d: "?d \<noteq> []" "hd ?d = Pad64" "list_all isspace (tl ?d)"
    and z: "i < ts \<Longrightarrow> i < length u \<and> u ! i = 0"
    by (auto simp: b64_check_pad_def Let_def rd_def split: if_splits)
  have "filter (\<lambda>c. \<not> isspace c) (until_nul rest) = filter (\<lambda>c. \<not> isspace c) ?d"
    by (induction "until_nul rest" rule: list.induct)
      (metis (no_types, lifting) takeWhile_dropWhile_id filter_append append_Nil filter_False set_takeWhileD)+
  also have "\<dots> = [Pad64]"
    using d by (cases ?d) (auto simp: list_all_iff Pad64_def isspace_def)
  finally show "nonspace rest = [Pad64]" by (simp add: nonspace_def)
  show "i < ts \<Longrightarrow> i < length u \<and> u ! i = 0" by (rule z)
qed

lemma b64_check_pad_3:
  assumes "b64_check_pad (Some u) ts i 3 rest = Some True"
  shows "nonspace rest = []" "i < ts \<Longrightarrow> i < length u \<and> u ! i = 0"
  using assms by (auto simp: b64_check_pad_def Let_def rd_def nonspace_def list_all_iff split: if_splits)

lemma b64_check_pad_01:
  "b64_check_pad target ts i 0 rest = Some False" "b64_check_pad target ts i (Suc 0) rest = Some False"
  by (auto simp: b64_check_pad_def Let_def)

lemma b64_check_pad_total: "ts \<le> length u \<Longrightarrow> \<exists>ok. b64_check_pad (Some u) ts i st rest = Some ok"
  by (auto simp: b64_check_pad_def Let_def rd_def)

lemma b64_accept_canonical:
  assumes "b64_inv u ts i st acc" "ts \<le> length u"
    and "if pad then b64_check_pad (Some u) ts i st rest = Some True else st = 0"
  shows "acc @ (if pad then Pad64 # nonspace rest else []) = b64_text (take i u)"
  using assms(1)
proof cases
  case inv0
  with assms(3) show ?thesis by (auto simp: b64_check_pad_01)
next
  case (inv1 k0)
  with assms(3) show ?thesis by (auto simp: b64_check_pad_01 split: if_splits)
next
  case (inv2 j k0 k1)
  with assms(3) have pad: "pad" "b64_check_pad (Some u) ts i 2 rest = Some True" by (auto split: if_splits)
  from b64_check_pad_2 [OF pad(2)] inv2 have nb: "push_bit 4 (k1 AND 15) = 0"
    by (auto simp del: push_bit_and split: if_splits)
  have "take i u = take j u @ [u ! j]"
    using inv2 assms(2) by (simp add: take_Suc_conv_app_nth)
  with pad inv2 assms(2) b64_check_pad_2(1) [OF pad(2)] b64_digit_bits(1,5) [of k0 k1 0 0] nb
  show ?thesis by (simp add: b64_text_append min_absorb1 del: push_bit_and)
next
  case (inv3 j k0 k1 k2)
  with assms(3) have pad: "pad" "b64_check_pad (Some u) ts i 3 rest = Some True" by (auto split: if_splits)
  from b64_check_pad_3 [OF pad(2)] inv3 have nb: "push_bit 6 (k2 AND 3) = 0"
    by (auto simp del: push_bit_and split: if_splits)
  have "take i u = take j u @ [u ! j, u ! Suc j]"
    using inv3 assms(2) by (simp add: take_Suc_conv_app_nth)
  with pad inv3 assms(2) b64_check_pad_3(1) [OF pad(2)] b64_digit_bits(1,2,6) [of k0 k1 k2 0] nb
  show ?thesis by (simp add: b64_text_append min_absorb1 del: push_bit_and)
qed

text \<open>
  C4: given a destination of at least \<open>targsize\<close> bytes, \<^verbatim>\<open>b64_decode\<close> never stores outside it,
  whatever the input. It returns -1, or the number of bytes decoded, which is at most
  \<open>targsize\<close>, and then the input without its white space is exactly the canonical encoding of those
  bytes: no two different texts decode to the same data (the "subliminal channel" check).
\<close>

theorem b64_decode_canonical:
  assumes "targsize \<le> length t" "targsize < 2 ^ 31"
  shows "\<exists>u r. b64_decode src (Some t) targsize = Some (Some u, r) \<and> length u = length t \<and>
     (r = -1 \<or> 0 \<le> r \<and> nat r \<le> targsize \<and> nonspace src = b64_text (take (nat r) u))"
proof -
  have "b64_inv t targsize 0 0 []" using b64_inv.inv0 [of 0 targsize t] by simp
  from b64_decode_loop_sound [OF this assms(1), of src]
  consider u where "b64_decode_loop (Some t) targsize 0 0 src = Some (Inl (Some u))" "length u = length t"
    | u i st pad rest acc where "b64_decode_loop (Some t) targsize 0 0 src = Some (Inr (Some u, i, st, pad, rest))"
       "length u = length t" "b64_inv u targsize i st acc"
       "nonspace src = acc @ (if pad then Pad64 # nonspace rest else [])"
    by fastforce
  then show ?thesis
  proof cases
    case 1
    then show ?thesis by (simp add: b64_decode_def)
  next
    case 2
    let ?ok = "if pad then b64_check_pad (Some u) targsize i st rest else Some (st = 0)"
    have i: "i \<le> targsize" by (rule b64_inv_le [OF 2(3)])
    obtain ok where ok: "?ok = Some ok"
      using b64_check_pad_total [of targsize u i st rest] assms 2(2) by (metis (full_types))
    show ?thesis
    proof (cases ok)
      case False
      with ok 2 show ?thesis by (auto simp: b64_decode_def)
    next
      case True
      with ok have "nonspace src = b64_text (take i u)"
        using b64_accept_canonical [OF 2(3), of pad rest] assms 2 by (auto split: if_splits)
      with True ok 2 i assms show ?thesis
        by (auto simp: b64_decode_def c_int_nat wr1 take_list_update_ge)
    qed
  qed
qed

lemma b64_decode_canonical_witness:
  "\<exists>u r. b64_decode (ascii ''Zm 9v'') (Some [1, 1, 1, 1]) 4 = Some (Some u, r) \<and>
     length u = length [1::u8, 1, 1, 1] \<and>
     (r = -1 \<or> 0 \<le> r \<and> nat r \<le> 4 \<and> nonspace (ascii ''Zm 9v'') = b64_text (take (nat r) u))"
  by (rule b64_decode_canonical) simp_all

text \<open>A terminator ends the text, whatever follows it in the buffer.\<close>

lemma b64_decode_loop_nul:
  "0 \<notin> set s \<Longrightarrow> b64_decode_loop target ts i st (s @ 0 # r) =
     map_option (map_sum (\<lambda>a. a) (\<lambda>(target, i, st, pad, rest).
        (target, i, st, pad, rest @ (if pad then 0 # r else r)))) (b64_decode_loop target ts i st s)"
proof (induction s arbitrary: target i st)
  case Nil
  then show ?case by (simp add: b64_decode_loop.simps)
next
  case (Cons ch s)
  then show ?case
    by (auto simp: b64_decode_loop.simps(2) option.map_comp split: option.split sum.split bind_splits)
qed

lemma until_nul_append: "until_nul (rest @ 0 # r) = until_nul rest"
  by (induction rest) (auto simp: until_nul_def)

lemma b64_check_pad_nul: "b64_check_pad target ts i st (rest @ 0 # r) = b64_check_pad target ts i st rest"
  by (simp add: b64_check_pad_def until_nul_append)

lemma b64_decode_nul: "0 \<notin> set s \<Longrightarrow> b64_decode (s @ 0 # r) target ts = b64_decode s target ts"
  unfolding b64_decode_def
  by (cases "b64_decode_loop target ts 0 0 s")
    (auto simp: b64_decode_loop_nul b64_check_pad_nul split: sum.split option.split)

lemma b64_text_nonzero: "0 \<notin> set (b64_text src)"
proof -
  have z: "0 \<noteq> b64_digit k" if "k < 64" for k
    using b64_digit_props(1) [OF that] by simp
  show ?thesis
    by (induction src rule: b64_text.induct) (auto simp: Pad64_def z)
qed



end
