(* ===== verification/Md5.thy ===== *)
theory Md5
  imports Utils
begin

text \<open>
  \<^verbatim>\<open>md5.c\<close>: the block transformation as the source unrolls it, the streaming interface
  (\<^verbatim>\<open>md5_begin\<close>, \<^verbatim>\<open>md5_hash\<close>, \<^verbatim>\<open>md5_end\<close>) over its context with the 64-byte buffer, and \<^verbatim>\<open>md5sum\<close> over
  the contents of a file. The reference is the description of RFC 1321: a table of 64 steps over a
  rotating quadruple, and the padded message cut into blocks.
\<close>

section \<open>The block transformation\<close>

definition md5_F :: "u32 \<Rightarrow> u32 \<Rightarrow> u32 \<Rightarrow> u32" where
  "md5_F x y z = z XOR (x AND (y XOR z))"

definition md5_G :: "u32 \<Rightarrow> u32 \<Rightarrow> u32 \<Rightarrow> u32" where
  "md5_G x y z = y XOR (z AND (x XOR y))"

definition md5_H :: "u32 \<Rightarrow> u32 \<Rightarrow> u32 \<Rightarrow> u32" where
  "md5_H x y z = (x XOR y) XOR z"

definition md5_H2 :: "u32 \<Rightarrow> u32 \<Rightarrow> u32 \<Rightarrow> u32" where
  "md5_H2 x y z = x XOR (y XOR z)"

definition md5_I :: "u32 \<Rightarrow> u32 \<Rightarrow> u32 \<Rightarrow> u32" where
  "md5_I x y z = y XOR (x OR NOT z)"

definition STEP :: "(u32 \<Rightarrow> u32 \<Rightarrow> u32 \<Rightarrow> u32) \<Rightarrow> u32 \<Rightarrow> u32 \<Rightarrow> u32 \<Rightarrow> u32 \<Rightarrow> u32 \<Rightarrow> u32 \<Rightarrow> nat \<Rightarrow> u32" where
  "STEP f a b c d x t s =
     (let a = a + (f b c d + x + t);
          a = push_bit s a OR drop_bit (32 - s) (a AND 0xffffffff)
      in a + b)"

text \<open>\<^verbatim>\<open>SET(n)\<close> and \<^verbatim>\<open>GET(n)\<close>: the \<open>n\<close>-th little-endian word of the block.\<close>

definition SET :: "bytes \<Rightarrow> nat \<Rightarrow> u32" where
  "SET ptr n = le_word32 (take 4 (drop (n * 4) ptr))"

type_synonym md5_state = "u32 \<times> u32 \<times> u32 \<times> u32"

text \<open>One pass of the \<^verbatim>\<open>do\<close> loop of \<^verbatim>\<open>body\<close>.\<close>

definition md5_rounds :: "bytes \<Rightarrow> md5_state \<Rightarrow> md5_state" where
  "md5_rounds ptr = (\<lambda>(a, b, c, d).
     (let a = STEP md5_F a b c d (SET ptr 0) 0xd76aa478 7;
        d = STEP md5_F d a b c (SET ptr 1) 0xe8c7b756 12;
        c = STEP md5_F c d a b (SET ptr 2) 0x242070db 17;
        b = STEP md5_F b c d a (SET ptr 3) 0xc1bdceee 22;
        a = STEP md5_F a b c d (SET ptr 4) 0xf57c0faf 7;
        d = STEP md5_F d a b c (SET ptr 5) 0x4787c62a 12;
        c = STEP md5_F c d a b (SET ptr 6) 0xa8304613 17;
        b = STEP md5_F b c d a (SET ptr 7) 0xfd469501 22;
        a = STEP md5_F a b c d (SET ptr 8) 0x698098d8 7;
        d = STEP md5_F d a b c (SET ptr 9) 0x8b44f7af 12;
        c = STEP md5_F c d a b (SET ptr 10) 0xffff5bb1 17;
        b = STEP md5_F b c d a (SET ptr 11) 0x895cd7be 22;
        a = STEP md5_F a b c d (SET ptr 12) 0x6b901122 7;
        d = STEP md5_F d a b c (SET ptr 13) 0xfd987193 12;
        c = STEP md5_F c d a b (SET ptr 14) 0xa679438e 17;
        b = STEP md5_F b c d a (SET ptr 15) 0x49b40821 22;
        a = STEP md5_G a b c d (SET ptr 1) 0xf61e2562 5;
        d = STEP md5_G d a b c (SET ptr 6) 0xc040b340 9;
        c = STEP md5_G c d a b (SET ptr 11) 0x265e5a51 14;
        b = STEP md5_G b c d a (SET ptr 0) 0xe9b6c7aa 20;
        a = STEP md5_G a b c d (SET ptr 5) 0xd62f105d 5;
        d = STEP md5_G d a b c (SET ptr 10) 0x02441453 9;
        c = STEP md5_G c d a b (SET ptr 15) 0xd8a1e681 14;
        b = STEP md5_G b c d a (SET ptr 4) 0xe7d3fbc8 20;
        a = STEP md5_G a b c d (SET ptr 9) 0x21e1cde6 5;
        d = STEP md5_G d a b c (SET ptr 14) 0xc33707d6 9;
        c = STEP md5_G c d a b (SET ptr 3) 0xf4d50d87 14;
        b = STEP md5_G b c d a (SET ptr 8) 0x455a14ed 20;
        a = STEP md5_G a b c d (SET ptr 13) 0xa9e3e905 5;
        d = STEP md5_G d a b c (SET ptr 2) 0xfcefa3f8 9;
        c = STEP md5_G c d a b (SET ptr 7) 0x676f02d9 14;
        b = STEP md5_G b c d a (SET ptr 12) 0x8d2a4c8a 20;
        a = STEP md5_H a b c d (SET ptr 5) 0xfffa3942 4;
        d = STEP md5_H2 d a b c (SET ptr 8) 0x8771f681 11;
        c = STEP md5_H c d a b (SET ptr 11) 0x6d9d6122 16;
        b = STEP md5_H2 b c d a (SET ptr 14) 0xfde5380c 23;
        a = STEP md5_H a b c d (SET ptr 1) 0xa4beea44 4;
        d = STEP md5_H2 d a b c (SET ptr 4) 0x4bdecfa9 11;
        c = STEP md5_H c d a b (SET ptr 7) 0xf6bb4b60 16;
        b = STEP md5_H2 b c d a (SET ptr 10) 0xbebfbc70 23;
        a = STEP md5_H a b c d (SET ptr 13) 0x289b7ec6 4;
        d = STEP md5_H2 d a b c (SET ptr 0) 0xeaa127fa 11;
        c = STEP md5_H c d a b (SET ptr 3) 0xd4ef3085 16;
        b = STEP md5_H2 b c d a (SET ptr 6) 0x04881d05 23;
        a = STEP md5_H a b c d (SET ptr 9) 0xd9d4d039 4;
        d = STEP md5_H2 d a b c (SET ptr 12) 0xe6db99e5 11;
        c = STEP md5_H c d a b (SET ptr 15) 0x1fa27cf8 16;
        b = STEP md5_H2 b c d a (SET ptr 2) 0xc4ac5665 23;
        a = STEP md5_I a b c d (SET ptr 0) 0xf4292244 6;
        d = STEP md5_I d a b c (SET ptr 7) 0x432aff97 10;
        c = STEP md5_I c d a b (SET ptr 14) 0xab9423a7 15;
        b = STEP md5_I b c d a (SET ptr 5) 0xfc93a039 21;
        a = STEP md5_I a b c d (SET ptr 12) 0x655b59c3 6;
        d = STEP md5_I d a b c (SET ptr 3) 0x8f0ccc92 10;
        c = STEP md5_I c d a b (SET ptr 10) 0xffeff47d 15;
        b = STEP md5_I b c d a (SET ptr 1) 0x85845dd1 21;
        a = STEP md5_I a b c d (SET ptr 8) 0x6fa87e4f 6;
        d = STEP md5_I d a b c (SET ptr 15) 0xfe2ce6e0 10;
        c = STEP md5_I c d a b (SET ptr 6) 0xa3014314 15;
        b = STEP md5_I b c d a (SET ptr 13) 0x4e0811a1 21;
        a = STEP md5_I a b c d (SET ptr 4) 0xf7537e82 6;
        d = STEP md5_I d a b c (SET ptr 11) 0xbd3af235 10;
        c = STEP md5_I c d a b (SET ptr 2) 0x2ad7d2bb 15;
        b = STEP md5_I b c d a (SET ptr 9) 0xeb86d391 21
      in (a, b, c, d)))"

definition md5_block :: "bytes \<Rightarrow> md5_state \<Rightarrow> md5_state" where
  "md5_block ptr saved = (case saved of (saved_a, saved_b, saved_c, saved_d) \<Rightarrow>
     case md5_rounds ptr saved of (a, b, c, d) \<Rightarrow>
       (a + saved_a, b + saved_b, c + saved_c, d + saved_d))"

text \<open>
  \<^verbatim>\<open>body\<close>: at least one block is processed before \<open>size\<close> is looked at, and \<open>size -= 64\<close> wraps, as
  \<^verbatim>\<open>unsigned long\<close> does. The result is the new state and the data behind the last block.
\<close>

function md5_body :: "md5_state \<Rightarrow> bytes \<Rightarrow> nat \<Rightarrow> (md5_state \<times> bytes) option" where
  "md5_body st ptr n =
     (case rdn ptr 0 64 of None \<Rightarrow> None
      | Some blk \<Rightarrow>
          let st = md5_block blk st; ptr = drop 64 ptr; n = (n + 2 ^ 64 - 64) mod 2 ^ 64
          in if n \<noteq> 0 then md5_body st ptr n else Some (st, ptr))"
  by pat_completeness auto
termination
  by (relation "measure (\<lambda>(st, ptr, n). length ptr)") (auto simp: rdn_def split: if_splits)

declare md5_body.simps [simp del]

section \<open>The streaming interface\<close>

record md5_ctx =
  md5_lo :: u32
  md5_hi :: u32
  md5_a :: u32
  md5_b :: u32
  md5_c :: u32
  md5_d :: u32
  md5_buffer :: bytes

definition md5_state_of :: "md5_ctx \<Rightarrow> md5_state" where
  "md5_state_of ctx = (md5_a ctx, md5_b ctx, md5_c ctx, md5_d ctx)"

definition md5_set_state :: "md5_state \<Rightarrow> md5_ctx \<Rightarrow> md5_ctx" where
  "md5_set_state st ctx = (case st of (a, b, c, d) \<Rightarrow>
     ctx\<lparr>md5_a := a, md5_b := b, md5_c := c, md5_d := d\<rparr>)"

text \<open>\<^verbatim>\<open>body(ctx, data, size)\<close> as it is called: it updates the context and returns the rest.\<close>

definition md5_body_ctx :: "md5_ctx \<Rightarrow> bytes \<Rightarrow> nat \<Rightarrow> (md5_ctx \<times> bytes) option" where
  "md5_body_ctx ctx data n =
     map_option (\<lambda>(st, rest). (md5_set_state st ctx, rest)) (md5_body (md5_state_of ctx) data n)"

definition md5_begin :: "md5_ctx \<Rightarrow> md5_ctx" where
  "md5_begin ctx = ctx\<lparr>md5_a := 0x67452301, md5_b := 0xefcdab89, md5_c := 0x98badcfe,
     md5_d := 0x10325476, md5_lo := 0, md5_hi := 0\<rparr>"

definition md5_count :: "nat \<Rightarrow> md5_ctx \<Rightarrow> md5_ctx" where
  "md5_count n ctx =
     (let saved_lo = md5_lo ctx;
          lo = ucast ((ucast saved_lo + (of_nat n :: u64)) AND 0x1fffffff) :: u32;
          hi = (if lo < saved_lo then md5_hi ctx + 1 else md5_hi ctx)
      in ctx\<lparr>md5_lo := lo, md5_hi := hi + ucast (drop_bit 29 (of_nat n :: u64))\<rparr>)"

definition md5_tail :: "bytes \<Rightarrow> md5_ctx \<Rightarrow> md5_ctx option" where
  "md5_tail data ctx =
     do { (ctx, data) \<leftarrow> (if length data \<ge> 64 then md5_body_ctx ctx data (length data div 64 * 64)
                          else Some (ctx, data));
          buf \<leftarrow> wrn (md5_buffer ctx) 0 data;
          Some (ctx\<lparr>md5_buffer := buf\<rparr>) }"

definition md5_hash :: "bytes \<Rightarrow> md5_ctx \<Rightarrow> md5_ctx option" where
  "md5_hash data ctx =
     (let used = unat (md5_lo ctx AND 0x3f);
          ctx = md5_count (length data) ctx;
          available = 64 - used
      in if used \<noteq> 0 then
           if length data < available then
             do { buf \<leftarrow> wrn (md5_buffer ctx) used data; Some (ctx\<lparr>md5_buffer := buf\<rparr>) }
           else
             do { buf \<leftarrow> wrn (md5_buffer ctx) used (take available data);
                  (ctx, _) \<leftarrow> md5_body_ctx (ctx\<lparr>md5_buffer := buf\<rparr>) buf 64;
                  md5_tail (drop available data) ctx }
         else md5_tail data ctx)"

definition md5_result :: "md5_ctx \<Rightarrow> bytes" where
  "md5_result ctx = concat (map le_bytes32 [md5_a ctx, md5_b ctx, md5_c ctx, md5_d ctx])"

text \<open>\<^verbatim>\<open>md5_end\<close>: the digest and the context, which is cleared at the end.\<close>

definition md5_end :: "md5_ctx \<Rightarrow> (bytes \<times> md5_ctx) option" where
  "md5_end ctx =
     (let used = unat (md5_lo ctx AND 0x3f) in
      do { buf \<leftarrow> wrn (md5_buffer ctx) used [0x80];
           (let used = used + 1; available = 64 - used in
            do { (ctx, used, available) \<leftarrow>
                   (if available < 8 then
                      do { buf \<leftarrow> wrn buf used (replicate available 0);
                           (ctx, _) \<leftarrow> md5_body_ctx (ctx\<lparr>md5_buffer := buf\<rparr>) buf 64;
                           Some (ctx, 0, 64) }
                    else Some (ctx\<lparr>md5_buffer := buf\<rparr>, used, available));
                 buf \<leftarrow> wrn (md5_buffer ctx) used (replicate (available - 8) 0);
                 (let lo = push_bit 3 (md5_lo ctx) in
                  do { buf \<leftarrow> wrn buf 56 (le_bytes32 lo @ le_bytes32 (md5_hi ctx));
                       (ctx, _) \<leftarrow> md5_body_ctx (ctx\<lparr>md5_lo := lo, md5_buffer := buf\<rparr>) buf 64;
                       Some (md5_result ctx,
                         \<lparr>md5_lo = 0, md5_hi = 0, md5_a = 0, md5_b = 0, md5_c = 0, md5_d = 0,
                          md5_buffer = replicate 64 0\<rparr>) }) }) })"

text \<open>
  \<^verbatim>\<open>md5sum\<close>: the file is its contents, \<^const>\<open>None\<close> if it cannot be opened; \<^verbatim>\<open>fread\<close> delivers 256
  bytes at a time until fewer are left. \<open>ctx\<close> is the uninitialised context on the stack.
\<close>

fun md5sum_loop :: "nat \<Rightarrow> bytes \<Rightarrow> int \<Rightarrow> md5_ctx \<Rightarrow> (int \<times> md5_ctx) option" where
  "md5sum_loop 0 f ret ctx = None"
| "md5sum_loop (Suc fuel) f ret ctx =
     (let buf = take 256 f in
      if buf = [] then Some (ret, ctx)
      else do { ctx \<leftarrow> md5_hash buf ctx;
                md5sum_loop fuel (drop 256 f) (c_int (ret + int (length buf))) ctx })"

definition md5sum :: "bytes option \<Rightarrow> md5_ctx \<Rightarrow> (int \<times> bytes option) option" where
  "md5sum file ctx = (case file of None \<Rightarrow> Some (-1, None)
     | Some f \<Rightarrow> do { (ret, ctx) \<leftarrow> md5sum_loop (length f + 1) f 0 (md5_begin ctx);
                     (digest, _) \<leftarrow> md5_end ctx;
                     Some (ret, Some digest) })"

section \<open>The reference: RFC 1321\<close>

definition rfc_F :: "u32 \<Rightarrow> u32 \<Rightarrow> u32 \<Rightarrow> u32" where
  "rfc_F x y z = (x AND y) OR (NOT x AND z)"

definition rfc_G :: "u32 \<Rightarrow> u32 \<Rightarrow> u32 \<Rightarrow> u32" where
  "rfc_G x y z = (x AND z) OR (y AND NOT z)"

definition rfc_H :: "u32 \<Rightarrow> u32 \<Rightarrow> u32 \<Rightarrow> u32" where
  "rfc_H x y z = x XOR y XOR z"

definition rfc_I :: "u32 \<Rightarrow> u32 \<Rightarrow> u32 \<Rightarrow> u32" where
  "rfc_I x y z = y XOR (x OR NOT z)"

definition rfc_T :: "u32 list" where
  "rfc_T =
    [0xd76aa478, 0xe8c7b756, 0x242070db, 0xc1bdceee, 0xf57c0faf, 0x4787c62a, 0xa8304613,
     0xfd469501, 0x698098d8, 0x8b44f7af, 0xffff5bb1, 0x895cd7be, 0x6b901122, 0xfd987193,
     0xa679438e, 0x49b40821, 0xf61e2562, 0xc040b340, 0x265e5a51, 0xe9b6c7aa, 0xd62f105d,
     0x02441453, 0xd8a1e681, 0xe7d3fbc8, 0x21e1cde6, 0xc33707d6, 0xf4d50d87, 0x455a14ed,
     0xa9e3e905, 0xfcefa3f8, 0x676f02d9, 0x8d2a4c8a, 0xfffa3942, 0x8771f681, 0x6d9d6122,
     0xfde5380c, 0xa4beea44, 0x4bdecfa9, 0xf6bb4b60, 0xbebfbc70, 0x289b7ec6, 0xeaa127fa,
     0xd4ef3085, 0x04881d05, 0xd9d4d039, 0xe6db99e5, 0x1fa27cf8, 0xc4ac5665, 0xf4292244,
     0x432aff97, 0xab9423a7, 0xfc93a039, 0x655b59c3, 0x8f0ccc92, 0xffeff47d, 0x85845dd1,
     0x6fa87e4f, 0xfe2ce6e0, 0xa3014314, 0x4e0811a1, 0xf7537e82, 0xbd3af235, 0x2ad7d2bb,
     0xeb86d391]"

definition rfc_fun :: "nat \<Rightarrow> u32 \<Rightarrow> u32 \<Rightarrow> u32 \<Rightarrow> u32" where
  "rfc_fun i = (if i < 16 then rfc_F else if i < 32 then rfc_G else if i < 48 then rfc_H else rfc_I)"

definition rfc_index :: "nat \<Rightarrow> nat" where
  "rfc_index i = (if i < 16 then i else if i < 32 then (5 * i + 1) mod 16
     else if i < 48 then (3 * i + 5) mod 16 else (7 * i) mod 16)"

definition rfc_shift :: "nat \<Rightarrow> nat" where
  "rfc_shift i = [[7, 12, 17, 22], [5, 9, 14, 20], [4, 11, 16, 23], [6, 10, 15, 21]] ! (i div 16) ! (i mod 4)"

definition rfc_step :: "(nat \<Rightarrow> u32) \<Rightarrow> nat \<Rightarrow> md5_state \<Rightarrow> md5_state" where
  "rfc_step X i = (\<lambda>(a, b, c, d).
     (d, b + word_rotl (rfc_shift i) (a + rfc_fun i b c d + X (rfc_index i) + rfc_T ! i), b, c))"

definition rfc_rounds :: "(nat \<Rightarrow> u32) \<Rightarrow> md5_state \<Rightarrow> md5_state" where
  "rfc_rounds X st = fold (rfc_step X) [0..<64] st"

lemma md5_fun_rfc:
  "md5_F = rfc_F" "md5_G = rfc_G" "md5_H = rfc_H" "md5_H2 = rfc_H" "md5_I = rfc_I"
  by (intro ext bit_word_eqI; auto simp: md5_F_def md5_G_def md5_H_def md5_H2_def md5_I_def
      rfc_F_def rfc_G_def rfc_H_def rfc_I_def bit_simps)+

lemma rotl_shifts:
  assumes "0 < s" "s < 32"
  shows "push_bit s w OR drop_bit (32 - s) (w AND 0xffffffff) = word_rotl s (w::u32)"
proof -
  have m: "w AND 0xffffffff = w"
  proof -
    have "(0xffffffff::u32) = - 1" by simp
    then show ?thesis by (simp only: bit.conj_one_right)
  qed
  show ?thesis
    unfolding m
  proof (rule bit_word_eqI)
    fix n assume n: "n < LENGTH(32)"
    show "bit (push_bit s w OR drop_bit (32 - s) w) n \<longleftrightarrow> bit (word_rotl s w) n"
    proof (cases "n < s")
      case True
      then have "(n + 32 - s) mod 32 = n + 32 - s" "32 - s + n = n + 32 - s" using assms by auto
      then show ?thesis using True assms by (simp add: bit_simps bit_word_rotl_iff)
    next
      case False
      then have "n + (32 - s) = 32 + (n - s)" "n + 32 - s = 32 + (n - s)" using assms n by auto
      then have "(n + (32 - s)) mod 32 = n - s" "(n + 32 - s) mod 32 = n - s"
        using n by (simp_all only: mod_add_self1) simp_all
      moreover have "\<not> bit w (32 - s + n)"
        using False assms by (auto dest: bit_imp_le_length)
      ultimately show ?thesis using False n assms by (simp add: bit_simps bit_word_rotl_iff)
    qed
  qed
qed

lemma STEP_rfc: "0 < s \<Longrightarrow> s < 32 \<Longrightarrow> STEP f a b c d x t s = b + word_rotl s (a + f b c d + x + t)"
  unfolding STEP_def Let_def by (simp only: rotl_shifts) (simp only: ac_simps)

text \<open>One step of the table unrolled against one macro call of the code.\<close>

lemma fold_unroll:
  assumes "\<And>v. R v = fold (rfc_step X) is (d, v, b, c)"
    and "rfc_fun i = f" "rfc_index i = k" "rfc_T ! i = t" "rfc_shift i = s" "0 < s" "s < 32"
  shows "(let v = STEP f a b c d (X k) t s in R v) = fold (rfc_step X) (i # is) (a, b, c, d)"
  using assms by (simp add: rfc_step_def STEP_rfc)

lemma rfc_fun_eqs:
  "i < 16 \<Longrightarrow> rfc_fun i = rfc_F" "16 \<le> i \<Longrightarrow> i < 32 \<Longrightarrow> rfc_fun i = rfc_G"
  "32 \<le> i \<Longrightarrow> i < 48 \<Longrightarrow> rfc_fun i = rfc_H" "48 \<le> i \<Longrightarrow> rfc_fun i = rfc_I"
  by (simp_all add: rfc_fun_def)

lemma md5_rounds_rfc: "md5_rounds ptr st = rfc_rounds (SET ptr) st"
proof -
  obtain a b c d where st: "st = (a, b, c, d)" by (cases st)
  have upt: "[0..<64] = [0, 1, 2, 3, 4, 5, 6, 7, 8, 9, 10, 11, 12, 13, 14, 15, 16, 17, 18, 19, 20,
      21, 22, 23, 24, 25, 26, 27, 28, 29, 30, 31, 32, 33, 34, 35, 36, 37, 38, 39, 40, 41, 42, 43,
      44, 45, 46, 47, 48, 49, 50, 51, 52, 53, 54, 55, 56, 57, 58, 59, 60, 61, 62, 63]"
    by (simp add: upt_conv_Cons)
  show ?thesis
    unfolding st md5_rounds_def rfc_rounds_def md5_fun_rfc prod.case upt
    by (rule fold_unroll [where X = "SET ptr"])+
      (simp_all add: rfc_fun_eqs rfc_index_def rfc_T_def rfc_shift_def)
qed

text \<open>The digest of a whole message: pad it, cut it into blocks, print the four words.\<close>

definition rfc_block :: "bytes \<Rightarrow> md5_state \<Rightarrow> md5_state" where
  "rfc_block blk st = (case st of (a, b, c, d) \<Rightarrow>
     case rfc_rounds (SET blk) st of (a', b', c', d') \<Rightarrow> (a' + a, b' + b, c' + c, d' + d))"

function rfc_blocks :: "bytes \<Rightarrow> md5_state \<Rightarrow> md5_state" where
  "rfc_blocks m st =
     (if length m < 64 then st else rfc_blocks (drop 64 m) (rfc_block (take 64 m) st))"
  by pat_completeness auto
termination by (relation "measure (\<lambda>(m, st). length m)") auto

declare rfc_blocks.simps [simp del]

definition rfc_init :: md5_state where
  "rfc_init = (0x67452301, 0xefcdab89, 0x98badcfe, 0x10325476)"

definition rfc_pad :: "bytes \<Rightarrow> bytes" where
  "rfc_pad m = m @ 0x80 # replicate ((119 - length m mod 64) mod 64) 0
     @ le_bytes32 (of_nat (8 * length m)) @ le_bytes32 (of_nat (8 * length m div 2 ^ 32))"

definition rfc_digest :: "bytes \<Rightarrow> bytes" where
  "rfc_digest m = (case rfc_blocks (rfc_pad m) rfc_init of (a, b, c, d) \<Rightarrow>
     concat (map le_bytes32 [a, b, c, d]))"

lemma md5_block_rfc: "md5_block = rfc_block"
  by (intro ext) (simp add: md5_block_def rfc_block_def md5_rounds_rfc)

lemma rfc_blocks_append:
  "length a mod 64 = 0 \<Longrightarrow> rfc_blocks (a @ b) st = rfc_blocks b (rfc_blocks a st)"
proof (induction a st rule: rfc_blocks.induct)
  case (1 a st)
  show ?case
  proof (cases "length a < 64")
    case True
    then have "a = []" using 1(2) by auto
    then show ?thesis by (simp add: rfc_blocks.simps [of "[]"])
  next
    case False
    then have "length (drop 64 a) mod 64 = 0" using 1(2) by (simp add: le_mod_geq)
    then show ?thesis
      using 1(1) [OF False] False by (simp add: rfc_blocks.simps [of a] rfc_blocks.simps [of "a @ b"])
  qed
qed

lemma rfc_blocks_short: "length b < 64 \<Longrightarrow> rfc_blocks b st = st"
  by (simp add: rfc_blocks.simps)

text \<open>
  \<^verbatim>\<open>body\<close> on a positive multiple of 64 bytes that the data holds processes exactly these bytes.
\<close>

lemma md5_body_blocks:
  assumes "0 < k" "64 * k \<le> length data" "64 * k < 2 ^ 64"
  shows "md5_body st data (64 * k) = Some (rfc_blocks (take (64 * k) data) st, drop (64 * k) data)"
  using assms
proof (induction k arbitrary: st data)
  case (Suc k)
  have wrap: "(64 * Suc k + 2 ^ 64 - 64) mod 2 ^ 64 = 64 * k"
    using Suc.prems(3) by simp
  have blk: "rdn data 0 64 = Some (take 64 data)" using Suc.prems by (simp add: rdn_def)
  show ?case
  proof (cases "k = 0")
    case True
    then show ?thesis
      using blk Suc.prems
      by (simp add: md5_body.simps [of _ _ 64] rfc_blocks.simps [of "take 64 data"] rfc_blocks_short
          md5_block_rfc)
  next
    case False
    have "md5_body st data (64 * Suc k) = md5_body (rfc_block (take 64 data) st) (drop 64 data) (64 * k)"
      using False wrap by (subst md5_body.simps) (simp only: blk option.case Let_def md5_block_rfc, simp)
    also have "\<dots> = Some (rfc_blocks (take (64 * k) (drop 64 data)) (rfc_block (take 64 data) st),
        drop (64 * k) (drop 64 data))"
      using False Suc.prems by (intro Suc.IH) auto
    also have "rfc_blocks (take (64 * k) (drop 64 data)) (rfc_block (take 64 data) st) =
        rfc_blocks (take (64 * Suc k) data) st"
      using Suc.prems by (subst (2) rfc_blocks.simps) (simp add: drop_take min_def)
    finally show ?thesis by (simp add: add.commute)
  qed
qed simp

section \<open>The streaming interface against the reference\<close>

text \<open>
  The context represents the message \<open>m\<close> hashed so far: its length in \<open>lo\<close> and \<open>hi\<close> (29 and 32
  bits), the state after its full blocks, and its last partial block in the buffer.
\<close>

definition md5_at :: "md5_ctx \<Rightarrow> bytes \<Rightarrow> bool" where
  "md5_at ctx m \<longleftrightarrow> md5_state_of ctx = rfc_blocks m rfc_init \<and> length (md5_buffer ctx) = 64 \<and>
     take (length m mod 64) (md5_buffer ctx) = drop (length m div 64 * 64) m"

definition md5_repr :: "md5_ctx \<Rightarrow> bytes \<Rightarrow> bool" where
  "md5_repr ctx m \<longleftrightarrow> md5_lo ctx = of_nat (length m mod 2 ^ 29) \<and>
     md5_hi ctx = of_nat (length m div 2 ^ 29) \<and> md5_at ctx m"

lemma md5_begin_repr: "length (md5_buffer ctx) = 64 \<Longrightarrow> md5_repr (md5_begin ctx) []"
  by (simp add: md5_repr_def md5_at_def md5_begin_def md5_state_of_def rfc_init_def rfc_blocks_short)

lemma md5_state_of_set: "md5_state_of (md5_set_state st ctx) = st"
  by (cases st) (simp add: md5_state_of_def md5_set_state_def)

lemma md5_set_state_sel [simp]:
  "md5_lo (md5_set_state st ctx) = md5_lo ctx" "md5_hi (md5_set_state st ctx) = md5_hi ctx"
  "md5_buffer (md5_set_state st ctx) = md5_buffer ctx"
  by (cases st; simp add: md5_set_state_def)+

lemma md5_used: 
  assumes "md5_lo ctx = of_nat (n mod 2 ^ 29)"
  shows "unat (md5_lo ctx AND 0x3f) = n mod 64"
proof -
  have "(0x3f::u32) = mask 6" by (simp add: mask_eq_exp_minus_1)
  then have "unat (md5_lo ctx AND 0x3f) = unat (take_bit 6 (md5_lo ctx))"
    by (simp only: take_bit_eq_mask)
  then have "unat (md5_lo ctx AND 0x3f) = unat (md5_lo ctx) mod 64"
    by (simp only: unsigned_take_bit_eq) (simp add: take_bit_eq_mod)
  moreover have "unat (md5_lo ctx) = n mod 2 ^ 29"
    using assms by (simp add: unat_of_nat)
  ultimately show ?thesis by (simp add: mod_mod_cancel)
qed

text \<open>The counters: 29 bits in \<open>lo\<close> with the carry detected by wrap-around, the rest in \<open>hi\<close>.\<close>

lemma add_mod_carry:
  fixes a n m :: nat
  assumes "0 < m"
  shows "(a + n) mod m < a mod m \<longleftrightarrow> m \<le> a mod m + n mod m"
    and "(a + n) div m = a div m + n div m + (if m \<le> a mod m + n mod m then 1 else 0)"
proof -
  have b: "a mod m < m" "n mod m < m" using assms by simp_all
  have "a mod m + n mod m - m < m" using b by linarith
  then have "(a mod m + n mod m) mod m =
      (if m \<le> a mod m + n mod m then a mod m + n mod m - m else a mod m + n mod m)"
    using le_mod_geq [of m "a mod m + n mod m"] by (simp only: mod_less split: if_split) auto
  then have c: "(a + n) mod m =
      (if m \<le> a mod m + n mod m then a mod m + n mod m - m else a mod m + n mod m)"
    by (simp only: mod_add_eq)
  then show "(a + n) mod m < a mod m \<longleftrightarrow> m \<le> a mod m + n mod m"
    using b by auto
  have "(a mod m + n mod m) div m = (if m \<le> a mod m + n mod m then 1 else 0)"
    using add_less_mono [OF b] div_nat_eqI [of m 1 "a mod m + n mod m"] by auto
  then show "(a + n) div m = a div m + n div m + (if m \<le> a mod m + n mod m then 1 else 0)"
    by (simp add: div_add1_eq [of a n m])
qed

lemma md5_count_lo:
  "(ucast ((ucast (of_nat (a mod 2 ^ 29) :: u32) + (of_nat n :: u64)) AND 0x1fffffff) :: u32)
     = of_nat ((a + n) mod 2 ^ 29)"
proof -
  have m: "(0x1fffffff::u64) = mask 29" by (simp add: mask_eq_exp_minus_1)
  have "unat (ucast ((ucast (of_nat (a mod 2 ^ 29) :: u32) + (of_nat n :: u64)) AND 0x1fffffff) :: u32)
      = ((a mod 2 ^ 29 + n mod 2 ^ 64) mod 2 ^ 64) mod 2 ^ 29"
    unfolding m take_bit_eq_mask [symmetric]
    by (simp add: unsigned_ucast_eq unsigned_take_bit_eq unat_word_ariths unat_of_nat take_bit_eq_mod
       mod_mod_cancel)
  also have "\<dots> = unat (of_nat ((a + n) mod 2 ^ 29) :: u32)"
    by (simp add: unat_of_nat mod_mod_cancel mod_simps)
  finally show ?thesis by (simp only: unsigned_word_eqI)
qed

lemma md5_count_hi:
  "(ucast (drop_bit 29 (of_nat n :: u64)) :: u32) = of_nat (n div 2 ^ 29)"
  unfolding drop_bit_eq_div [symmetric]
  by (rule bit_word_eqI) (simp add: bit_simps)

lemma md5_count_repr:
  assumes "md5_lo ctx = of_nat (a mod 2 ^ 29)" "md5_hi ctx = of_nat (a div 2 ^ 29)"
  shows "md5_count n ctx =
    ctx\<lparr>md5_lo := of_nat ((a + n) mod 2 ^ 29), md5_hi := of_nat ((a + n) div 2 ^ 29)\<rparr>"
proof -
  have less: "(of_nat (x mod 2 ^ 29) :: u32) < of_nat (y mod 2 ^ 29) \<longleftrightarrow> x mod 2 ^ 29 < y mod 2 ^ 29" for x y
    by (simp add: word_less_nat_alt unat_of_nat mod_mod_cancel)
  have p: "(0::nat) < 2 ^ 29" by simp
  show ?thesis
    unfolding md5_count_def Let_def assms md5_count_lo md5_count_hi less add_mod_carry [OF p]
    by (simp only: of_nat_add split: if_split) (simp add: assms)
qed

lemma rfc_blocks_take: "rfc_blocks (take (length m div 64 * 64) m) st = rfc_blocks m st"
proof -
  have "length (drop (length m div 64 * 64) m) < 64"
    using mod_less_divisor [of 64 "length m"] by (simp add: minus_div_mult_eq_mod)
  moreover have "length (take (length m div 64 * 64) m) mod 64 = 0" by simp
  ultimately show ?thesis
    using rfc_blocks_append [of "take (length m div 64 * 64) m" "drop (length m div 64 * 64) m" st]
    by (simp add: rfc_blocks_short)
qed

lemma md5_body_ctx_blocks:
  assumes "0 < k" "64 * k \<le> length data" "64 * k < 2 ^ 64"
  shows "md5_body_ctx ctx data (k * 64) =
    Some (md5_set_state (rfc_blocks (take (k * 64) data) (md5_state_of ctx)) ctx, drop (k * 64) data)"
  using md5_body_blocks [OF assms] by (simp add: md5_body_ctx_def mult.commute)

lemma md5_tail_at:
  assumes "md5_at ctx m" "length m mod 64 = 0" "length data < 2 ^ 64"
  obtains ctx' where "md5_tail data ctx = Some ctx'" "md5_at ctx' (m @ data)"
    "md5_lo ctx' = md5_lo ctx" "md5_hi ctx' = md5_hi ctx"
proof -
  let ?k = "length data div 64" and ?rest = "drop (length data div 64 * 64) data"
  obtain ctx1 where ctx1: "(if length data \<ge> 64 then md5_body_ctx ctx data (?k * 64) else Some (ctx, data))
        = Some (ctx1, ?rest)"
    "md5_state_of ctx1 = rfc_blocks data (rfc_blocks m rfc_init)" "md5_buffer ctx1 = md5_buffer ctx"
    "md5_lo ctx1 = md5_lo ctx" "md5_hi ctx1 = md5_hi ctx"
  proof (cases "length data \<ge> 64")
    case True
    then have "0 < ?k" "64 * ?k \<le> length data" "64 * ?k < 2 ^ 64"
      using assms(3) by (auto simp: div_greater_zero_iff intro: le_less_trans [OF times_div_less_eq_dividend])
    then show ?thesis
      using True assms(1) that [OF _ _ _ _ _]
      by (simp add: md5_body_ctx_blocks rfc_blocks_take md5_state_of_set md5_at_def)
  next
    case False
    then show ?thesis
      using assms(1) that [of ctx] by (simp add: rfc_blocks_short md5_at_def)
  qed
  have short: "length ?rest = length data mod 64" by (simp add: minus_div_mult_eq_mod)
  then have "length ?rest \<le> 64" by (simp add: less_imp_le)
  then have w: "wrn (md5_buffer ctx1) 0 ?rest = Some (?rest @ drop (length ?rest) (md5_buffer ctx))"
    using assms(1) ctx1(3) by (simp add: wrn_def md5_at_def)
  obtain q where q: "length m = 64 * q" using assms(2) by (auto simp: mod_eq_0_iff_dvd)
  show thesis
  proof (rule that)
    show "md5_tail data ctx = Some (ctx1\<lparr>md5_buffer := ?rest @ drop (length ?rest) (md5_buffer ctx)\<rparr>)"
      using ctx1(1) w by (simp add: md5_tail_def)
    show "md5_at (ctx1\<lparr>md5_buffer := ?rest @ drop (length ?rest) (md5_buffer ctx)\<rparr>) (m @ data)"
      using assms ctx1(2) short \<open>length ?rest \<le> 64\<close>
      by (simp add: md5_at_def md5_state_of_def rfc_blocks_append q)
  qed (simp_all add: ctx1)
qed

lemma md5_at_split: "md5_at ctx m \<Longrightarrow>
    m = take (length m div 64 * 64) m @ take (length m mod 64) (md5_buffer ctx)"
  by (simp add: md5_at_def)

text \<open>Filling the buffer to the end and processing it.\<close>

lemma md5_fill_at:
  assumes "md5_at ctx m" "length m mod 64 + length data = 64"
  obtains ctx' buf where "wrn (md5_buffer ctx) (length m mod 64) data = Some buf"
    "\<And>lo. md5_body_ctx (ctx\<lparr>md5_lo := lo, md5_buffer := buf\<rparr>) buf 64 =
       Some (ctx'\<lparr>md5_lo := lo\<rparr>, [])"
    "md5_at ctx' (m @ data)" "md5_lo ctx' = md5_lo ctx" "md5_hi ctx' = md5_hi ctx"
proof -
  let ?buf = "take (length m mod 64) (md5_buffer ctx) @ data"
  let ?st = "rfc_blocks (m @ data) rfc_init"
  have len: "length (md5_buffer ctx) = 64" using assms(1) by (simp add: md5_at_def)
  then have w: "wrn (md5_buffer ctx) (length m mod 64) data = Some ?buf" "length ?buf = 64"
    using assms(2) by (simp_all add: wrn_def)
  have "m @ data = take (length m div 64 * 64) m @ ?buf"
    using md5_at_split [OF assms(1)] by simp
  then have "?st = rfc_blocks (take (length m div 64 * 64) m @ ?buf) rfc_init" by (rule arg_cong)
  also have "\<dots> = rfc_blocks ?buf (md5_state_of ctx)"
    using assms(1) by (subst rfc_blocks_append) (simp_all add: rfc_blocks_take md5_at_def)
  finally have st: "rfc_blocks ?buf (md5_state_of ctx) = ?st" by simp
  have b: "md5_body_ctx (ctx\<lparr>md5_lo := lo, md5_buffer := ?buf\<rparr>) ?buf 64 =
      Some ((md5_set_state ?st (ctx\<lparr>md5_buffer := ?buf\<rparr>))\<lparr>md5_lo := lo\<rparr>, [])" for lo
    using md5_body_ctx_blocks [of 1 ?buf "ctx\<lparr>md5_lo := lo, md5_buffer := ?buf\<rparr>"] w(2) st
    by (cases ?st) (simp add: md5_state_of_def md5_set_state_def)
  have "(length m + length data) mod 64 = 0" using assms(2) by (metis mod_add_left_eq mod_self)
  then have "md5_at (md5_set_state ?st (ctx\<lparr>md5_buffer := ?buf\<rparr>)) (m @ data)"
    using w(2) by (auto simp: md5_at_def md5_state_of_set)
  then show thesis
    using that [OF w(1) b] by simp
qed

text \<open>Adding data that leaves the buffer partly filled.\<close>

lemma md5_partial_at:
  assumes "md5_at ctx m" "length m mod 64 + length data < 64"
  obtains buf where "wrn (md5_buffer ctx) (length m mod 64) data = Some buf"
    "md5_at (ctx\<lparr>md5_buffer := buf\<rparr>) (m @ data)"
proof -
  let ?u = "length m mod 64"
  let ?buf = "take ?u (md5_buffer ctx) @ data @ drop (?u + length data) (md5_buffer ctx)"
  have len: "length (md5_buffer ctx) = 64" using assms(1) by (simp add: md5_at_def)
  have w: "wrn (md5_buffer ctx) ?u data = Some ?buf" using assms(2) len by (simp add: wrn_def)
  have "(length m + length data) mod 64 = (?u + length data) mod 64" by (simp only: mod_add_left_eq)
  then have md: "(length m + length data) mod 64 = ?u + length data" using assms(2) by simp
  have "64 * ((length m + length data) div 64) = 64 * (length m div 64)"
    using md mult_div_mod_eq [of 64 "length m"] mult_div_mod_eq [of 64 "length m + length data"] by linarith
  then have dv: "(length m + length data) div 64 = length m div 64" by simp
  have "rfc_blocks (m @ data) rfc_init = rfc_blocks m rfc_init"
  proof -
    have "rfc_blocks (m @ data) rfc_init
        = rfc_blocks (take (length m div 64 * 64) m @ (take ?u (md5_buffer ctx) @ data)) rfc_init"
      using md5_at_split [OF assms(1)] by (metis append.assoc)
    also have "\<dots> = rfc_blocks m rfc_init"
      using assms(2) len by (subst rfc_blocks_append) (simp_all add: rfc_blocks_take rfc_blocks_short)
    finally show ?thesis .
  qed
  then have "md5_at (ctx\<lparr>md5_buffer := ?buf\<rparr>) (m @ data)"
    using assms len md dv by (simp add: md5_at_def md5_state_of_def minus_div_mult_eq_mod)
  then show thesis using that w by blast
qed

lemma md5_hash_repr:
  assumes "md5_repr ctx m" "length data < 2 ^ 64"
  obtains ctx' where "md5_hash data ctx = Some ctx'" "md5_repr ctx' (m @ data)"
proof -
  have lo: "md5_lo ctx = of_nat (length m mod 2 ^ 29)" and hi: "md5_hi ctx = of_nat (length m div 2 ^ 29)"
    and at: "md5_at ctx m" using assms(1) by (simp_all add: md5_repr_def)
  let ?u = "length m mod 64"
  define c where "c = md5_count (length data) ctx"
  have c: "md5_lo c = of_nat ((length m + length data) mod 2 ^ 29)"
    "md5_hi c = of_nat ((length m + length data) div 2 ^ 29)" "md5_at c m"
    using at by (simp_all add: c_def md5_count_repr [OF lo hi] md5_at_def md5_state_of_def)
  note hash = md5_hash_def Let_def md5_used [OF lo] c_def [symmetric]
  show thesis
  proof (cases "?u = 0")
    case True
    then show ?thesis
      using md5_tail_at [OF c(3) _ assms(2)] that c by (auto simp: hash md5_repr_def)
  next
    case u: False
    show ?thesis
    proof (cases "length data < 64 - ?u")
      case True
      then have "?u + length data < 64" by simp
      then obtain buf where "wrn (md5_buffer c) ?u data = Some buf" "md5_at (c\<lparr>md5_buffer := buf\<rparr>) (m @ data)"
        by (rule md5_partial_at [OF c(3)])
      then show ?thesis
        using that [of "c\<lparr>md5_buffer := buf\<rparr>"] True c u by (simp add: hash md5_repr_def)
    next
      case False
      let ?a = "take (64 - ?u) data" and ?d = "drop (64 - ?u) data"
      have "?u + length ?a = 64" using False by simp
      then obtain c' buf where f: "wrn (md5_buffer c) ?u ?a = Some buf"
        "\<And>lo. md5_body_ctx (c\<lparr>md5_lo := lo, md5_buffer := buf\<rparr>) buf 64 = Some (c'\<lparr>md5_lo := lo\<rparr>, [])"
        "md5_at c' (m @ ?a)" "md5_lo c' = md5_lo c" "md5_hi c' = md5_hi c"
        by (rule md5_fill_at [OF c(3)]) blast
      have b: "md5_body_ctx (c\<lparr>md5_buffer := buf\<rparr>) buf 64 = Some (c', [])"
        using f(2) [of "md5_lo c"] f(4) by simp
      have "length (m @ ?a) mod 64 = 0"
        using \<open>?u + length ?a = 64\<close> by (metis length_append mod_add_left_eq mod_self)
      then obtain c'' where "md5_tail ?d c' = Some c''" "md5_at c'' ((m @ ?a) @ ?d)"
        "md5_lo c'' = md5_lo c'" "md5_hi c'' = md5_hi c'"
        using assms(2) by (auto intro: md5_tail_at [OF f(3), of ?d])
      then show ?thesis
        using that [of c''] False u f b c by (simp add: hash md5_repr_def)
    qed
  qed
qed

text \<open>\<^verbatim>\<open>md5_end\<close> appends the padding of the reference and prints the state.\<close>

lemma md5_end_lo:
  "push_bit 3 (of_nat (n mod 2 ^ 29) :: u32) = of_nat (8 * n)"
proof -
  have "push_bit 3 (of_nat (n mod 2 ^ 29) :: u32) = of_nat (8 * (n mod 2 ^ 29))"
    by (simp add: push_bit_eq_mult)
  also have "8 * (n mod 2 ^ 29) = (8 * n) mod 2 ^ 32" by (simp add: mult_mod_right)
  also have "of_nat ((8 * n) mod 2 ^ 32) = (of_nat (8 * n) :: u32)"
    by (simp only: word_of_nat_eq_iff) (simp add: take_bit_eq_mod)
  finally show ?thesis .
qed

lemma md5_digest_repr: "md5_at ctx m \<Longrightarrow> m = rfc_pad m' \<Longrightarrow> md5_result ctx = rfc_digest m'"
  by (cases "rfc_blocks m rfc_init")
    (simp add: md5_at_def md5_state_of_def md5_result_def rfc_digest_def)

lemma md5_end_digest:
  assumes "md5_repr ctx m"
  obtains ctx' where "md5_end ctx = Some (rfc_digest m, ctx')"
proof -
  have lo: "md5_lo ctx = of_nat (length m mod 2 ^ 29)" and hi: "md5_hi ctx = of_nat (length m div 2 ^ 29)"
    and at: "md5_at ctx m" using assms by (simp_all add: md5_repr_def)
  define u where "u = length m mod 64"
  define sz where "sz = le_bytes32 (of_nat (8 * length m)) @ le_bytes32 (of_nat (8 * length m div 2 ^ 32))"
  have sz: "length sz = 8" by (simp add: sz_def le_bytes32_def)
  have bytes: "le_bytes32 (push_bit 3 (md5_lo ctx)) @ le_bytes32 (md5_hi ctx) = sz"
    unfolding lo hi md5_end_lo sz_def by (simp add: div_mult2_eq [of _ 8 "2 ^ 29", simplified, symmetric])
  note md5_end = md5_end_def Let_def md5_used [OF lo, folded u_def]
  note fill = md5_fill_at [OF at, folded u_def]
  have u: "u < 64" by (simp add: u_def)
  show thesis
  proof (cases "u < 56")
    case True
    let ?p = "[0x80] @ replicate (55 - u) 0 @ sz"
    have "u + length ?p = 64" using True sz by simp
    then obtain c' buf where f: "wrn (md5_buffer ctx) u ?p = Some buf"
      "\<And>lo. md5_body_ctx (ctx\<lparr>md5_lo := lo, md5_buffer := buf\<rparr>) buf 64 = Some (c'\<lparr>md5_lo := lo\<rparr>, [])"
      "md5_at c' (m @ ?p)"
      by (rule fill) blast
    obtain b1 b2 where "wrn (md5_buffer ctx) u [0x80] = Some b1"
      "wrn b1 (u + 1) (replicate (55 - u) 0) = Some b2" "wrn b2 56 sz = Some buf"
      using f(1) True by (elim wrn_appendE) simp
    moreover have "m @ ?p = rfc_pad m"
    proof -
      have "(119 - u) mod 64 = 55 - u" using True by (simp add: le_mod_geq)
      then show ?thesis by (simp add: rfc_pad_def sz_def u_def)
    qed
    moreover have "\<not> 64 - (u + 1) < 8" "64 - (u + 1) - 8 = 55 - u" using True by auto
    ultimately show ?thesis
      using f md5_digest_repr [OF f(3), of m] bytes that by (simp add: md5_end md5_result_def)
  next
    case False
    let ?p = "[0x80] @ replicate (63 - u) 0" and ?q = "replicate 56 0 @ sz"
    have "u + length ?p = 64" using u by simp
    then obtain c' buf where f: "wrn (md5_buffer ctx) u ?p = Some buf"
      "\<And>lo. md5_body_ctx (ctx\<lparr>md5_lo := lo, md5_buffer := buf\<rparr>) buf 64 = Some (c'\<lparr>md5_lo := lo\<rparr>, [])"
      "md5_at c' (m @ ?p)" "md5_lo c' = md5_lo ctx" "md5_hi c' = md5_hi ctx"
      by (rule fill) blast
    have r: "md5_result c'' = rfc_digest m" if "(m @ ?p) @ ?q = rfc_pad m" "md5_at c'' ((m @ ?p) @ ?q)" for c''
      using that by (rule md5_digest_repr [rotated])
    have b: "md5_body_ctx (ctx\<lparr>md5_buffer := buf\<rparr>) buf 64 = Some (c', [])"
      using f(2) [of "md5_lo ctx"] f(4) by simp
    obtain b1 where w: "wrn (md5_buffer ctx) u [0x80] = Some b1"
      "wrn b1 (u + 1) (replicate (63 - u) 0) = Some buf"
      using f(1) by (elim wrn_appendE) simp
    have len: "length (m @ ?p) mod 64 = 0"
      using \<open>u + length ?p = 64\<close> by (metis length_append mod_add_left_eq mod_self u_def)
    then have "length (m @ ?p) mod 64 + length ?q = 64" using sz by simp
    then obtain c'' buf2 where g: "wrn (md5_buffer c') (length (m @ ?p) mod 64) ?q = Some buf2"
      "\<And>lo. md5_body_ctx (c'\<lparr>md5_lo := lo, md5_buffer := buf2\<rparr>) buf2 64 = Some (c''\<lparr>md5_lo := lo\<rparr>, [])"
      "md5_at c'' ((m @ ?p) @ ?q)"
      by (rule md5_fill_at [OF f(3)]) blast
    obtain b2 where w': "wrn (md5_buffer c') 0 (replicate 56 0) = Some b2" "wrn b2 56 sz = Some buf2"
      using g(1) unfolding len by (elim wrn_appendE) simp
    have pad: "(m @ ?p) @ ?q = rfc_pad m"
    proof -
      have e: "(119 - u) mod 64 = 63 - u + 56" using False u by simp
      show ?thesis unfolding rfc_pad_def u_def [symmetric] e replicate_add sz_def by simp
    qed
    have "64 - (u + 1) < 8" "64 - (u + 1) = 63 - u" using False u by auto
    then have "md5_end ctx = Some (md5_result c'', \<lparr>md5_lo = 0, md5_hi = 0, md5_a = 0, md5_b = 0,
        md5_c = 0, md5_d = 0, md5_buffer = replicate 64 0\<rparr>)"
      using w b w' g(2) f(4,5) bytes by (simp add: md5_end md5_result_def)
    then show ?thesis using r [OF pad g(3)] that by simp
  qed
qed

text \<open>Hashing a list of chunks one call after the other.\<close>

fun md5_hash_all :: "bytes list \<Rightarrow> md5_ctx \<Rightarrow> md5_ctx option" where
  "md5_hash_all [] ctx = Some ctx"
| "md5_hash_all (c # cs) ctx = do { ctx \<leftarrow> md5_hash c ctx; md5_hash_all cs ctx }"

lemma md5_hash_all_repr:
  assumes "md5_repr ctx m" "\<forall>c\<in>set cs. length c < 2 ^ 64"
  obtains ctx' where "md5_hash_all cs ctx = Some ctx'" "md5_repr ctx' (m @ concat cs)"
  using assms
proof (induction cs arbitrary: ctx m thesis)
  case (Cons c cs)
  obtain ctx1 where "md5_hash c ctx = Some ctx1" "md5_repr ctx1 (m @ c)"
    using Cons.prems(2,3) by (auto elim: md5_hash_repr [of ctx m c])
  then show ?case using Cons.IH [of ctx1 "m @ c"] Cons.prems by force
qed auto

text \<open>
  C5: for every message, however it is cut into chunks, \<^verbatim>\<open>md5_begin\<close>, one \<^verbatim>\<open>md5_hash\<close> per chunk and
  \<^verbatim>\<open>md5_end\<close> on any context (a 64-byte buffer with any contents) return the RFC 1321 digest of the
  concatenation of the chunks: the optimised round functions, the unrolled rounds, the split bit
  counter, the partial blocks kept in the buffer and the padding all agree with the reference, and
  no buffer access is out of bounds.
\<close>

theorem md5_streaming_digest:
  assumes "length (md5_buffer ctx) = 64" "\<forall>c\<in>set cs. length c < 2 ^ 64"
  shows "map_option fst (do { ctx \<leftarrow> md5_hash_all cs (md5_begin ctx); md5_end ctx }) =
    Some (rfc_digest (concat cs))"
proof -
  obtain ctx1 where 1: "md5_hash_all cs (md5_begin ctx) = Some ctx1" "md5_repr ctx1 ([] @ concat cs)"
    using md5_begin_repr [OF assms(1)] assms(2) by (rule md5_hash_all_repr)
  obtain ctx2 where "md5_end ctx1 = Some (rfc_digest ([] @ concat cs), ctx2)"
    using 1(2) by (rule md5_end_digest)
  with 1(1) show ?thesis by simp
qed

definition md5_ctx0 :: md5_ctx where
  "md5_ctx0 = \<lparr>md5_lo = 7, md5_hi = 7, md5_a = 7, md5_b = 7, md5_c = 7, md5_d = 7,
     md5_buffer = replicate 64 7\<rparr>"

lemma md5_streaming_digest_witness:
  "map_option fst (do { ctx \<leftarrow> md5_hash_all [ascii ''a'', ascii ''bc''] (md5_begin md5_ctx0); md5_end ctx }) =
    Some (rfc_digest (ascii ''abc''))"
  using md5_streaming_digest [of md5_ctx0 "[ascii ''a'', ascii ''bc'']"]
  by (simp add: md5_ctx0_def ascii_def)

text \<open>\<^verbatim>\<open>md5sum\<close> reads the whole file and returns its length as an \<^verbatim>\<open>int\<close>.\<close>

lemma md5sum_loop_repr:
  assumes "md5_repr ctx m" "length f < fuel"
  obtains ctx' where "md5sum_loop fuel f (c_int ret) ctx = Some (c_int (ret + int (length f)), ctx')"
    "md5_repr ctx' (m @ f)"
  using assms
proof (induction fuel arbitrary: f ret ctx m thesis)
  case (Suc fuel)
  show ?case
  proof (cases "f = []")
    case True
    then show ?thesis using Suc.prems by simp
  next
    case False
    let ?b = "take 256 f"
    obtain ctx1 where 1: "md5_hash ?b ctx = Some ctx1" "md5_repr ctx1 (m @ ?b)"
      using Suc.prems(2) by (auto elim: md5_hash_repr [of ctx m ?b])
    have "length (drop 256 f) < fuel" using Suc.prems(3) False by (cases f) auto
    then obtain ctx2 where 2: "md5_repr ctx2 ((m @ ?b) @ drop 256 f)"
      "md5sum_loop fuel (drop 256 f) (c_int (ret + int (length ?b))) ctx1 =
        Some (c_int (ret + int (length ?b) + int (length (drop 256 f))), ctx2)"
      using Suc.IH [OF _ 1(2)] by blast
    have e: "ret + int (length ?b) + int (length (drop 256 f)) = ret + int (length f)" by auto
    show ?thesis
    proof (rule Suc.prems(1))
      show "md5sum_loop (Suc fuel) f (c_int ret) ctx = Some (c_int (ret + int (length f)), ctx2)"
        using 1 2(2) [unfolded e] False by (simp add: Let_def)
      show "md5_repr ctx2 (m @ f)" using 2(1) by simp
    qed
  qed
qed auto

text \<open>
  C6: \<^verbatim>\<open>md5sum\<close> of a file that can be opened terminates, stores the RFC 1321 digest of the whole
  contents in the caller's buffer, whatever the context on its stack held before, and returns the
  number of bytes read (as an \<^verbatim>\<open>int\<close>, which wraps for files of 2 GiB and more); if the file cannot
  be opened it returns -1 and stores nothing.
\<close>

theorem md5sum_file_digest:
  assumes "length (md5_buffer ctx) = 64"
  shows "md5sum fo ctx = (case fo of None \<Rightarrow> Some (-1, None)
    | Some f \<Rightarrow> Some (c_int (int (length f)), Some (rfc_digest f)))"
proof (cases fo)
  case (Some f)
  have fuel: "length f < length f + 1" by simp
  obtain ctx1 where 1: "md5sum_loop (length f + 1) f (c_int 0) (md5_begin ctx) =
      Some (c_int (0 + int (length f)), ctx1)" "md5_repr ctx1 ([] @ f)"
    using md5_begin_repr [OF assms] fuel by (rule md5sum_loop_repr)
  obtain ctx2 where "md5_end ctx1 = Some (rfc_digest ([] @ f), ctx2)"
    using 1(2) by (rule md5_end_digest)
  with 1(1) show ?thesis by (simp add: Some md5sum_def c_int_def del: md5sum_loop.simps)
qed (simp add: md5sum_def)

lemma md5sum_file_digest_witness:
  "md5sum (Some (ascii ''abc'')) md5_ctx0 = Some (3, Some (rfc_digest (ascii ''abc'')))"
  using md5sum_file_digest [of md5_ctx0 "Some (ascii ''abc'')"]
  by (simp add: md5_ctx0_def ascii_def c_int_def)

end
