(* ===== verification/ListHead.thy ===== *)
theory ListHead
  imports Prelude
begin

text \<open>
  \<^verbatim>\<open>list.h\<close>: circular doubly linked lists of \<^verbatim>\<open>struct list_head\<close> nodes embedded in other objects.
  A node is an address and the heap gives its two links; every operation is the sequence of link
  assignments of the source. \<open>dll h head xs\<close> states that the list with head \<open>head\<close> holds the nodes
  \<open>xs\<close> in this order; each operation is shown to refine the operation on \<open>xs\<close>.
\<close>

section \<open>The operations\<close>

type_synonym ptr = nat

record list_heap =
  nxt :: "ptr \<Rightarrow> ptr"
  prv :: "ptr \<Rightarrow> ptr"

definition set_next :: "ptr \<Rightarrow> ptr \<Rightarrow> list_heap \<Rightarrow> list_heap" where
  "set_next p v h = h\<lparr>nxt := (nxt h)(p := v)\<rparr>"

definition set_prev :: "ptr \<Rightarrow> ptr \<Rightarrow> list_heap \<Rightarrow> list_heap" where
  "set_prev p v h = h\<lparr>prv := (prv h)(p := v)\<rparr>"

definition INIT_LIST_HEAD :: "ptr \<Rightarrow> list_heap \<Rightarrow> list_heap" where
  "INIT_LIST_HEAD l h = set_next l l (set_prev l l h)"

definition list_empty :: "ptr \<Rightarrow> list_heap \<Rightarrow> bool" where
  "list_empty head h \<longleftrightarrow> nxt h head = head"

definition list_is_first :: "ptr \<Rightarrow> ptr \<Rightarrow> list_heap \<Rightarrow> bool" where
  "list_is_first l head h \<longleftrightarrow> prv h l = head"

definition list_is_last :: "ptr \<Rightarrow> ptr \<Rightarrow> list_heap \<Rightarrow> bool" where
  "list_is_last l head h \<longleftrightarrow> nxt h l = head"

definition list_del' :: "ptr \<Rightarrow> list_heap \<Rightarrow> list_heap" where
  "list_del' e h =
     (let h = set_prev (nxt h e) (prv h e) h
      in set_next (prv h e) (nxt h e) h)"

definition list_del :: "ptr \<Rightarrow> list_heap \<Rightarrow> list_heap" where
  "list_del e h = set_next e 0 (set_prev e 0 (list_del' e h))"

definition list_add' :: "ptr \<Rightarrow> ptr \<Rightarrow> ptr \<Rightarrow> list_heap \<Rightarrow> list_heap" where
  "list_add' new p n h = set_next p new (set_prev new p (set_next new n (set_prev n new h)))"

definition list_del_init :: "ptr \<Rightarrow> list_heap \<Rightarrow> list_heap" where
  "list_del_init e h = INIT_LIST_HEAD e (list_del' e h)"

definition replace_node :: "ptr \<Rightarrow> ptr \<Rightarrow> list_heap \<Rightarrow> list_heap" where
  "replace_node old new h =
     (let h = set_prev (nxt h old) new h;
          h = set_next (prv h old) new h;
          h = set_prev new (prv h old) h
      in set_next new (nxt h old) h)"

definition list_add :: "ptr \<Rightarrow> ptr \<Rightarrow> list_heap \<Rightarrow> list_heap" where
  "list_add new head h = list_add' new head (nxt h head) h"

definition list_add_tail :: "ptr \<Rightarrow> ptr \<Rightarrow> list_heap \<Rightarrow> list_heap" where
  "list_add_tail new head h = list_add' new (prv h head) head h"

definition list_move :: "ptr \<Rightarrow> ptr \<Rightarrow> list_heap \<Rightarrow> list_heap" where
  "list_move l head h = list_add l head (list_del' l h)"

definition list_move_tail :: "ptr \<Rightarrow> ptr \<Rightarrow> list_heap \<Rightarrow> list_heap" where
  "list_move_tail e head h = list_add_tail e head (list_del' e h)"

definition list_splice' :: "ptr \<Rightarrow> ptr \<Rightarrow> ptr \<Rightarrow> list_heap \<Rightarrow> list_heap" where
  "list_splice' l p n h =
     (if list_empty l h then h
      else let first = nxt h l; last = prv h l;
               h = set_prev first p h;
               h = set_next p first h;
               h = set_next last n h
           in set_prev n last h)"

definition list_splice :: "ptr \<Rightarrow> ptr \<Rightarrow> list_heap \<Rightarrow> list_heap" where
  "list_splice l head h = list_splice' l head (nxt h head) h"

definition list_splice_tail :: "ptr \<Rightarrow> ptr \<Rightarrow> list_heap \<Rightarrow> list_heap" where
  "list_splice_tail l head h = list_splice' l (prv h head) head h"

definition list_splice_init :: "ptr \<Rightarrow> ptr \<Rightarrow> list_heap \<Rightarrow> list_heap" where
  "list_splice_init l head h = INIT_LIST_HEAD l (list_splice' l head (nxt h head) h)"

definition list_splice_tail_init :: "ptr \<Rightarrow> ptr \<Rightarrow> list_heap \<Rightarrow> list_heap" where
  "list_splice_tail_init l head h = INIT_LIST_HEAD l (list_splice' l (prv h head) head h)"

text \<open>
  \<^verbatim>\<open>list_for_each\<close> and \<^verbatim>\<open>list_for_each_prev\<close>: the nodes visited from \<open>p\<close> on until the head is met.
  A walk along broken links may not end, which is the value \<^const>\<open>None\<close>. \<open>list_find\<close> is the loop
  with a \<^verbatim>\<open>break\<close>: it stops at the first node that satisfies the condition, or at the head.
\<close>

partial_function (option) list_for_each :: "list_heap \<Rightarrow> ptr \<Rightarrow> ptr \<Rightarrow> ptr list option" where
  "list_for_each h p head =
     (if p = head then Some []
      else do { ps \<leftarrow> list_for_each h (nxt h p) head; Some (p # ps) })"

partial_function (option) list_for_each_prev :: "list_heap \<Rightarrow> ptr \<Rightarrow> ptr \<Rightarrow> ptr list option" where
  "list_for_each_prev h p head =
     (if p = head then Some []
      else do { ps \<leftarrow> list_for_each_prev h (prv h p) head; Some (p # ps) })"

partial_function (option) list_find :: "(ptr \<Rightarrow> bool) \<Rightarrow> list_heap \<Rightarrow> ptr \<Rightarrow> ptr \<Rightarrow> ptr option" where
  "list_find P h p head =
     (if p = head then Some head else if P p then Some p else list_find P h (nxt h p) head)"

section \<open>The list a head stands for\<close>

text \<open>\<open>chain h a xs b\<close>: from \<open>a\<close> through the nodes \<open>xs\<close> to \<open>b\<close>, both links of every step agreeing.\<close>

fun chain :: "list_heap \<Rightarrow> ptr \<Rightarrow> ptr list \<Rightarrow> ptr \<Rightarrow> bool" where
  "chain h a [] b \<longleftrightarrow> nxt h a = b \<and> prv h b = a"
| "chain h a (x # xs) b \<longleftrightarrow> nxt h a = x \<and> prv h x = a \<and> chain h x xs b"

definition dll :: "list_heap \<Rightarrow> ptr \<Rightarrow> ptr list \<Rightarrow> bool" where
  "dll h head xs \<longleftrightarrow> chain h head xs head \<and> distinct (head # xs)"

named_theorems link_simps \<open>reading links after writing links\<close>

lemma link_sel [link_simps, simp]:
  "nxt (set_next p v h) = (nxt h)(p := v)" "prv (set_next p v h) = prv h"
  "prv (set_prev p v h) = (prv h)(p := v)" "nxt (set_prev p v h) = nxt h"
  by (simp_all add: set_next_def set_prev_def)

lemma chain_append: "chain h a (xs @ y # ys) b \<longleftrightarrow> chain h a xs y \<and> chain h y ys b"
  by (induction xs arbitrary: a) auto

lemma chain_next: "chain h a xs b \<Longrightarrow> nxt h a = (case xs of [] \<Rightarrow> b | x # _ \<Rightarrow> x)"
  by (cases xs) auto

lemma chain_prev: "chain h a xs b \<Longrightarrow> prv h b = (if xs = [] then a else last xs)"
  by (induction xs arbitrary: a) auto

lemma chain_frame:
  assumes "\<And>x. x \<in> set (a # xs) \<Longrightarrow> nxt h' x = nxt h x" "\<And>x. x \<in> set (xs @ [b]) \<Longrightarrow> prv h' x = prv h x"
  shows "chain h' a xs b \<longleftrightarrow> chain h a xs b"
  using assms by (induction xs arbitrary: a) auto

lemma chain_set_next [link_simps]: "p \<notin> set (a # xs) \<Longrightarrow> chain (set_next p v h) a xs b \<longleftrightarrow> chain h a xs b"
  by (rule chain_frame) auto

lemma chain_set_prev [link_simps]: "p \<notin> set (xs @ [b]) \<Longrightarrow> chain (set_prev p v h) a xs b \<longleftrightarrow> chain h a xs b"
  by (rule chain_frame) auto

lemma dll_empty_iff: "dll h head xs \<Longrightarrow> list_empty head h \<longleftrightarrow> xs = []"
  by (cases xs) (auto simp: dll_def list_empty_def)

lemma dll_first: "dll h head (x # xs) \<Longrightarrow> nxt h head = x"
  by (simp add: dll_def)

lemma dll_last: "dll h head (xs @ [x]) \<Longrightarrow> prv h head = x"
  by (simp add: dll_def chain_append)

lemma chain_split:
  assumes "chain h a (xs @ ys) b"
  shows "chain h a xs (case ys of [] \<Rightarrow> b | y # _ \<Rightarrow> y)"
    and "chain h (if xs = [] then a else last xs) ys b"
  using assms by (cases xs rule: rev_cases; cases ys; simp add: chain_append)+

text \<open>The three link changes on a chain: take a node out, put one in, put a chain in.\<close>

lemma chain_remove:
  assumes "chain h a xs e" "chain h e ys b" "distinct (a # xs)" "distinct (ys @ [b])"
    "e \<notin> set (a # xs @ ys)" "b \<noteq> e" "set (a # xs) \<inter> set ys = {}" "b \<notin> set xs"
  shows "chain (list_del' e h) a (xs @ ys) b"
  using assms
  by (cases xs rule: rev_cases; cases ys)
    (auto simp: list_del'_def Let_def chain_append link_simps chain_next chain_prev)

lemma chain_insert:
  assumes "chain h a xs n" "chain h p ys b" "xs = [] \<longrightarrow> a = p" "xs \<noteq> [] \<longrightarrow> last xs = p"
    and "ys = [] \<longrightarrow> b = n" "ys \<noteq> [] \<longrightarrow> n = hd ys"
    "distinct (a # xs)" "distinct (ys @ [b])" "new \<notin> set (a # b # xs @ ys)"
    "set (a # xs) \<inter> set ys = {}" "b \<notin> set xs"
  shows "chain (list_add' new p n h) a (xs @ new # ys) b"
  using assms
  by (cases xs rule: rev_cases; cases ys) (auto simp: list_add'_def chain_append link_simps)

text \<open>The operations on whole lists.\<close>

lemma INIT_LIST_HEAD_dll: "dll (INIT_LIST_HEAD head h) head []"
  by (simp add: dll_def INIT_LIST_HEAD_def)

lemma list_del'_dll:
  assumes "dll h head (xs @ e # ys)"
  shows "dll (list_del' e h) head (xs @ ys)"
  using assms chain_remove [of h head xs e ys head] by (auto simp: dll_def chain_append)

lemma dll_frame:
  assumes "dll h head xs" "\<And>x. x \<in> set (head # xs) \<Longrightarrow> nxt h' x = nxt h x \<and> prv h' x = prv h x"
  shows "dll h' head xs"
proof -
  have "chain h' head xs head \<longleftrightarrow> chain h head xs head"
    using assms(2) by (intro chain_frame) auto
  then show ?thesis using assms(1) by (simp add: dll_def)
qed

lemma list_del_dll: 
  assumes "dll h head (xs @ e # ys)"
  shows "dll (list_del e h) head (xs @ ys)" "nxt (list_del e h) e = 0" "prv (list_del e h) e = 0"
  using list_del'_dll [OF assms] assms
  by (auto simp: list_del_def dll_def link_simps intro!: chain_frame [THEN iffD2])

lemma list_del_init_dll:
  assumes "dll h head (xs @ e # ys)"
  shows "dll (list_del_init e h) head (xs @ ys)" "dll (list_del_init e h) e []"
proof -
  show "dll (list_del_init e h) head (xs @ ys)"
    using assms by (intro dll_frame [OF list_del'_dll [OF assms]])
      (auto simp: list_del_init_def INIT_LIST_HEAD_def dll_def)
qed (simp add: list_del_init_def INIT_LIST_HEAD_dll)

lemma list_add'_dll:
  assumes "dll h head (xs @ ys)" "new \<notin> set (head # xs @ ys)"
    "p = (if xs = [] then head else last xs)" "n = (case ys of [] \<Rightarrow> head | y # _ \<Rightarrow> y)"
  shows "dll (list_add' new p n h) head (xs @ new # ys)"
proof -
  have "chain h head xs n" "chain h p ys head"
    using chain_split [of h head xs ys head] assms(1,3,4) by (simp_all add: dll_def)
  then show ?thesis
    using assms chain_insert [of h head xs n p ys head new]
    by (auto simp: dll_def split: list.splits if_splits)
qed

lemma list_add_dll:
  "dll h head xs \<Longrightarrow> new \<notin> set (head # xs) \<Longrightarrow> dll (list_add new head h) head (new # xs)"
  unfolding list_add_def using list_add'_dll [of h head "[]" xs new head] chain_next [of h head xs head]
  by (simp add: dll_def)

lemma list_add_tail_dll:
  "dll h head xs \<Longrightarrow> new \<notin> set (head # xs) \<Longrightarrow> dll (list_add_tail new head h) head (xs @ [new])"
  unfolding list_add_tail_def using list_add'_dll [of h head xs "[]" new _ head] chain_prev [of h head xs head]
  by (simp add: dll_def)

text \<open>\<^verbatim>\<open>list_add_tail\<close> with a node of the list in place of the head inserts before this node.\<close>

lemma list_add_before_dll:
  assumes "dll h head (xs @ e # ys)" "new \<notin> set (head # xs @ e # ys)"
  shows "dll (list_add_tail new e h) head (xs @ new # e # ys)"
proof -
  have "prv h e = (if xs = [] then head else last xs)"
    using assms(1) by (auto simp: dll_def chain_append chain_prev)
  then show ?thesis
    unfolding list_add_tail_def using assms by (intro list_add'_dll) auto
qed

lemma list_add_after_dll:
  assumes "dll h head (xs @ e # ys)" "new \<notin> set (head # xs @ e # ys)"
  shows "dll (list_add new e h) head (xs @ e # new # ys)"
proof -
  have "nxt h e = (case ys of [] \<Rightarrow> head | y # _ \<Rightarrow> y)"
    using assms(1) chain_next [of h e ys head] by (simp add: dll_def chain_append)
  then have "dll (list_add new e h) head ((xs @ [e]) @ new # ys)"
    unfolding list_add_def using assms by (intro list_add'_dll) auto
  then show ?thesis by simp
qed

lemma list_move_dll:
  assumes "dll h head (xs @ e # ys)"
  shows "dll (list_move e head h) head (e # xs @ ys)" "dll (list_move_tail e head h) head (xs @ ys @ [e])"
  using assms list_add_dll [OF list_del'_dll [OF assms], of e] list_add_tail_dll [OF list_del'_dll [OF assms], of e]
  by (simp_all add: list_move_def list_move_tail_def dll_def)

lemma replace_node_dll:
  assumes "dll h head (xs @ old # ys)" "new \<notin> set (head # xs @ old # ys)"
  shows "dll (replace_node old new h) head (xs @ new # ys)"
  using assms
  by (cases xs rule: rev_cases; cases ys)
    (auto simp: dll_def replace_node_def Let_def chain_append link_simps chain_next chain_prev)

text \<open>Splicing moves all nodes of one list into another; two lists are apart if they share no node.\<close>

lemma chain_relink:
  assumes "chain h a xs b" "distinct (a # xs)" "v \<notin> set xs" "p = (if xs = [] then a else last xs)"
  shows "chain (set_next p v (set_prev v p h)) a xs v" "chain (set_prev v p (set_next p v h)) a xs v"
  using assms by (cases xs rule: rev_cases; simp add: chain_append link_simps)+

lemma list_splice'_dll:
  assumes "dll h l zs" "dll h head (xs @ ys)" "set (l # zs) \<inter> set (head # xs @ ys) = {}"
    "p = (if xs = [] then head else last xs)" "n = (case ys of [] \<Rightarrow> head | y # _ \<Rightarrow> y)"
  shows "dll (list_splice' l p n h) head (xs @ zs @ ys)"
proof (cases zs)
  case Nil
  then show ?thesis using assms(1,2) dll_empty_iff [OF assms(1)] by (simp add: list_splice'_def)
next
  case (Cons z zs')
  define w where "w = (if zs' = [] then z else last zs')"
  let ?h1 = "set_next p z (set_prev z p h)"
  let ?h2 = "set_prev n w (set_next w n ?h1)"
  have zs: "chain h z zs' l" "nxt h l = z" "prv h l = w" "distinct (l # z # zs')"
    using assms(1) chain_prev [of h l zs l] Cons by (auto simp: dll_def w_def)
  have d: "distinct (head # xs @ ys)" using assms(2) by (simp add: dll_def)
  have p: "p \<in> set (head # xs)" using assms(4) by (cases "xs = []") auto
  then have p': "p \<notin> set ys" using d by auto
  have n: "n \<in> set (head # ys)" "n \<notin> set xs" using assms(5) d by (cases ys; auto)+
  have w: "w \<in> set (z # zs')" by (simp add: w_def)
  have split: "chain h head xs n" "chain h p ys head"
    using chain_split [of h head xs ys head] assms(2,4,5) by (simp_all add: dll_def)
  have disj: "set (z # zs') \<inter> set (head # xs @ ys) = {}" using assms(3) Cons by auto
  have "chain ?h1 head xs z"
    using split(1) assms(2) disj by (intro chain_relink assms(4)) (auto simp: dll_def)
  then have A: "chain ?h2 head xs z"
    using p p' n w disj by (subst chain_set_prev, force, subst chain_set_next) auto
  have "p \<notin> set (z # zs')" using p disj by auto
  then have "chain ?h1 z zs' l" using zs(1,4) by (simp add: link_simps)
  then have B: "chain ?h2 z zs' n"
    using zs(4) n disj by (intro chain_relink w_def) auto
  have C: "chain ?h2 n ys' head" if "ys = n # ys'" for ys'
  proof -
    have "chain h n ys' head" using that split(2) by simp
    moreover have "p \<notin> set (n # ys')" using that p' by simp
    moreover have "n \<notin> set (ys' @ [head])" using that d by auto
    moreover have "z \<notin> set (ys' @ [head])" "w \<notin> set (n # ys')" using that w disj by auto
    ultimately show ?thesis by (simp add: link_simps del: set_simps)
  qed
  have "list_splice' l p n h = ?h2"
    using zs(2,3) dll_empty_iff [OF assms(1)] Cons by (simp add: list_splice'_def Let_def)
  moreover have "chain ?h2 head (xs @ zs @ ys) head"
    using A B C assms(5) unfolding Cons by (cases ys) (auto simp: chain_append)
  ultimately show ?thesis
    using assms(2) zs(4) disj Cons by (auto simp: dll_def)
qed

lemma list_splice_dll:
  assumes "dll h l zs" "dll h head xs" "set (l # zs) \<inter> set (head # xs) = {}"
  shows "dll (list_splice l head h) head (zs @ xs)" "dll (list_splice_tail l head h) head (xs @ zs)"
proof -
  show "dll (list_splice l head h) head (zs @ xs)"
    unfolding list_splice_def
    using list_splice'_dll [of h l zs head "[]" xs head "nxt h head"] assms chain_next [of h head xs head]
    by (simp add: dll_def)
  show "dll (list_splice_tail l head h) head (xs @ zs)"
    unfolding list_splice_tail_def
    using list_splice'_dll [of h l zs head xs "[]" "prv h head" head] assms chain_prev [of h head xs head]
    by (simp add: dll_def)
qed

lemma list_splice_init_dll:
  assumes "dll h l zs" "dll h head xs" "set (l # zs) \<inter> set (head # xs) = {}"
  shows "dll (list_splice_init l head h) head (zs @ xs)" "dll (list_splice_init l head h) l []"
    "dll (list_splice_tail_init l head h) head (xs @ zs)" "dll (list_splice_tail_init l head h) l []"
proof -
  have eq: "list_splice_init l head h = INIT_LIST_HEAD l (list_splice l head h)"
    "list_splice_tail_init l head h = INIT_LIST_HEAD l (list_splice_tail l head h)"
    by (simp_all add: list_splice_init_def list_splice_def list_splice_tail_init_def list_splice_tail_def)
  have "l \<notin> set zs" using assms(1) by (simp add: dll_def)
  then show "dll (list_splice_init l head h) head (zs @ xs)"
    unfolding eq using assms(3)
    by (intro dll_frame [OF list_splice_dll(1) [OF assms]]) (auto simp: INIT_LIST_HEAD_def)
  show "dll (list_splice_tail_init l head h) head (xs @ zs)"
    unfolding eq using assms(3) \<open>l \<notin> set zs\<close>
    by (intro dll_frame [OF list_splice_dll(2) [OF assms]]) (auto simp: INIT_LIST_HEAD_def)
qed (simp_all add: list_splice_init_def list_splice_tail_init_def INIT_LIST_HEAD_dll)

text \<open>The loops end and visit the nodes in order.\<close>

lemma list_for_each_chain:
  "chain h p xs head \<Longrightarrow> p \<noteq> head \<Longrightarrow> head \<notin> set xs \<Longrightarrow> list_for_each h p head = Some (p # xs)"
proof (induction xs arbitrary: p)
  case Nil
  then show ?case by (simp add: list_for_each.simps)
next
  case (Cons x xs)
  then show ?case by (subst list_for_each.simps) auto
qed

lemma list_for_each_dll: "dll h head xs \<Longrightarrow> list_for_each h (nxt h head) head = Some xs"
  by (cases xs) (auto simp: dll_def list_for_each_chain list_for_each.simps [of h head head])

lemma list_for_each_prev_chain:
  "chain h head xs p \<Longrightarrow> p \<noteq> head \<Longrightarrow> head \<notin> set xs \<Longrightarrow>
    list_for_each_prev h p head = Some (p # rev xs)"
proof (induction xs arbitrary: p rule: rev_induct)
  case Nil
  then show ?case by (simp add: list_for_each_prev.simps)
next
  case (snoc x xs)
  then show ?case by (subst list_for_each_prev.simps) (auto simp: chain_append)
qed

lemma list_for_each_prev_dll: "dll h head xs \<Longrightarrow> list_for_each_prev h (prv h head) head = Some (rev xs)"
  by (cases xs rule: rev_cases)
    (auto simp: dll_def chain_append list_for_each_prev_chain list_for_each_prev.simps [of h head head])

lemma list_find_chain:
  "chain h p xs head \<Longrightarrow> p \<noteq> head \<Longrightarrow> head \<notin> set xs \<Longrightarrow>
    list_find P h p head = Some (case find P (p # xs) of None \<Rightarrow> head | Some q \<Rightarrow> q)"
proof (induction xs arbitrary: p)
  case Nil
  then show ?case by (subst list_find.simps) (simp add: list_find.simps [of P h head])
next
  case (Cons x xs)
  then show ?case by (subst list_find.simps) auto
qed

lemma list_find_dll:
  "dll h head xs \<Longrightarrow>
    list_find P h (nxt h head) head = Some (case find P xs of None \<Rightarrow> head | Some q \<Rightarrow> q)"
  by (cases xs) (auto simp: dll_def list_find_chain list_find.simps [of P h head head])

section \<open>Searching for a position and inserting\<close>

text \<open>
  The loop \<^verbatim>\<open>list_for_each_entry ... if (cond) { h = &tmp->list; break; }\<close> followed by
  \<^verbatim>\<open>list_add_tail(new, h)\<close>, which both the timers and the processes of the event loop use. On the
  list it is the insertion before the first element that satisfies the condition.
\<close>

definition list_insert_before :: "(ptr \<Rightarrow> bool) \<Rightarrow> ptr \<Rightarrow> ptr \<Rightarrow> list_heap \<Rightarrow> list_heap option" where
  "list_insert_before P new head h =
     do { p \<leftarrow> list_find P h (nxt h head) head; Some (list_add_tail new p h) }"

definition insert_before :: "('a \<Rightarrow> bool) \<Rightarrow> 'a \<Rightarrow> 'a list \<Rightarrow> 'a list" where
  "insert_before P x xs = takeWhile (\<lambda>y. \<not> P y) xs @ x # dropWhile (\<lambda>y. \<not> P y) xs"

lemma insert_before_split:
  obtains as bs where "xs = as @ bs" "insert_before P x xs = as @ x # bs" "\<forall>a\<in>set as. \<not> P a"
    "case bs of [] \<Rightarrow> True | b # _ \<Rightarrow> P b"
    "find P xs = (case bs of [] \<Rightarrow> None | b # _ \<Rightarrow> Some b)"
proof (rule that)
  let ?a = "takeWhile (\<lambda>y. \<not> P y) xs" and ?b = "dropWhile (\<lambda>y. \<not> P y) xs"
  show "xs = ?a @ ?b" by simp
  show "\<forall>a\<in>set ?a. \<not> P a" by (auto dest: set_takeWhileD)
  show "case ?b of [] \<Rightarrow> True | b # _ \<Rightarrow> P b"
    by (induction xs) auto
  show "find P xs = (case ?b of [] \<Rightarrow> None | b # _ \<Rightarrow> Some b)" by (induction xs) auto
qed (simp add: insert_before_def)

lemma set_insert_before [simp]: "set (insert_before P x xs) = insert x (set xs)"
  by (rule insert_before_split [of xs P x]) auto

lemma distinct_insert_before: "x \<notin> set xs \<Longrightarrow> distinct (insert_before P x xs) = distinct xs"
  by (rule insert_before_split [of xs P x]) auto

lemma list_insert_before_dll:
  assumes "dll h head xs" "new \<notin> set (head # xs)"
  shows "\<exists>h'. list_insert_before P new head h = Some h' \<and> dll h' head (insert_before P new xs)"
proof -
  obtain as bs where xs: "xs = as @ bs" "insert_before P new xs = as @ new # bs"
    "find P xs = (case bs of [] \<Rightarrow> None | b # _ \<Rightarrow> Some b)"
    by (rule insert_before_split [of xs P new]) blast
  then show ?thesis
    using list_find_dll [OF assms(1), of P] assms
      list_add_before_dll [of h head as _ _ new] list_add_tail_dll [of h head as new]
    by (cases bs) (auto simp: list_insert_before_def)
qed

text \<open>
  What such a queue relies on: \<open>after y x\<close> tells that the queued \<open>y\<close> has to stay behind the new \<open>x\<close>.
  Only the law below is needed, so the relation may leave elements that are close to each other
  unordered, and then they stay in the order of insertion.
\<close>

locale insertion_queue =
  fixes after :: "'a \<Rightarrow> 'a \<Rightarrow> bool" and ok :: "'a \<Rightarrow> bool"
  assumes after_trans: "ok x \<Longrightarrow> ok y \<Longrightarrow> ok z \<Longrightarrow> after y x \<Longrightarrow> \<not> after y z \<Longrightarrow> \<not> after x z"
    and after_irrefl: "ok x \<Longrightarrow> \<not> after x x"
begin

definition ordered :: "'a list \<Rightarrow> bool" where
  "ordered xs \<longleftrightarrow> sorted_wrt (\<lambda>x y. \<not> after x y) xs"

lemma ordered_insert:
  assumes "ordered xs" "\<forall>y\<in>set (x # xs). ok y"
  shows "ordered (insert_before (\<lambda>y. after y x) x xs)"
proof -
  obtain as bs where xs: "xs = as @ bs" "insert_before (\<lambda>y. after y x) x xs = as @ x # bs"
    "\<forall>a\<in>set as. \<not> after a x" "case bs of [] \<Rightarrow> True | b # _ \<Rightarrow> after b x"
    by (rule insert_before_split [of xs "\<lambda>y. after y x" x]) blast
  have "\<not> after x z" if z: "z \<in> set bs" for z
  proof -
    obtain y ys where bs: "bs = y # ys" using z by (cases bs) auto
    then have "after y x" using xs(4) by simp
    moreover have "ok y" "ok z" "ok x" using assms(2) z xs(1) bs by auto
    moreover have "z = y \<or> \<not> after y z"
      using assms(1) z xs(1) bs by (auto simp: ordered_def sorted_wrt_append)
    ultimately show ?thesis using after_trans [of x y z] after_irrefl [of y] by auto
  qed
  then show ?thesis
    using assms(1) xs by (auto simp: ordered_def sorted_wrt_append)
qed

lemma ordered_remove: "ordered (xs @ y # ys) \<Longrightarrow> ordered (xs @ ys)"
  by (auto simp: ordered_def sorted_wrt_append)

lemma ordered_first: "ordered (x # xs) \<Longrightarrow> y \<in> set (x # xs) \<Longrightarrow> ok x \<Longrightarrow> \<not> after x y"
  by (auto simp: ordered_def after_irrefl)

end

section \<open>Properties\<close>

text \<open>
  C7: on a list that holds \<open>xs\<close>, \<open>e\<close>, \<open>ys\<close> in this order, every link operation of \<^verbatim>\<open>list.h\<close> leaves a
  well-linked list that holds what the operation promises: deletion removes exactly \<open>e\<close> (and
  \<^verbatim>\<open>list_del_init\<close> leaves \<open>e\<close> an empty list of its own), insertion at the front, at the end and
  before an element puts the new node there, moving and replacing do the same with a node.
\<close>

theorem list_operations_refine:
  assumes "dll h head (xs @ e # ys)" "new \<notin> set (head # xs @ e # ys)"
  shows "dll (list_del e h) head (xs @ ys) \<and>
    dll (list_del_init e h) head (xs @ ys) \<and> dll (list_del_init e h) e [] \<and>
    dll (list_add new head h) head (new # xs @ e # ys) \<and>
    dll (list_add_tail new head h) head (xs @ e # ys @ [new]) \<and>
    dll (list_add_tail new e h) head (xs @ new # e # ys) \<and>
    dll (list_add new e h) head (xs @ e # new # ys) \<and>
    dll (list_move e head h) head (e # xs @ ys) \<and>
    dll (list_move_tail e head h) head (xs @ ys @ [e]) \<and>
    dll (replace_node e new h) head (xs @ new # ys)"
  using assms list_add_tail_dll [OF assms] list_add_dll [OF assms] list_del_dll(1) [OF assms(1)]
    list_del_init_dll [OF assms(1)] list_add_before_dll [OF assms] list_add_after_dll [OF assms]
    list_move_dll [OF assms(1)] replace_node_dll [OF assms]
  by simp

text \<open>A concrete heap: the list \<open>[2, 3]\<close> with head 1, the nodes added at the end.\<close>

definition heap23 :: list_heap where
  "heap23 = list_add_tail 3 1 (list_add_tail 2 1 (INIT_LIST_HEAD 1 \<lparr>nxt = \<lambda>_. 0, prv = \<lambda>_. 0\<rparr>))"

lemma heap23_dll: "dll heap23 1 ([2] @ 3 # [])"
  using list_add_tail_dll [OF list_add_tail_dll [OF INIT_LIST_HEAD_dll, of 2 1], of 3]
  by (simp add: heap23_def)

lemma list_operations_refine_witness:
  "dll (list_del 3 heap23) 1 [2] \<and> dll (list_add 9 3 heap23) 1 [2, 3, 9]"
  using list_operations_refine [OF heap23_dll, of 9] by simp

text \<open>
  C8: \<^verbatim>\<open>list_for_each\<close> on a well-linked list terminates and visits exactly its nodes in order,
  \<^verbatim>\<open>list_for_each_prev\<close> visits them in the reverse order, and the two are each other's reversal;
  \<^verbatim>\<open>list_empty\<close>, \<^verbatim>\<open>list_is_first\<close> and \<^verbatim>\<open>list_is_last\<close> tell what the visited list tells.
\<close>

theorem list_iteration_order:
  assumes "dll h head xs"
  shows "list_for_each h (nxt h head) head = Some xs \<and>
    list_for_each_prev h (prv h head) head = Some (rev xs) \<and>
    list_empty head h = (xs = []) \<and>
    (\<forall>x\<in>set xs. list_is_first x head h = (x = hd xs) \<and> list_is_last x head h = (x = last xs))"
proof -
  have "list_is_first x head h = (x = hd xs) \<and> list_is_last x head h = (x = last xs)" if m: "x \<in> set xs" for x
  proof -
    obtain as bs where x: "xs = as @ x # bs" using split_list [OF m] by blast
    then have "prv h x = (if as = [] then head else last as)"
      "nxt h x = (case bs of [] \<Rightarrow> head | b # _ \<Rightarrow> b)" "distinct (head # as @ x # bs)"
      using assms chain_next [of h x bs head] chain_prev [of h head as x] by (auto simp: dll_def chain_append)
    moreover have "as \<noteq> [] \<longrightarrow> last as \<noteq> head" "bs \<noteq> [] \<longrightarrow> last bs \<noteq> x"
      using calculation(3) last_in_set [of as] last_in_set [of bs] by auto
    ultimately show ?thesis
      unfolding x list_is_first_def list_is_last_def
      by (cases "as = []"; cases bs) (auto simp: hd_append split: if_splits)
  qed
  then show ?thesis
    using list_for_each_dll [OF assms] list_for_each_prev_dll [OF assms] dll_empty_iff [OF assms] by blast
qed

lemma list_iteration_order_witness: "list_for_each heap23 (nxt heap23 1) 1 = Some [2, 3]"
  using list_iteration_order [OF heap23_dll] by simp

text \<open>
  C9: splicing moves all nodes of a list that shares no node with the target: to the front
  (\<^verbatim>\<open>list_splice\<close>), to the end (\<^verbatim>\<open>list_splice_tail\<close>), and the \<^verbatim>\<open>_init\<close> variants also leave the source
  list well linked and empty.
\<close>

theorem list_splice_refine:
  assumes "dll h l zs" "dll h head xs" "set (l # zs) \<inter> set (head # xs) = {}"
  shows "dll (list_splice l head h) head (zs @ xs) \<and> dll (list_splice_tail l head h) head (xs @ zs) \<and>
    dll (list_splice_init l head h) head (zs @ xs) \<and> dll (list_splice_init l head h) l [] \<and>
    dll (list_splice_tail_init l head h) head (xs @ zs) \<and> dll (list_splice_tail_init l head h) l []"
  using list_splice_dll [OF assms] list_splice_init_dll [OF assms] by simp

lemma list_splice_refine_witness: "dll (list_splice_init 1 7 (INIT_LIST_HEAD 7 heap23)) 7 [2, 3]"
proof -
  have "dll (INIT_LIST_HEAD 7 heap23) 1 [2, 3]"
    by (rule dll_frame [of heap23]) (use heap23_dll in \<open>auto simp: INIT_LIST_HEAD_def\<close>)
  then show ?thesis
    using list_splice_refine [of "INIT_LIST_HEAD 7 heap23" 1 "[2, 3]" 7 "[]"] by (simp add: INIT_LIST_HEAD_dll)
qed

end
