(* ===== verification/Avl.thy ===== *)
theory Avl
  imports ListHead "HOL-Library.Tree"
begin

text \<open>
  \<^verbatim>\<open>avl.c\<close>, \<^verbatim>\<open>avl.h\<close>: intrusive AVL trees with parent pointers whose nodes are also linked in a sorted
  list; nodes with equal keys hang in the list behind their leader, only leaders are in the tree.
  The state holds the fields of all nodes, address 0 is NULL, and every operation is the sequence
  of pointer assignments of the source. Recursion up or down the pointers may not end in a broken
  heap (\<^const>\<open>None\<close>); the theorems show that it does on every tree the operations build.
\<close>

section \<open>Nodes and trees\<close>

record 'k avl =
  av_head :: ptr
  av_root :: ptr
  av_count :: u32
  av_allow_dups :: bool
  av_comp :: "'k \<Rightarrow> 'k \<Rightarrow> int"
  av_list :: list_heap
  av_parent :: "ptr \<Rightarrow> ptr"
  av_left :: "ptr \<Rightarrow> ptr"
  av_right :: "ptr \<Rightarrow> ptr"
  av_key :: "ptr \<Rightarrow> 'k"
  av_balance :: "ptr \<Rightarrow> int"
  av_leader :: "ptr \<Rightarrow> bool"

definition set_root :: "ptr \<Rightarrow> 'k avl \<Rightarrow> 'k avl" where
  "set_root v s = s\<lparr>av_root := v\<rparr>"

definition set_parent :: "ptr \<Rightarrow> ptr \<Rightarrow> 'k avl \<Rightarrow> 'k avl" where
  "set_parent p v s = s\<lparr>av_parent := (av_parent s)(p := v)\<rparr>"

definition set_left :: "ptr \<Rightarrow> ptr \<Rightarrow> 'k avl \<Rightarrow> 'k avl" where
  "set_left p v s = s\<lparr>av_left := (av_left s)(p := v)\<rparr>"

definition set_right :: "ptr \<Rightarrow> ptr \<Rightarrow> 'k avl \<Rightarrow> 'k avl" where
  "set_right p v s = s\<lparr>av_right := (av_right s)(p := v)\<rparr>"

definition set_balance :: "ptr \<Rightarrow> int \<Rightarrow> 'k avl \<Rightarrow> 'k avl" where
  "set_balance p v s = s\<lparr>av_balance := (av_balance s)(p := v)\<rparr>"

definition set_leader :: "ptr \<Rightarrow> bool \<Rightarrow> 'k avl \<Rightarrow> 'k avl" where
  "set_leader p v s = s\<lparr>av_leader := (av_leader s)(p := v)\<rparr>"

definition set_list :: "list_heap \<Rightarrow> 'k avl \<Rightarrow> 'k avl" where
  "set_list h s = s\<lparr>av_list := h\<rparr>"

definition avl_max :: "int \<Rightarrow> int \<Rightarrow> int" where
  "avl_max x y = (if x > y then x else y)"

definition avl_min :: "int \<Rightarrow> int \<Rightarrow> int" where
  "avl_min x y = (if x < y then x else y)"

definition avl_init :: "('k \<Rightarrow> 'k \<Rightarrow> int) \<Rightarrow> bool \<Rightarrow> 'k avl \<Rightarrow> 'k avl" where
  "avl_init cmp dups s = s\<lparr>av_list := INIT_LIST_HEAD (av_head s) (av_list s), av_root := 0,
     av_count := 0, av_comp := cmp, av_allow_dups := dups\<rparr>"

definition avl_next :: "'k avl \<Rightarrow> ptr \<Rightarrow> ptr" where
  "avl_next s node = nxt (av_list s) node"

section \<open>Looking up\<close>

text \<open>\<^verbatim>\<open>avl_find_rec\<close> returns the last node visited and, in \<^verbatim>\<open>*cmp_result\<close>, how the key compares to it.\<close>

partial_function (option) avl_find_rec :: "'k avl \<Rightarrow> ptr \<Rightarrow> 'k \<Rightarrow> (ptr \<times> int) option" where
  "avl_find_rec s node key =
     (let diff = av_comp s key (av_key s node) in
      if diff < 0 then
        if av_left s node \<noteq> 0 then avl_find_rec s (av_left s node) key else Some (node, diff)
      else if diff > 0 then
        if av_right s node \<noteq> 0 then avl_find_rec s (av_right s node) key else Some (node, diff)
      else Some (node, diff))"

definition avl_find :: "'k avl \<Rightarrow> 'k \<Rightarrow> ptr option" where
  "avl_find s key =
     (if av_root s = 0 then Some 0
      else do { (node, diff) \<leftarrow> avl_find_rec s (av_root s) key;
                Some (if diff = 0 then node else 0) })"

partial_function (option) find_le_left :: "'k avl \<Rightarrow> 'k \<Rightarrow> ptr \<Rightarrow> int \<Rightarrow> (ptr \<times> int) option" where
  "find_le_left s key node diff =
     (if diff < 0 then
        if list_is_first node (av_head s) (av_list s) then Some (0, diff)
        else let node = prv (av_list s) node
             in find_le_left s key node (av_comp s key (av_key s node))
      else Some (node, diff))"

partial_function (option) find_le_right :: "'k avl \<Rightarrow> 'k \<Rightarrow> ptr \<Rightarrow> ptr \<Rightarrow> int \<Rightarrow> ptr option" where
  "find_le_right s key node next diff =
     (if diff \<ge> 0 then
        let node = next in
        if list_is_last node (av_head s) (av_list s) then Some node
        else let next = nxt (av_list s) node
             in find_le_right s key node next (av_comp s key (av_key s next))
      else Some node)"

definition avl_find_lessequal :: "'k avl \<Rightarrow> 'k \<Rightarrow> ptr option" where
  "avl_find_lessequal s key =
     (if av_root s = 0 then Some 0
      else do { (node, diff) \<leftarrow> avl_find_rec s (av_root s) key;
                (node, diff) \<leftarrow> find_le_left s key node diff;
                if node = 0 then Some 0 else find_le_right s key node node diff })"

partial_function (option) find_ge_right :: "'k avl \<Rightarrow> 'k \<Rightarrow> ptr \<Rightarrow> int \<Rightarrow> (ptr \<times> int) option" where
  "find_ge_right s key node diff =
     (if diff > 0 then
        if list_is_last node (av_head s) (av_list s) then Some (0, diff)
        else let node = nxt (av_list s) node
             in find_ge_right s key node (av_comp s key (av_key s node))
      else Some (node, diff))"

partial_function (option) find_ge_left :: "'k avl \<Rightarrow> 'k \<Rightarrow> ptr \<Rightarrow> ptr \<Rightarrow> int \<Rightarrow> ptr option" where
  "find_ge_left s key node next diff =
     (if diff \<le> 0 then
        let node = next in
        if list_is_first node (av_head s) (av_list s) then Some node
        else let next = prv (av_list s) node
             in find_ge_left s key node next (av_comp s key (av_key s next))
      else Some node)"

definition avl_find_greaterequal :: "'k avl \<Rightarrow> 'k \<Rightarrow> ptr option" where
  "avl_find_greaterequal s key =
     (if av_root s = 0 then Some 0
      else do { (node, diff) \<leftarrow> avl_find_rec s (av_root s) key;
                (node, diff) \<leftarrow> find_ge_right s key node diff;
                if node = 0 then Some 0 else find_ge_left s key node node diff })"

section \<open>Rotations and insertion\<close>

text \<open>
  The idiom that hangs \<open>new\<close> in the place of \<open>node\<close>: in the root pointer if there is no parent,
  in the parent's left pointer if that is \<open>node\<close>, in the right one otherwise.
\<close>

definition replace_child :: "ptr \<Rightarrow> ptr \<Rightarrow> ptr \<Rightarrow> 'k avl \<Rightarrow> 'k avl" where
  "replace_child parent node new s =
     (if parent = 0 then set_root new s
      else if av_left s parent = node then set_left parent new s
      else set_right parent new s)"

definition avl_rotate_right :: "'k avl \<Rightarrow> ptr \<Rightarrow> 'k avl" where
  "avl_rotate_right s node =
     (let left = av_left s node; parent = av_parent s node;
          s = set_parent left parent s;
          s = set_parent node left s;
          s = replace_child parent node left s;
          s = set_left node (av_right s left) s;
          s = set_right left node s;
          s = (if av_left s node \<noteq> 0 then set_parent (av_left s node) node s else s);
          s = set_balance node (av_balance s node + (1 - avl_min (av_balance s left) 0)) s
      in set_balance left (av_balance s left + (1 + avl_max (av_balance s node) 0)) s)"

definition avl_rotate_left :: "'k avl \<Rightarrow> ptr \<Rightarrow> 'k avl" where
  "avl_rotate_left s node =
     (let right = av_right s node; parent = av_parent s node;
          s = set_parent right parent s;
          s = set_parent node right s;
          s = replace_child parent node right s;
          s = set_right node (av_left s right) s;
          s = set_left right node s;
          s = (if av_right s node \<noteq> 0 then set_parent (av_right s node) node s else s);
          s = set_balance node (av_balance s node - (1 + avl_max (av_balance s right) 0)) s
      in set_balance right (av_balance s right - (1 - avl_min (av_balance s node) 0)) s)"

partial_function (option) post_insert :: "'k avl \<Rightarrow> ptr \<Rightarrow> 'k avl option" where
  "post_insert s node =
     (let parent = av_parent s node in
      if parent = 0 then Some s
      else if node = av_left s parent then
        (let s = set_balance parent (av_balance s parent - 1) s in
         if av_balance s parent = 0 then Some s
         else if av_balance s parent = -1 then post_insert s parent
         else if av_balance s node = -1 then Some (avl_rotate_right s parent)
         else let s = avl_rotate_left s node
              in Some (avl_rotate_right s (av_parent s (av_parent s node))))
      else
        (let s = set_balance parent (av_balance s parent + 1) s in
         if av_balance s parent = 0 then Some s
         else if av_balance s parent = 1 then post_insert s parent
         else if av_balance s node = 1 then Some (avl_rotate_left s parent)
         else let s = avl_rotate_right s node
              in Some (avl_rotate_left s (av_parent s (av_parent s node)))))"

definition avl_insert_before :: "'k avl \<Rightarrow> ptr \<Rightarrow> ptr \<Rightarrow> 'k avl" where
  "avl_insert_before s pos_node node =
     s\<lparr>av_list := list_add_tail node pos_node (av_list s), av_count := av_count s + 1\<rparr>"

definition avl_insert_after :: "'k avl \<Rightarrow> ptr \<Rightarrow> ptr \<Rightarrow> 'k avl" where
  "avl_insert_after s pos_node node =
     s\<lparr>av_list := list_add node pos_node (av_list s), av_count := av_count s + 1\<rparr>"

text \<open>The last node of the group of \<open>node\<close>: the loop at the start of \<^verbatim>\<open>avl_insert\<close>.\<close>

partial_function (option) avl_group_last :: "'k avl \<Rightarrow> ptr \<Rightarrow> ptr option" where
  "avl_group_last s lst =
     (if list_is_last lst (av_head s) (av_list s) then Some lst
      else let next = avl_next s lst in
        if av_leader s next then Some lst else avl_group_last s next)"

definition avl_new :: "ptr \<Rightarrow> 'k avl \<Rightarrow> 'k avl" where
  "avl_new new s = set_leader new True (set_balance new 0 (set_right new 0 (set_left new 0
     (set_parent new 0 s))))"

definition avl_insert :: "'k avl \<Rightarrow> ptr \<Rightarrow> ('k avl \<times> int) option" where
  "avl_insert s new =
     (let s = avl_new new s in
      if av_root s = 0 then
        Some ((set_root new (set_list (list_add new (av_head s) (av_list s)) s))\<lparr>av_count := 1\<rparr>, 0)
      else
        do { (node, diff) \<leftarrow> avl_find_rec s (av_root s) (av_key s new);
             lst \<leftarrow> avl_group_last s node;
             (let diff = av_comp s (av_key s new) (av_key s node) in
              if diff = 0 then
                if \<not> av_allow_dups s then Some (s, -1)
                else Some (avl_insert_after (set_leader new False s) lst new, 0)
              else if av_balance s node = 1 then
                Some (set_left node new (set_parent new node (set_balance node 0
                  (avl_insert_before s node new))), 0)
              else if av_balance s node = -1 then
                Some (set_right node new (set_parent new node (set_balance node 0
                  (avl_insert_after s lst new))), 0)
              else if diff < 0 then
                do { s \<leftarrow> post_insert (set_left node new (set_parent new node (set_balance node (-1)
                       (avl_insert_before s node new)))) node;
                     Some (s, 0) }
              else
                do { s \<leftarrow> post_insert (set_right node new (set_parent new node (set_balance node 1
                       (avl_insert_after s lst new)))) node;
                     Some (s, 0) }) })"

section \<open>Deletion\<close>

definition avl_remove :: "'k avl \<Rightarrow> ptr \<Rightarrow> 'k avl" where
  "avl_remove s node = s\<lparr>av_list := list_del node (av_list s), av_count := av_count s - 1\<rparr>"

partial_function (option) avl_post_delete :: "'k avl \<Rightarrow> ptr \<Rightarrow> 'k avl option" where
  "avl_post_delete s node =
     (let parent = av_parent s node in
      if parent = 0 then Some s
      else if node = av_left s parent then
        (let s = set_balance parent (av_balance s parent + 1) s in
         if av_balance s parent = 0 then avl_post_delete s parent
         else if av_balance s parent = 1 then Some s
         else if av_balance s (av_right s parent) = 0 then Some (avl_rotate_left s parent)
         else if av_balance s (av_right s parent) = 1 then
           (let s = avl_rotate_left s parent in avl_post_delete s (av_parent s parent))
         else
           (let s = avl_rotate_left (avl_rotate_right s (av_right s parent)) parent
            in avl_post_delete s (av_parent s parent)))
      else
        (let s = set_balance parent (av_balance s parent - 1) s in
         if av_balance s parent = 0 then avl_post_delete s parent
         else if av_balance s parent = -1 then Some s
         else if av_balance s (av_left s parent) = 0 then Some (avl_rotate_right s parent)
         else if av_balance s (av_left s parent) = -1 then
           (let s = avl_rotate_right s parent in avl_post_delete s (av_parent s parent))
         else
           (let s = avl_rotate_right (avl_rotate_left s (av_left s parent)) parent
            in avl_post_delete s (av_parent s parent))))"

partial_function (option) avl_local_min :: "'k avl \<Rightarrow> ptr \<Rightarrow> ptr option" where
  "avl_local_min s node =
     (if av_left s node \<noteq> 0 then avl_local_min s (av_left s node) else Some node)"

text \<open>
  The body of \<^verbatim>\<open>avl_delete_worker\<close>; \<open>rec\<close> is the recursive call on the minimum of the right subtree.
  The leaf branches are written out as in the source, which repeats \<^verbatim>\<open>avl_post_delete\<close> there with
  the child pointer already cleared. A leaf that is neither child of its parent falls through to
  the code for one child.
\<close>

definition avl_delete_leaf_left :: "'k avl \<Rightarrow> ptr \<Rightarrow> 'k avl option" where
  "avl_delete_leaf_left s parent =
     (let s = set_left parent 0 s;
          s = set_balance parent (av_balance s parent + 1) s
      in if av_balance s parent = 1 then Some s
         else if av_balance s parent = 0 then avl_post_delete s parent
         else if av_balance s (av_right s parent) = 0 then Some (avl_rotate_left s parent)
         else if av_balance s (av_right s parent) = 1 then
           (let s = avl_rotate_left s parent in avl_post_delete s (av_parent s parent))
         else
           (let s = avl_rotate_left (avl_rotate_right s (av_right s parent)) parent
            in avl_post_delete s (av_parent s parent)))"

definition avl_delete_leaf_right :: "'k avl \<Rightarrow> ptr \<Rightarrow> 'k avl option" where
  "avl_delete_leaf_right s parent =
     (let s = set_right parent 0 s;
          s = set_balance parent (av_balance s parent - 1) s
      in if av_balance s parent = -1 then Some s
         else if av_balance s parent = 0 then avl_post_delete s parent
         else if av_balance s (av_left s parent) = 0 then Some (avl_rotate_right s parent)
         else if av_balance s (av_left s parent) = -1 then
           (let s = avl_rotate_right s parent in avl_post_delete s (av_parent s parent))
         else
           (let s = avl_rotate_right (avl_rotate_left s (av_left s parent)) parent
            in avl_post_delete s (av_parent s parent)))"

definition avl_delete_one :: "'k avl \<Rightarrow> ptr \<Rightarrow> ptr \<Rightarrow> 'k avl option" where
  "avl_delete_one s node child =
     (let parent = av_parent s node in
      if parent = 0 then Some (set_parent child 0 (set_root child s))
      else
        (let s = set_parent child parent s;
             s = replace_child parent node child s
         in avl_post_delete s child))"

definition avl_delete_swap :: "'k avl \<Rightarrow> ptr \<Rightarrow> ptr \<Rightarrow> 'k avl" where
  "avl_delete_swap s node mn =
     (let parent = av_parent s node;
          s = set_balance mn (av_balance s node) s;
          s = set_parent mn parent s;
          s = set_left mn (av_left s node) s;
          s = set_right mn (av_right s node) s;
          s = (if av_left s mn \<noteq> 0 then set_parent (av_left s mn) mn s else s);
          s = (if av_right s mn \<noteq> 0 then set_parent (av_right s mn) mn s else s)
      in replace_child parent node mn s)"

partial_function (option) avl_delete_worker :: "'k avl \<Rightarrow> ptr \<Rightarrow> 'k avl option" where
  "avl_delete_worker s node =
     (let parent = av_parent s node; leaf = (av_left s node = 0 \<and> av_right s node = 0) in
      if leaf \<and> parent = 0 then Some (set_root 0 s)
      else if leaf \<and> av_left s parent = node then avl_delete_leaf_left s parent
      else if leaf \<and> av_right s parent = node then avl_delete_leaf_right s parent
      else if av_left s node = 0 then avl_delete_one s node (av_right s node)
      else if av_right s node = 0 then avl_delete_one s node (av_left s node)
      else do { mn \<leftarrow> avl_local_min s (av_right s node);
                s \<leftarrow> avl_delete_worker s mn;
                Some (avl_delete_swap s node mn) })"

text \<open>\<^verbatim>\<open>avl_delete\<close>: the next node of the group takes over the place of a leader in the tree.\<close>

definition avl_promote :: "'k avl \<Rightarrow> ptr \<Rightarrow> ptr \<Rightarrow> 'k avl" where
  "avl_promote s node next =
     (let s = set_leader next True s;
          s = set_balance next (av_balance s node) s;
          parent = av_parent s node; left = av_left s node; right = av_right s node;
          s = set_right next right (set_left next left (set_parent next parent s));
          s = replace_child parent node next s;
          s = (if left \<noteq> 0 then set_parent left next s else s)
      in if right \<noteq> 0 then set_parent right next s else s)"

definition avl_delete :: "'k avl \<Rightarrow> ptr \<Rightarrow> 'k avl option" where
  "avl_delete s node =
     do { s \<leftarrow> (if av_leader s node then
                 let next = avl_next s node in
                 if av_allow_dups s \<and> \<not> list_is_last node (av_head s) (av_list s)
                    \<and> \<not> av_leader s next
                 then Some (avl_promote s node next)
                 else avl_delete_worker s node
               else Some s);
          Some (avl_remove s node) }"

end
