(* ===== verification/AvlTree.thy ===== *)
theory AvlTree
  imports Avl
begin

text \<open>
  The pointer structure of an AVL tree as a \<^typ>\<open>ptr tree\<close> of \<^theory_text>\<open>HOL-Library.Tree\<close>, a zipper for the
  position of a node in it, the balance invariant, and the local steps of \<^verbatim>\<open>avl.c\<close> on them: the two
  rotations, the climbs after an insertion and after a deletion.
\<close>

section \<open>Trees in the heap\<close>

fun tree_at :: "'k avl \<Rightarrow> ptr \<Rightarrow> ptr tree \<Rightarrow> ptr \<Rightarrow> bool" where
  "tree_at s q Leaf p \<longleftrightarrow> p = 0"
| "tree_at s q (Node l a r) p \<longleftrightarrow> p = a \<and> a \<noteq> 0 \<and> av_parent s a = q \<and>
     tree_at s a l (av_left s a) \<and> tree_at s a r (av_right s a)"

datatype frame = L ptr "ptr tree" | R "ptr tree" ptr

fun plug :: "frame list \<Rightarrow> ptr tree \<Rightarrow> ptr tree" where
  "plug [] t = t"
| "plug (L a r # c) t = plug c (Node t a r)"
| "plug (R l a # c) t = plug c (Node l a t)"

fun ctx_at :: "'k avl \<Rightarrow> ptr \<Rightarrow> ptr \<Rightarrow> frame list \<Rightarrow> bool" where
  "ctx_at s p q [] \<longleftrightarrow> q = 0 \<and> av_root s = p"
| "ctx_at s p q (L a r # c) \<longleftrightarrow> q = a \<and> a \<noteq> 0 \<and> av_left s a = p \<and>
     tree_at s a r (av_right s a) \<and> ctx_at s a (av_parent s a) c"
| "ctx_at s p q (R l a # c) \<longleftrightarrow> q = a \<and> a \<noteq> 0 \<and> av_right s a = p \<and>
     tree_at s a l (av_left s a) \<and> ctx_at s a (av_parent s a) c"

fun ctx_pre :: "frame list \<Rightarrow> ptr list" where
  "ctx_pre [] = []"
| "ctx_pre (L a r # c) = ctx_pre c"
| "ctx_pre (R l a # c) = ctx_pre c @ inorder l @ [a]"

fun ctx_post :: "frame list \<Rightarrow> ptr list" where
  "ctx_post [] = []"
| "ctx_post (L a r # c) = a # inorder r @ ctx_post c"
| "ctx_post (R l a # c) = ctx_post c"

fun ctx_set :: "frame list \<Rightarrow> ptr set" where
  "ctx_set [] = {}"
| "ctx_set (L a r # c) = insert a (set_tree r \<union> ctx_set c)"
| "ctx_set (R l a # c) = insert a (set_tree l \<union> ctx_set c)"

lemma inorder_plug: "inorder (plug c t) = ctx_pre c @ inorder t @ ctx_post c"
  by (induction c t rule: plug.induct) auto

lemma set_ctx: "set (ctx_pre c) \<union> set (ctx_post c) = ctx_set c"
  by (induction c rule: ctx_set.induct) auto

lemma tree_at_NULL: "tree_at s q t p \<Longrightarrow> p = 0 \<longleftrightarrow> t = Leaf"
  by (cases t) auto

lemma plug_at: "tree_at s q t p \<Longrightarrow> ctx_at s p q c \<Longrightarrow> tree_at s 0 (plug c t) (av_root s)"
  by (induction c t arbitrary: p q rule: plug.induct) auto

lemma unplug_at:
  assumes "tree_at s 0 (plug c t) (av_root s)"
  obtains p q where "tree_at s q t p" "ctx_at s p q c"
  using assms by (induction c t arbitrary: thesis rule: plug.induct) (force+)

lemma tree_at_root: "tree_at s q t p \<Longrightarrow> p = 0 \<or> p \<in> set_tree t"
  by (cases t) auto

lemma tree_at_nonzero: "tree_at s q t p \<Longrightarrow> 0 \<notin> set_tree t"
  by (induction t arbitrary: p q) auto

lemma ctx_at_nonzero: "ctx_at s p q c \<Longrightarrow> 0 \<notin> ctx_set c"
  by (induction c arbitrary: p q rule: ctx_set.induct) (auto dest: tree_at_nonzero)

section \<open>Writes and what they leave alone\<close>

named_theorems av_simps \<open>reading the fields after writing one\<close>

lemma av_sel [av_simps, simp]:
  "av_parent (set_parent p v s) = (av_parent s)(p := v)" "av_left (set_left p v s) = (av_left s)(p := v)"
  "av_right (set_right p v s) = (av_right s)(p := v)" "av_balance (set_balance p b s) = (av_balance s)(p := b)"
  "av_leader (set_leader p b' s) = (av_leader s)(p := b')" "av_root (set_root v s) = v" "av_list (set_list h s) = h"
  by (simp_all add: set_parent_def set_left_def set_right_def set_balance_def set_leader_def set_root_def set_list_def)

lemma av_other [av_simps, simp]:
  "av_left (set_parent p v s) = av_left s" "av_right (set_parent p v s) = av_right s"
  "av_balance (set_parent p v s) = av_balance s" "av_root (set_parent p v s) = av_root s"
  "av_parent (set_left p v s) = av_parent s" "av_right (set_left p v s) = av_right s"
  "av_balance (set_left p v s) = av_balance s" "av_root (set_left p v s) = av_root s"
  "av_parent (set_right p v s) = av_parent s" "av_left (set_right p v s) = av_left s"
  "av_balance (set_right p v s) = av_balance s" "av_root (set_right p v s) = av_root s"
  "av_parent (set_balance p b s) = av_parent s" "av_left (set_balance p b s) = av_left s"
  "av_right (set_balance p b s) = av_right s" "av_root (set_balance p b s) = av_root s"
  "av_parent (set_root v s) = av_parent s" "av_left (set_root v s) = av_left s"
  "av_right (set_root v s) = av_right s" "av_balance (set_root v s) = av_balance s"
  "av_parent (set_leader p b' s) = av_parent s" "av_left (set_leader p b' s) = av_left s"
  "av_right (set_leader p b' s) = av_right s" "av_balance (set_leader p b' s) = av_balance s"
  "av_root (set_leader p b' s) = av_root s"
  "av_parent (set_list h s) = av_parent s" "av_left (set_list h s) = av_left s"
  "av_right (set_list h s) = av_right s" "av_balance (set_list h s) = av_balance s" "av_root (set_list h s) = av_root s"
  by (simp_all add: set_parent_def set_left_def set_right_def set_balance_def set_leader_def set_root_def set_list_def)

text \<open>What the tree operations never write: the list, the keys, the leaders and the header fields.\<close>

definition same_rest :: "'k avl \<Rightarrow> 'k avl \<Rightarrow> bool" where
  "same_rest s s' \<longleftrightarrow> av_head s' = av_head s \<and> av_count s' = av_count s \<and>
     av_allow_dups s' = av_allow_dups s \<and> av_comp s' = av_comp s \<and> av_list s' = av_list s \<and>
     av_key s' = av_key s \<and> av_leader s' = av_leader s"

lemma same_rest_refl [simp]: "same_rest s s"
  by (simp add: same_rest_def)

lemma same_rest_trans: "same_rest s s' \<Longrightarrow> same_rest s' s'' \<Longrightarrow> same_rest s s''"
  by (simp add: same_rest_def)

lemma same_rest_set [simp]:
  "same_rest s (set_parent p v s') \<longleftrightarrow> same_rest s s'" "same_rest s (set_left p v s') \<longleftrightarrow> same_rest s s'"
  "same_rest s (set_right p v s') \<longleftrightarrow> same_rest s s'" "same_rest s (set_balance p b s') \<longleftrightarrow> same_rest s s'"
  "same_rest s (set_root v s') \<longleftrightarrow> same_rest s s'"
  by (simp_all add: same_rest_def set_parent_def set_left_def set_right_def set_balance_def set_root_def)

lemma tree_at_frame:
  assumes "\<And>x. x \<in> set_tree t \<Longrightarrow> av_parent s' x = av_parent s x \<and> av_left s' x = av_left s x \<and> av_right s' x = av_right s x"
  shows "tree_at s' q t p \<longleftrightarrow> tree_at s q t p"
  using assms by (induction t arbitrary: p q) auto

lemma ctx_at_frame:
  assumes "\<And>x. x \<in> ctx_set c \<Longrightarrow> av_parent s' x = av_parent s x \<and> av_left s' x = av_left s x \<and> av_right s' x = av_right s x"
    "av_root s' = av_root s"
  shows "ctx_at s' p q c \<longleftrightarrow> ctx_at s p q c"
  using assms
proof (induction c arbitrary: p q rule: ctx_set.induct)
  case (2 a r c)
  have "tree_at s' a r x \<longleftrightarrow> tree_at s a r x" for x using 2 by (intro tree_at_frame) auto
  then show ?case using 2 by auto
next
  case (3 l a c)
  have "tree_at s' a l x \<longleftrightarrow> tree_at s a l x" for x using 3 by (intro tree_at_frame) auto
  then show ?case using 3 by auto
qed auto

lemma tree_at_set [av_simps, simp]:
  "x \<notin> set_tree t \<Longrightarrow> tree_at (set_parent x v s) q t p \<longleftrightarrow> tree_at s q t p"
  "x \<notin> set_tree t \<Longrightarrow> tree_at (set_left x v s) q t p \<longleftrightarrow> tree_at s q t p"
  "x \<notin> set_tree t \<Longrightarrow> tree_at (set_right x v s) q t p \<longleftrightarrow> tree_at s q t p"
  "tree_at (set_balance x b s) q t p \<longleftrightarrow> tree_at s q t p"
  "tree_at (set_leader x b' s) q t p \<longleftrightarrow> tree_at s q t p"
  "tree_at (set_root v s) q t p \<longleftrightarrow> tree_at s q t p"
  "tree_at (set_list h s) q t p \<longleftrightarrow> tree_at s q t p"
  by (rule tree_at_frame; auto)+

lemma ctx_at_set [av_simps, simp]:
  "x \<notin> ctx_set c \<Longrightarrow> ctx_at (set_parent x v s) p q c \<longleftrightarrow> ctx_at s p q c"
  "x \<notin> ctx_set c \<Longrightarrow> ctx_at (set_left x v s) p q c \<longleftrightarrow> ctx_at s p q c"
  "x \<notin> ctx_set c \<Longrightarrow> ctx_at (set_right x v s) p q c \<longleftrightarrow> ctx_at s p q c"
  "ctx_at (set_balance x b s) p q c \<longleftrightarrow> ctx_at s p q c"
  "ctx_at (set_leader x b' s) p q c \<longleftrightarrow> ctx_at s p q c"
  "ctx_at (set_list h s) p q c \<longleftrightarrow> ctx_at s p q c"
  by (rule ctx_at_frame; auto)+

text \<open>The root of a subtree can be given a new parent, by one write.\<close>

lemma tree_at_reparent:
  "tree_at s q t p \<Longrightarrow> p \<noteq> 0 \<Longrightarrow> distinct (inorder t) \<Longrightarrow> tree_at (set_parent p q' s) q' t p"
  by (cases t) auto

text \<open>Hanging another node in the place of \<open>p\<close> changes only the pointer the context reaches \<open>p\<close> by.\<close>

lemma replace_child_other [simp]:
  "av_parent (replace_child q p p' s) = av_parent s" "av_balance (replace_child q p p' s) = av_balance s"
  "x \<noteq> q \<Longrightarrow> av_left (replace_child q p p' s) x = av_left s x"
  "x \<noteq> q \<Longrightarrow> av_right (replace_child q p p' s) x = av_right s x"
  "same_rest s0 (replace_child q p p' s) \<longleftrightarrow> same_rest s0 s"
  by (simp_all add: replace_child_def)

lemma tree_at_replace_child [simp]:
  "q \<notin> set_tree t \<Longrightarrow> tree_at (replace_child q p p' s) q' t p'' \<longleftrightarrow> tree_at s q' t p''"
  by (rule tree_at_frame) (metis replace_child_other(1,3,4))

lemma ctx_replace:
  assumes "ctx_at s p q c" "distinct (ctx_pre c @ ctx_post c)" "p \<notin> ctx_set c" "p \<noteq> 0"
  shows "ctx_at (replace_child q p p' s) p' q c"
proof (cases c)
  case (Cons f c')
  then show ?thesis
  proof (cases f)
    case (L a r)
    then show ?thesis
      using assms Cons set_ctx [of c'] by (auto simp: replace_child_def)
  next
    case (R l a)
    moreover have "av_left s a \<noteq> p"
      using assms Cons R by (cases l) auto
    ultimately show ?thesis
      using assms Cons set_ctx [of c'] by (auto simp: replace_child_def)
  qed
qed (use assms in \<open>simp add: replace_child_def\<close>)

lemma ctx_parent: "ctx_at s p q c \<Longrightarrow> q = 0 \<or> q \<in> ctx_set c"
  by (cases c rule: ctx_set.cases) auto

text \<open>The rotations on the structure; the balance fields are stated apart.\<close>

lemma rotate_right_at:
  assumes t: "tree_at s q (Node (Node A l B) n C) n" and c: "ctx_at s n q c"
    and d: "distinct (inorder (Node (Node A l B) n C) @ ctx_pre c @ ctx_post c)"
  shows "tree_at (avl_rotate_right s n) q (Node A l (Node B n C)) l"
    "ctx_at (avl_rotate_right s n) l q c" "same_rest s (avl_rotate_right s n)"
    "av_balance (avl_rotate_right s n) =
       (let bn = av_balance s n + (1 - avl_min (av_balance s l) 0)
        in (av_balance s)(n := bn, l := av_balance s l + (1 + avl_max bn 0)))"
proof -
  let ?s1 = "replace_child q n l (set_parent n l (set_parent l q s))"
  have ctx: "ctx_at (set_parent n l (set_parent l q s)) n q c"
    using t c d set_ctx [of c] by auto
  have 1: "ctx_at ?s1 l q c"
    using ctx t c d set_ctx [of c] by (intro ctx_replace) auto
  have q: "q \<noteq> l" "q \<noteq> n" "q \<notin> set_tree A" "q \<notin> set_tree B" "q \<notin> set_tree C"
    using ctx_parent [OF c] tree_at_nonzero [OF t] d set_ctx [of c] by auto
  show "tree_at (avl_rotate_right s n) q (Node A l (Node B n C)) l"
    using t d q by (cases B) (auto simp: avl_rotate_right_def Let_def)
  have n: "n \<notin> ctx_set c" "l \<notin> ctx_set c" "set_tree B \<inter> ctx_set c = {}"
    using d set_ctx [of c] by auto
  have e: "av_left s n = l" "av_parent s n = q" "n \<noteq> l" using t d by auto
  show "ctx_at (avl_rotate_right s n) l q c"
    using t q n 1 e by (cases B) (simp_all add: avl_rotate_right_def Let_def)
  show "same_rest s (avl_rotate_right s n)"
    by (simp add: avl_rotate_right_def Let_def)
  show "av_balance (avl_rotate_right s n) =
       (let bn = av_balance s n + (1 - avl_min (av_balance s l) 0)
        in (av_balance s)(n := bn, l := av_balance s l + (1 + avl_max bn 0)))"
    using e by (auto simp: avl_rotate_right_def Let_def)
qed

lemma rotate_left_at:
  assumes t: "tree_at s q (Node A n (Node B r C)) n" and c: "ctx_at s n q c"
    and d: "distinct (inorder (Node A n (Node B r C)) @ ctx_pre c @ ctx_post c)"
  shows "tree_at (avl_rotate_left s n) q (Node (Node A n B) r C) r"
    "ctx_at (avl_rotate_left s n) r q c" "same_rest s (avl_rotate_left s n)"
    "av_balance (avl_rotate_left s n) =
       (let bn = av_balance s n - (1 + avl_max (av_balance s r) 0)
        in (av_balance s)(n := bn, r := av_balance s r - (1 - avl_min bn 0)))"
proof -
  let ?s1 = "replace_child q n r (set_parent n r (set_parent r q s))"
  have ctx: "ctx_at (set_parent n r (set_parent r q s)) n q c"
    using t c d set_ctx [of c] by auto
  have 1: "ctx_at ?s1 r q c"
    using ctx t c d set_ctx [of c] by (intro ctx_replace) auto
  have q: "q \<noteq> r" "q \<noteq> n" "q \<notin> set_tree A" "q \<notin> set_tree B" "q \<notin> set_tree C"
    using ctx_parent [OF c] tree_at_nonzero [OF t] d set_ctx [of c] by auto
  show "tree_at (avl_rotate_left s n) q (Node (Node A n B) r C) r"
    using t d q by (cases B) (auto simp: avl_rotate_left_def Let_def)
  have n: "n \<notin> ctx_set c" "r \<notin> ctx_set c" "set_tree B \<inter> ctx_set c = {}"
    using d set_ctx [of c] by auto
  have e: "av_right s n = r" "av_parent s n = q" "n \<noteq> r" using t d by auto
  show "ctx_at (avl_rotate_left s n) r q c"
    using t q n 1 e by (cases B) (simp_all add: avl_rotate_left_def Let_def)
  show "same_rest s (avl_rotate_left s n)"
    by (simp add: avl_rotate_left_def Let_def)
  show "av_balance (avl_rotate_left s n) =
       (let bn = av_balance s n - (1 + avl_max (av_balance s r) 0)
        in (av_balance s)(n := bn, r := av_balance s r - (1 - avl_min bn 0)))"
    using e by (auto simp: avl_rotate_left_def Let_def)
qed

section \<open>Balance\<close>

fun bal :: "(ptr \<Rightarrow> int) \<Rightarrow> ptr tree \<Rightarrow> bool" where
  "bal b Leaf \<longleftrightarrow> True"
| "bal b (Node l a r) \<longleftrightarrow> b a = int (height r) - int (height l) \<and> \<bar>b a\<bar> \<le> 1 \<and> bal b l \<and> bal b r"

text \<open>The context is balanced around a subtree of height \<open>h\<close>.\<close>

fun cbal :: "(ptr \<Rightarrow> int) \<Rightarrow> nat \<Rightarrow> frame list \<Rightarrow> bool" where
  "cbal b h [] \<longleftrightarrow> True"
| "cbal b h (L a r # c) \<longleftrightarrow> b a = int (height r) - int h \<and> \<bar>b a\<bar> \<le> 1 \<and> bal b r \<and>
     cbal b (Suc (max h (height r))) c"
| "cbal b h (R l a # c) \<longleftrightarrow> b a = int h - int (height l) \<and> \<bar>b a\<bar> \<le> 1 \<and> bal b l \<and>
     cbal b (Suc (max (height l) h)) c"

lemma bal_upd [simp]: "x \<notin> set_tree t \<Longrightarrow> bal (b(x := v)) t \<longleftrightarrow> bal b t"
  by (induction t) auto

lemma cbal_upd [simp]: "x \<notin> ctx_set c \<Longrightarrow> cbal (b(x := v)) h c \<longleftrightarrow> cbal b h c"
  by (induction b h c rule: cbal.induct) auto

lemma abs_le_1: "\<bar>x :: int\<bar> \<le> 1 \<longleftrightarrow> x = -1 \<or> x = 0 \<or> x = 1"
  by arith

lemma bal_range: "bal b (Node l a r) \<Longrightarrow> b a = -1 \<or> b a = 0 \<or> b a = 1"
  unfolding bal.simps abs_le_1 by blast

lemma bal_plug: "bal b (plug c t) \<longleftrightarrow> bal b t \<and> cbal b (height t) c"
  by (induction c t rule: plug.induct) auto

text \<open>A position in the tree, and what a finished climb leaves behind.\<close>

definition pos :: "'k avl \<Rightarrow> ptr tree \<Rightarrow> ptr \<Rightarrow> ptr \<Rightarrow> frame list \<Rightarrow> bool" where
  "pos s t p q c \<longleftrightarrow> tree_at s q t p \<and> ctx_at s p q c \<and> distinct (inorder t @ ctx_pre c @ ctx_post c)"

definition avl_shape :: "'k avl \<Rightarrow> ptr tree \<Rightarrow> bool" where
  "avl_shape s t \<longleftrightarrow> tree_at s 0 t (av_root s) \<and> distinct (inorder t) \<and> bal (av_balance s) t"

definition rebuilt :: "'k avl \<Rightarrow> 'k avl \<Rightarrow> ptr list \<Rightarrow> bool" where
  "rebuilt s s' ns \<longleftrightarrow> (\<exists>t. avl_shape s' t \<and> inorder t = ns) \<and> same_rest s s'"

lemma rebuilt_trans: "same_rest s s' \<Longrightarrow> rebuilt s' s'' ns \<Longrightarrow> rebuilt s s'' ns"
  by (auto simp: rebuilt_def intro: same_rest_trans)

lemma rebuilt_here:
  assumes "pos s t p q c" "bal (av_balance s) t" "cbal (av_balance s) (height t) c"
  shows "rebuilt s s (ctx_pre c @ inorder t @ ctx_post c)"
proof -
  have "avl_shape s (plug c t)"
    using assms plug_at [of s q t p c] by (auto simp: avl_shape_def pos_def bal_plug inorder_plug)
  then show ?thesis by (auto simp: rebuilt_def inorder_plug)
qed

lemma pos_upL: "pos s t p q (L a r # c) \<Longrightarrow> q = a \<and> pos s (Node t a r) a (av_parent s a) c"
  by (auto simp: pos_def)

lemma pos_upR: "pos s t p q (R l a # c) \<Longrightarrow> q = a \<and> pos s (Node l a t) a (av_parent s a) c"
  by (auto simp: pos_def)

lemma pos_downL: "pos s (Node t a r) a q c \<Longrightarrow> pos s t (av_left s a) a (L a r # c)"
  by (auto simp: pos_def)

lemma pos_downR: "pos s (Node l a t) a q c \<Longrightarrow> pos s t (av_right s a) a (R l a # c)"
  by (auto simp: pos_def)

lemma pos_top: "pos s t p q [] \<longleftrightarrow> q = 0 \<and> av_root s = p \<and> tree_at s 0 t p \<and> distinct (inorder t)"
  by (auto simp: pos_def)

lemma pos_root: "pos s (Node l a r) p q c \<Longrightarrow> p = a \<and> av_parent s a = q"
  by (simp add: pos_def)

lemma pos_balance [simp]: "pos (set_balance x b s) t p q c = pos s t p q c"
  by (simp add: pos_def)

lemma pos_fresh:
  "pos s (Node l a r) p q c \<Longrightarrow> a \<notin> set_tree l \<and> a \<notin> set_tree r \<and> a \<notin> ctx_set c \<and> a \<noteq> 0 \<and>
     set_tree l \<inter> set_tree r = {} \<and> set_tree l \<inter> ctx_set c = {} \<and> set_tree r \<inter> ctx_set c = {}"
  using set_ctx [of c] by (auto simp: pos_def)

lemma rotate_right_pos:
  assumes "pos s (Node (Node A l B) n C) n q c"
  shows "pos (avl_rotate_right s n) (Node A l (Node B n C)) l q c"
  using assms rotate_right_at [of s q A l B n C c] by (auto simp: pos_def simp del: tree_at.simps)

lemma rotate_left_pos:
  assumes "pos s (Node A n (Node B r C)) n q c"
  shows "pos (avl_rotate_left s n) (Node (Node A n B) r C) r q c"
  using assms rotate_left_at [of s q A n B r C c] by (auto simp: pos_def simp del: tree_at.simps)

lemma rotate_right_rest:
  assumes "pos s (Node (Node A l B) n C) n q c"
  shows "same_rest s (avl_rotate_right s n)"
    "av_balance (avl_rotate_right s n) =
       (let bn = av_balance s n + (1 - avl_min (av_balance s l) 0)
        in (av_balance s)(n := bn, l := av_balance s l + (1 + avl_max bn 0)))"
  using assms rotate_right_at [of s q A l B n C c] by (auto simp: pos_def simp del: tree_at.simps)

lemma rotate_left_rest:
  assumes "pos s (Node A n (Node B r C)) n q c"
  shows "same_rest s (avl_rotate_left s n)"
    "av_balance (avl_rotate_left s n) =
       (let bn = av_balance s n - (1 + avl_max (av_balance s r) 0)
        in (av_balance s)(n := bn, r := av_balance s r - (1 - avl_min bn 0)))"
  using assms rotate_left_at [of s q A n B r C c] by (auto simp: pos_def simp del: tree_at.simps)

text \<open>
  A subtree with root \<open>n\<close> that leans too far to one side, and its replacement with the root \<open>p\<close> and
  the height \<open>h\<close>: balanced, in the same order, the rest as it was, and \<open>n\<close> right below the new root.
\<close>

definition repaired :: "'k avl \<Rightarrow> 'k avl \<Rightarrow> ptr list \<Rightarrow> ptr \<Rightarrow> ptr \<Rightarrow> ptr \<Rightarrow> frame list \<Rightarrow> nat \<Rightarrow> bool" where
  "repaired s s' ns n p q c h \<longleftrightarrow> (\<exists>t. pos s' t p q c \<and> bal (av_balance s') t \<and> inorder t = ns \<and> height t = h) \<and>
     (\<forall>h. cbal (av_balance s') h c \<longleftrightarrow> cbal (av_balance s) h c) \<and> same_rest s s' \<and> av_parent s' n = p"

lemma single_right:
  assumes "pos s (Node (Node A l B) n C) n q c" "bal (av_balance s) (Node A l B)" "bal (av_balance s) C"
    "av_balance s n = -2" "height (Node A l B) = height C + 2" "av_balance s l \<le> 0"
  shows "repaired s (avl_rotate_right s n) (inorder (Node (Node A l B) n C)) n l q c
    (if av_balance s l = 0 then height C + 3 else height C + 2)"
  unfolding repaired_def
proof (intro conjI exI)
  note rest = rotate_right_rest [OF assms(1)]
  show "pos (avl_rotate_right s n) (Node A l (Node B n C)) l q c"
    by (rule rotate_right_pos [OF assms(1)])
  then show "av_parent (avl_rotate_right s n) n = l" by (simp add: pos_def)
  have d: "n \<noteq> l" "n \<notin> set_tree A" "n \<notin> set_tree B" "n \<notin> set_tree C" "l \<notin> set_tree A" "l \<notin> set_tree B"
     "l \<notin> set_tree C" "n \<notin> ctx_set c" "l \<notin> ctx_set c"
    using assms(1) set_ctx [of c] by (auto simp: pos_def)
  show "bal (av_balance (avl_rotate_right s n)) (Node A l (Node B n C))"
    using assms(2-6) d unfolding rest(2) by (auto simp: Let_def avl_min_def avl_max_def)
  show "height (Node A l (Node B n C)) = (if av_balance s l = 0 then height C + 3 else height C + 2)"
    using assms(2-6) by auto
  show "\<forall>h. cbal (av_balance (avl_rotate_right s n)) h c \<longleftrightarrow> cbal (av_balance s) h c"
    unfolding rest(2) using d by (simp add: Let_def)
  show "same_rest s (avl_rotate_right s n)" by (rule rest(1))
qed simp

lemma single_left:
  assumes "pos s (Node A n (Node B r C)) n q c" "bal (av_balance s) (Node B r C)" "bal (av_balance s) A"
    "av_balance s n = 2" "height (Node B r C) = height A + 2" "0 \<le> av_balance s r"
  shows "repaired s (avl_rotate_left s n) (inorder (Node A n (Node B r C))) n r q c
    (if av_balance s r = 0 then height A + 3 else height A + 2)"
  unfolding repaired_def
proof (intro conjI exI)
  note rest = rotate_left_rest [OF assms(1)]
  show "pos (avl_rotate_left s n) (Node (Node A n B) r C) r q c"
    by (rule rotate_left_pos [OF assms(1)])
  then show "av_parent (avl_rotate_left s n) n = r" by (simp add: pos_def)
  have d: "n \<noteq> r" "n \<notin> set_tree A" "n \<notin> set_tree B" "n \<notin> set_tree C" "r \<notin> set_tree A" "r \<notin> set_tree B"
     "r \<notin> set_tree C" "n \<notin> ctx_set c" "r \<notin> ctx_set c"
    using assms(1) set_ctx [of c] by (auto simp: pos_def)
  show "bal (av_balance (avl_rotate_left s n)) (Node (Node A n B) r C)"
    using assms(2-6) d unfolding rest(2) by (auto simp: Let_def avl_min_def avl_max_def)
  show "height (Node (Node A n B) r C) = (if av_balance s r = 0 then height A + 3 else height A + 2)"
    using assms(2-6) by auto
  show "\<forall>h. cbal (av_balance (avl_rotate_left s n)) h c \<longleftrightarrow> cbal (av_balance s) h c"
    unfolding rest(2) using d by (simp add: Let_def)
  show "same_rest s (avl_rotate_left s n)" by (rule rest(1))
qed simp

lemma double_right:
  assumes "pos s (Node (Node A l (Node B m D)) n C) n q c" "bal (av_balance s) (Node A l (Node B m D))"
    "bal (av_balance s) C" "av_balance s n = -2" "height (Node A l (Node B m D)) = height C + 2"
    "av_balance s l = 1"
  shows "repaired s (avl_rotate_right (avl_rotate_left s l) n)
      (inorder (Node (Node A l (Node B m D)) n C)) n m q c (height C + 2)"
    and "av_parent (avl_rotate_left s l) (av_parent (avl_rotate_left s l) l) = n"
    and "av_left s n = l"
proof -
  let ?s1 = "avl_rotate_left s l"
  let ?s2 = "avl_rotate_right ?s1 n"
  show l: "av_left s n = l" using assms(1) by (auto simp: pos_def)
  have 1: "pos s (Node A l (Node B m D)) l n (L n C # c)"
    using pos_downL [OF assms(1)] by (simp add: l)
  note rest1 = rotate_left_rest [OF 1]
  have 2: "pos ?s1 (Node (Node A l B) m D) m n (L n C # c)" by (rule rotate_left_pos [OF 1])
  then show "av_parent ?s1 (av_parent ?s1 l) = n" by (auto simp: pos_def)
  have "pos ?s1 (Node (Node (Node A l B) m D) n C) n (av_parent ?s1 n) c"
    using pos_upL [OF 2] by simp
  moreover have "av_parent ?s1 n = q"
  proof -
    have "n \<notin> set_tree A \<union> set_tree B \<union> set_tree D \<union> {l, m}" "q \<noteq> n"
      using assms(1) ctx_parent [of s n q c] set_ctx [of c] by (auto simp: pos_def)
    then show ?thesis
      using 1 assms(1) unfolding avl_rotate_left_def Let_def by (cases B) (auto simp: pos_def)
  qed
  ultimately have 3: "pos ?s1 (Node (Node (Node A l B) m D) n C) n q c" by simp
  note rest2 = rotate_right_rest [OF 3]
  have d: "distinct [n, m, l]" "set_tree A \<inter> {n, m, l} = {}" "set_tree B \<inter> {n, m, l} = {}" "set_tree C \<inter> {n, m, l} = {}"
     "set_tree D \<inter> {n, m, l} = {}" "ctx_set c \<inter> {n, m, l} = {}"
    using assms(1) set_ctx [of c] by (auto simp: pos_def)
  have 4: "pos ?s2 (Node (Node A l B) m (Node D n C)) m q c" by (rule rotate_right_pos [OF 3])
  show "repaired s ?s2 (inorder (Node (Node A l (Node B m D)) n C)) n m q c (height C + 2)"
    unfolding repaired_def
  proof (intro conjI exI)
    show "pos ?s2 (Node (Node A l B) m (Node D n C)) m q c" by (rule 4)
    then show "av_parent ?s2 n = m" by (simp add: pos_def)
    show "bal (av_balance ?s2) (Node (Node A l B) m (Node D n C))"
      using assms(2-6) d unfolding rest1(2) rest2(2)
      by (auto simp: Let_def avl_min_def avl_max_def)
    show "height (Node (Node A l B) m (Node D n C)) = height C + 2"
      using assms(2-6) by auto
    show "\<forall>h. cbal (av_balance ?s2) h c \<longleftrightarrow> cbal (av_balance s) h c"
      unfolding rest1(2) rest2(2) using d by (simp add: Let_def)
    show "same_rest s ?s2" using rest1(1) rest2(1) by (rule same_rest_trans)
  qed simp
qed

lemma double_left:
  assumes "pos s (Node C n (Node (Node D m B) r A)) n q c" "bal (av_balance s) (Node (Node D m B) r A)"
    "bal (av_balance s) C" "av_balance s n = 2" "height (Node (Node D m B) r A) = height C + 2"
    "av_balance s r = -1"
  shows "repaired s (avl_rotate_left (avl_rotate_right s r) n)
      (inorder (Node C n (Node (Node D m B) r A))) n m q c (height C + 2)"
    and "av_parent (avl_rotate_right s r) (av_parent (avl_rotate_right s r) r) = n"
    and "av_right s n = r"
proof -
  let ?s1 = "avl_rotate_right s r"
  let ?s2 = "avl_rotate_left ?s1 n"
  show r: "av_right s n = r" using assms(1) by (auto simp: pos_def)
  have 1: "pos s (Node (Node D m B) r A) r n (R C n # c)"
    using pos_downR [OF assms(1)] by (simp add: r)
  note rest1 = rotate_right_rest [OF 1]
  have 2: "pos ?s1 (Node D m (Node B r A)) m n (R C n # c)" by (rule rotate_right_pos [OF 1])
  then show "av_parent ?s1 (av_parent ?s1 r) = n" by (auto simp: pos_def)
  have "pos ?s1 (Node C n (Node D m (Node B r A))) n (av_parent ?s1 n) c"
    using pos_upR [OF 2] by simp
  moreover have "av_parent ?s1 n = q"
  proof -
    have "n \<notin> set_tree A \<union> set_tree B \<union> set_tree D \<union> {r, m}" "q \<noteq> n"
      using assms(1) ctx_parent [of s n q c] set_ctx [of c] by (auto simp: pos_def)
    then show ?thesis
      using 1 assms(1) unfolding avl_rotate_right_def Let_def by (cases B) (auto simp: pos_def)
  qed
  ultimately have 3: "pos ?s1 (Node C n (Node D m (Node B r A))) n q c" by simp
  note rest2 = rotate_left_rest [OF 3]
  have d: "distinct [n, m, r]" "set_tree A \<inter> {n, m, r} = {}" "set_tree B \<inter> {n, m, r} = {}" "set_tree C \<inter> {n, m, r} = {}"
     "set_tree D \<inter> {n, m, r} = {}" "ctx_set c \<inter> {n, m, r} = {}"
    using assms(1) set_ctx [of c] by (auto simp: pos_def)
  have 4: "pos ?s2 (Node (Node C n D) m (Node B r A)) m q c" by (rule rotate_left_pos [OF 3])
  show "repaired s ?s2 (inorder (Node C n (Node (Node D m B) r A))) n m q c (height C + 2)"
    unfolding repaired_def
  proof (intro conjI exI)
    show "pos ?s2 (Node (Node C n D) m (Node B r A)) m q c" by (rule 4)
    then show "av_parent ?s2 n = m" by (simp add: pos_def)
    show "bal (av_balance ?s2) (Node (Node C n D) m (Node B r A))"
      using assms(2-6) d unfolding rest1(2) rest2(2)
      by (auto simp: Let_def avl_min_def avl_max_def)
    show "height (Node (Node C n D) m (Node B r A)) = height C + 2"
      using assms(2-6) by auto
    show "\<forall>h. cbal (av_balance ?s2) h c \<longleftrightarrow> cbal (av_balance s) h c"
      unfolding rest1(2) rest2(2) using d by (simp add: Let_def)
    show "same_rest s ?s2" using rest1(1) rest2(1) by (rule same_rest_trans)
  qed simp
qed

lemma repaired_rebuilt:
  assumes "repaired s s' ns n p q c h" "cbal (av_balance s) h c"
  shows "rebuilt s s' (ctx_pre c @ ns @ ctx_post c)"
  using assms rebuilt_here by (fastforce simp: repaired_def intro: rebuilt_trans)

section \<open>The climb after an insertion\<close>

lemma post_insert_rebuilt:
  assumes "pos s t n q c" "bal (av_balance s) t" "cbal (av_balance s) h c" "height t = Suc h"
    "av_balance s n \<noteq> 0"
  shows "\<exists>s'. post_insert s n = Some s' \<and> rebuilt s s' (ctx_pre c @ inorder t @ ctx_post c)"
  using assms
proof (induction c arbitrary: s t n q h rule: ctx_set.induct)
  case 1
  then obtain l r where t: "t = Node l n r" by (cases t) (auto simp: pos_def)
  then have "av_parent s n = 0" using 1 by (auto simp: pos_def)
  then show ?case using rebuilt_here [OF 1(1,2)] by (auto simp: post_insert.simps)
next
  case (2 a r c)
  then obtain A B where t: "t = Node A n B" by (cases t) (auto simp: pos_def)
  have q: "av_parent s n = a" "av_left s a = n" "a \<noteq> 0" "q = a"
    using 2(2) t by (auto simp: pos_def)
  let ?s = "set_balance a (av_balance s a - 1) s"
  have d: "a \<notin> set_tree t" "a \<notin> set_tree r" "a \<notin> ctx_set c" "a \<noteq> n"
    using 2(2) t set_ctx [of c] by (auto simp: pos_def)
  have up: "pos ?s (Node t a r) a (av_parent s a) c"
    using pos_upL [OF 2(2)] by simp
  have b: "av_balance ?s a = int (height r) - int (height t)" "bal (av_balance ?s) t" "bal (av_balance ?s) r"
    "cbal (av_balance ?s) (Suc (max h (height r))) c"
    using 2(3-5) d by auto
  have ns: "ctx_pre (L a r # c) @ inorder t @ ctx_post (L a r # c)
      = ctx_pre c @ inorder (Node t a r) @ ctx_post c" by simp
  have step: "rebuilt ?s s' ns \<Longrightarrow> rebuilt s s' ns" for s' ns
    by (rule rebuilt_trans) simp_all
  have "av_balance s a \<in> {-1, 0, 1}" using 2(4) by (auto simp: abs_if split: if_splits)
  then consider "av_balance ?s a = 0" | "av_balance ?s a = -1" | "av_balance ?s a = -2" by force
  then show ?case
  proof cases
    case 1
    then have "height r = Suc h" using b(1) 2(5) by simp
    then have "cbal (av_balance ?s) (height (Node t a r)) c" using b(4) 2(5) by simp
    then have "rebuilt ?s ?s (ctx_pre c @ inorder (Node t a r) @ ctx_post c)"
      using b(1-3) 1 by (intro rebuilt_here [OF up]) auto
    then show ?thesis unfolding ns
      using 1 q step by (subst post_insert.simps) (auto simp: Let_def)
  next
    case m1: 2
    then have "height r = h" using b(1) 2(5) by simp
    have bt: "bal (av_balance ?s) (Node t a r)" using b(1-3) m1 by simp
    have "\<exists>s'. post_insert ?s a = Some s' \<and> rebuilt ?s s' (ctx_pre c @ inorder (Node t a r) @ ctx_post c)"
      using m1 2(5) \<open>height r = h\<close> by (intro 2(1) [OF up bt b(4)]) simp_all
    then show ?thesis unfolding ns
      using m1 q step by (subst post_insert.simps) (auto simp: Let_def)
  next
    case m2: 3
    have h: "height r + 1 = h" "height t = height r + 2" using m2 b(1) 2(5) by auto
    have cb: "cbal (av_balance ?s) (height r + 2) c" using b(4) h by (simp add: max_def)
    consider "av_balance s n = -1" | "av_balance s n = 1"
      using bal_range [of "av_balance s" A n B] 2(3,6) t by blast
    then show ?thesis
    proof cases
      case 1
      have "repaired ?s (avl_rotate_right ?s a) (inorder (Node t a r)) a n (av_parent s a) c
          (if av_balance ?s n = 0 then height r + 3 else height r + 2)"
        using up b m2 h 1 d unfolding t by (intro single_right) auto
      then have "rebuilt ?s (avl_rotate_right ?s a) (ctx_pre c @ inorder (Node t a r) @ ctx_post c)"
        using cb 1 d(4) by (intro repaired_rebuilt) auto
      then show ?thesis unfolding ns
        using m2 1 d(4) q step by (subst post_insert.simps) (auto simp: Let_def)
    next
      case one: 2
      then obtain B1 m B2 where B: "B = Node B1 m B2" using 2(3) t by (cases B) auto
      have "av_balance ?s n = 1" using one d(4) by simp
      note dr = double_right [OF up [unfolded t B] b(2) [unfolded t B] b(3) m2 h(2) [unfolded t B] this,
          folded B, folded t]
      have "rebuilt ?s (avl_rotate_right (avl_rotate_left ?s n) a) (ctx_pre c @ inorder (Node t a r) @ ctx_post c)"
        by (rule repaired_rebuilt [OF dr(1) cb])
      then show ?thesis unfolding ns
        using m2 one d(4) q dr(2) step by (subst post_insert.simps) (auto simp: Let_def)
    qed
  qed
next
  case (3 l a c)
  then obtain A B where t: "t = Node A n B" by (cases t) (auto simp: pos_def)
  let ?s = "set_balance a (av_balance s a + 1) s"
  have d: "a \<notin> set_tree t" "a \<notin> set_tree l" "a \<notin> ctx_set c" "a \<noteq> n" "n \<notin> set_tree l"
    using 3(2) t set_ctx [of c] by (auto simp: pos_def)
  have q: "av_parent s n = a" "av_right s a = n" "a \<noteq> 0" "q = a"
    using 3(2) t by (auto simp: pos_def)
  have nl: "av_left s a \<noteq> n"
    using 3(2) t d(5) by (cases l) (auto simp: pos_def)
  have up: "pos ?s (Node l a t) a (av_parent s a) c"
    using pos_upR [OF 3(2)] by simp
  have b: "av_balance ?s a = int (height t) - int (height l)" "bal (av_balance ?s) t" "bal (av_balance ?s) l"
    "cbal (av_balance ?s) (Suc (max (height l) h)) c"
    using 3(3-5) d by auto
  have ns: "ctx_pre (R l a # c) @ inorder t @ ctx_post (R l a # c)
      = ctx_pre c @ inorder (Node l a t) @ ctx_post c" by simp
  have step: "rebuilt ?s s' ns \<Longrightarrow> rebuilt s s' ns" for s' ns
    by (rule rebuilt_trans) simp_all
  have "av_balance s a \<in> {-1, 0, 1}" using 3(4) by (auto simp: abs_if split: if_splits)
  then consider "av_balance ?s a = 0" | "av_balance ?s a = 1" | "av_balance ?s a = 2" by force
  then show ?case
  proof cases
    case 1
    then have "height l = Suc h" using b(1) 3(5) by simp
    then have "cbal (av_balance ?s) (height (Node l a t)) c" using b(4) 3(5) by simp
    then have "rebuilt ?s ?s (ctx_pre c @ inorder (Node l a t) @ ctx_post c)"
      using b(1-3) 1 by (intro rebuilt_here [OF up]) auto
    then show ?thesis unfolding ns
      using 1 q nl step by (subst post_insert.simps) (auto simp: Let_def)
  next
    case p1: 2
    then have "height l = h" using b(1) 3(5) by simp
    have bt: "bal (av_balance ?s) (Node l a t)" using b(1-3) p1 by simp
    have "\<exists>s'. post_insert ?s a = Some s' \<and> rebuilt ?s s' (ctx_pre c @ inorder (Node l a t) @ ctx_post c)"
      using p1 3(5) \<open>height l = h\<close> by (intro 3(1) [OF up bt b(4)]) simp_all
    then show ?thesis unfolding ns
      using p1 q nl step by (subst post_insert.simps) (auto simp: Let_def)
  next
    case p2: 3
    have h: "height l + 1 = h" "height t = height l + 2" using p2 b(1) 3(5) by auto
    have cb: "cbal (av_balance ?s) (height l + 2) c" using b(4) h by (simp add: max_def)
    consider "av_balance s n = 1" | "av_balance s n = -1"
      using bal_range [of "av_balance s" A n B] 3(3,6) t by blast
    then show ?thesis
    proof cases
      case 1
      have "repaired ?s (avl_rotate_left ?s a) (inorder (Node l a t)) a n (av_parent s a) c
          (if av_balance ?s n = 0 then height l + 3 else height l + 2)"
        using up b p2 h 1 d unfolding t by (intro single_left) auto
      then have "rebuilt ?s (avl_rotate_left ?s a) (ctx_pre c @ inorder (Node l a t) @ ctx_post c)"
        using cb 1 d(4) by (intro repaired_rebuilt) auto
      then show ?thesis unfolding ns
        using p2 1 d(4) q nl step by (subst post_insert.simps) (auto simp: Let_def)
    next
      case one: 2
      then obtain B1 m B2 where B: "A = Node B1 m B2" using 3(3) t by (cases A) auto
      have "av_balance ?s n = -1" using one d(4) by simp
      note dl = double_left [OF up [unfolded t B] b(2) [unfolded t B] b(3) p2 h(2) [unfolded t B] this,
          folded B, folded t]
      have "rebuilt ?s (avl_rotate_left (avl_rotate_right ?s n) a) (ctx_pre c @ inorder (Node l a t) @ ctx_post c)"
        by (rule repaired_rebuilt [OF dl(1) cb])
      then show ?thesis unfolding ns
        using p2 one d(4) q nl dl(2) step by (subst post_insert.simps) (auto simp: Let_def)
    qed
  qed
qed

end
