(* ===== verification/AvlDelete.thy ===== *)
theory AvlDelete
  imports AvlTree
begin

text \<open>
  The deletion of \<^verbatim>\<open>avl.c\<close> on the tree structure: the climb after a subtree got lower, and the removal
  of a node with no, one or two children.
\<close>

section \<open>The climb after a deletion\<close>

text \<open>The common code for a parent whose left or right subtree got lower by one.\<close>

definition shrink_left :: "'k avl \<Rightarrow> ptr \<Rightarrow> 'k avl option" where
  "shrink_left s parent =
     (let s = set_balance parent (av_balance s parent + 1) s in
      if av_balance s parent = 0 then avl_post_delete s parent
      else if av_balance s parent = 1 then Some s
      else if av_balance s (av_right s parent) = 0 then Some (avl_rotate_left s parent)
      else if av_balance s (av_right s parent) = 1 then
        (let s = avl_rotate_left s parent in avl_post_delete s (av_parent s parent))
      else
        (let s = avl_rotate_left (avl_rotate_right s (av_right s parent)) parent
         in avl_post_delete s (av_parent s parent)))"

definition shrink_right :: "'k avl \<Rightarrow> ptr \<Rightarrow> 'k avl option" where
  "shrink_right s parent =
     (let s = set_balance parent (av_balance s parent - 1) s in
      if av_balance s parent = 0 then avl_post_delete s parent
      else if av_balance s parent = -1 then Some s
      else if av_balance s (av_left s parent) = 0 then Some (avl_rotate_right s parent)
      else if av_balance s (av_left s parent) = -1 then
        (let s = avl_rotate_right s parent in avl_post_delete s (av_parent s parent))
      else
        (let s = avl_rotate_right (avl_rotate_left s (av_left s parent)) parent
         in avl_post_delete s (av_parent s parent)))"

lemma avl_post_delete_shrink:
  "avl_post_delete s node =
     (let parent = av_parent s node in
      if parent = 0 then Some s
      else if node = av_left s parent then shrink_left s parent else shrink_right s parent)"
  by (subst avl_post_delete.simps) (simp only: shrink_left_def shrink_right_def Let_def)

lemma leaf_shrink:
  "avl_delete_leaf_left s parent = shrink_left (set_left parent 0 s) parent"
  "avl_delete_leaf_right s parent = shrink_right (set_right parent 0 s) parent"
  by (auto simp: avl_delete_leaf_left_def avl_delete_leaf_right_def shrink_left_def shrink_right_def Let_def)

lemma repaired_climb:
  fixes s s' :: "'k avl"
  assumes "repaired s s' ns n p q c h" "cbal (av_balance s) (Suc h) c" "0 < h"
    and IH: "\<And>(s :: 'k avl) t p q. pos s t p q c \<Longrightarrow> t \<noteq> Leaf \<Longrightarrow> bal (av_balance s) t \<Longrightarrow>
      cbal (av_balance s) (Suc (height t)) c \<Longrightarrow>
      \<exists>s'. avl_post_delete s p = Some s' \<and> rebuilt s s' (ctx_pre c @ inorder t @ ctx_post c)"
  shows "\<exists>s''. avl_post_delete s' (av_parent s' n) = Some s'' \<and>
    rebuilt s s'' (ctx_pre c @ ns @ ctx_post c)"
proof -
  obtain t where t: "pos s' t p q c" "bal (av_balance s') t" "inorder t = ns" "height t = h"
    and r: "\<forall>h. cbal (av_balance s') h c \<longleftrightarrow> cbal (av_balance s) h c" "same_rest s s'" "av_parent s' n = p"
    using assms(1) by (auto simp: repaired_def)
  have "\<exists>s''. avl_post_delete s' p = Some s'' \<and> rebuilt s' s'' (ctx_pre c @ inorder t @ ctx_post c)"
    using t r assms(2,3) by (intro IH) auto
  then show ?thesis using r t(3) by (auto intro: rebuilt_trans)
qed

lemma shrink_left_rebuilt:
  fixes s :: "'k avl"
  assumes p: "pos s t p a (L a r # c)" and bt: "bal (av_balance s) t"
    and cb: "cbal (av_balance s) (Suc (height t)) (L a r # c)"
    and IH: "\<And>(s :: 'k avl) t p q. pos s t p q c \<Longrightarrow> t \<noteq> Leaf \<Longrightarrow> bal (av_balance s) t \<Longrightarrow>
      cbal (av_balance s) (Suc (height t)) c \<Longrightarrow>
      \<exists>s'. avl_post_delete s p = Some s' \<and> rebuilt s s' (ctx_pre c @ inorder t @ ctx_post c)"
  shows "\<exists>s'. shrink_left s a = Some s' \<and> rebuilt s s' (ctx_pre c @ (inorder t @ a # inorder r) @ ctx_post c)"
proof -
  let ?s = "set_balance a (av_balance s a + 1) s"
  have d: "a \<notin> set_tree t" "a \<notin> set_tree r" "a \<notin> ctx_set c"
    using p set_ctx [of c] by (auto simp: pos_def)
  have up: "pos ?s (Node t a r) a (av_parent s a) c"
    using pos_upL [OF p] by simp
  have b: "av_balance ?s a = int (height r) - int (height t)" "bal (av_balance ?s) t" "bal (av_balance ?s) r"
    "cbal (av_balance ?s) (Suc (max (Suc (height t)) (height r))) c"
    using cb bt d by auto
  have step: "rebuilt ?s s' (ctx_pre c @ inorder (Node t a r) @ ctx_post c) \<Longrightarrow>
      rebuilt s s' (ctx_pre c @ (inorder t @ a # inorder r) @ ctx_post c)" for s'
    using rebuilt_trans [of s ?s s'] by simp
  have "av_balance s a \<in> {-1, 0, 1}" using cb by (auto simp: abs_if split: if_splits)
  then consider "av_balance ?s a = 0" | "av_balance ?s a = 1" | "av_balance ?s a = 2" by force
  then show ?thesis
  proof cases
    case 1
    then have e: "height r = height t" using b(1) by simp
    then have "cbal (av_balance ?s) (Suc (height (Node t a r))) c" using b(4) by (simp add: max_def)
    moreover have "bal (av_balance ?s) (Node t a r)" using b(1-3) 1 by simp
    ultimately show ?thesis
      using IH [OF up] 1 step by (auto simp: shrink_left_def Let_def)
  next
    case 2
    then have "height r = Suc (height t)" using b(1) by simp
    then have "cbal (av_balance ?s) (height (Node t a r)) c" using b(4) by (simp add: max_def)
    moreover have "bal (av_balance ?s) (Node t a r)" using b(1-3) 2 by simp
    ultimately show ?thesis
      using rebuilt_here [OF up] 2 step by (auto simp: shrink_left_def Let_def)
  next
    case two: 3
    then have h: "height r = height t + 2" using b(1) by simp
    then obtain B x C where r: "r = Node B x C" by (cases r) auto
    have cb': "cbal (av_balance ?s) (height t + 3) c" using b(4) h by (simp add: max_def numeral_3_eq_3)
    have x: "av_right s a = x" "x \<noteq> a" using up d r by (auto simp: pos_def)
    consider "av_balance ?s x = 0" | "av_balance ?s x = 1" | "av_balance ?s x = -1"
      using bal_range [of "av_balance ?s" B x C] b(3) r by blast
    then show ?thesis
    proof cases
      case 1
      have "repaired ?s (avl_rotate_left ?s a) (inorder (Node t a r)) a x (av_parent s a) c (height t + 3)"
        using single_left [OF up [unfolded r] b(3) [unfolded r] b(2) two h [unfolded r]] 1 unfolding r by simp
      from repaired_rebuilt [OF this cb'] show ?thesis
        using step two 1 x by (auto simp: shrink_left_def Let_def)
    next
      case x1: 2
      have "repaired ?s (avl_rotate_left ?s a) (inorder (Node t a r)) a x (av_parent s a) c (height t + 2)"
        using single_left [OF up [unfolded r] b(3) [unfolded r] b(2) two h [unfolded r]] x1 unfolding r by simp
      then have "\<exists>s''. avl_post_delete (avl_rotate_left ?s a) (av_parent (avl_rotate_left ?s a) a) = Some s'' \<and>
          rebuilt ?s s'' (ctx_pre c @ inorder (Node t a r) @ ctx_post c)"
        by (rule repaired_climb) (use cb' in \<open>simp add: numeral_3_eq_3\<close>, simp, rule IH)
      then show ?thesis
        using step two x1 x by (auto simp: shrink_left_def Let_def numeral_3_eq_3)
    next
      case m1: 3
      obtain D m E where B: "B = Node D m E" using b(3) m1 r by (cases B) auto
      from double_left(1) [OF up [unfolded r B] b(3) [unfolded r B] b(2) two h [unfolded r B] m1]
      have "repaired ?s (avl_rotate_left (avl_rotate_right ?s x) a) (inorder (Node t a r)) a m (av_parent s a) c (height t + 2)"
        unfolding r B .
      then have "\<exists>s''. avl_post_delete (avl_rotate_left (avl_rotate_right ?s x) a) (av_parent (avl_rotate_left (avl_rotate_right ?s x) a) a) = Some s'' \<and>
          rebuilt ?s s'' (ctx_pre c @ inorder (Node t a r) @ ctx_post c)"
        by (rule repaired_climb) (use cb' in \<open>simp add: numeral_3_eq_3\<close>, simp, rule IH)
      then show ?thesis
        using step two m1 x by (auto simp: shrink_left_def Let_def numeral_3_eq_3)
    qed
  qed
qed

lemma shrink_right_rebuilt:
  fixes s :: "'k avl"
  assumes p: "pos s t p a (R l a # c)" and bt: "bal (av_balance s) t"
    and cb: "cbal (av_balance s) (Suc (height t)) (R l a # c)"
    and IH: "\<And>(s :: 'k avl) t p q. pos s t p q c \<Longrightarrow> t \<noteq> Leaf \<Longrightarrow> bal (av_balance s) t \<Longrightarrow>
      cbal (av_balance s) (Suc (height t)) c \<Longrightarrow>
      \<exists>s'. avl_post_delete s p = Some s' \<and> rebuilt s s' (ctx_pre c @ inorder t @ ctx_post c)"
  shows "\<exists>s'. shrink_right s a = Some s' \<and> rebuilt s s' (ctx_pre c @ (inorder l @ a # inorder t) @ ctx_post c)"
proof -
  let ?s = "set_balance a (av_balance s a - 1) s"
  have d: "a \<notin> set_tree t" "a \<notin> set_tree l" "a \<notin> ctx_set c"
    using p set_ctx [of c] by (auto simp: pos_def)
  have up: "pos ?s (Node l a t) a (av_parent s a) c"
    using pos_upR [OF p] by simp
  have b: "av_balance ?s a = int (height t) - int (height l)" "bal (av_balance ?s) t" "bal (av_balance ?s) l"
    "cbal (av_balance ?s) (Suc (max (height l) (Suc (height t)))) c"
    using cb bt d by auto
  have step: "rebuilt ?s s' (ctx_pre c @ inorder (Node l a t) @ ctx_post c) \<Longrightarrow>
      rebuilt s s' (ctx_pre c @ (inorder l @ a # inorder t) @ ctx_post c)" for s'
    using rebuilt_trans [of s ?s s'] by simp
  have "av_balance s a \<in> {-1, 0, 1}" using cb by (auto simp: abs_if split: if_splits)
  then consider "av_balance ?s a = 0" | "av_balance ?s a = -1" | "av_balance ?s a = -2" by force
  then show ?thesis
  proof cases
    case 1
    then have e: "height l = height t" using b(1) by simp
    then have "cbal (av_balance ?s) (Suc (height (Node l a t))) c" using b(4) by (simp add: max_def)
    moreover have "bal (av_balance ?s) (Node l a t)" using b(1-3) 1 by simp
    ultimately show ?thesis
      using IH [OF up] 1 step by (auto simp: shrink_right_def Let_def)
  next
    case 2
    then have "height l = Suc (height t)" using b(1) by simp
    then have "cbal (av_balance ?s) (height (Node l a t)) c" using b(4) by (simp add: max_def)
    moreover have "bal (av_balance ?s) (Node l a t)" using b(1-3) 2 by simp
    ultimately show ?thesis
      using rebuilt_here [OF up] 2 step by (auto simp: shrink_right_def Let_def)
  next
    case two: 3
    then have h: "height l = height t + 2" using b(1) by simp
    then obtain B x C where l: "l = Node B x C" by (cases l) auto
    have cb': "cbal (av_balance ?s) (height t + 3) c" using b(4) h by (simp add: max_def numeral_3_eq_3)
    have x: "av_left s a = x" "x \<noteq> a" using up d l by (auto simp: pos_def)
    consider "av_balance ?s x = 0" | "av_balance ?s x = -1" | "av_balance ?s x = 1"
      using bal_range [of "av_balance ?s" B x C] b(3) l by blast
    then show ?thesis
    proof cases
      case 1
      have "repaired ?s (avl_rotate_right ?s a) (inorder (Node l a t)) a x (av_parent s a) c (height t + 3)"
        using single_right [OF up [unfolded l] b(3) [unfolded l] b(2) two h [unfolded l]] 1 unfolding l by simp
      from repaired_rebuilt [OF this cb'] show ?thesis
        using step two 1 x by (auto simp: shrink_right_def Let_def)
    next
      case x1: 2
      have "repaired ?s (avl_rotate_right ?s a) (inorder (Node l a t)) a x (av_parent s a) c (height t + 2)"
        using single_right [OF up [unfolded l] b(3) [unfolded l] b(2) two h [unfolded l]] x1 unfolding l by simp
      then have "\<exists>s''. avl_post_delete (avl_rotate_right ?s a) (av_parent (avl_rotate_right ?s a) a) = Some s'' \<and>
          rebuilt ?s s'' (ctx_pre c @ inorder (Node l a t) @ ctx_post c)"
        by (rule repaired_climb) (use cb' in \<open>simp add: numeral_3_eq_3\<close>, simp, rule IH)
      then show ?thesis
        using step two x1 x by (auto simp: shrink_right_def Let_def numeral_3_eq_3)
    next
      case m1: 3
      obtain D m E where C: "C = Node D m E" using b(3) m1 l by (cases C) auto
      from double_right(1) [OF up [unfolded l C] b(3) [unfolded l C] b(2) two h [unfolded l C] m1]
      have "repaired ?s (avl_rotate_right (avl_rotate_left ?s x) a) (inorder (Node l a t)) a m (av_parent s a) c (height t + 2)"
        unfolding l C .
      then have "\<exists>s''. avl_post_delete (avl_rotate_right (avl_rotate_left ?s x) a)
            (av_parent (avl_rotate_right (avl_rotate_left ?s x) a) a) = Some s'' \<and>
          rebuilt ?s s'' (ctx_pre c @ inorder (Node l a t) @ ctx_post c)"
        by (rule repaired_climb) (use cb' in \<open>simp add: numeral_3_eq_3\<close>, simp, rule IH)
      then show ?thesis
        using step two m1 x by (auto simp: shrink_right_def Let_def numeral_3_eq_3)
    qed
  qed
qed

lemma post_delete_rebuilt:
  assumes "pos s t p q c" "t \<noteq> Leaf" "bal (av_balance s) t" "cbal (av_balance s) (Suc (height t)) c"
  shows "\<exists>s'. avl_post_delete s p = Some s' \<and> rebuilt s s' (ctx_pre c @ inorder t @ ctx_post c)"
  using assms
proof (induction c arbitrary: s t p q rule: ctx_set.induct)
  case 1
  then have "av_parent s p = 0" by (cases t) (auto simp: pos_def)
  then show ?case using rebuilt_here [OF 1(1,3)] by (auto simp: avl_post_delete_shrink)
next
  case (2 a r c)
  then have q: "av_parent s p = a" "av_left s a = p" "a \<noteq> 0" "q = a"
    by (cases t; auto simp: pos_def)+
  have "\<exists>s'. shrink_left s a = Some s' \<and> rebuilt s s' (ctx_pre c @ (inorder t @ a # inorder r) @ ctx_post c)"
    by (rule shrink_left_rebuilt [OF 2(2) [unfolded q(4)] 2(4,5)]) (rule 2(1))
  then show ?case
    using q by (simp add: avl_post_delete_shrink Let_def)
next
  case (3 l a c)
  then have q: "av_parent s p = a" "av_right s a = p" "a \<noteq> 0" "q = a"
    by (cases t; auto simp: pos_def)+
  have "p \<in> set_tree t" "set_tree t \<inter> set_tree l = {}" "p \<noteq> 0"
    using 3(2,3) set_ctx [of c] by (cases t; auto simp: pos_def)+
  then have "p \<noteq> av_left s a" using 3(2) q(3) by (cases l) (auto simp: pos_def)
  moreover have "\<exists>s'. shrink_right s a = Some s' \<and> rebuilt s s' (ctx_pre c @ (inorder l @ a # inorder t) @ ctx_post c)"
    by (rule shrink_right_rebuilt [OF 3(2) [unfolded q(4)] 3(4,5)]) (rule 3(1))
  ultimately show ?case
    using q by (simp add: avl_post_delete_shrink Let_def)
qed

lemma rebuilt_set [simp]:
  "rebuilt (set_left p v s) s' ns = rebuilt s s' ns" "rebuilt (set_right p v s) s' ns = rebuilt s s' ns"
  by (simp_all add: rebuilt_def same_rest_def set_left_def set_right_def)

section \<open>Taking a node out of the tree\<close>

lemma child_not_left:
  assumes "pos s (Node l n r) p q (R l' a # c)"
  shows "av_left s a \<noteq> n"
proof -
  have "n \<notin> set_tree l'" "n \<noteq> 0" using assms by (auto simp: pos_def)
  then show ?thesis using assms by (cases l') (auto simp: pos_def)
qed

lemma delete_leaf_rebuilt:
  assumes p: "pos s (Node Leaf n Leaf) n q c" and cb: "cbal (av_balance s) 1 c"
  shows "\<exists>s'. avl_delete_worker s n = Some s' \<and> rebuilt s s' (ctx_pre c @ ctx_post c)"
proof (cases c rule: ctx_set.cases)
  case 1
  have "rebuilt s (set_root 0 s) []"
    by (auto simp: rebuilt_def avl_shape_def intro!: exI [of _ Leaf])
  then show ?thesis using p 1 by (subst avl_delete_worker.simps) (auto simp: pos_def)
next
  case (2 a r c')
  then have q: "av_parent s n = a" "av_left s a = n" "a \<noteq> 0" "av_left s n = 0" "av_right s n = 0"
    using p by (auto simp: pos_def)
  let ?s = "set_left a 0 s"
  have pa: "pos ?s Leaf 0 a (L a r # c')"
    using p set_ctx [of c'] unfolding 2 by (auto simp: pos_def)
  have "\<exists>s'. shrink_left ?s a = Some s' \<and> rebuilt ?s s' (ctx_pre c' @ (inorder Leaf @ a # inorder r) @ ctx_post c')"
  proof (rule shrink_left_rebuilt [OF pa])
    show "cbal (av_balance ?s) (Suc (height Leaf)) (L a r # c')"
      using cb unfolding 2 av_other height_tree.simps One_nat_def .
  qed (auto intro: post_delete_rebuilt)
  then show ?thesis
    using q 2 by (subst avl_delete_worker.simps) (auto simp: leaf_shrink Let_def)
next
  case (3 l a c')
  then have q: "av_parent s n = a" "av_right s a = n" "a \<noteq> 0" "av_left s n = 0" "av_right s n = 0"
    using p by (auto simp: pos_def)
  let ?s = "set_right a 0 s"
  have pa: "pos ?s Leaf 0 a (R l a # c')"
    using p set_ctx [of c'] unfolding 3 by (auto simp: pos_def)
  have "\<exists>s'. shrink_right ?s a = Some s' \<and> rebuilt ?s s' (ctx_pre c' @ (inorder l @ a # inorder Leaf) @ ctx_post c')"
  proof (rule shrink_right_rebuilt [OF pa])
    show "cbal (av_balance ?s) (Suc (height Leaf)) (R l a # c')"
      using cb unfolding 3 av_other height_tree.simps One_nat_def .
  qed (auto intro: post_delete_rebuilt)
  then show ?thesis
    using q 3 child_not_left [OF p [unfolded 3]]
    by (subst avl_delete_worker.simps) (auto simp: leaf_shrink Let_def)
qed

text \<open>A single child takes the place of the node.\<close>

lemma delete_one_rebuilt:
  assumes p: "pos s (Node l n r) n q c" and t: "t \<noteq> Leaf" "t = l \<and> r = Leaf \<or> t = r \<and> l = Leaf"
    and ch: "child = (if l = Leaf then av_right s n else av_left s n)"
    and b: "bal (av_balance s) (Node l n r)" and cb: "cbal (av_balance s) (height (Node l n r)) c"
  shows "\<exists>s'. avl_delete_one s n child = Some s' \<and> rebuilt s s' (ctx_pre c @ inorder t @ ctx_post c)"
proof -
  let ?s1 = "replace_child q n child (set_parent child q s)"
  have f: "n \<notin> ctx_set c" "n \<noteq> 0" "av_parent s n = q" "tree_at s n t child" "distinct (inorder t)"
    "set_tree t \<inter> ctx_set c = {}" "distinct (ctx_pre c @ ctx_post c)" "ctx_at s n q c" "child \<in> set_tree t" "child \<noteq> 0"
    using p t ch set_ctx [of c] by (cases l; cases r; auto simp: pos_def)+
  have q: "q \<notin> set_tree t" using ctx_parent [OF f(8)] f(6) tree_at_nonzero [OF f(4)] by auto
  have "tree_at (set_parent child q s) q t child"
    using tree_at_reparent [OF f(4) f(10) f(5)] .
  moreover have "ctx_at (set_parent child q s) n q c"
    using f(6,8,9) by (simp add: disjoint_iff)
  ultimately have p1: "pos ?s1 t child q c"
    using q f(1,2,5,6,7) set_ctx [of c] by (auto simp: pos_def intro!: ctx_replace)
  have b1: "bal (av_balance ?s1) t" "height (Node l n r) = Suc (height t)"
    using b t by auto
  show ?thesis
  proof (cases "q = 0")
    case True
    then have "c = []" using f(8) by (cases c rule: ctx_set.cases) auto
    moreover have "set_parent child 0 (set_root child s) = ?s1"
      using True by (cases s) (simp add: replace_child_def set_parent_def set_root_def)
    moreover have "rebuilt s ?s1 (ctx_pre c @ inorder t @ ctx_post c)"
      using \<open>c = []\<close> by (intro rebuilt_trans [OF _ rebuilt_here [OF p1 b1(1)]]) simp_all
    ultimately show ?thesis
      using True f(3) by (simp add: avl_delete_one_def)
  next
    case False
    then show ?thesis
      using post_delete_rebuilt [OF p1 t(1) b1(1)] cb b1(2) f(3) rebuilt_trans [of s ?s1]
      by (auto simp: avl_delete_one_def Let_def)
  qed
qed

lemma delete_simple_rebuilt:
  assumes p: "pos s (Node l n r) n q c" and "l = Leaf \<or> r = Leaf"
    and b: "bal (av_balance s) (Node l n r)" and cb: "cbal (av_balance s) (height (Node l n r)) c"
  shows "\<exists>s'. avl_delete_worker s n = Some s' \<and> rebuilt s s' (ctx_pre c @ inorder l @ inorder r @ ctx_post c)"
proof -
  have z: "av_left s n = 0 \<longleftrightarrow> l = Leaf" "av_right s n = 0 \<longleftrightarrow> r = Leaf"
    using p tree_at_NULL [of s n l] tree_at_NULL [of s n r] by (auto simp: pos_def)
  consider "l = Leaf" "r = Leaf" | "l = Leaf" "r \<noteq> Leaf" | "l \<noteq> Leaf" "r = Leaf" using assms(2) by blast
  then show ?thesis
  proof cases
    case 1
    then show ?thesis using delete_leaf_rebuilt [of s n q c] p cb by simp
  next
    case 2
    then have "\<exists>s'. avl_delete_one s n (av_right s n) = Some s' \<and> rebuilt s s' (ctx_pre c @ inorder r @ ctx_post c)"
      using delete_one_rebuilt [OF p _ _ _ b cb, of r] by auto
    then show ?thesis using 2 z by (subst avl_delete_worker.simps) auto
  next
    case 3
    then have "\<exists>s'. avl_delete_one s n (av_left s n) = Some s' \<and> rebuilt s s' (ctx_pre c @ inorder l @ ctx_post c)"
      using delete_one_rebuilt [OF p _ _ _ b cb, of l] by auto
    then show ?thesis using 3 z by (subst avl_delete_worker.simps) auto
  qed
qed

text \<open>Another node takes over the place of a node with all its links.\<close>

definition take_place :: "ptr \<Rightarrow> ptr \<Rightarrow> 'k avl \<Rightarrow> 'k avl" where
  "take_place n m s =
     (let s = set_right m (av_right s n) (set_left m (av_left s n) (set_parent m (av_parent s n) s));
          s = (if av_left s n \<noteq> 0 then set_parent (av_left s n) m s else s)
      in if av_right s n \<noteq> 0 then set_parent (av_right s n) m s else s)"

lemma take_place_pos:
  assumes p: "pos s (Node l n r) n q c" and m: "m \<noteq> 0" "m \<notin> set_tree (Node l n r) \<union> ctx_set c"
  shows "pos (replace_child q n m (take_place n m s)) (Node l m r) m q c"
    "av_balance (take_place n m s) = av_balance s" "same_rest s (take_place n m s)"
proof -
  have f: "n \<notin> ctx_set c" "n \<noteq> 0" "av_parent s n = q" "set_tree l \<inter> ctx_set c = {}" "set_tree r \<inter> ctx_set c = {}"
    "distinct (ctx_pre c @ ctx_post c)" "ctx_at s n q c" "n \<notin> set_tree l" "n \<notin> set_tree r" "set_tree l \<inter> set_tree r = {}"
    "tree_at s n l (av_left s n)" "tree_at s n r (av_right s n)" "distinct (inorder l)" "distinct (inorder r)"
    using p set_ctx [of c] by (auto simp: pos_def)
  have q: "q \<notin> set_tree l" "q \<notin> set_tree r" "q \<noteq> n" "q \<noteq> m"
    using ctx_parent [OF f(7)] f(1,2,4,5) m tree_at_nonzero [OF f(11)] tree_at_nonzero [OF f(12)] by auto
  let ?s = "take_place n m s"
  have lm: "av_left s n \<in> set_tree l" if "l \<noteq> Leaf" using f(11) that by (cases l) auto
  have rm: "av_right s n \<in> set_tree r" if "r \<noteq> Leaf" using f(12) that by (cases r) auto
  have z: "av_left s n = 0 \<longleftrightarrow> l = Leaf" "av_right s n = 0 \<longleftrightarrow> r = Leaf"
    using tree_at_NULL [OF f(11)] tree_at_NULL [OF f(12)] by auto
  have "ctx_at ?s n q c"
    using f(4,5,7) m lm rm z by (auto simp: take_place_def Let_def disjoint_iff)
  then have 1: "ctx_at (replace_child q n m ?s) m q c"
    using f(1,2,6) by (intro ctx_replace)
  have 2: "av_parent ?s m = q" "av_left ?s m = av_left s n" "av_right ?s m = av_right s n"
    using f(3) m lm rm z by (auto simp: take_place_def Let_def)
  have 3: "tree_at ?s m l (av_left s n)" "tree_at ?s m r (av_right s n)"
  proof -
    let ?s1 = "set_right m (av_right s n) (set_left m (av_left s n) (set_parent m (av_parent s n) s))"
    have o: "av_right s n \<notin> set_tree l" "av_left s n \<notin> set_tree r"
      using tree_at_root [OF f(11)] tree_at_root [OF f(12)] tree_at_nonzero [OF f(11)] tree_at_nonzero [OF f(12)] f(10)
      by auto
    have "tree_at ?s1 n l (av_left s n)" "tree_at ?s1 n r (av_right s n)" using f(11,12) m by auto
    moreover have "tree_at (set_parent (av_left s n) m s') m l (av_left s n)"
      if "tree_at s' n l (av_left s n)" "l \<noteq> Leaf" for s' :: "'a avl"
      using that z f(13) by (intro tree_at_reparent) auto
    moreover have "tree_at (set_parent (av_right s n) m s') m r (av_right s n)"
      if "tree_at s' n r (av_right s n)" "r \<noteq> Leaf" for s' :: "'a avl"
      using that z f(14) by (intro tree_at_reparent) auto
    ultimately show "tree_at ?s m l (av_left s n)" "tree_at ?s m r (av_right s n)"
      using o z by (cases "l = Leaf"; cases "r = Leaf"; simp add: take_place_def Let_def)+
  qed
  show "pos (replace_child q n m ?s) (Node l m r) m q c"
    using 1 2 3 q m f set_ctx [of c] by (auto simp: pos_def)
  show "av_balance ?s = av_balance s" "same_rest s ?s"
    by (simp_all add: take_place_def Let_def)
qed

lemma avl_delete_swap_place:
  assumes "m \<noteq> n" "av_left s n \<noteq> m" "av_right s n \<noteq> m" "m \<noteq> 0"
  shows "avl_delete_swap s n m = replace_child (av_parent s n) n m (take_place n m (set_balance m (av_balance s n) s))"
proof -
  have c1: "set_balance m b (set_parent p v s') = set_parent p v (set_balance m b s')" for b p v and s' :: "'a avl"
    by (simp add: set_balance_def set_parent_def)
  show ?thesis
    using assms by (auto simp: avl_delete_swap_def take_place_def Let_def)
qed

text \<open>The minimum of a subtree is at the end of its left spine.\<close>

lemma local_min_at:
  assumes "tree_at s q t p" "t \<noteq> Leaf"
  shows "\<exists>d m rr. t = plug d (Node Leaf m rr) \<and> ctx_pre d = [] \<and> avl_local_min s p = Some m"
  using assms
proof (induction t arbitrary: p q)
  case (Node l a r)
  show ?case
  proof (cases "l = Leaf")
    case True
    then have "avl_local_min s p = Some a" using Node.prems by (subst avl_local_min.simps) auto
    then show ?thesis using True by (intro exI [of _ "[]"] exI [of _ a] exI [of _ r]) simp
  next
    case False
    then obtain d m rr where d: "l = plug d (Node Leaf m rr)" "ctx_pre d = []" "avl_local_min s (av_left s a) = Some m"
      using Node.IH(1) [of a "av_left s a"] Node.prems(1) by auto
    have "plug (d @ [L a r]) t = Node (plug d t) a r" "ctx_pre (d @ [L a r]) = ctx_pre d" for t
      by (induction d t rule: plug.induct) auto
    moreover have "av_left s a \<noteq> 0" using Node.prems(1) False tree_at_NULL by fastforce
    ultimately show ?thesis
      using d Node.prems(1) by (intro exI [of _ "d @ [L a r]"] exI [of _ m] exI [of _ rr])
        (simp add: avl_local_min.simps [of s a])
  qed
qed simp

lemma plug_append: "plug (d @ e) t = plug e (plug d t)"
  by (induction d t rule: plug.induct) auto

lemma ctx_append: "ctx_pre (d @ e) = ctx_pre e @ ctx_pre d" "ctx_post (d @ e) = ctx_post d @ ctx_post e"
  by (induction d rule: ctx_set.induct) auto

lemma in_tree_plug: "a \<in> set_tree t \<Longrightarrow> \<exists>c l r. t = plug c (Node l a r)"
proof (induction t)
  case (Node l b r)
  consider "a = b" | "a \<in> set_tree l" | "a \<in> set_tree r" using Node.prems by auto
  then show ?case
  proof cases
    case 1
    then show ?thesis by (metis plug.simps(1))
  next
    case 2
    then obtain c l' r' where "l = plug c (Node l' a r')" using Node.IH(1) by blast
    then have "Node l b r = plug (c @ [L b r]) (Node l' a r')" by (simp add: plug_append)
    then show ?thesis by blast
  next
    case 3
    then obtain c l' r' where "r = plug c (Node l' a r')" using Node.IH(2) by blast
    then have "Node l b r = plug (c @ [R l b]) (Node l' a r')" by (simp add: plug_append)
    then show ?thesis by blast
  qed
qed simp

lemma pos_shape: "pos s t p q c \<Longrightarrow> bal (av_balance s) t \<Longrightarrow> cbal (av_balance s) (height t) c \<Longrightarrow>
    avl_shape s (plug c t)"
  using plug_at [of s q t p c] by (auto simp: avl_shape_def pos_def bal_plug inorder_plug)

lemma shape_pos:
  assumes "avl_shape s (plug c (Node l n r))"
  obtains q where "pos s (Node l n r) n q c" "bal (av_balance s) (Node l n r)"
    "cbal (av_balance s) (height (Node l n r)) c"
proof -
  have s: "tree_at s 0 (plug c (Node l n r)) (av_root s)" "distinct (inorder (plug c (Node l n r)))"
    "bal (av_balance s) (plug c (Node l n r))" using assms by (auto simp: avl_shape_def)
  obtain p q where "tree_at s q (Node l n r) p" "ctx_at s p q c" using unplug_at [OF s(1)] .
  moreover from this(1) have "p = n" by simp
  ultimately have "pos s (Node l n r) n q c" using s(2) by (auto simp: pos_def inorder_plug)
  then show thesis using s(3) that by (simp add: bal_plug del: bal.simps)
qed

text \<open>A node can be replaced in place by one that is not in the tree.\<close>

lemma take_place_shape:
  assumes "pos s (Node l n r) n q c" "bal (av_balance s) (Node l n r)" "cbal (av_balance s) (height (Node l n r)) c"
    "m \<noteq> 0" "m \<notin> set_tree (Node l n r) \<union> ctx_set c"
  shows "rebuilt s (replace_child q n m (take_place n m (set_balance m (av_balance s n) s)))
    (ctx_pre c @ inorder (Node l m r) @ ctx_post c)"
proof -
  let ?s1 = "set_balance m (av_balance s n) s"
  let ?s2 = "replace_child q n m (take_place n m ?s1)"
  have p: "pos ?s1 (Node l n r) n q c" using assms(1) by simp
  note t = take_place_pos [OF p assms(4,5)]
  have b: "av_balance ?s2 = (av_balance s)(m := av_balance s n)" using t(2) by simp
  have x: "same_rest s ?s2" using same_rest_trans [OF _ t(3), of s] by simp
  have y: "bal (av_balance ?s2) (Node l m r)" using assms(2,5) unfolding b by auto
  have z: "cbal (av_balance ?s2) (height (Node l m r)) c" using assms(3,5) unfolding b by simp
  show ?thesis by (rule rebuilt_trans [OF x rebuilt_here [OF t(1) y z]])
qed

lemma distinct_split_unique:
  "xs @ n # ys = xs' @ n # ys' \<Longrightarrow> distinct (xs' @ n # ys') \<Longrightarrow> xs = xs' \<and> ys = ys'"
proof (induction xs arbitrary: xs')
  case Nil
  then show ?case by (cases xs') auto
next
  case (Cons x xs)
  then show ?case by (cases xs') auto
qed

lemma delete_worker_rebuilt:
  assumes p: "pos s (Node l n r) n q c" and b: "bal (av_balance s) (Node l n r)"
    and cb: "cbal (av_balance s) (height (Node l n r)) c"
  shows "\<exists>s'. avl_delete_worker s n = Some s' \<and> rebuilt s s' (ctx_pre c @ inorder l @ inorder r @ ctx_post c)"
proof (cases "l = Leaf \<or> r = Leaf")
  case True
  then show ?thesis using delete_simple_rebuilt [OF p _ b cb] by blast
next
  case False
  have tr: "tree_at s n r (av_right s n)" "av_left s n \<noteq> 0" "av_right s n \<noteq> 0"
    using p False tree_at_NULL [of s n l] tree_at_NULL [of s n r] by (auto simp: pos_def)
  obtain d m rr where d: "r = plug d (Node Leaf m rr)" "ctx_pre d = []" "avl_local_min s (av_right s n) = Some m"
    using local_min_at [OF tr(1)] False by blast
  let ?c2 = "d @ R l n # c"
  have T: "plug c (Node l n r) = plug ?c2 (Node Leaf m rr)" by (simp add: plug_append d(1))
  have r: "inorder r = m # inorder rr @ ctx_post d" by (simp add: d inorder_plug)
  obtain q2 where p2: "pos s (Node Leaf m rr) m q2 ?c2" "bal (av_balance s) (Node Leaf m rr)"
    "cbal (av_balance s) (height (Node Leaf m rr)) ?c2"
    using pos_shape [OF p b cb] unfolding T by (rule shape_pos)
  let ?ns = "(ctx_pre c @ inorder l) @ n # (inorder rr @ ctx_post d @ ctx_post c)"
  obtain s1 where s1: "avl_delete_worker s m = Some s1" "rebuilt s s1 ?ns"
    using delete_simple_rebuilt [OF p2(1) _ p2(2,3)] by (auto simp: ctx_append d(2))
  then obtain T1 where T1: "avl_shape s1 T1" "inorder T1 = ?ns" "same_rest s s1" by (auto simp: rebuilt_def)
  then have "n \<in> set_tree T1" by (simp flip: set_inorder)
  then obtain c1 l1 r1 where c1: "T1 = plug c1 (Node l1 n r1)" using in_tree_plug by metis
  obtain q1 where p1: "pos s1 (Node l1 n r1) n q1 c1" "bal (av_balance s1) (Node l1 n r1)"
    "cbal (av_balance s1) (height (Node l1 n r1)) c1"
    using T1(1) unfolding c1 by (rule shape_pos)
  have "(ctx_pre c1 @ inorder l1) @ n # (inorder r1 @ ctx_post c1) = ?ns"
    using T1(2) by (simp add: c1 inorder_plug)
  moreover have "distinct ?ns" using T1(1,2) by (simp add: avl_shape_def)
  ultimately have ns: "ctx_pre c1 @ inorder l1 = ctx_pre c @ inorder l"
    "inorder r1 @ ctx_post c1 = inorder rr @ ctx_post d @ ctx_post c"
    using distinct_split_unique by metis+
  have "m \<notin> set ?ns" "m \<noteq> 0"
    using p tree_at_nonzero [OF tr(1)] unfolding pos_def by (auto simp: r d(1) inorder_plug simp flip: set_inorder)
  moreover have "set_tree (Node l1 n r1) \<union> ctx_set c1 = set ?ns"
    unfolding T1(2) [symmetric] c1 inorder_plug by (auto simp flip: set_ctx)
  ultimately have m: "m \<noteq> 0" "m \<notin> set_tree (Node l1 n r1) \<union> ctx_set c1" by blast+
  have "av_left s1 n \<noteq> m" "av_right s1 n \<noteq> m" "m \<noteq> n" "av_parent s1 n = q1"
    using p1(1) m tree_at_root [of s1 n l1 "av_left s1 n"] tree_at_root [of s1 n r1 "av_right s1 n"]
    by (auto simp: pos_def)
  then have "rebuilt s1 (avl_delete_swap s1 n m) (ctx_pre c1 @ inorder (Node l1 m r1) @ ctx_post c1)"
    using take_place_shape [OF p1 m] m(1) by (simp add: avl_delete_swap_place)
  moreover have "ctx_pre c1 @ inorder (Node l1 m r1) @ ctx_post c1 = (ctx_pre c1 @ inorder l1) @ m # (inorder r1 @ ctx_post c1)"
    by simp
  ultimately have "rebuilt s (avl_delete_swap s1 n m) (ctx_pre c @ inorder l @ inorder r @ ctx_post c)"
    unfolding ns r by (auto intro: rebuilt_trans [OF T1(3)])
  then show ?thesis
    using d(3) s1(1) tr by (subst avl_delete_worker.simps) simp
qed

end
