(* ===== verification/AvlMap.thy ===== *)
theory AvlMap
  imports AvlDelete
begin

text \<open>
  AVL trees as sorted sequences of nodes. The invariant connects the three structures a tree is made
  of (the balanced tree of the leaders, the linked list of all nodes, the groups of equal keys) and
  each operation of \<^verbatim>\<open>avl.c\<close> is shown to be the operation on the sorted sequence of its nodes.
\<close>

section \<open>Comparators\<close>

text \<open>What \<^verbatim>\<open>avl.h\<close> asks of a comparator: the sign tells the order of two keys.\<close>

locale comparator =
  fixes cmp :: "'k \<Rightarrow> 'k \<Rightarrow> int"
  assumes cmp_flip: "sgn (cmp x y) = - sgn (cmp y x)"
    and cmp_le_trans: "cmp x y \<le> 0 \<Longrightarrow> cmp y z \<le> 0 \<Longrightarrow> cmp x z \<le> 0"
begin

lemma cmp_less_iff: "cmp x y < 0 \<longleftrightarrow> 0 < cmp y x"
  using cmp_flip [of x y] by (simp add: sgn_if split: if_splits)

lemma cmp_refl [simp]: "cmp x x = 0"
  using cmp_flip [of x x] by (simp add: sgn_if split: if_splits)

lemma cmp_eq_iff: "cmp x y = 0 \<longleftrightarrow> cmp y x = 0"
  using cmp_flip [of x y] by (simp add: sgn_if split: if_splits)

lemma cmp_le_iff: "cmp x y \<le> 0 \<longleftrightarrow> 0 \<le> cmp y x"
  using cmp_flip [of x y] by (simp add: sgn_if split: if_splits)

lemma cmp_less_le_trans: "cmp x y < 0 \<Longrightarrow> cmp y z \<le> 0 \<Longrightarrow> cmp x z < 0"
  by (metis cmp_le_iff cmp_le_trans cmp_less_iff linorder_not_le order_less_imp_le)

lemma cmp_le_less_trans: "cmp x y \<le> 0 \<Longrightarrow> cmp y z < 0 \<Longrightarrow> cmp x z < 0"
  by (metis cmp_le_iff cmp_le_trans cmp_less_iff linorder_not_le order_less_imp_le)

lemma cmp_less_trans: "cmp x y < 0 \<Longrightarrow> cmp y z < 0 \<Longrightarrow> cmp x z < 0"
  using cmp_less_le_trans by fastforce

lemma cmp_eq_right: "cmp y z = 0 \<Longrightarrow> sgn (cmp x y) = sgn (cmp x z)"
  by (smt (verit) cmp_eq_iff cmp_le_iff cmp_le_trans cmp_less_iff sgn_if)

lemma cmp_eq_left: "cmp x y = 0 \<Longrightarrow> sgn (cmp x z) = sgn (cmp y z)"
  using cmp_eq_right [of x y z] cmp_flip by (metis cmp_eq_iff)

end

section \<open>The invariant\<close>

type_synonym group = "ptr \<times> ptr list"

definition flat :: "group list \<Rightarrow> ptr list" where
  "flat gs = concat (map (\<lambda>(a, ds). a # ds) gs)"

lemma flat_simps [simp]: "flat [] = []" "flat ((a, ds) # gs) = a # ds @ flat gs" "flat (gs @ hs) = flat gs @ flat hs"
  by (simp_all add: flat_def)

lemma flat_Nil [simp]: "flat gs = [] \<longleftrightarrow> gs = []"
  by (cases gs) auto

lemma set_fst_flat: "fst ` set gs \<subseteq> set (flat gs)"
  by (induction gs) auto

text \<open>The part of the invariant that does not look at the tree.\<close>

definition groups_ok :: "'k avl \<Rightarrow> group list \<Rightarrow> bool" where
  "groups_ok s gs \<longleftrightarrow> dll (av_list s) (av_head s) (flat gs) \<and> 0 \<notin> set (flat gs) \<and>
     (\<forall>(a, ds)\<in>set gs. av_leader s a \<and>
        (\<forall>d\<in>set ds. \<not> av_leader s d \<and> av_comp s (av_key s d) (av_key s a) = 0)) \<and>
     sorted_wrt (\<lambda>g h. av_comp s (av_key s (fst g)) (av_key s (fst h)) < 0) gs \<and>
     (\<not> av_allow_dups s \<longrightarrow> (\<forall>g\<in>set gs. snd g = [])) \<and>
     av_count s = of_nat (length (flat gs))"

definition avl_groups :: "'k avl \<Rightarrow> group list \<Rightarrow> bool" where
  "avl_groups s gs \<longleftrightarrow> groups_ok s gs \<and> (\<exists>t. avl_shape s t \<and> inorder t = map fst gs)"

text \<open>A tree that holds the nodes \<open>xs\<close>, in list order.\<close>

definition avl_repr :: "'k avl \<Rightarrow> ptr list \<Rightarrow> bool" where
  "avl_repr s xs \<longleftrightarrow> (\<exists>gs. avl_groups s gs \<and> xs = flat gs)"

lemma groups_ok_same: "same_rest s s' \<Longrightarrow> groups_ok s' gs \<longleftrightarrow> groups_ok s gs"
  by (simp add: groups_ok_def same_rest_def)

lemma avl_groups_rebuilt:
  "groups_ok s gs \<Longrightarrow> rebuilt s s' (map fst gs) \<Longrightarrow> avl_groups s' gs"
  by (auto simp: avl_groups_def rebuilt_def groups_ok_same)

lemma avl_groups_root: "avl_groups s gs \<Longrightarrow> av_root s = 0 \<longleftrightarrow> gs = []"
proof -
  assume "avl_groups s gs"
  then obtain t where t: "tree_at s 0 t (av_root s)" "inorder t = map fst gs"
    by (auto simp: avl_groups_def avl_shape_def)
  have "gs = [] \<longleftrightarrow> t = Leaf" using t(2) by (cases t) auto
  then show ?thesis using tree_at_NULL [OF t(1)] by simp
qed

lemma avl_init_groups: "avl_groups (avl_init cmp dups s) []"
proof -
  have "avl_shape (avl_init cmp dups s) Leaf" by (simp add: avl_shape_def avl_init_def)
  then show ?thesis
    by (auto simp: avl_groups_def groups_ok_def INIT_LIST_HEAD_dll avl_init_def intro!: exI [of _ Leaf])
qed

section \<open>Searching\<close>

definition sorted_keys :: "'k avl \<Rightarrow> ptr list \<Rightarrow> bool" where
  "sorted_keys s as \<longleftrightarrow> sorted_wrt (\<lambda>a b. av_comp s (av_key s a) (av_key s b) < 0) as"

lemma groups_sorted_keys: "groups_ok s gs \<Longrightarrow> sorted_keys s (map fst gs)"
  by (simp add: groups_ok_def sorted_keys_def sorted_wrt_map)

text \<open>\<^verbatim>\<open>avl_find_rec\<close> ends at the node with the key, or next to the gap the key belongs in.\<close>

lemma find_rec_position:
  assumes "comparator (av_comp s)" "tree_at s q t p" "t \<noteq> Leaf" "sorted_keys s (inorder t)"
  shows "\<exists>c l a r. t = plug c (Node l a r) \<and> avl_find_rec s p k = Some (a, av_comp s k (av_key s a)) \<and>
    (av_comp s k (av_key s a) < 0 \<longrightarrow> l = Leaf) \<and> (0 < av_comp s k (av_key s a) \<longrightarrow> r = Leaf) \<and>
    (\<forall>x\<in>set (ctx_pre c). 0 < av_comp s k (av_key s x)) \<and> (\<forall>x\<in>set (ctx_post c). av_comp s k (av_key s x) < 0)"
  using assms(2-4)
proof (induction t arbitrary: p q)
  case (Node l a r)
  note cmp = comparator.cmp_less_trans [OF assms(1)] comparator.cmp_less_iff [OF assms(1)]
  have p: "p = a" "tree_at s a l (av_left s a)" "tree_at s a r (av_right s a)"
    using Node.prems(1) by auto
  have srt: "sorted_keys s (inorder l)" "sorted_keys s (inorder r)"
    "\<forall>x\<in>set_tree l. av_comp s (av_key s x) (av_key s a) < 0" "\<forall>x\<in>set_tree r. av_comp s (av_key s a) (av_key s x) < 0"
    using Node.prems(3) by (auto simp: sorted_keys_def sorted_wrt_append)
  let ?d = "av_comp s k (av_key s a)"
  consider "?d = 0 \<or> ?d < 0 \<and> l = Leaf \<or> 0 < ?d \<and> r = Leaf" | "?d < 0" "l \<noteq> Leaf" | "0 < ?d" "r \<noteq> Leaf" by linarith
  then show ?case
  proof cases
    case 1
    then have "avl_find_rec s p k = Some (a, ?d)"
      using p tree_at_NULL [OF p(2)] tree_at_NULL [OF p(3)] by (subst avl_find_rec.simps) (auto simp: Let_def)
    then show ?thesis using 1 by (intro exI [of _ "[]"] exI [of _ l] exI [of _ a] exI [of _ r]) auto
  next
    case 2
    then obtain c l' b r' where *: "l = plug c (Node l' b r')"
      "avl_find_rec s (av_left s a) k = Some (b, av_comp s k (av_key s b))"
      "av_comp s k (av_key s b) < 0 \<longrightarrow> l' = Leaf" "0 < av_comp s k (av_key s b) \<longrightarrow> r' = Leaf"
      "\<forall>x\<in>set (ctx_pre c). 0 < av_comp s k (av_key s x)" "\<forall>x\<in>set (ctx_post c). av_comp s k (av_key s x) < 0"
      using Node.IH(1) [OF p(2) _ srt(1)] by metis
    have "avl_find_rec s p k = Some (b, av_comp s k (av_key s b))"
      using 2 p(1) tree_at_NULL [OF p(2)] *(2) by (subst avl_find_rec.simps) (auto simp: Let_def)
    moreover have "\<forall>x\<in>set_tree r. av_comp s k (av_key s x) < 0"
      using 2(1) srt(4) cmp(1) by blast
    ultimately show ?thesis
      using * 2(1) by (intro exI [of _ "c @ [L a r]"] exI [of _ l'] exI [of _ b] exI [of _ r'])
        (auto simp: plug_append ctx_append)
  next
    case 3
    then obtain c l' b r' where *: "r = plug c (Node l' b r')"
      "avl_find_rec s (av_right s a) k = Some (b, av_comp s k (av_key s b))"
      "av_comp s k (av_key s b) < 0 \<longrightarrow> l' = Leaf" "0 < av_comp s k (av_key s b) \<longrightarrow> r' = Leaf"
      "\<forall>x\<in>set (ctx_pre c). 0 < av_comp s k (av_key s x)" "\<forall>x\<in>set (ctx_post c). av_comp s k (av_key s x) < 0"
      using Node.IH(2) [OF p(3) _ srt(2)] by metis
    have "avl_find_rec s p k = Some (b, av_comp s k (av_key s b))"
      using 3 p(1) tree_at_NULL [OF p(3)] *(2) by (subst avl_find_rec.simps) (auto simp: Let_def)
    moreover have "\<forall>x\<in>set_tree l. 0 < av_comp s k (av_key s x)"
      using 3(1) srt(3) cmp by blast
    ultimately show ?thesis
      using * 3(1) by (intro exI [of _ "c @ [R l a]"] exI [of _ l'] exI [of _ b] exI [of _ r'])
        (auto simp: plug_append ctx_append)
  qed
qed simp

text \<open>The keys of a group agree with the key of its leader.\<close>

lemma group_signs:
  assumes "comparator (av_comp s)" "groups_ok s gs"
  shows "(a, ds) \<in> set gs \<Longrightarrow> x \<in> set (a # ds) \<Longrightarrow>
      sgn (av_comp s k (av_key s x)) = sgn (av_comp s k (av_key s a))"
  using assms(2) comparator.cmp_eq_right [OF assms(1)] by (fastforce simp: groups_ok_def)

lemma flat_signs:
  assumes "comparator (av_comp s)" "groups_ok s gs" "set hs \<subseteq> set gs"
  shows "(\<forall>a\<in>fst ` set hs. 0 < av_comp s k (av_key s a)) \<Longrightarrow> x \<in> set (flat hs) \<Longrightarrow> 0 < av_comp s k (av_key s x)"
    and "(\<forall>a\<in>fst ` set hs. av_comp s k (av_key s a) < 0) \<Longrightarrow> x \<in> set (flat hs) \<Longrightarrow> av_comp s k (av_key s x) < 0"
proof -
  have "\<exists>a ds. (a, ds) \<in> set gs \<and> (a, ds) \<in> set hs \<and> x \<in> set (a # ds)" if "x \<in> set (flat hs)"
    using that assms(3) by (auto simp: flat_def)
  then show "(\<forall>a\<in>fst ` set hs. 0 < av_comp s k (av_key s a)) \<Longrightarrow> x \<in> set (flat hs) \<Longrightarrow> 0 < av_comp s k (av_key s x)"
    "(\<forall>a\<in>fst ` set hs. av_comp s k (av_key s a) < 0) \<Longrightarrow> x \<in> set (flat hs) \<Longrightarrow> av_comp s k (av_key s x) < 0"
    using group_signs [OF assms(1,2)] by (metis image_eqI fst_conv sgn_1_pos sgn_1_neg)+
qed

lemma map_fst_split:
  "map fst gs = xs @ a # ys \<Longrightarrow> \<exists>as ds bs. gs = as @ (a, ds) # bs \<and> map fst as = xs \<and> map fst bs = ys"
proof (induction xs arbitrary: gs)
  case Nil
  then show ?case by (intro exI [of _ "[]"]) (cases gs; auto)
next
  case (Cons x xs)
  then obtain g gs' where "gs = g # gs'" by (cases gs) auto
  then show ?case using Cons by (metis append_Cons list.inject list.simps(9))
qed

lemma find_append: "find P (xs @ ys) = (case find P xs of None \<Rightarrow> find P ys | Some x \<Rightarrow> Some x)"
  by (induction xs) auto

lemma find_groups:
  assumes "comparator (av_comp s)" "avl_groups s gs" "gs \<noteq> []"
  obtains c l a r as ds bs where "avl_shape s (plug c (Node l a r))"
    "avl_find_rec s (av_root s) k = Some (a, av_comp s k (av_key s a))"
    "av_comp s k (av_key s a) < 0 \<longrightarrow> l = Leaf" "0 < av_comp s k (av_key s a) \<longrightarrow> r = Leaf"
    "gs = as @ (a, ds) # bs" "map fst as = ctx_pre c @ inorder l" "map fst bs = inorder r @ ctx_post c"
    "\<forall>x\<in>set (flat as). 0 < av_comp s k (av_key s x)" "\<forall>x\<in>set (flat bs). av_comp s k (av_key s x) < 0"
    "\<forall>d\<in>set ds. sgn (av_comp s k (av_key s d)) = sgn (av_comp s k (av_key s a))"
proof -
  have g: "groups_ok s gs" using assms(2) by (simp add: avl_groups_def)
  obtain t where t: "avl_shape s t" "inorder t = map fst gs" using assms(2) by (auto simp: avl_groups_def)
  have "t \<noteq> Leaf" using t(2) assms(3) by auto
  moreover have "tree_at s 0 t (av_root s)" "sorted_keys s (inorder t)"
    using t groups_sorted_keys [OF g] by (simp_all add: avl_shape_def)
  ultimately obtain c l a r where *: "t = plug c (Node l a r)"
    "avl_find_rec s (av_root s) k = Some (a, av_comp s k (av_key s a))"
    "av_comp s k (av_key s a) < 0 \<longrightarrow> l = Leaf" "0 < av_comp s k (av_key s a) \<longrightarrow> r = Leaf"
    "\<forall>x\<in>set (ctx_pre c). 0 < av_comp s k (av_key s x)" "\<forall>x\<in>set (ctx_post c). av_comp s k (av_key s x) < 0"
    using find_rec_position [OF assms(1), of 0 t "av_root s" k] by blast
  have "map fst gs = (ctx_pre c @ inorder l) @ a # (inorder r @ ctx_post c)"
    using t(2) by (simp add: *(1) inorder_plug)
  then obtain as ds bs where gs: "gs = as @ (a, ds) # bs" "map fst as = ctx_pre c @ inorder l"
    "map fst bs = inorder r @ ctx_post c"
    using map_fst_split by metis
  have "sorted_keys s (ctx_pre c @ inorder l @ a # inorder r @ ctx_post c)"
    using groups_sorted_keys [OF g] t(2) unfolding *(1) inorder_plug inorder.simps by simp
  then have srt: "\<forall>x\<in>set_tree l. av_comp s (av_key s x) (av_key s a) < 0"
    "\<forall>x\<in>set_tree r. av_comp s (av_key s a) (av_key s x) < 0"
    by (auto simp: sorted_keys_def sorted_wrt_append)
  have "\<forall>x\<in>set_tree l. 0 < av_comp s k (av_key s x)"
    using *(3) srt(1) comparator.cmp_le_iff [OF assms(1)] comparator.cmp_less_le_trans [OF assms(1)]
      comparator.cmp_less_iff [OF assms(1)] by (metis empty_iff linorder_not_le tree.set(1))
  moreover have "\<forall>x\<in>set_tree r. av_comp s k (av_key s x) < 0"
    using *(4) srt(2) comparator.cmp_le_less_trans [OF assms(1)] by (metis empty_iff linorder_not_le tree.set(1))
  ultimately have sg: "\<forall>x\<in>fst ` set as. 0 < av_comp s k (av_key s x)" "\<forall>x\<in>fst ` set bs. av_comp s k (av_key s x) < 0"
    using *(5,6) unfolding set_map [symmetric] gs(2,3) by auto
  have sub: "set as \<subseteq> set gs" "set bs \<subseteq> set gs" "(a, ds) \<in> set gs" using gs(1) by auto
  have "\<forall>d\<in>set ds. sgn (av_comp s k (av_key s d)) = sgn (av_comp s k (av_key s a))"
    by (intro ballI group_signs [OF assms(1) g sub(3)]) simp
  with *(2-4) gs t(1) flat_signs(1) [OF assms(1) g sub(1) sg(1)] flat_signs(2) [OF assms(1) g sub(2) sg(2)]
  show thesis unfolding *(1) by (intro that) auto
qed

lemma avl_find_repr:
  assumes "comparator (av_comp s)" "avl_repr s xs"
  shows "avl_find s k = Some (case find (\<lambda>x. av_comp s k (av_key s x) = 0) xs of None \<Rightarrow> 0 | Some x \<Rightarrow> x)"
proof -
  obtain gs where gs: "avl_groups s gs" "xs = flat gs" using assms(2) by (auto simp: avl_repr_def)
  show ?thesis
  proof (cases "gs = []")
    case True
    then show ?thesis using gs avl_groups_root [OF gs(1)] by (simp add: avl_find_def)
  next
    case False
    then obtain a as ds bs where *: "avl_find_rec s (av_root s) k = Some (a, av_comp s k (av_key s a))"
      "gs = as @ (a, ds) # bs" "\<forall>x\<in>set (flat as). 0 < av_comp s k (av_key s x)"
      "\<forall>x\<in>set (flat bs). av_comp s k (av_key s x) < 0"
      "\<forall>d\<in>set ds. sgn (av_comp s k (av_key s d)) = sgn (av_comp s k (av_key s a))"
      by (rule find_groups [OF assms(1) gs(1)])
    have "find (\<lambda>x. av_comp s k (av_key s x) = 0) (flat as) = None"
      using *(3) by (auto simp: find_None_iff)
    moreover have "find (\<lambda>x. av_comp s k (av_key s x) = 0) (ds @ flat bs) = None" if "av_comp s k (av_key s a) \<noteq> 0"
      using *(4,5) that by (auto simp: find_None_iff sgn_0_0)
    ultimately show ?thesis
      using * False avl_groups_root [OF gs(1)] gs(2) by (auto simp: avl_find_def find_append split: option.splits)
  qed
qed

section \<open>Insertion\<close>

lemma avl_insert_list_sel [simp]:
  "av_parent (avl_insert_before s p n) = av_parent s" "av_left (avl_insert_before s p n) = av_left s"
  "av_right (avl_insert_before s p n) = av_right s" "av_root (avl_insert_before s p n) = av_root s"
  "av_balance (avl_insert_before s p n) = av_balance s"
  "av_parent (avl_insert_after s p n) = av_parent s" "av_left (avl_insert_after s p n) = av_left s"
  "av_right (avl_insert_after s p n) = av_right s" "av_root (avl_insert_after s p n) = av_root s"
  "av_balance (avl_insert_after s p n) = av_balance s"
  "av_parent (avl_remove s n) = av_parent s" "av_left (avl_remove s n) = av_left s"
  "av_right (avl_remove s n) = av_right s" "av_root (avl_remove s n) = av_root s"
  "av_balance (avl_remove s n) = av_balance s"
  by (simp_all add: avl_insert_before_def avl_insert_after_def avl_remove_def)

lemma tree_at_list [simp]:
  "tree_at (avl_insert_before s p' n) q t p \<longleftrightarrow> tree_at s q t p"
  "tree_at (avl_insert_after s p' n) q t p \<longleftrightarrow> tree_at s q t p"
  "tree_at (avl_remove s n) q t p \<longleftrightarrow> tree_at s q t p"
  by (rule tree_at_frame; simp)+

lemma ctx_at_list [simp]:
  "ctx_at (avl_insert_before s p' n) p q c \<longleftrightarrow> ctx_at s p q c"
  "ctx_at (avl_insert_after s p' n) p q c \<longleftrightarrow> ctx_at s p q c"
  by (rule ctx_at_frame; simp)+

lemma pos_list [simp]:
  "pos (avl_insert_before s p' n) t p q c \<longleftrightarrow> pos s t p q c"
  "pos (avl_insert_after s p' n) t p q c \<longleftrightarrow> pos s t p q c"
  by (simp_all add: pos_def)

lemma avl_shape_list [simp]:
  "avl_shape (avl_remove s n) t \<longleftrightarrow> avl_shape s t"
  "avl_shape (avl_insert_before s p n) t \<longleftrightarrow> avl_shape s t"
  "avl_shape (avl_insert_after s p n) t \<longleftrightarrow> avl_shape s t"
  "avl_shape (set_leader p b s) t \<longleftrightarrow> avl_shape s t"
  by (simp_all add: avl_shape_def)

lemma avl_new_sel [simp]:
  "av_root (avl_new new s) = av_root s" "av_list (avl_new new s) = av_list s" "av_head (avl_new new s) = av_head s"
  "av_key (avl_new new s) = av_key s" "av_comp (avl_new new s) = av_comp s"
  "av_allow_dups (avl_new new s) = av_allow_dups s" "av_count (avl_new new s) = av_count s"
  "av_leader (avl_new new s) = (av_leader s)(new := True)" "av_balance (avl_new new s) = (av_balance s)(new := 0)"
  "av_left (avl_new new s) new = 0" "av_right (avl_new new s) new = 0"
  by (simp_all add: avl_new_def set_leader_def set_balance_def set_right_def set_left_def set_parent_def)

lemma avl_shape_new: "new \<notin> set_tree t \<Longrightarrow> avl_shape (avl_new new s) t \<longleftrightarrow> avl_shape s t"
  by (simp add: avl_shape_def avl_new_def)

lemma groups_ok_new:
  assumes "groups_ok s gs" "new \<notin> set (flat gs)"
  shows "groups_ok (avl_new new s) gs"
proof -
  have "\<forall>(a, ds)\<in>set gs. a \<noteq> new \<and> new \<notin> set ds" using assms(2) by (auto simp: flat_def)
  then show ?thesis using assms(1) by (fastforce simp: groups_ok_def)
qed

text \<open>The new node as a group of its own, or as the last of the group of \<open>a\<close>.\<close>

definition inserted :: "'k avl \<Rightarrow> ptr \<Rightarrow> bool \<Rightarrow> ptr list \<Rightarrow> 'k avl \<Rightarrow> bool" where
  "inserted s new ld xs s' \<longleftrightarrow> av_head s' = av_head s \<and> av_allow_dups s' = av_allow_dups s \<and>
     av_comp s' = av_comp s \<and> av_key s' = av_key s \<and> av_leader s' = (av_leader s)(new := ld) \<and>
     dll (av_list s') (av_head s) xs \<and> av_count s' = av_count s + 1"

lemma inserted_same: "inserted s new ld xs s' \<Longrightarrow> same_rest s' s'' \<Longrightarrow> inserted s new ld xs s''"
  by (simp add: inserted_def same_rest_def)

lemma inserted_set [simp]:
  "inserted s new ld xs (set_parent p v s') = inserted s new ld xs s'"
  "inserted s new ld xs (set_left p v s') = inserted s new ld xs s'"
  "inserted s new ld xs (set_right p v s') = inserted s new ld xs s'"
  "inserted s new ld xs (set_balance p b s') = inserted s new ld xs s'"
  by (simp_all add: inserted_def set_parent_def set_left_def set_right_def set_balance_def)

lemma groups_insert_new:
  assumes "comparator (av_comp s)" "groups_ok s (as @ bs)" "new \<noteq> 0" "new \<notin> set (flat (as @ bs))"
    "\<forall>x\<in>set (flat as). 0 < av_comp s (av_key s new) (av_key s x)"
    "\<forall>x\<in>set (flat bs). av_comp s (av_key s new) (av_key s x) < 0"
    "inserted s new True (flat as @ new # flat bs) s'"
  shows "groups_ok s' (as @ (new, []) # bs)"
proof -
  have n: "\<forall>(a, ds)\<in>set (as @ bs). a \<noteq> new \<and> new \<notin> set ds" using assms(4) by (auto simp: flat_def)
  have "\<forall>g\<in>set as. av_comp s (av_key s (fst g)) (av_key s new) < 0"
    "\<forall>g\<in>set bs. av_comp s (av_key s new) (av_key s (fst g)) < 0"
    using assms(5,6) set_fst_flat [of as] set_fst_flat [of bs] comparator.cmp_less_iff [OF assms(1)] by auto
  then show ?thesis
    using assms(2-4,7) n by (fastforce simp: groups_ok_def inserted_def sorted_wrt_append)
qed

lemma groups_insert_dup:
  assumes "groups_ok s (as @ (a, ds) # bs)" "new \<noteq> 0" "new \<notin> set (flat (as @ (a, ds) # bs))"
    "av_comp s (av_key s new) (av_key s a) = 0" "av_allow_dups s"
    "inserted s new False (flat as @ a # ds @ new # flat bs) s'"
  shows "groups_ok s' (as @ (a, ds @ [new]) # bs)"
proof -
  have n: "\<forall>(a, ds)\<in>set (as @ (a, ds) # bs). a \<noteq> new \<and> new \<notin> set ds" using assms(3) by (auto simp: flat_def)
  then show ?thesis
    using assms by (fastforce simp: groups_ok_def inserted_def sorted_wrt_append)
qed

text \<open>The end of a group in the list.\<close>

lemma dll_last_iff: "dll h head (xs @ e # ys) \<Longrightarrow> list_is_last e head h \<longleftrightarrow> ys = []"
  by (cases ys) (auto simp: dll_def chain_append list_is_last_def)

lemma dll_first_iff: "dll h head (xs @ e # ys) \<Longrightarrow> list_is_first e head h \<longleftrightarrow> xs = []"
  by (cases xs rule: rev_cases) (auto simp: dll_def chain_append list_is_first_def)

lemma dll_nxt: "dll h head (xs @ e # y # ys) \<Longrightarrow> nxt h e = y"
  by (simp add: dll_def chain_append)

lemma dll_prv: "dll h head (xs @ y # e # ys) \<Longrightarrow> prv h e = y"
  by (simp add: dll_def chain_append)

lemma group_last_at:
  assumes "dll (av_list s) (av_head s) (xs @ a # ds @ ys)" "\<forall>d\<in>set ds. \<not> av_leader s d"
    "ys \<noteq> [] \<longrightarrow> av_leader s (hd ys)"
  shows "avl_group_last s a = Some (last (a # ds))"
  using assms
proof (induction ds arbitrary: xs a)
  case Nil
  then show ?case
    using dll_last_iff [of "av_list s" "av_head s" xs a ys] dll_nxt [of "av_list s" "av_head s" xs a]
    by (subst avl_group_last.simps) (cases ys; auto simp: avl_next_def Let_def)
next
  case (Cons d ds)
  have "avl_group_last s d = Some (last (d # ds))"
    using Cons.prems by (intro Cons.IH [of "xs @ [a]"]) auto
  then show ?case
    using Cons.prems dll_last_iff [of "av_list s" "av_head s" xs a "d # ds @ ys"]
      dll_nxt [of "av_list s" "av_head s" xs a d "ds @ ys"]
    by (subst avl_group_last.simps) (auto simp: avl_next_def Let_def)
qed

lemma groups_last_at:
  assumes "groups_ok s (as @ (a, ds) # bs)"
  shows "avl_group_last s a = Some (last (a # ds))"
proof (rule group_last_at)
  show "dll (av_list s) (av_head s) (flat as @ a # ds @ flat bs)" using assms by (simp add: groups_ok_def)
  show "\<forall>d\<in>set ds. \<not> av_leader s d" using assms by (auto simp: groups_ok_def)
  show "flat bs \<noteq> [] \<longrightarrow> av_leader s (hd (flat bs))" using assms by (cases bs) (auto simp: groups_ok_def)
qed

text \<open>Hanging the new leaf below \<open>a\<close>.\<close>

lemma attach_left:
  assumes "pos s (Node Leaf a r) a q c" "new \<noteq> 0" "new \<notin> set_tree (Node Leaf a r) \<union> ctx_set c"
    "av_left s new = 0" "av_right s new = 0"
  shows "pos (set_left a new (set_parent new a s)) (Node (Node Leaf new Leaf) a r) a q c"
  using assms set_ctx [of c] by (auto simp: pos_def)

lemma attach_right:
  assumes "pos s (Node l a Leaf) a q c" "new \<noteq> 0" "new \<notin> set_tree (Node l a Leaf) \<union> ctx_set c"
    "av_left s new = 0" "av_right s new = 0"
  shows "pos (set_right a new (set_parent new a s)) (Node l a (Node Leaf new Leaf)) a q c"
  using assms set_ctx [of c] by (auto simp: pos_def)

lemma insert_before_at:
  "\<forall>x\<in>set xs. \<not> P x \<Longrightarrow> \<forall>y\<in>set ys. P y \<Longrightarrow> insert_before P x (xs @ ys) = xs @ x # ys"
  by (cases ys) (simp_all add: insert_before_def takeWhile_append2 dropWhile_append2)

text \<open>The structural half of an insertion beside \<open>a\<close>: the four ways to hang the leaf.\<close>

lemma attach_rebuilt:
  assumes p: "pos s (Node l a r) a q c" and b: "bal (av_balance s) (Node l a r)"
    and cb: "cbal (av_balance s) (height (Node l a r)) c"
    and new: "new \<noteq> 0" "new \<notin> set_tree (Node l a r) \<union> ctx_set c" "av_left s new = 0" "av_right s new = 0"
      "av_balance s new = 0"
  shows "l = Leaf \<Longrightarrow> av_balance s a = 1 \<Longrightarrow>
      rebuilt s (set_left a new (set_parent new a (set_balance a 0 s))) (ctx_pre c @ new # a # inorder r @ ctx_post c)"
    and "r = Leaf \<Longrightarrow> av_balance s a = -1 \<Longrightarrow>
      rebuilt s (set_right a new (set_parent new a (set_balance a 0 s))) (ctx_pre c @ inorder l @ a # new # ctx_post c)"
    and "l = Leaf \<Longrightarrow> r = Leaf \<Longrightarrow>
      \<exists>s'. post_insert (set_left a new (set_parent new a (set_balance a (-1) s))) a = Some s' \<and>
        rebuilt s s' (ctx_pre c @ new # a # ctx_post c)"
    and "l = Leaf \<Longrightarrow> r = Leaf \<Longrightarrow>
      \<exists>s'. post_insert (set_right a new (set_parent new a (set_balance a 1 s))) a = Some s' \<and>
        rebuilt s s' (ctx_pre c @ a # new # ctx_post c)"
proof -
  have an: "a \<noteq> new" "a \<notin> set_tree l" "a \<notin> set_tree r" "a \<notin> ctx_set c" "a \<noteq> 0"
    using new(2) pos_fresh [OF p] by auto
  have z: "height t = 1 \<longleftrightarrow> (\<exists>x. t = Node Leaf x Leaf)" for t :: "ptr tree"
    by (cases t) (auto simp: max_def split: if_splits)
  have tr: "same_rest s (set_left a new (set_parent new a (set_balance a v s)))"
    "same_rest s (set_right a new (set_parent new a (set_balance a v s)))" for v by simp_all
  {
    assume l: "l = Leaf"
    have pl: "pos (set_left a new (set_parent new a (set_balance a v s))) (Node (Node Leaf new Leaf) a r) a q c" for v
      using attach_left [of "set_balance a v s" a r q c new] p new l by simp
    show "av_balance s a = 1 \<Longrightarrow> rebuilt s (set_left a new (set_parent new a (set_balance a 0 s)))
        (ctx_pre c @ new # a # inorder r @ ctx_post c)"
      using rebuilt_here [OF pl [of 0]] b cb an new l rebuilt_trans [OF tr(1) [of 0]] by auto
    assume r: "r = Leaf"
    show "\<exists>s'. post_insert (set_left a new (set_parent new a (set_balance a (-1) s))) a = Some s' \<and>
        rebuilt s s' (ctx_pre c @ new # a # ctx_post c)"
      using post_insert_rebuilt [OF pl [of "-1"], of 1] b cb an new l r rebuilt_trans [OF tr(1) [of "-1"]] by auto
  }
  {
    assume r: "r = Leaf"
    have pr: "pos (set_right a new (set_parent new a (set_balance a v s))) (Node l a (Node Leaf new Leaf)) a q c" for v
      using attach_right [of "set_balance a v s" l a q c new] p new r by simp
    show "av_balance s a = -1 \<Longrightarrow> rebuilt s (set_right a new (set_parent new a (set_balance a 0 s)))
        (ctx_pre c @ inorder l @ a # new # ctx_post c)"
      using rebuilt_here [OF pr [of 0]] b cb an new r rebuilt_trans [OF tr(2) [of 0]] by auto
    assume l: "l = Leaf"
    show "\<exists>s'. post_insert (set_right a new (set_parent new a (set_balance a 1 s))) a = Some s' \<and>
        rebuilt s s' (ctx_pre c @ a # new # ctx_post c)"
      using post_insert_rebuilt [OF pr [of 1], of 1] b cb an new l r rebuilt_trans [OF tr(2) [of 1]] by auto
  }
qed

lemma avl_insert_nonempty:
  assumes cmp: "comparator (av_comp s)" and gs: "avl_groups s gs" "gs \<noteq> []"
    and new: "new \<noteq> 0" "new \<notin> set (av_head s # flat gs)"
  shows "\<exists>s' r gs'. avl_insert s new = Some (s', r) \<and> avl_groups s' gs' \<and>
    (if \<not> av_allow_dups s \<and> (\<exists>x\<in>set (flat gs). av_comp s (av_key s new) (av_key s x) = 0)
     then r = -1 \<and> gs' = gs \<and> inserted (s\<lparr>av_count := av_count s - 1\<rparr>) new True (flat gs) s'
     else r = 0 \<and> flat gs' = insert_before (\<lambda>y. av_comp s (av_key s new) (av_key s y) < 0) new (flat gs) \<and>
       (\<exists>ld xs. inserted s new ld xs s'))"
proof -
  let ?s = "avl_new new s"
  let ?k = "av_key s new"
  have g: "groups_ok s gs" and root: "av_root s \<noteq> 0"
    using gs avl_groups_root [OF gs(1)] by (auto simp: avl_groups_def)
  obtain t where t: "avl_shape s t" "inorder t = map fst gs" using gs(1) by (auto simp: avl_groups_def)
  have "set_tree t = fst ` set gs" using t(2) by (metis set_inorder set_map)
  then have "new \<notin> set_tree t" using new(2) set_fst_flat [of gs] by auto
  then have G: "avl_groups ?s gs"
    using t groups_ok_new [OF g, of new] new(2) avl_shape_new by (auto simp: avl_groups_def)
  have C: "comparator (av_comp ?s)" using cmp by simp
  obtain c l a r as ds bs where f: "avl_shape ?s (plug c (Node l a r))"
    "avl_find_rec ?s (av_root s) ?k = Some (a, av_comp s ?k (av_key s a))"
    "av_comp s ?k (av_key s a) < 0 \<longrightarrow> l = Leaf" "0 < av_comp s ?k (av_key s a) \<longrightarrow> r = Leaf"
    "gs = as @ (a, ds) # bs" "map fst as = ctx_pre c @ inorder l" "map fst bs = inorder r @ ctx_post c"
    "\<forall>x\<in>set (flat as). 0 < av_comp s ?k (av_key s x)" "\<forall>x\<in>set (flat bs). av_comp s ?k (av_key s x) < 0"
    "\<forall>d\<in>set ds. sgn (av_comp s ?k (av_key s d)) = sgn (av_comp s ?k (av_key s a))"
    by (rule find_groups [OF C G gs(2), of ?k, unfolded avl_new_sel])
  let ?d = "av_comp s ?k (av_key s a)"
  let ?P = "\<lambda>y. av_comp s ?k (av_key s y) < 0"
  have g0: "groups_ok ?s (as @ (a, ds) # bs)" using groups_ok_new [OF g] new(2) f(5) by simp
  have lst: "avl_group_last ?s a = Some (last (a # ds))" by (rule groups_last_at [OF g0])
  have dl: "dll (av_list s) (av_head s) (flat as @ a # ds @ flat bs)"
    "new \<notin> set (av_head s # flat as @ a # ds @ flat bs)"
    using g0 new(2) f(5) by (auto simp: groups_ok_def)
  have before: "inserted s new True (flat as @ new # a # ds @ flat bs) (avl_insert_before ?s a new)"
    using list_add_before_dll [OF dl] by (simp add: inserted_def avl_insert_before_def)
  have "dll (list_add new (last (a # ds)) (av_list s)) (av_head s) (flat as @ a # ds @ new # flat bs)"
  proof -
    have e: "xs @ a # ds @ ys = (xs @ butlast (a # ds)) @ last (a # ds) # ys" for xs ys
      by (cases ds rule: rev_cases) simp_all
    show ?thesis using dl list_add_after_dll unfolding e by blast
  qed
  then have after: "inserted s new True (flat as @ a # ds @ new # flat bs) (avl_insert_after ?s (last (a # ds)) new)"
    "inserted s new False (flat as @ a # ds @ new # flat bs) (avl_insert_after (set_leader new False ?s) (last (a # ds)) new)"
    by (simp_all add: inserted_def avl_insert_after_def set_leader_def)
  have ins: "avl_insert s new = (if ?d = 0 then if \<not> av_allow_dups s then Some (?s, -1)
        else Some (avl_insert_after (set_leader new False ?s) (last (a # ds)) new, 0)
      else if av_balance ?s a = 1 then Some (set_left a new (set_parent new a (set_balance a 0 (avl_insert_before ?s a new))), 0)
      else if av_balance ?s a = -1 then Some (set_right a new (set_parent new a (set_balance a 0 (avl_insert_after ?s (last (a # ds)) new))), 0)
      else if ?d < 0 then (post_insert (set_left a new (set_parent new a (set_balance a (-1) (avl_insert_before ?s a new)))) a) \<bind> (\<lambda>s. Some (s, 0))
      else (post_insert (set_right a new (set_parent new a (set_balance a 1 (avl_insert_after ?s (last (a # ds)) new)))) a) \<bind> (\<lambda>s. Some (s, 0)))"
    using root f(2) lst by (simp add: avl_insert_def Let_def del: avl_new_sel(8,9))
  obtain q where p: "pos ?s (Node l a r) a q c" "bal (av_balance ?s) (Node l a r)"
    "cbal (av_balance ?s) (height (Node l a r)) c"
    using f(1) by (rule shape_pos)
  have sgn_ds: "\<forall>x\<in>set (a # ds). sgn (av_comp s ?k (av_key s x)) = sgn ?d" using f(10) by simp
  show ?thesis
  proof (cases "?d = 0")
    case True
    then have z: "\<forall>x\<in>set (a # ds). av_comp s ?k (av_key s x) = 0" using sgn_ds by (simp add: sgn_0_0)
    show ?thesis
    proof (cases "av_allow_dups s")
      case nd: False
      have "inserted (s\<lparr>av_count := av_count s - 1\<rparr>) new True (flat gs) ?s"
        using dl(1) f(5) by (simp add: inserted_def)
      then show ?thesis using ins True nd G f(5) by (intro exI [of _ ?s] exI [of _ "-1"] exI [of _ gs]) simp
    next
      case dup: True
      let ?s' = "avl_insert_after (set_leader new False ?s) (last (a # ds)) new"
      let ?gs = "as @ (a, ds @ [new]) # bs"
      have "groups_ok ?s' ?gs"
        using g new True dup after(2) f(5) by (intro groups_insert_dup) auto
      moreover have "avl_shape ?s' (plug c (Node l a r))" "inorder (plug c (Node l a r)) = map fst ?gs"
        using f(1,6,7) by (simp_all add: inorder_plug)
      moreover have "insert_before ?P new ((flat as @ a # ds) @ flat bs) = (flat as @ a # ds) @ new # flat bs"
        using f(8,9) z by (intro insert_before_at) auto
      moreover have "\<exists>ld xs. inserted s new ld xs ?s'" using after(2) by blast
      ultimately show ?thesis
        using ins True dup f(5) by (intro exI [of _ ?s'] exI [of _ 0] exI [of _ ?gs]) (auto simp: avl_groups_def)
    qed
  next
    case nz: False
    have "ctx_pre c @ inorder (Node l a r) @ ctx_post c = map fst gs"
      using f(6,7) unfolding f(5) by simp
    then have "set (ctx_pre c @ inorder (Node l a r) @ ctx_post c) \<subseteq> set (flat gs)"
      using set_fst_flat [of gs] by (simp only: set_map)
    then have fresh: "new \<notin> set_tree (Node l a r) \<union> ctx_set c"
      using new(2) set_ctx [of c] by auto
    have nx: "\<not> (\<exists>x\<in>set (flat gs). av_comp s ?k (av_key s x) = 0)"
      using f(8,9) sgn_ds nz unfolding f(5) by (auto simp: sgn_0_0)
    have fin: ?thesis if "avl_insert s new = Some (s', 0)" "rebuilt ss s' (map fst gs')" "inserted s new True (flat gs') ss"
      "groups_ok ss gs'" "insert_before ?P new (flat gs) = flat gs'" for s' ss gs'
    proof -
      have "\<exists>ld xs. inserted s new ld xs s'"
        using that(2) inserted_same [OF that(3), of s'] by (auto simp: rebuilt_def)
      then show ?thesis
        using that nx avl_groups_rebuilt [OF that(4,2)]
        by (intro exI [of _ s'] exI [of _ 0] exI [of _ gs']) simp
    qed
    show ?thesis
    proof (cases "?d < 0")
      case neg: True
      let ?ss = "avl_insert_before ?s a new"
      let ?gs = "as @ (new, []) # (a, ds) # bs"
      have l: "l = Leaf" using f(3) neg by blast
      have ok: "groups_ok ?ss ?gs"
        using g new f(8,9) neg sgn_ds before f(5) by (intro groups_insert_new [OF cmp]) (auto simp: sgn_1_neg)
      have ib: "insert_before ?P new (flat gs) = flat ?gs"
        using f(8,9) neg sgn_ds unfolding f(5) by (simp add: sgn_1_neg) (subst insert_before_at; force)
      have pp: "pos ?ss (Node l a r) a q c" "bal (av_balance ?ss) (Node l a r)" "cbal (av_balance ?ss) (height (Node l a r)) c"
        "av_left ?ss new = 0" "av_right ?ss new = 0" "av_balance ?ss new = 0"
        using p by (simp_all only: pos_list avl_insert_list_sel) simp_all
      note at = attach_rebuilt [OF pp(1-3) new(1) fresh pp(4-6)]
      consider "av_balance ?ss a = 1" | "av_balance ?ss a = 0" "r = Leaf"
        using bal_range [OF pp(2)] pp(2) l by (cases r) auto
      then show ?thesis
      proof cases
        case 1
        then show ?thesis
          using at(1) [OF l] ins nz f(6,7) l before ok ib by (intro fin) auto
      next
        case 2
        then obtain s' where "post_insert (set_left a new (set_parent new a (set_balance a (-1) ?ss))) a = Some s'"
          "rebuilt ?ss s' (ctx_pre c @ new # a # ctx_post c)" using at(3) l by blast
        then show ?thesis
          using 2 ins nz neg f(6,7) l before ok ib by (intro fin) auto
      qed
    next
      case False
      then have pos: "0 < ?d" using nz by simp
      let ?ss = "avl_insert_after ?s (last (a # ds)) new"
      let ?gs = "(as @ [(a, ds)]) @ (new, []) # bs"
      have r: "r = Leaf" using f(4) pos by blast
      have ok: "groups_ok ?ss ?gs"
        using g new f(8,9) pos sgn_ds after(1) f(5) by (intro groups_insert_new [OF cmp]) (auto simp: sgn_1_pos)
      have "insert_before ?P new ((flat as @ a # ds) @ flat bs) = (flat as @ a # ds) @ new # flat bs"
        using f(8,9) pos sgn_ds by (intro insert_before_at) (auto simp: sgn_1_pos)
      then have ib: "insert_before ?P new (flat gs) = flat ?gs" unfolding f(5) by simp
      have pp: "pos ?ss (Node l a r) a q c" "bal (av_balance ?ss) (Node l a r)" "cbal (av_balance ?ss) (height (Node l a r)) c"
        "av_left ?ss new = 0" "av_right ?ss new = 0" "av_balance ?ss new = 0"
        using p by (simp_all only: pos_list avl_insert_list_sel) simp_all
      note at = attach_rebuilt [OF pp(1-3) new(1) fresh pp(4-6)]
      consider "av_balance ?ss a = -1" | "av_balance ?ss a = 0" "l = Leaf"
        using bal_range [OF pp(2)] pp(2) r by (cases l) auto
      then show ?thesis
      proof cases
        case 1
        then show ?thesis
          using at(2) [OF r] ins nz f(6,7) r after(1) ok ib by (intro fin) auto
      next
        case 2
        then obtain s' where "post_insert (set_right a new (set_parent new a (set_balance a 1 ?ss))) a = Some s'"
          "rebuilt ?ss s' (ctx_pre c @ a # new # ctx_post c)" using at(4) r by blast
        then show ?thesis
          using 2 ins nz pos f(6,7) r after(1) ok ib by (intro fin) auto
      qed
    qed
  qed
qed

section \<open>Deletion\<close>

lemma replace_child_commutes:
  "replace_child q n m (set_parent x v s) = set_parent x v (replace_child q n m s)"
  by (simp add: replace_child_def set_parent_def set_root_def set_left_def set_right_def)

lemma avl_promote_place:
  assumes "d \<noteq> n"
  shows "avl_promote s n d = replace_child (av_parent s n) n d (take_place n d (set_balance d (av_balance s n) (set_leader d True s)))"
  using assms by (simp add: avl_promote_def take_place_def Let_def replace_child_commutes if_distrib [of "replace_child _ _ _"] cong: if_cong)

text \<open>The change of the list and of the leaders that goes with a deletion.\<close>

definition deleted :: "'k avl \<Rightarrow> ptr \<Rightarrow> (ptr \<Rightarrow> bool) \<Rightarrow> 'k avl \<Rightarrow> bool" where
  "deleted s n ld s' \<longleftrightarrow> av_head s' = av_head s \<and> av_allow_dups s' = av_allow_dups s \<and>
     av_comp s' = av_comp s \<and> av_key s' = av_key s \<and> av_leader s' = ld \<and>
     av_list s' = list_del n (av_list s) \<and> av_count s' = av_count s - 1"

lemma deleted_list:
  assumes "groups_ok s gs" "flat gs = xs @ n # ys" "deleted s n ld s'"
  shows "dll (av_list s') (av_head s') (xs @ ys)" "av_count s' = of_nat (length (xs @ ys))" "0 \<notin> set (xs @ ys)"
  using assms list_del_dll(1) [of "av_list s" "av_head s" xs n ys] by (simp_all add: groups_ok_def deleted_def)

lemma groups_delete_member:
  assumes "groups_ok s (as @ (a, d1 @ n # d2) # bs)" "deleted s n (av_leader s) s'"
  shows "groups_ok s' (as @ (a, d1 @ d2) # bs)"
  using assms(1) deleted_list [OF assms(1) _ assms(2), of "flat as @ a # d1" "d2 @ flat bs"] assms(2)
  by (simp add: groups_ok_def deleted_def sorted_wrt_append)

lemma groups_delete_single:
  assumes "groups_ok s (as @ (n, []) # bs)" "deleted s n (av_leader s) s'"
  shows "groups_ok s' (as @ bs)"
  using assms(1) deleted_list [OF assms(1) _ assms(2), of "flat as" "flat bs"] assms(2)
  by (simp add: groups_ok_def deleted_def sorted_wrt_append)

lemma groups_delete_leader:
  assumes "comparator (av_comp s)" "groups_ok s (as @ (n, d # ds) # bs)" "deleted s n ((av_leader s)(d := True)) s'"
  shows "groups_ok s' (as @ (d, ds) # bs)"
proof -
  note l = deleted_list [OF assms(2) _ assms(3), of "flat as" "d # ds @ flat bs", simplified]
  have dist: "distinct (flat (as @ (n, d # ds) # bs))" using assms(2) by (simp add: groups_ok_def dll_def)
  have eq: "av_comp s (av_key s d) (av_key s n) = 0" using assms(2) by (simp add: groups_ok_def)
  have sg: "sgn (av_comp s x (av_key s d)) = sgn (av_comp s x (av_key s n))"
    "sgn (av_comp s (av_key s d) x) = sgn (av_comp s (av_key s n) x)" for x
    using comparator.cmp_eq_right [OF assms(1) eq] comparator.cmp_eq_left [OF assms(1) eq] by auto
  have neg: "av_comp s x (av_key s d) < 0 \<longleftrightarrow> av_comp s x (av_key s n) < 0"
    "av_comp s (av_key s d) x < 0 \<longleftrightarrow> av_comp s (av_key s n) x < 0"
    "av_comp s x (av_key s d) = 0 \<longleftrightarrow> av_comp s x (av_key s n) = 0" for x
    using sg(1) [of x] sg(2) [of x] by (metis sgn_1_neg sgn_0_0)+
  have "\<forall>(a, es)\<in>set (as @ bs). d \<noteq> a \<and> d \<notin> set es" "d \<notin> set ds"
    using dist by (auto simp: flat_def)
  then show ?thesis
    using assms(2,3) l neg by (fastforce simp: groups_ok_def deleted_def sorted_wrt_append)
qed

lemma avl_remove_deleted: "same_rest s s' \<Longrightarrow> deleted s n (av_leader s) (avl_remove s' n)"
  by (simp add: same_rest_def deleted_def avl_remove_def)

lemma deleted_promote:
  assumes "same_rest (set_leader d True s) s'"
  shows "deleted s n ((av_leader s)(d := True)) (avl_remove s' n)"
  using assms by (simp add: same_rest_def deleted_def avl_remove_def set_leader_def)

lemma avl_remove_rest [simp]:
  "av_key (avl_remove s n) = av_key s" "av_head (avl_remove s n) = av_head s" "av_comp (avl_remove s n) = av_comp s"
  "av_allow_dups (avl_remove s n) = av_allow_dups s" "av_leader (avl_remove s n) = av_leader s"
  by (simp_all add: avl_remove_def)

lemma pos_leader [simp]: "pos (set_leader p' b s) t p q c \<longleftrightarrow> pos s t p q c"
  by (simp add: pos_def)

lemma flat_split:
  assumes "n \<in> set (flat gs)"
  obtains (leader) as ds bs where "gs = as @ (n, ds) # bs"
    | (member) as a d1 d2 bs where "gs = as @ (a, d1 @ n # d2) # bs"
proof -
  obtain a ds where "(a, ds) \<in> set gs" "n = a \<or> n \<in> set ds" using assms by (auto simp: flat_def)
  then show thesis using leader member by (metis split_list)
qed

lemma group_next:
  assumes "groups_ok s (as @ (n, ds) # bs)"
  shows "av_allow_dups s \<and> \<not> list_is_last n (av_head s) (av_list s) \<and> \<not> av_leader s (avl_next s n) \<longleftrightarrow> ds \<noteq> []"
    and "ds \<noteq> [] \<Longrightarrow> avl_next s n = hd ds"
proof -
  have d: "dll (av_list s) (av_head s) (flat as @ n # ds @ flat bs)" using assms by (simp add: groups_ok_def)
  have nx: "avl_next s n = hd (ds @ flat bs)" if "ds @ flat bs \<noteq> []"
    using dll_nxt [of "av_list s" "av_head s" "flat as" n] d that
    by (cases "ds @ flat bs") (auto simp: avl_next_def)
  then show "ds \<noteq> [] \<Longrightarrow> avl_next s n = hd ds" by simp
  have "list_is_last n (av_head s) (av_list s) \<longleftrightarrow> ds @ flat bs = []"
    using dll_last_iff [of "av_list s" "av_head s" "flat as" n "ds @ flat bs"] d by simp
  moreover have "av_leader s (hd (flat bs))" if "bs \<noteq> []"
    using assms that by (cases bs) (auto simp: groups_ok_def)
  moreover have "ds \<noteq> [] \<longrightarrow> \<not> av_leader s (hd ds) \<and> av_allow_dups s"
    using assms by (cases ds) (auto simp: groups_ok_def)
  ultimately show "av_allow_dups s \<and> \<not> list_is_last n (av_head s) (av_list s) \<and> \<not> av_leader s (avl_next s n) \<longleftrightarrow> ds \<noteq> []"
    using nx by (cases "ds = []"; cases "bs = []") auto
qed

lemma avl_delete_groups:
  assumes cmp: "comparator (av_comp s)" and gs: "avl_groups s gs" and n: "n \<in> set (flat gs)"
  shows "\<exists>s' gs'. avl_delete s n = Some s' \<and> avl_groups s' gs' \<and> flat gs' = remove1 n (flat gs) \<and>
    av_key s' = av_key s \<and> av_head s' = av_head s \<and> av_comp s' = av_comp s \<and> av_allow_dups s' = av_allow_dups s"
proof -
  have g: "groups_ok s gs" using gs by (simp add: avl_groups_def)
  obtain t where t: "avl_shape s t" "inorder t = map fst gs" using gs by (auto simp: avl_groups_def)
  have dist: "distinct (flat gs)" using g by (simp add: groups_ok_def dll_def)
  show ?thesis using n
  proof (cases rule: flat_split)
    case (member as a d1 d2 bs)
    have "\<not> av_leader s n" using g unfolding member by (auto simp: groups_ok_def)
    moreover have "groups_ok (avl_remove s n) (as @ (a, d1 @ d2) # bs)"
      using g unfolding member by (rule groups_delete_member) (simp add: avl_remove_deleted)
    moreover have "inorder t = map fst (as @ (a, d1 @ d2) # bs)" using t(2) by (simp add: member)
    moreover have "remove1 n (flat gs) = flat (as @ (a, d1 @ d2) # bs)"
      using dist by (simp add: member remove1_append)
    ultimately show ?thesis
      using t(1) by (intro exI [of _ "avl_remove s n"] exI [of _ "as @ (a, d1 @ d2) # bs"])
        (auto simp: avl_delete_def avl_groups_def)
  next
    case (leader as ds bs)
    note gn = group_next [OF g [unfolded leader]]
    have ld: "av_leader s n" using g by (simp add: leader groups_ok_def)
    have tn: "inorder t = map fst as @ n # map fst bs" using t(2) by (simp add: leader)
    then have "n \<in> set_tree t" by (simp flip: set_inorder)
    then obtain c l r where c: "t = plug c (Node l n r)" using in_tree_plug by metis
    obtain q where p: "pos s (Node l n r) n q c" "bal (av_balance s) (Node l n r)"
      "cbal (av_balance s) (height (Node l n r)) c"
      using t(1) unfolding c by (rule shape_pos)
    have "(ctx_pre c @ inorder l) @ n # (inorder r @ ctx_post c) = map fst as @ n # map fst bs"
      using tn by (simp add: c inorder_plug)
    moreover have "distinct (map fst as @ n # map fst bs)" using t(1) tn by (simp add: avl_shape_def)
    ultimately have ns: "ctx_pre c @ inorder l = map fst as" "inorder r @ ctx_post c = map fst bs"
      using distinct_split_unique by metis+
    show ?thesis
    proof (cases ds)
      case Nil
      have eq: "map fst (as @ bs) = ctx_pre c @ inorder l @ inorder r @ ctx_post c"
        unfolding map_append ns [symmetric] by simp
      obtain s1 where s1: "avl_delete_worker s n = Some s1" "rebuilt s s1 (map fst (as @ bs))"
        unfolding eq using delete_worker_rebuilt [OF p] by blast
      then have sr: "same_rest s s1" by (simp add: rebuilt_def)
      have "groups_ok (avl_remove s1 n) (as @ bs)"
        by (rule groups_delete_single [OF g [unfolded leader Nil] avl_remove_deleted [OF sr]])
      moreover have "avl_delete s n = Some (avl_remove s1 n)"
        using gn(1) Nil ld s1(1) by (auto simp: avl_delete_def Let_def)
      moreover have "remove1 n (flat gs) = flat (as @ bs)"
        using dist by (simp add: leader Nil remove1_append)
      ultimately show ?thesis
        using s1(2) sr by (intro exI [of _ "avl_remove s1 n"] exI [of _ "as @ bs"])
          (auto simp: avl_groups_def rebuilt_def same_rest_def)
    next
      case (Cons d ds')
      let ?s = "set_leader d True s"
      have fr: "d \<noteq> 0" "d \<notin> set (map fst as @ n # map fst bs)"
        using g dist set_fst_flat [of as] set_fst_flat [of bs] unfolding leader Cons
        by (auto simp: groups_ok_def)
      have all: "set_tree (Node l n r) \<union> ctx_set c = set (map fst as @ n # map fst bs)"
        unfolding ns [symmetric] set_ctx [symmetric] by auto
      then have "d \<notin> set_tree (Node l n r) \<union> ctx_set c" using fr(2) by simp
      then have "rebuilt ?s (replace_child q n d (take_place n d (set_balance d (av_balance s n) ?s)))
          (ctx_pre c @ inorder (Node l d r) @ ctx_post c)"
        using take_place_shape [of ?s l n r q c d] p fr(1) by (auto simp del: cbal.simps height_tree.simps)
      moreover have "av_parent s n = q" using p(1) by (simp add: pos_def)
      moreover have "ctx_pre c @ inorder (Node l d r) @ ctx_post c = map fst (as @ (d, ds') # bs)"
        unfolding map_append list.map fst_conv ns [symmetric] by simp
      ultimately have rb: "rebuilt ?s (avl_promote s n d) (map fst (as @ (d, ds') # bs))"
        using avl_promote_place [of d n s] fr(2) by simp
      then have sr: "same_rest ?s (avl_promote s n d)" by (simp add: rebuilt_def)
      let ?s' = "avl_remove (avl_promote s n d) n"
      have "groups_ok ?s' (as @ (d, ds') # bs)"
        by (rule groups_delete_leader [OF cmp g [unfolded leader Cons] deleted_promote [OF sr]])
      moreover have "avl_delete s n = Some ?s'"
        using gn Cons ld by (simp add: avl_delete_def Let_def)
      moreover have "remove1 n (flat gs) = flat (as @ (d, ds') # bs)"
        using dist by (simp add: leader Cons remove1_append)
      ultimately show ?thesis
        using rb sr by (intro exI [of _ ?s'] exI [of _ "as @ (d, ds') # bs"])
          (auto simp: avl_groups_def rebuilt_def same_rest_def set_leader_def)
    qed
  qed
qed

end
