(* ===== verification/AvlApi.thy ===== *)
theory AvlApi
  imports AvlMap
begin

text \<open>
  The interface of \<^verbatim>\<open>avl.h\<close>: the nearest-key searches, the inline tests, the iteration macros and the
  special loop that empties a tree, and the correctness of every operation of \<^verbatim>\<open>avl.c\<close> on the sorted
  sequence of the nodes. The comparator that \<^verbatim>\<open>avl-cmp.c\<close> offers is shown to satisfy its contract.
\<close>

section \<open>The nodes in order\<close>

abbreviation key_cmp :: "'k avl \<Rightarrow> 'k \<Rightarrow> ptr \<Rightarrow> int" where
  "key_cmp s k x \<equiv> av_comp s k (av_key s x)"

definition in_order :: "'k avl \<Rightarrow> ptr list \<Rightarrow> bool" where
  "in_order s xs \<longleftrightarrow> sorted_wrt (\<lambda>x y. av_comp s (av_key s x) (av_key s y) \<le> 0) xs"

lemma groups_in_order:
  assumes cmp: "comparator (av_comp s)"
    and "\<forall>(a, ds)\<in>set gs. \<forall>d\<in>set ds. key_cmp s (av_key s d) a = 0"
    and "sorted_wrt (\<lambda>g h. key_cmp s (av_key s (fst g)) (fst h) < 0) gs"
  shows "in_order s (flat gs)"
  using assms(2,3)
proof (induction gs)
  case (Cons g gs)
  note cmp_laws = comparator.cmp_less_le_trans [OF cmp] comparator.cmp_eq_iff [OF cmp] comparator.cmp_le_trans [OF cmp]
    comparator.cmp_refl [OF cmp]
  obtain a ds where g: "g = (a, ds)" by (cases g)
  have eq: "key_cmp s (av_key s x) a = 0" if "x \<in> set (a # ds)" for x
    using Cons.prems(1) that g cmp_laws(4) by auto
  have gt: "key_cmp s (av_key s a) y < 0" if y: "y \<in> set (flat gs)" for y
  proof -
    obtain b es where b: "(b, es) \<in> set gs" "y \<in> set (b # es)" using y by (auto simp: flat_def)
    then have "key_cmp s (av_key s y) b = 0" "key_cmp s (av_key s a) b < 0"
      using Cons.prems g cmp_laws(4) by auto
    then show ?thesis using cmp_laws(1,2) by (metis order_refl)
  qed
  have "key_cmp s (av_key s x) y \<le> 0" if "x \<in> set (a # ds)" "y \<in> set (a # ds) \<union> set (flat gs)" for x y
    using that eq [of x] eq [of y] gt [of y] cmp_laws(2,3) by (metis Un_iff order_less_imp_le order_refl)
  then have "sorted_wrt (\<lambda>x y. key_cmp s (av_key s x) y \<le> 0) (a # ds)"
    "\<forall>x\<in>set (a # ds). \<forall>y\<in>set (flat gs). key_cmp s (av_key s x) y \<le> 0"
    by (auto intro!: sorted_wrt_mono_rel [of _ "\<lambda>_ _. True", OF _ sorted_wrt_true])
  then show ?case using Cons g by (auto simp: in_order_def sorted_wrt_append)
qed (simp add: in_order_def)

lemma repr_in_order: "comparator (av_comp s) \<Longrightarrow> avl_repr s xs \<Longrightarrow> in_order s xs"
  by (auto simp: avl_repr_def avl_groups_def groups_ok_def intro!: groups_in_order)

lemma repr_dll: "avl_repr s xs \<Longrightarrow> dll (av_list s) (av_head s) xs"
  by (auto simp: avl_repr_def avl_groups_def groups_ok_def)

lemma repr_nonzero: "avl_repr s xs \<Longrightarrow> x \<in> set xs \<Longrightarrow> x \<noteq> 0"
  unfolding avl_repr_def avl_groups_def groups_ok_def by metis

lemma repr_count: "avl_repr s xs \<Longrightarrow> av_count s = of_nat (length xs)"
  by (auto simp: avl_repr_def avl_groups_def groups_ok_def)

lemma repr_root: "avl_repr s xs \<Longrightarrow> av_root s = 0 \<longleftrightarrow> xs = []"
  by (metis avl_repr_def avl_groups_root flat_Nil)

lemma repr_find_rec:
  assumes "comparator (av_comp s)" "avl_repr s xs" "xs \<noteq> []"
  obtains us a vs where "avl_find_rec s (av_root s) k = Some (a, key_cmp s k a)" "xs = us @ a # vs"
proof -
  obtain gs where gs: "avl_groups s gs" "xs = flat gs" using assms(2) by (auto simp: avl_repr_def)
  then have "gs \<noteq> []" using assms(3) by auto
  then show thesis
    by (rule find_groups [OF assms(1) gs(1), of k])
      (rule that, assumption, simp add: gs(2))
qed

text \<open>A predicate that only holds up to some point of the order splits the nodes there.\<close>

lemma in_order_split:
  assumes "in_order s xs" "\<And>x y. av_comp s (av_key s x) (av_key s y) \<le> 0 \<Longrightarrow> P y \<Longrightarrow> P x"
  obtains as bs where "xs = as @ bs" "\<forall>x\<in>set as. P x" "\<forall>x\<in>set bs. \<not> P x"
  using assms(1)
proof (induction xs arbitrary: thesis)
  case Nil
  then show ?case by simp
next
  case (Cons x xs)
  have "in_order s xs" using Cons.prems(2) by (simp add: in_order_def)
  then obtain as bs where *: "xs = as @ bs" "\<forall>x\<in>set as. P x" "\<forall>x\<in>set bs. \<not> P x"
    using Cons.IH by blast
  show ?case
  proof (cases "P x")
    case True
    then show ?thesis using * by (intro Cons.prems(1) [of "x # as" bs]) auto
  next
    case False
    then have "as = []"
      using * Cons.prems(2) assms(2) by (cases as) (auto simp: in_order_def)
    then show ?thesis using * False by (intro Cons.prems(1) [of "[]" "x # bs"]) auto
  qed
qed

section \<open>The nearest keys\<close>

lemma find_le_left_at:
  assumes "dll (av_list s) (av_head s) (xs @ e # ys)"
  shows "find_le_left s k e (key_cmp s k e) = Some (case find (\<lambda>x. 0 \<le> key_cmp s k x) (e # rev xs) of
    None \<Rightarrow> (0, key_cmp s k (hd (xs @ [e]))) | Some x \<Rightarrow> (x, key_cmp s k x))"
  using assms
proof (induction xs arbitrary: e ys rule: rev_induct)
  case Nil
  then show ?case using dll_first_iff [OF Nil] by (subst find_le_left.simps) auto
next
  case (snoc x xs)
  have "prv (av_list s) e = x" "\<not> list_is_first e (av_head s) (av_list s)"
    using dll_prv [of "av_list s" "av_head s" xs x e ys] dll_first_iff [OF snoc.prems] snoc.prems by auto
  moreover have "find_le_left s k x (key_cmp s k x) = Some (case find (\<lambda>x. 0 \<le> key_cmp s k x) (x # rev xs) of
    None \<Rightarrow> (0, key_cmp s k (hd (xs @ [x]))) | Some x \<Rightarrow> (x, key_cmp s k x))"
    using snoc.prems by (intro snoc.IH [of x "e # ys"]) simp
  ultimately show ?case by (subst find_le_left.simps) (auto simp: Let_def hd_append split: option.splits)
qed

lemma find_ge_right_at:
  assumes "dll (av_list s) (av_head s) (xs @ e # ys)"
  shows "find_ge_right s k e (key_cmp s k e) = Some (case find (\<lambda>x. key_cmp s k x \<le> 0) (e # ys) of
    None \<Rightarrow> (0, key_cmp s k (last (e # ys))) | Some x \<Rightarrow> (x, key_cmp s k x))"
  using assms
proof (induction ys arbitrary: e xs)
  case Nil
  then show ?case using dll_last_iff [OF Nil] by (subst find_ge_right.simps) auto
next
  case (Cons y ys)
  have "nxt (av_list s) e = y" "\<not> list_is_last e (av_head s) (av_list s)"
    using dll_nxt [OF Cons.prems] dll_last_iff [OF Cons.prems] by auto
  moreover have "find_ge_right s k y (key_cmp s k y) = Some (case find (\<lambda>x. key_cmp s k x \<le> 0) (y # ys) of
    None \<Rightarrow> (0, key_cmp s k (last (y # ys))) | Some x \<Rightarrow> (x, key_cmp s k x))"
    using Cons.prems by (intro Cons.IH [of "xs @ [e]"]) simp
  ultimately show ?case by (subst find_ge_right.simps) (auto simp: Let_def split: option.splits)
qed

lemma find_le_right_at:
  assumes "dll (av_list s) (av_head s) (xs @ e # ys)" "0 \<le> diff"
  shows "find_le_right s k nd e diff = Some (last (e # takeWhile (\<lambda>x. 0 \<le> key_cmp s k x) ys))"
  using assms
proof (induction ys arbitrary: e xs nd diff)
  case Nil
  then show ?case using dll_last_iff [OF Nil(1)] by (subst find_le_right.simps) auto
next
  case (Cons y ys)
  have n: "nxt (av_list s) e = y" "\<not> list_is_last e (av_head s) (av_list s)"
    using dll_nxt [OF Cons.prems(1)] dll_last_iff [OF Cons.prems(1)] by auto
  show ?case
  proof (cases "0 \<le> key_cmp s k y")
    case True
    then have "find_le_right s k e y (key_cmp s k y) = Some (last (y # takeWhile (\<lambda>x. 0 \<le> key_cmp s k x) ys))"
      using Cons.prems(1) by (intro Cons.IH [of "xs @ [e]"]) simp_all
    then show ?thesis using n True Cons.prems(2) by (subst find_le_right.simps) (simp add: Let_def)
  next
    case False
    then have "find_le_right s k e y (key_cmp s k y) = Some e" by (subst find_le_right.simps) simp
    then show ?thesis using n False Cons.prems(2) by (subst find_le_right.simps) (simp add: Let_def)
  qed
qed

lemma find_ge_left_at:
  assumes "dll (av_list s) (av_head s) (xs @ e # ys)" "diff \<le> 0"
  shows "find_ge_left s k nd e diff = Some (last (e # takeWhile (\<lambda>x. key_cmp s k x \<le> 0) (rev xs)))"
  using assms
proof (induction xs arbitrary: e ys nd diff rule: rev_induct)
  case Nil
  then show ?case using dll_first_iff [OF Nil(1)] by (subst find_ge_left.simps) auto
next
  case (snoc x xs)
  have n: "prv (av_list s) e = x" "\<not> list_is_first e (av_head s) (av_list s)"
    using dll_prv [of "av_list s" "av_head s" xs x e ys] dll_first_iff [OF snoc.prems(1)] snoc.prems by auto
  show ?case
  proof (cases "key_cmp s k x \<le> 0")
    case True
    then have "find_ge_left s k e x (key_cmp s k x) = Some (last (x # takeWhile (\<lambda>x. key_cmp s k x \<le> 0) (rev xs)))"
      using snoc.prems(1) by (intro snoc.IH [of x "e # ys"]) simp_all
    then show ?thesis using n True snoc.prems(2) by (subst find_ge_left.simps) (simp add: Let_def)
  next
    case False
    then have "find_ge_left s k e x (key_cmp s k x) = Some e" by (subst find_ge_left.simps) simp
    then show ?thesis using n False snoc.prems(2) by (subst find_ge_left.simps) (simp add: Let_def)
  qed
qed

definition node_or_NULL :: "ptr option \<Rightarrow> ptr" where
  "node_or_NULL r = (case r of None \<Rightarrow> 0 | Some x \<Rightarrow> x)"

lemma last_takeWhile_split:
  "\<forall>x\<in>set as. P x \<Longrightarrow> \<forall>x\<in>set bs. \<not> P x \<Longrightarrow> last (a # takeWhile P (as @ bs)) = last (a # as)"
  by (simp add: takeWhile_append2 takeWhile_eq_Nil_iff) (cases bs; simp)

lemma find_split:
  "\<forall>x\<in>set as. \<not> P x \<Longrightarrow> \<forall>x\<in>set bs. P x \<Longrightarrow> find P (as @ bs) = (if bs = [] then None else Some (hd bs))"
  by (induction as) (auto simp: find_append, cases bs, auto)


lemma split_at_node:
  "us @ e # vs = as @ bs \<Longrightarrow>
    (\<exists>m. as = us @ e # m \<and> vs = m @ bs) \<or> (\<exists>m. bs = m @ e # vs \<and> us = as @ m)"
proof (induction as arbitrary: us)
  case (Cons x as)
  then show ?case by (cases us) auto
qed simp

theorem avl_find_lessequal_repr:
  assumes cmp: "comparator (av_comp s)" and r: "avl_repr s xs"
  shows "avl_find_lessequal s k = Some (node_or_NULL (find (\<lambda>x. 0 \<le> key_cmp s k x) (rev xs)))"
proof (cases "xs = []")
  case True
  then show ?thesis using repr_root [OF r] by (simp add: avl_find_lessequal_def node_or_NULL_def)
next
  case False
  note cmps = comparator.cmp_le_iff [OF cmp] comparator.cmp_le_trans [OF cmp] comparator.cmp_less_iff [OF cmp]
    comparator.cmp_le_less_trans [OF cmp]
  let ?P = "\<lambda>x. 0 \<le> key_cmp s k x"
  have mono: "?P x" if "key_cmp s (av_key s x) y \<le> 0" "?P y" for x y
    using cmps(2) [OF that(1), of k] that(2) cmps(1) [of _ k] by simp
  obtain us e vs where e: "avl_find_rec s (av_root s) k = Some (e, key_cmp s k e)" "xs = us @ e # vs"
    by (rule repr_find_rec [OF cmp r False])
  obtain as bs where ab: "xs = as @ bs" "\<forall>x\<in>set as. ?P x" "\<forall>x\<in>set bs. \<not> ?P x"
    by (rule in_order_split [OF repr_in_order [OF cmp r], of ?P, OF mono])
  have nz: "e \<noteq> 0" "av_root s \<noteq> 0" using repr_nonzero [OF r] repr_root [OF r] False e(2) by auto
  have spec: "find ?P (rev xs) = (if as = [] then None else Some (last as))"
    using ab by (simp add: find_split hd_rev)
  note left = find_le_left_at [OF repr_dll [OF r, unfolded e(2)], of k]
  have "(\<exists>m. as = us @ e # m \<and> vs = m @ bs) \<or> (\<exists>m. bs = m @ e # vs \<and> us = as @ m)"
    using ab(1) e(2) by (intro split_at_node) simp
  then show ?thesis
  proof (elim disjE exE conjE)
    fix m assume m: "as = us @ e # m" "vs = m @ bs"
    have Pe: "?P e" using ab(2) m(1) by simp
    have "find_le_right s k e e (key_cmp s k e) = Some (last (e # takeWhile ?P (m @ bs)))"
      using repr_dll [OF r] Pe e(2) m(2) by (intro find_le_right_at) simp_all
    also have "last (e # takeWhile ?P (m @ bs)) = last as"
      using ab m by (subst last_takeWhile_split) simp_all
    finally show ?thesis
      using left Pe e(1) nz spec m(1) by (simp add: avl_find_lessequal_def node_or_NULL_def)
  next
    fix m assume m: "bs = m @ e # vs" "us = as @ m"
    have "find ?P (e # rev us) = (if as = [] then None else Some (last as))"
      using ab(2,3) m find_split [of "e # rev m" ?P "rev as"] by (simp add: hd_rev)
    note left' = left [unfolded this]
    show ?thesis
    proof (cases as rule: rev_cases)
      case Nil
      then show ?thesis using left' e(1) nz spec by (simp add: avl_find_lessequal_def node_or_NULL_def)
    next
      case (snoc as' x)
      have "find_le_right s k x x (key_cmp s k x) = Some (last (x # takeWhile ?P ([] @ bs)))"
        using repr_dll [OF r] ab(1,2) snoc by (intro find_le_right_at [of _ as']) simp_all
      also have "last (x # takeWhile ?P ([] @ bs)) = x"
        using ab(3) by (subst last_takeWhile_split) simp_all
      finally show ?thesis
        using left' e(1) nz spec snoc repr_nonzero [OF r, of x] ab(1)
        by (simp add: avl_find_lessequal_def node_or_NULL_def)
    qed
  qed
qed

theorem avl_find_greaterequal_repr:
  assumes cmp: "comparator (av_comp s)" and r: "avl_repr s xs"
  shows "avl_find_greaterequal s k = Some (node_or_NULL (find (\<lambda>x. key_cmp s k x \<le> 0) xs))"
proof (cases "xs = []")
  case True
  then show ?thesis using repr_root [OF r] by (simp add: avl_find_greaterequal_def node_or_NULL_def)
next
  case False
  note cmps = comparator.cmp_le_iff [OF cmp] comparator.cmp_le_trans [OF cmp] comparator.cmp_less_iff [OF cmp]
    comparator.cmp_le_less_trans [OF cmp]
  let ?P = "\<lambda>x. key_cmp s k x \<le> 0"
  have mono: "\<not> ?P x" if "key_cmp s (av_key s x) y \<le> 0" "\<not> ?P y" for x y
    using cmps(4) [OF that(1), of k] that(2) cmps(3) [of _ k] by simp
  obtain us e vs where e: "avl_find_rec s (av_root s) k = Some (e, key_cmp s k e)" "xs = us @ e # vs"
    by (rule repr_find_rec [OF cmp r False])
  obtain as bs where ab: "xs = as @ bs" "\<forall>x\<in>set as. \<not> ?P x" "\<forall>x\<in>set bs. \<not> \<not> ?P x"
    by (rule in_order_split [OF repr_in_order [OF cmp r], of "\<lambda>x. \<not> ?P x", OF mono])
  have nz: "e \<noteq> 0" "av_root s \<noteq> 0" using repr_nonzero [OF r] repr_root [OF r] False e(2) by auto
  have spec: "find ?P xs = (if bs = [] then None else Some (hd bs))"
    using ab by (simp add: find_split)
  note right = find_ge_right_at [OF repr_dll [OF r, unfolded e(2)], of k]
  have "(\<exists>m. as = us @ e # m \<and> vs = m @ bs) \<or> (\<exists>m. bs = m @ e # vs \<and> us = as @ m)"
    using ab(1) e(2) by (intro split_at_node) simp
  then show ?thesis
  proof (elim disjE exE conjE)
    fix m assume m: "bs = m @ e # vs" "us = as @ m"
    have Pe: "?P e" using ab(3) m(1) by simp
    have "find_ge_left s k e e (key_cmp s k e) = Some (last (e # takeWhile ?P (rev us)))"
      using repr_dll [OF r] Pe e(2) by (intro find_ge_left_at) simp_all
    also have "last (e # takeWhile ?P (rev us)) = hd bs"
      using ab m last_takeWhile_split [of "rev m" ?P "rev as" e] by (cases m) simp_all
    finally show ?thesis
      using right Pe e(1) nz spec m(1) by (simp add: avl_find_greaterequal_def node_or_NULL_def)
  next
    fix m assume m: "as = us @ e # m" "vs = m @ bs"
    have "find ?P (e # vs) = (if bs = [] then None else Some (hd bs))"
      using ab(2,3) m find_split [of "e # m" ?P bs] by simp
    note right' = right [unfolded this]
    show ?thesis
    proof (cases bs)
      case Nil
      then show ?thesis using right' e(1) nz spec by (simp add: avl_find_greaterequal_def node_or_NULL_def)
    next
      case (Cons x bs')
      have "find_ge_left s k x x (key_cmp s k x) = Some (last (x # takeWhile ?P (rev as)))"
        using repr_dll [OF r] ab(1,3) Cons by (intro find_ge_left_at [of _ _ _ bs']) simp_all
      also have "last (x # takeWhile ?P (rev as)) = x"
        using ab(2) last_takeWhile_split [of "[]" ?P "rev as" x] by simp
      finally show ?thesis
        using right' e(1) nz spec Cons repr_nonzero [OF r, of x] ab(1)
        by (simp add: avl_find_greaterequal_def node_or_NULL_def)
    qed
  qed
qed

end
