(* ===== verification/AvlIter.thy ===== *)
theory AvlIter
  imports AvlApi
begin

text \<open>
  The iteration macros and inline functions of \<^verbatim>\<open>avl.h\<close>, the bound on the depth of a tree, and the
  properties of the tree operations. A loop body is a parameter: a state transformer that may fail.
\<close>

section \<open>Inline functions and macros of avl.h\<close>

definition avl_is_first :: "'k avl \<Rightarrow> ptr \<Rightarrow> bool" where
  "avl_is_first s node \<longleftrightarrow> nxt (av_list s) (av_head s) = node"

definition avl_is_last :: "'k avl \<Rightarrow> ptr \<Rightarrow> bool" where
  "avl_is_last s node \<longleftrightarrow> prv (av_list s) (av_head s) = node"

definition avl_is_empty :: "'k avl \<Rightarrow> bool" where
  "avl_is_empty s \<longleftrightarrow> av_count s = 0"

datatype avl_find_mode = AVL_FIND_EQUAL | AVL_FIND_LESSEQUAL | AVL_FIND_GREATEREQUAL

definition avl_find_element' :: "'k avl \<Rightarrow> 'k \<Rightarrow> avl_find_mode \<Rightarrow> ptr option" where
  "avl_find_element' s key mode =
     (case mode of AVL_FIND_EQUAL \<Rightarrow> avl_find s key
      | AVL_FIND_LESSEQUAL \<Rightarrow> avl_find_lessequal s key
      | AVL_FIND_GREATEREQUAL \<Rightarrow> avl_find_greaterequal s key)"

definition avl_first_element :: "'k avl \<Rightarrow> ptr" where
  "avl_first_element s = nxt (av_list s) (av_head s)"

definition avl_last_element :: "'k avl \<Rightarrow> ptr" where
  "avl_last_element s = prv (av_list s) (av_head s)"

definition avl_next_element :: "'k avl \<Rightarrow> ptr \<Rightarrow> ptr" where
  "avl_next_element s element = nxt (av_list s) element"

definition avl_prev_element :: "'k avl \<Rightarrow> ptr \<Rightarrow> ptr" where
  "avl_prev_element s element = prv (av_list s) element"

text \<open>
  The loops; \<open>last\<close> and \<open>first\<close> are the macro arguments, expressions that each test of the loop
  evaluates again in the state it finds.
\<close>

partial_function (option) avl_for_element_range ::
  "(ptr \<Rightarrow> 'k avl \<Rightarrow> 'k avl option) \<Rightarrow> ('k avl \<Rightarrow> ptr) \<Rightarrow> 'k avl \<Rightarrow> ptr \<Rightarrow> 'k avl option" where
  "avl_for_element_range body last_element s element =
     (if prv (av_list s) element = last_element s then Some s
      else do { s \<leftarrow> body element s;
                avl_for_element_range body last_element s (avl_next_element s element) })"

partial_function (option) avl_for_element_range_reverse ::
  "(ptr \<Rightarrow> 'k avl \<Rightarrow> 'k avl option) \<Rightarrow> ('k avl \<Rightarrow> ptr) \<Rightarrow> 'k avl \<Rightarrow> ptr \<Rightarrow> 'k avl option" where
  "avl_for_element_range_reverse body first_element s element =
     (if nxt (av_list s) element = first_element s then Some s
      else do { s \<leftarrow> body element s;
                avl_for_element_range_reverse body first_element s (avl_prev_element s element) })"

definition avl_for_each_element :: "(ptr \<Rightarrow> 'k avl \<Rightarrow> 'k avl option) \<Rightarrow> 'k avl \<Rightarrow> 'k avl option" where
  "avl_for_each_element body s = avl_for_element_range body avl_last_element s (avl_first_element s)"

definition avl_for_each_element_reverse :: "(ptr \<Rightarrow> 'k avl \<Rightarrow> 'k avl option) \<Rightarrow> 'k avl \<Rightarrow> 'k avl option" where
  "avl_for_each_element_reverse body s =
     avl_for_element_range_reverse body avl_first_element s (avl_last_element s)"

definition avl_for_element_to_last :: "(ptr \<Rightarrow> 'k avl \<Rightarrow> 'k avl option) \<Rightarrow> ptr \<Rightarrow> 'k avl \<Rightarrow> 'k avl option" where
  "avl_for_element_to_last body first s = avl_for_element_range body avl_last_element s first"

definition avl_for_first_to_element :: "(ptr \<Rightarrow> 'k avl \<Rightarrow> 'k avl option) \<Rightarrow> ptr \<Rightarrow> 'k avl \<Rightarrow> 'k avl option" where
  "avl_for_first_to_element body lst s = avl_for_element_range body (\<lambda>_. lst) s (avl_first_element s)"

definition avl_for_element_to_last_reverse ::
  "(ptr \<Rightarrow> 'k avl \<Rightarrow> 'k avl option) \<Rightarrow> ptr \<Rightarrow> 'k avl \<Rightarrow> 'k avl option" where
  "avl_for_element_to_last_reverse body first s =
     avl_for_element_range_reverse body (\<lambda>_. first) s (avl_last_element s)"

definition avl_for_first_to_element_reverse ::
  "(ptr \<Rightarrow> 'k avl \<Rightarrow> 'k avl option) \<Rightarrow> ptr \<Rightarrow> 'k avl \<Rightarrow> 'k avl option" where
  "avl_for_first_to_element_reverse body lst s = avl_for_element_range_reverse body avl_first_element s lst"

text \<open>The safe variants fetch the next node before the body runs, and the one after it afterwards.\<close>

partial_function (option) avl_range_safe_loop ::
  "(ptr \<Rightarrow> 'k avl \<Rightarrow> 'k avl option) \<Rightarrow> ('k avl \<Rightarrow> ptr) \<Rightarrow> 'k avl \<Rightarrow> ptr \<Rightarrow> ptr \<Rightarrow> 'k avl option" where
  "avl_range_safe_loop body last_element s element p =
     (if prv (av_list s) element = last_element s then Some s
      else do { s \<leftarrow> body element s;
                avl_range_safe_loop body last_element s p (avl_next_element s p) })"

definition avl_for_each_element_safe :: "(ptr \<Rightarrow> 'k avl \<Rightarrow> 'k avl option) \<Rightarrow> 'k avl \<Rightarrow> 'k avl option" where
  "avl_for_each_element_safe body s =
     avl_range_safe_loop body avl_last_element s (avl_first_element s) (avl_next_element s (avl_first_element s))"

partial_function (option) avl_range_reverse_safe_loop ::
  "(ptr \<Rightarrow> 'k avl \<Rightarrow> 'k avl option) \<Rightarrow> ('k avl \<Rightarrow> ptr) \<Rightarrow> 'k avl \<Rightarrow> ptr \<Rightarrow> ptr \<Rightarrow> 'k avl option" where
  "avl_range_reverse_safe_loop body first_element s element p =
     (if nxt (av_list s) element = first_element s then Some s
      else do { s \<leftarrow> body element s;
                avl_range_reverse_safe_loop body first_element s p (avl_prev_element s p) })"

definition avl_for_each_element_reverse_safe :: "(ptr \<Rightarrow> 'k avl \<Rightarrow> 'k avl option) \<Rightarrow> 'k avl \<Rightarrow> 'k avl option" where
  "avl_for_each_element_reverse_safe body s =
     avl_range_reverse_safe_loop body avl_first_element s (avl_last_element s) (avl_prev_element s (avl_last_element s))"

text \<open>
  \<^verbatim>\<open>avl_remove_all_elements\<close>: the tree is cut off first, then the list is walked \<open>count\<close> times. The body
  gets each node and works on a state \<open>'w\<close> of its own (it frees nodes and must not touch the tree).
\<close>

partial_function (option) avl_remove_all_loop ::
  "(ptr \<Rightarrow> 'w \<Rightarrow> 'w) \<Rightarrow> 'k avl \<Rightarrow> 'w \<Rightarrow> ptr \<Rightarrow> ptr \<Rightarrow> ('k avl \<times> 'w) option" where
  "avl_remove_all_loop body s w element p =
     (if av_count s > 0 then
        avl_remove_all_loop body (s\<lparr>av_count := av_count s - 1\<rparr>) (body element w) p (avl_next_element s p)
      else Some (s, w))"

definition avl_remove_all_elements :: "(ptr \<Rightarrow> 'w \<Rightarrow> 'w) \<Rightarrow> 'k avl \<Rightarrow> 'w \<Rightarrow> ('k avl \<times> 'w) option" where
  "avl_remove_all_elements body s w =
     (let element = avl_first_element s; p = avl_next_element s element
      in avl_remove_all_loop body (set_root 0 (set_list (INIT_LIST_HEAD (av_head s) (av_list s)) s)) w element p)"

definition avl_strcmp :: "bytes \<Rightarrow> bytes \<Rightarrow> int" where
  "avl_strcmp k1 k2 = c_strcmp k1 k2"

interpretation strcmp: comparator avl_strcmp
proof
  show "sgn (avl_strcmp x y) = - sgn (avl_strcmp y x)" for x y
    using c_strcmp_flip [of x y] by (simp add: avl_strcmp_def sgn_minus)
qed (auto simp: avl_strcmp_def intro: c_strcmp_le_trans)

section \<open>Depth\<close>

lemma bal_height_size: "bal b t \<Longrightarrow> 2 ^ (height t div 2) \<le> size1 t"
proof (induction "height t" arbitrary: t rule: less_induct)
  case less
  show ?case
  proof (cases t)
    case (Node l a r)
    have b: "bal b l" "bal b r" "\<bar>int (height r) - int (height l)\<bar> \<le> 1" using less.prems Node by auto
    have IH: "2 ^ (height l div 2) \<le> size1 l" "2 ^ (height r div 2) \<le> size1 r"
      using less.hyps [of l] less.hyps [of r] b Node by simp_all
    have h: "height t - 2 \<le> height l" "height t - 2 \<le> height r" using b(3) Node by (auto simp: max_def)
    have "2 ^ ((height t - 2) div 2) \<le> size1 l" "2 ^ ((height t - 2) div 2) \<le> size1 r"
      using IH h by (meson div_le_mono le_trans one_le_numeral power_increasing)+
    then have "2 * 2 ^ ((height t - 2) div 2) \<le> size1 t" using Node by simp
    moreover have "(2::nat) ^ (height t div 2) \<le> 2 * 2 ^ ((height t - 2) div 2)"
    proof -
      have "height t div 2 \<le> Suc ((height t - 2) div 2)" by linarith
      then have "(2::nat) ^ (height t div 2) \<le> 2 ^ Suc ((height t - 2) div 2)" by (intro power_increasing) auto
      then show ?thesis by simp
    qed
    ultimately show ?thesis by linarith
  qed simp
qed

text \<open>\<^verbatim>\<open>avl_find_rec\<close> with at most \<open>n\<close> comparisons.\<close>

primrec find_within :: "nat \<Rightarrow> 'k avl \<Rightarrow> ptr \<Rightarrow> 'k \<Rightarrow> (ptr \<times> int) option" where
  "find_within 0 s node key = None"
| "find_within (Suc n) s node key =
     (let diff = av_comp s key (av_key s node) in
      if diff < 0 then
        if av_left s node \<noteq> 0 then find_within n s (av_left s node) key else Some (node, diff)
      else if diff > 0 then
        if av_right s node \<noteq> 0 then find_within n s (av_right s node) key else Some (node, diff)
      else Some (node, diff))"

lemma find_within_rec: "find_within n s p k = Some r \<Longrightarrow> avl_find_rec s p k = Some r"
  by (induction n arbitrary: p) (simp, subst avl_find_rec.simps, auto simp: Let_def split: if_splits)

lemma find_within_height:
  "tree_at s q t p \<Longrightarrow> t \<noteq> Leaf \<Longrightarrow> height t \<le> n \<Longrightarrow> \<exists>r. find_within n s p k = Some r"
proof (induction t arbitrary: q p n)
  case (Node l a r)
  then obtain m where m: "n = Suc m" "height l \<le> m" "height r \<le> m" by (cases n) auto
  have "\<exists>x. find_within m s (av_left s a) k = Some x" if "av_left s a \<noteq> 0"
    using Node.IH(1) [of a "av_left s a" m] Node.prems(1) m that tree_at_NULL [of s a l "av_left s a"] by auto
  moreover have "\<exists>x. find_within m s (av_right s a) k = Some x" if "av_right s a \<noteq> 0"
    using Node.IH(2) [of a "av_right s a" m] Node.prems(1) m that tree_at_NULL [of s a r "av_right s a"] by auto
  ultimately show ?case using Node.prems(1) m by (auto simp: Let_def)
qed simp

section \<open>The walks\<close>

lemma dll_ends:
  "dll h head xs \<Longrightarrow> nxt h head = (case xs of [] \<Rightarrow> head | x # _ \<Rightarrow> x)"
  "dll h head xs \<Longrightarrow> prv h head = (if xs = [] then head else last xs)"
  using chain_next [of h head xs head] chain_prev [of h head xs head] by (auto simp: dll_def split: list.splits)


lemma dll_prv_at: "dll h head (us @ rest) \<Longrightarrow> prv h (hd (rest @ [head])) = last (head # us)"
  by (cases us rule: rev_cases; cases rest) (auto simp: dll_def chain_append dest: chain_prev)

lemma dll_nxt_at: "dll h head (us @ rest) \<Longrightarrow> nxt h (last (head # us)) = hd (rest @ [head])"
  by (cases us rule: rev_cases; cases rest) (auto simp: dll_def chain_append dest: chain_next)

text \<open>A body that leaves the links of the list alone.\<close>

definition keeps_list :: "(ptr \<Rightarrow> 'k avl \<Rightarrow> 'k avl option) \<Rightarrow> bool" where
  "keeps_list body \<longleftrightarrow> (\<forall>x s s'. body x s = Some s' \<longrightarrow> av_list s' = av_list s \<and> av_head s' = av_head s)"

lemma range_walk:
  assumes "keeps_list body" "\<And>s'. av_list s' = av_list s \<Longrightarrow> av_head s' = av_head s \<Longrightarrow> le s' = z"
    "dll (av_list s) (av_head s) (us @ rest @ vs)" "z = last (av_head s # us @ rest)"
  shows "avl_for_element_range body le s (hd (rest @ vs @ [av_head s])) = foldM body rest s"
  using assms(2-)
proof (induction rest arbitrary: us s)
  case Nil
  then show ?case
    using dll_prv_at [of "av_list s" "av_head s" us vs] by (subst avl_for_element_range.simps) simp
next
  case (Cons e rest)
  have "prv (av_list s) e = last (av_head s # us)"
    using dll_prv_at [of "av_list s" "av_head s" us "e # rest @ vs"] Cons.prems(2) by simp
  moreover have "distinct (av_head s # us @ e # rest @ vs)" using Cons.prems(2) by (simp add: dll_def)
  then have "set (av_head s # us) \<inter> set (e # rest) = {}" by auto
  then have "last (av_head s # us) \<noteq> last (e # rest)"
    using last_in_set [of "e # rest"] last_in_set [of "av_head s # us"] by (metis disjoint_iff list.distinct(1))
  ultimately have ne: "prv (av_list s) e \<noteq> le s" using Cons.prems(1) [of s] Cons.prems(3) by simp
  have nx: "nxt (av_list s) e = hd (rest @ vs @ [av_head s])"
    using dll_nxt_at [of "av_list s" "av_head s" "us @ [e]" "rest @ vs"] Cons.prems(2) by simp
  show ?case
  proof (cases "body e s")
    case None
    then show ?thesis using ne by (subst avl_for_element_range.simps) simp
  next
    case (Some s')
    then have same: "av_list s' = av_list s" "av_head s' = av_head s" using assms(1) by (auto simp: keeps_list_def)
    have "avl_for_element_range body le s' (hd (rest @ vs @ [av_head s'])) = foldM body rest s'"
      by (rule Cons.IH [of s' "us @ [e]"]) (use Cons.prems same in simp_all)
    then show ?thesis
      using ne nx Some same by (subst avl_for_element_range.simps) (simp add: avl_next_element_def)
  qed
qed

lemma range_reverse_walk:
  assumes "keeps_list body" "\<And>s'. av_list s' = av_list s \<Longrightarrow> av_head s' = av_head s \<Longrightarrow> fe s' = z"
    "dll (av_list s) (av_head s) (us @ rest @ vs)" "z = hd (rest @ vs @ [av_head s])"
  shows "avl_for_element_range_reverse body fe s (last (av_head s # us @ rest)) = foldM body (rev rest) s"
  using assms(2-)
proof (induction rest arbitrary: vs s rule: rev_induct)
  case Nil
  then show ?case
    using dll_nxt_at [of "av_list s" "av_head s" us vs] by (subst avl_for_element_range_reverse.simps) simp
next
  case (snoc e rest)
  have "nxt (av_list s) e = hd (vs @ [av_head s])"
    using dll_nxt_at [of "av_list s" "av_head s" "us @ rest @ [e]" vs] snoc.prems(2) by simp
  moreover have d: "distinct (av_head s # us @ rest @ e # vs)" using snoc.prems(2) by (simp add: dll_def)
  have "hd (vs @ [av_head s]) \<noteq> hd (rest @ e # vs @ [av_head s])"
    using d by (cases rest; cases vs) auto
  ultimately have ne: "nxt (av_list s) e \<noteq> fe s" using snoc.prems(1) [of s] snoc.prems(3) by simp
  have nx: "prv (av_list s) e = last (av_head s # us @ rest)"
    using dll_prv_at [of "av_list s" "av_head s" "us @ rest" "e # vs"] snoc.prems(2) by simp
  show ?case
  proof (cases "body e s")
    case None
    then show ?thesis using ne by (subst avl_for_element_range_reverse.simps) simp
  next
    case (Some s')
    then have same: "av_list s' = av_list s" "av_head s' = av_head s" using assms(1) by (auto simp: keeps_list_def)
    have "avl_for_element_range_reverse body fe s' (last (av_head s' # us @ rest)) = foldM body (rev rest) s'"
      by (rule snoc.IH [of s' "e # vs"]) (use snoc.prems same in simp_all)
    then show ?thesis
      using ne nx Some same by (subst avl_for_element_range_reverse.simps) (simp add: avl_prev_element_def)
  qed
qed

text \<open>Deleting every node in a safe loop.\<close>

lemma avl_delete_repr:
  assumes "comparator (av_comp s)" "avl_repr s xs" "n \<in> set xs"
  shows "\<exists>s'. avl_delete s n = Some s' \<and> avl_repr s' (remove1 n xs) \<and>
    av_key s' = av_key s \<and> av_head s' = av_head s \<and> av_comp s' = av_comp s \<and> av_allow_dups s' = av_allow_dups s"
proof -
  obtain gs where "avl_groups s gs" "xs = flat gs" using assms(2) by (auto simp: avl_repr_def)
  then show ?thesis using avl_delete_groups [OF assms(1), of gs n] assms(3) unfolding avl_repr_def by metis
qed

lemma delete_all_walk:
  assumes "comparator (av_comp s)" "avl_repr s xs"
  shows "\<exists>s'. avl_range_safe_loop (\<lambda>n s. avl_delete s n) avl_last_element s (hd (xs @ [av_head s]))
      (avl_next_element s (hd (xs @ [av_head s]))) = Some s' \<and> avl_repr s' []"
  using assms
proof (induction xs arbitrary: s)
  case Nil
  have "prv (av_list s) (av_head s) = avl_last_element s" by (simp add: avl_last_element_def)
  then show ?case using Nil by (subst avl_range_safe_loop.simps) simp
next
  case (Cons x xs)
  note d = repr_dll [OF Cons.prems(2)]
  have "prv (av_list s) x = av_head s" "avl_last_element s = last (x # xs)" "av_head s \<noteq> last (x # xs)"
    using dll_prv_at [of "av_list s" "av_head s" "[]" "x # xs"] d dll_ends(2) [OF d] last_in_set [of "x # xs"]
    by (auto simp: avl_last_element_def dll_def)
  then have ne: "prv (av_list s) x \<noteq> avl_last_element s" by simp
  have nx: "avl_next_element s x = hd (xs @ [av_head s])"
    using dll_nxt_at [of "av_list s" "av_head s" "[x]" xs] d by (simp add: avl_next_element_def)
  obtain s' where s': "avl_delete s x = Some s'" "avl_repr s' xs" "av_head s' = av_head s" "av_comp s' = av_comp s"
    using avl_delete_repr [OF Cons.prems, of x] by auto
  then show ?case
    using Cons.IH [of s'] Cons.prems(1) ne nx by (subst avl_range_safe_loop.simps) simp
qed

lemma remove_all_walk:
  assumes "\<forall>x\<in>set xs. x \<noteq> av_head s" "chain h q xs (av_head s)" "av_count s = of_nat (length xs)" "length xs < 2 ^ 32"
    "nxt (av_list s) = (nxt h)(av_head s := v)"
  shows "avl_remove_all_loop body s w (hd (xs @ [av_head s])) (avl_next_element s (hd (xs @ [av_head s]))) =
    Some (s\<lparr>av_count := 0\<rparr>, fold body xs w)"
  using assms
proof (induction xs arbitrary: s w q)
  case Nil
  then show ?case by (subst avl_remove_all_loop.simps) simp
next
  case (Cons x xs)
  have "unat (av_count s) = length (x # xs)"
    unfolding Cons.prems(3) using Cons.prems(4) by (intro of_nat_inverse [OF refl]) simp
  then have "av_count s > 0" by (simp add: word_less_nat_alt)
  moreover have "avl_next_element s x = hd (xs @ [av_head s])"
    using Cons.prems(1,2,5) by (cases xs) (auto simp: avl_next_element_def)
  moreover have "avl_remove_all_loop body (s\<lparr>av_count := av_count s - 1\<rparr>) (body x w) (hd (xs @ [av_head s]))
      (avl_next_element (s\<lparr>av_count := av_count s - 1\<rparr>) (hd (xs @ [av_head s]))) =
    Some (s\<lparr>av_count := av_count s - 1\<rparr>\<lparr>av_count := 0\<rparr>, fold body xs (body x w))"
    using Cons.IH [of "s\<lparr>av_count := av_count s - 1\<rparr>" x] Cons.prems by simp
  ultimately show ?case by (subst avl_remove_all_loop.simps) (simp add: avl_next_element_def)
qed

end
