(* ===== verification/AvlSpec.thy ===== *)
theory AvlSpec
  imports AvlIter
begin

text \<open>
  What \<^verbatim>\<open>avl.c\<close> and \<^verbatim>\<open>avl.h\<close> promise, stated on the sorted sequence of the nodes of a tree. The
  hypotheses are the contract of the comparator and that the node to insert is not in the tree yet.
\<close>

section \<open>A concrete tree\<close>

definition tree3 :: "int avl" where
  "tree3 = \<lparr>av_head = 1, av_root = 3, av_count = 3, av_allow_dups = True, av_comp = \<lambda>x y. x - y,
     av_list = list_add_tail 4 1 heap23, av_parent = (\<lambda>_. 0)(2 := 3, 4 := 3),
     av_left = (\<lambda>_. 0)(3 := 2), av_right = (\<lambda>_. 0)(3 := 4),
     av_key = (\<lambda>p. if p = 9 then 3 else int p), av_balance = \<lambda>_. 0, av_leader = \<lambda>_. True\<rparr>"

lemma tree3_comparator: "comparator (av_comp tree3)"
  by unfold_locales (auto simp: tree3_def sgn_if)

lemma tree3_repr: "avl_repr tree3 [2, 3, 4]"
proof -
  have "avl_shape tree3 (Node (Node Leaf 2 Leaf) 3 (Node Leaf 4 Leaf))"
    by (simp add: avl_shape_def tree3_def)
  moreover have "dll (av_list tree3) 1 [2, 3, 4]"
    using list_add_tail_dll [OF heap23_dll, of 4] by (simp add: tree3_def)
  ultimately have "avl_groups tree3 [(2, []), (3, []), (4, [])]"
    unfolding avl_groups_def groups_ok_def
    by (intro conjI exI [of _ "Node (Node Leaf 2 Leaf) 3 (Node Leaf 4 Leaf)"]) (simp_all add: tree3_def)
  then show ?thesis unfolding avl_repr_def by (intro exI [of _ "[(2, []), (3, []), (4, [])]"]) simp
qed

lemma tree3_fresh: "9 \<noteq> (0::nat)" "9 \<notin> set (av_head tree3 # [2, 3, 4])"
  by (simp_all add: tree3_def)

section \<open>Searching\<close>

text \<open>
  C10: On a tree that holds the nodes \<open>xs\<close> in order, \<^verbatim>\<open>avl_find\<close> returns the first node with the key,
  \<^verbatim>\<open>avl_find_lessequal\<close> the last node whose key is not greater, \<^verbatim>\<open>avl_find_greaterequal\<close> the first node
  whose key is not smaller, and each of them NULL exactly when there is no such node; all three
  return on every tree.
\<close>

theorem avl_find_correct:
  assumes "comparator (av_comp s)" "avl_repr s xs"
  shows "avl_find_element' s k AVL_FIND_EQUAL = Some (node_or_NULL (find (\<lambda>x. key_cmp s k x = 0) xs)) \<and>
    avl_find_element' s k AVL_FIND_LESSEQUAL = Some (node_or_NULL (find (\<lambda>x. 0 \<le> key_cmp s k x) (rev xs))) \<and>
    avl_find_element' s k AVL_FIND_GREATEREQUAL = Some (node_or_NULL (find (\<lambda>x. key_cmp s k x \<le> 0) xs))"
  using avl_find_repr [OF assms] avl_find_lessequal_repr [OF assms] avl_find_greaterequal_repr [OF assms]
  by (simp_all add: avl_find_element'_def node_or_NULL_def)

lemma avl_find_correct_witness:
  "avl_find_element' tree3 3 AVL_FIND_EQUAL = Some 3 \<and> avl_find_element' tree3 7 AVL_FIND_LESSEQUAL = Some 4 \<and>
   avl_find_element' tree3 7 AVL_FIND_GREATEREQUAL = Some 0"
  using avl_find_correct [OF tree3_comparator tree3_repr, of 3] avl_find_correct [OF tree3_comparator tree3_repr, of 7]
  by (simp add: tree3_def node_or_NULL_def)

text \<open>
  C11: A search looks at no more nodes than twice the binary logarithm of the number of nodes plus
  one: with any bound \<open>n\<close> such that \<open>2 ^ (n div 2)\<close> exceeds the number of nodes plus one,
  \<^verbatim>\<open>avl_find_rec\<close> ends within \<open>n\<close> comparisons.
\<close>

theorem avl_find_logarithmic:
  assumes "avl_repr s xs" "xs \<noteq> []" "length xs + 1 < 2 ^ (n div 2)"
  shows "\<exists>r. find_within n s (av_root s) k = Some r \<and> avl_find_rec s (av_root s) k = Some r"
proof -
  obtain gs t where t: "avl_shape s t" "inorder t = map fst gs" "xs = flat gs"
    using assms(1) by (auto simp: avl_repr_def avl_groups_def)
  have "length gs \<le> length (flat gs)" by (induction gs) auto
  moreover have "size1 t = length gs + 1" using t(2) by (metis length_inorder length_map size1_size)
  moreover have "2 ^ (height t div 2) \<le> size1 t"
    using bal_height_size [of "av_balance s" t] t(1) by (simp add: avl_shape_def)
  ultimately have "2 ^ (height t div 2) < (2::nat) ^ (n div 2)"
    using assms(3) unfolding t(3) by linarith
  then have "height t div 2 < n div 2" by simp
  then have "height t \<le> n" by linarith
  moreover have "t \<noteq> Leaf" using t(2,3) assms(2) by auto
  ultimately show ?thesis
    using find_within_height [of s 0 t "av_root s" n k] t(1) find_within_rec by (auto simp: avl_shape_def)
qed

lemma avl_find_logarithmic_witness: "\<exists>r. find_within 6 tree3 3 7 = Some r \<and> avl_find_rec tree3 3 7 = Some r"
  using avl_find_logarithmic [OF tree3_repr, of 6 7] by (simp add: tree3_def)

section \<open>Insertion and deletion\<close>

lemma avl_insert_repr:
  assumes "comparator (av_comp s)" "avl_repr s xs" "new \<noteq> 0" "new \<notin> set (av_head s # xs)"
  shows "\<exists>s' r. avl_insert s new = Some (s', r) \<and>
    av_key s' = av_key s \<and> av_head s' = av_head s \<and> av_comp s' = av_comp s \<and> av_allow_dups s' = av_allow_dups s \<and>
    (if \<not> av_allow_dups s \<and> find (\<lambda>x. key_cmp s (av_key s new) x = 0) xs \<noteq> None
     then r = -1 \<and> avl_repr s' xs
     else r = 0 \<and> avl_repr s' (insert_before (\<lambda>y. key_cmp s (av_key s new) y < 0) new xs))"
proof -
  obtain gs where gs: "avl_groups s gs" "xs = flat gs" using assms(2) by (auto simp: avl_repr_def)
  show ?thesis
  proof (cases "gs = []")
    case True
    then have e: "avl_insert s new = Some ((set_root new (set_list (list_add new (av_head s) (av_list s)) (avl_new new s)))\<lparr>av_count := 1\<rparr>, 0)"
      using avl_groups_root [OF gs(1)] by (simp add: avl_insert_def Let_def)
    have d: "dll (av_list s) (av_head s) []" using gs True by (simp add: avl_groups_def groups_ok_def)
    let ?s = "(set_root new (set_list (list_add new (av_head s) (av_list s)) (avl_new new s)))\<lparr>av_count := 1\<rparr>"
    have "avl_shape ?s (Node Leaf new Leaf)"
      using assms(3) by (simp add: avl_shape_def avl_new_def set_root_def set_list_def set_leader_def set_balance_def
        set_right_def set_left_def set_parent_def)
    moreover have "groups_ok ?s [(new, [])]"
      using list_add_dll [OF d, of new] assms(3,4) by (simp add: groups_ok_def set_root_def set_list_def)
    ultimately have "avl_groups ?s [(new, [])]"
      unfolding avl_groups_def by (intro conjI exI [of _ "Node Leaf new Leaf"]) simp_all
    then have "avl_repr ?s [new]" unfolding avl_repr_def by (intro exI [of _ "[(new, [])]"]) simp
    then show ?thesis using e gs(2) True by (simp add: insert_before_def set_root_def set_list_def)
  next
    case False
    have f: "(find (\<lambda>x. key_cmp s (av_key s new) x = 0) xs \<noteq> None) = (\<exists>x\<in>set xs. key_cmp s (av_key s new) x = 0)"
      by (auto simp: find_None_iff)
    obtain s' r gs' where *: "avl_insert s new = Some (s', r)" "avl_groups s' gs'"
      "if \<not> av_allow_dups s \<and> (\<exists>x\<in>set (flat gs). key_cmp s (av_key s new) x = 0)
       then r = -1 \<and> gs' = gs \<and> inserted (s\<lparr>av_count := av_count s - 1\<rparr>) new True (flat gs) s'
       else r = 0 \<and> flat gs' = insert_before (\<lambda>y. key_cmp s (av_key s new) y < 0) new (flat gs) \<and>
         (\<exists>ld xs. inserted s new ld xs s')"
      using avl_insert_nonempty [OF assms(1) gs(1) False assms(3)] assms(4) gs(2) by blast
    then have r: "avl_repr s' (flat gs')" by (auto simp: avl_repr_def)
    show ?thesis
    proof (cases "\<not> av_allow_dups s \<and> (\<exists>x\<in>set xs. key_cmp s (av_key s new) x = 0)")
      case True
      then show ?thesis using * r gs(2) unfolding f by (auto simp: inserted_def)
    next
      case False
      then show ?thesis using * r gs(2) unfolding f by (auto simp: inserted_def)
    qed
  qed
qed

text \<open>The keys of nodes outside the tree do not matter.\<close>

lemma avl_repr_key:
  assumes "avl_repr s xs" "\<forall>x\<in>set xs. f x = av_key s x"
  shows "avl_repr (s\<lparr>av_key := f\<rparr>) xs"
proof -
  obtain gs t where g: "groups_ok s gs" "avl_shape s t" "inorder t = map fst gs" "xs = flat gs"
    using assms(1) by (auto simp: avl_repr_def avl_groups_def)
  have k: "f a = av_key s a \<and> (\<forall>d\<in>set ds. f d = av_key s d)" if "(a, ds) \<in> set gs" for a ds
    using that assms(2) g(4) by (auto simp: flat_def)
  have "sorted_wrt (\<lambda>g h. av_comp s (f (fst g)) (f (fst h)) < 0) gs"
    using g(1) k unfolding groups_ok_def by (auto intro!: sorted_wrt_mono_rel [of gs "\<lambda>g h. av_comp s (av_key s (fst g)) (av_key s (fst h)) < 0"])
  then have "groups_ok (s\<lparr>av_key := f\<rparr>) gs" using g(1) k by (fastforce simp: groups_ok_def)
  moreover have "tree_at (s\<lparr>av_key := f\<rparr>) 0 t (av_root s) = tree_at s 0 t (av_root s)"
    by (rule tree_at_frame) simp_all
  then have "avl_shape (s\<lparr>av_key := f\<rparr>) t" using g(2) by (simp add: avl_shape_def)
  ultimately show ?thesis using g(3,4) unfolding avl_repr_def avl_groups_def by blast
qed

text \<open>
  C12: \<^verbatim>\<open>avl_insert\<close> of a node outside the tree returns, keeps the invariant (balanced search tree
  of the group leaders, sorted linked list, count) and inserts the node before the first node with
  a greater key, after all nodes with its own key; in a tree without duplicates a key that is
  already present gives -1 and leaves the sequence of nodes as it was.
\<close>

theorem avl_insert_correct:
  assumes "comparator (av_comp s)" "avl_repr s xs" "new \<noteq> 0" "new \<notin> set (av_head s # xs)"
  shows "\<exists>s' r. avl_insert s new = Some (s', r) \<and>
    av_key s' = av_key s \<and> av_head s' = av_head s \<and> av_comp s' = av_comp s \<and> av_allow_dups s' = av_allow_dups s \<and>
    (if \<not> av_allow_dups s \<and> find (\<lambda>x. key_cmp s (av_key s new) x = 0) xs \<noteq> None
     then r = -1 \<and> avl_repr s' xs
     else r = 0 \<and> avl_repr s' (insert_before (\<lambda>y. key_cmp s (av_key s new) y < 0) new xs))"
  by (rule avl_insert_repr [OF assms])

lemma avl_insert_correct_witness: "\<exists>s'. avl_insert tree3 9 = Some (s', 0) \<and> avl_repr s' [2, 3, 9, 4]"
  using avl_insert_correct [OF tree3_comparator tree3_repr tree3_fresh] by (auto simp: tree3_def insert_before_def)

text \<open>
  C13: \<^verbatim>\<open>avl_delete\<close> of a node of the tree returns, keeps the invariant and removes exactly that node
  from the sequence; when the node leads a group the next node of the group becomes its leader.
\<close>

theorem avl_delete_correct:
  assumes "comparator (av_comp s)" "avl_repr s xs" "n \<in> set xs"
  shows "\<exists>s'. avl_delete s n = Some s' \<and> avl_repr s' (remove1 n xs) \<and>
    av_key s' = av_key s \<and> av_head s' = av_head s \<and> av_comp s' = av_comp s \<and> av_allow_dups s' = av_allow_dups s"
  by (rule avl_delete_repr [OF assms])

lemma avl_delete_correct_witness: "\<exists>s'. avl_delete tree3 3 = Some s' \<and> avl_repr s' [2, 4]"
  using avl_delete_correct [OF tree3_comparator tree3_repr, of 3] by auto

section \<open>Iteration\<close>

lemma avl_walks:
  assumes "comparator (av_comp s)" "avl_repr s xs" "keeps_list body" "length xs < 2 ^ 32"
  shows "avl_for_each_element body s = foldM body xs s"
    "avl_for_each_element_reverse body s = foldM body (rev xs) s"
    "\<exists>s'. avl_for_each_element_safe (\<lambda>n s. avl_delete s n) s = Some s' \<and> avl_repr s' []"
    "\<exists>s'. avl_remove_all_elements visit s w = Some (s', fold visit xs w) \<and> avl_repr s' [] \<and> avl_is_empty s' \<and>
      av_comp s' = av_comp s \<and> av_allow_dups s' = av_allow_dups s \<and> av_head s' = av_head s"
proof -
  note d = repr_dll [OF assms(2)]
  have first: "avl_first_element s = hd (xs @ [av_head s])"
    using dll_ends(1) [OF d] by (simp add: avl_first_element_def split: list.splits)
  have lst: "avl_last_element s = last (av_head s # xs)"
    using dll_ends(2) [OF d] by (simp add: avl_last_element_def)
  show "avl_for_each_element body s = foldM body xs s"
    unfolding avl_for_each_element_def first
    using range_walk [OF assms(3), of s avl_last_element "avl_last_element s" "[]" xs "[]"] d lst
    by (simp add: avl_last_element_def)
  show "avl_for_each_element_reverse body s = foldM body (rev xs) s"
    unfolding avl_for_each_element_reverse_def lst
    using range_reverse_walk [OF assms(3), of s avl_first_element "avl_first_element s" "[]" xs "[]"] d first
    by (simp add: avl_first_element_def)
  show "\<exists>s'. avl_for_each_element_safe (\<lambda>n s. avl_delete s n) s = Some s' \<and> avl_repr s' []"
    unfolding avl_for_each_element_safe_def first by (rule delete_all_walk [OF assms(1,2)])
  let ?s = "set_root 0 (set_list (INIT_LIST_HEAD (av_head s) (av_list s)) s)"
  have nx: "avl_next_element s (avl_first_element s) = avl_next_element ?s (avl_first_element s) \<or> xs = []"
    using d first by (cases xs) (auto simp: avl_next_element_def set_root_def set_list_def INIT_LIST_HEAD_def dll_def
      set_next_def set_prev_def)
  have "avl_remove_all_loop visit ?s w (hd (xs @ [av_head ?s])) (avl_next_element ?s (hd (xs @ [av_head ?s]))) =
      Some (?s\<lparr>av_count := 0\<rparr>, fold visit xs w)"
    using d repr_count [OF assms(2)] assms(4)
    by (intro remove_all_walk [of xs ?s "av_list s" "av_head s" "av_head s"])
      (auto simp: dll_def set_root_def set_list_def INIT_LIST_HEAD_def set_next_def set_prev_def)
  moreover have "avl_remove_all_loop visit ?s w (avl_first_element s) p = Some (?s\<lparr>av_count := 0\<rparr>, w)" if "xs = []" for p
    using that repr_count [OF assms(2)]
    by (subst avl_remove_all_loop.simps) (simp add: set_root_def set_list_def)
  ultimately have e: "avl_remove_all_elements visit s w = Some (?s\<lparr>av_count := 0\<rparr>, fold visit xs w)"
    using nx first by (auto simp: avl_remove_all_elements_def Let_def set_root_def set_list_def)
  have "avl_groups (?s\<lparr>av_count := 0\<rparr>) []"
    using avl_init_groups [of "av_comp s" "av_allow_dups s" s] by (simp add: avl_init_def set_root_def set_list_def)
  then have "avl_repr (?s\<lparr>av_count := 0\<rparr>) []" unfolding avl_repr_def by (intro exI [of _ "[]"]) simp
  then show "\<exists>s'. avl_remove_all_elements visit s w = Some (s', fold visit xs w) \<and> avl_repr s' [] \<and> avl_is_empty s' \<and>
      av_comp s' = av_comp s \<and> av_allow_dups s' = av_allow_dups s \<and> av_head s' = av_head s"
    using e by (auto simp: avl_is_empty_def set_root_def set_list_def)
qed

text \<open>
  C14: The iteration macros terminate and run the body once for every node, in key order or in the
  reverse order, when the body leaves the links alone; the safe loop may delete each node it is at
  and so empties the tree; \<^verbatim>\<open>avl_remove_all_elements\<close> hands every node to its body, in order, and
  leaves an empty tree.
\<close>

theorem avl_iteration_correct:
  assumes "comparator (av_comp s)" "avl_repr s xs" "keeps_list body" "length xs < 2 ^ 32"
  shows "avl_for_each_element body s = foldM body xs s \<and>
    avl_for_each_element_reverse body s = foldM body (rev xs) s \<and>
    (\<exists>s'. avl_for_each_element_safe (\<lambda>n s. avl_delete s n) s = Some s' \<and> avl_repr s' []) \<and>
    (\<exists>s'. avl_remove_all_elements visit s w = Some (s', fold visit xs w) \<and> avl_repr s' [] \<and> avl_is_empty s')"
  using avl_walks(4) [OF assms, of visit w] by (intro conjI avl_walks(1-3) [OF assms]) blast

lemma avl_iteration_correct_witness:
  "\<exists>s'. avl_remove_all_elements (#) tree3 [] = Some (s', [4, 3, 2]) \<and> avl_repr s' []"
proof -
  have k: "keeps_list (\<lambda>_ s. Some s)" by (simp add: keeps_list_def)
  show ?thesis
    using avl_iteration_correct [OF tree3_comparator tree3_repr k, of "(#)" "[]"] by (auto simp: tree3_def)
qed

end
