(* ===== verification/Blob.thy ===== *)
theory Blob
  imports Utils "HOL-Library.Signed_Division"
begin

text \<open>
  \<^verbatim>\<open>blob.h\<close>, \<^verbatim>\<open>blob.c\<close>: attributes with a 32-bit big-endian header (7 bits of id, 24 bits of length,
  one flag), padded to four bytes, in a buffer that grows. An attribute pointer is an offset into
  the block of bytes that holds it; an access outside the block is \<^const>\<open>None\<close>. A NULL attribute is
  the inner \<^const>\<open>None\<close>. The pointer \<^verbatim>\<open>buf->head\<close> is an offset into \<^verbatim>\<open>buf->buf\<close>, so that it stays valid
  when the block moves, which is what \<^verbatim>\<open>attr_to_offset\<close> and \<^verbatim>\<open>offset_to_attr\<close> are for.
\<close>

section \<open>Headers\<close>

definition BLOB_COOKIE :: nat where "BLOB_COOKIE = 0x01234567"

definition BLOB_ATTR_ID_MASK :: u32 where "BLOB_ATTR_ID_MASK = 0x7f000000"
definition BLOB_ATTR_ID_SHIFT :: nat where "BLOB_ATTR_ID_SHIFT = 24"
definition BLOB_ATTR_LEN_MASK :: u32 where "BLOB_ATTR_LEN_MASK = 0x00ffffff"
definition BLOB_ATTR_ALIGN :: u32 where "BLOB_ATTR_ALIGN = 4"
definition BLOB_ATTR_EXTENDED :: u32 where "BLOB_ATTR_EXTENDED = 0x80000000"

text \<open>
  Loads and stores of words that are kept in network order. By \<open>load_be32_host\<close> and
  \<open>store_be32_host\<close> they are what any host does with \<^verbatim>\<open>be32_to_cpu\<close> and \<^verbatim>\<open>cpu_to_be32\<close>.
\<close>

definition load_be16 :: "bytes \<Rightarrow> nat \<Rightarrow> u16 option" where
  "load_be16 m p = do { bs \<leftarrow> rdn m p 2; Some (be_word16 bs) }"

definition load_be32 :: "bytes \<Rightarrow> nat \<Rightarrow> u32 option" where
  "load_be32 m p = do { bs \<leftarrow> rdn m p 4; Some (be_word32 bs) }"

definition store_be32 :: "bytes \<Rightarrow> nat \<Rightarrow> u32 \<Rightarrow> bytes option" where
  "store_be32 m p w = wrn m p (be_bytes32 w)"

definition id_len :: "bytes \<Rightarrow> nat \<Rightarrow> u32 option" where
  "id_len m attr = load_be32 m attr"

definition blob_data :: "nat \<Rightarrow> nat" where
  "blob_data attr = attr + 4"

definition blob_id :: "bytes \<Rightarrow> nat \<Rightarrow> u32 option" where
  "blob_id m attr = do { w \<leftarrow> id_len m attr; Some (drop_bit BLOB_ATTR_ID_SHIFT (w AND BLOB_ATTR_ID_MASK)) }"

definition blob_is_extended :: "bytes \<Rightarrow> nat \<Rightarrow> bool option" where
  "blob_is_extended m attr = do { w \<leftarrow> id_len m attr; Some (w AND BLOB_ATTR_EXTENDED \<noteq> 0) }"

definition blob_len :: "bytes \<Rightarrow> nat \<Rightarrow> u32 option" where
  "blob_len m attr = do { w \<leftarrow> id_len m attr; Some ((w AND BLOB_ATTR_LEN_MASK) - 4) }"

definition blob_raw_len :: "bytes \<Rightarrow> nat \<Rightarrow> u32 option" where
  "blob_raw_len m attr = do { l \<leftarrow> blob_len m attr; Some (l + 4) }"

definition blob_pad_len :: "bytes \<Rightarrow> nat \<Rightarrow> u32 option" where
  "blob_pad_len m attr = do { len \<leftarrow> blob_raw_len m attr;
     Some ((len + BLOB_ATTR_ALIGN - 1) AND NOT (BLOB_ATTR_ALIGN - 1)) }"

definition blob_next :: "bytes \<Rightarrow> nat \<Rightarrow> nat option" where
  "blob_next m attr = do { l \<leftarrow> blob_pad_len m attr; Some (attr + unat l) }"

section \<open>Values\<close>

definition blob_get_u8 :: "bytes \<Rightarrow> nat \<Rightarrow> u8 option" where
  "blob_get_u8 m attr = rd m (blob_data attr)"

definition blob_get_u16 :: "bytes \<Rightarrow> nat \<Rightarrow> u16 option" where
  "blob_get_u16 m attr = load_be16 m (blob_data attr)"

definition blob_get_u32 :: "bytes \<Rightarrow> nat \<Rightarrow> u32 option" where
  "blob_get_u32 m attr = load_be32 m (blob_data attr)"

definition blob_get_u64 :: "bytes \<Rightarrow> nat \<Rightarrow> u64 option" where
  "blob_get_u64 m attr = do { h \<leftarrow> load_be32 m (blob_data attr); l \<leftarrow> load_be32 m (blob_data attr + 4);
     Some (push_bit 32 (ucast h) OR ucast l) }"

definition blob_get_int8 :: "bytes \<Rightarrow> nat \<Rightarrow> int option" where
  "blob_get_int8 m attr = do { w \<leftarrow> blob_get_u8 m attr; Some (sint w) }"

definition blob_get_int16 :: "bytes \<Rightarrow> nat \<Rightarrow> int option" where
  "blob_get_int16 m attr = do { w \<leftarrow> blob_get_u16 m attr; Some (sint w) }"

definition blob_get_int32 :: "bytes \<Rightarrow> nat \<Rightarrow> int option" where
  "blob_get_int32 m attr = do { w \<leftarrow> blob_get_u32 m attr; Some (sint w) }"

definition blob_get_int64 :: "bytes \<Rightarrow> nat \<Rightarrow> int option" where
  "blob_get_int64 m attr = do { w \<leftarrow> blob_get_u64 m attr; Some (sint w) }"

definition blob_get_string :: "bytes \<Rightarrow> nat \<Rightarrow> bytes option" where
  "blob_get_string m attr = cstr_at m (blob_data attr)"

section \<open>Building\<close>

text \<open>\<open>head = None\<close> is the NULL that a failed \<^verbatim>\<open>blob_nest_start\<close> leaves in \<^verbatim>\<open>buf->head\<close>.\<close>

record blob_buf =
  bb_head :: "nat option"
  bb_buflen :: int
  bb_buf :: bytes

text \<open>
  \<^verbatim>\<open>blob_buffer_grow\<close>; \<open>realloc_ok\<close> tells for which sizes \<^verbatim>\<open>realloc\<close> returns a block. A grow function
  returns \<^const>\<open>None\<close> when it reports failure and leaves the buffer alone.
\<close>

type_synonym grow_fun = "blob_buf \<Rightarrow> int \<Rightarrow> blob_buf option"

definition blob_buffer_grow :: "(int \<Rightarrow> bool) \<Rightarrow> grow_fun" where
  "blob_buffer_grow realloc_ok buf minlen =
     (let delta = (minlen sdiv 256 + 1) * 256 in
      if realloc_ok (bb_buflen buf + delta)
      then Some (buf\<lparr>bb_buf := bb_buf buf @ replicate (nat delta) 0, bb_buflen := bb_buflen buf + delta\<rparr>)
      else None)"

definition blob_init :: "bytes \<Rightarrow> nat \<Rightarrow> int \<Rightarrow> u32 \<Rightarrow> bytes option" where
  "blob_init m attr aid len =
     store_be32 m attr ((len AND BLOB_ATTR_LEN_MASK) OR (push_bit BLOB_ATTR_ID_SHIFT (word_of_int aid) AND BLOB_ATTR_ID_MASK))"

definition attr_to_offset :: "nat \<Rightarrow> nat" where
  "attr_to_offset attr = attr + BLOB_COOKIE"

definition offset_to_attr :: "nat \<Rightarrow> nat" where
  "offset_to_attr offset = offset - BLOB_COOKIE"

definition blob_buf_grow :: "grow_fun \<Rightarrow> blob_buf \<Rightarrow> int \<Rightarrow> blob_buf option" where
  "blob_buf_grow grow buf required =
     do { buf' \<leftarrow> grow buf required;
          Some (buf'\<lparr>bb_head := map_option (\<lambda>h. offset_to_attr (attr_to_offset h)) (bb_head buf)\<rparr>) }"

definition blob_fill_pad :: "bytes \<Rightarrow> nat \<Rightarrow> bytes option" where
  "blob_fill_pad m attr =
     do { pad \<leftarrow> blob_pad_len m attr; raw \<leftarrow> blob_raw_len m attr;
          let len = sint pad; delta = sint (pad - raw) in
          if delta > 0 then wrn m (nat (int attr + len - delta)) (replicate (nat delta) 0) else Some m }"

definition blob_add :: "grow_fun \<Rightarrow> blob_buf \<Rightarrow> nat \<Rightarrow> int \<Rightarrow> int \<Rightarrow> (blob_buf \<times> nat option) option" where
  "blob_add grow buf pos aid payload =
     (let offset = attr_to_offset pos;
          required = c_int (int offset - int BLOB_COOKIE + 4 + payload - bb_buflen buf);
          fill = (\<lambda>buf attr. do { m \<leftarrow> blob_init (bb_buf buf) attr aid (word_of_int (payload + 4));
                                 m \<leftarrow> blob_fill_pad m attr;
                                 Some (buf\<lparr>bb_buf := m\<rparr>, Some attr) })
      in if required > 0 then
           case blob_buf_grow grow buf required of None \<Rightarrow> Some (buf, None)
           | Some buf \<Rightarrow> fill buf (offset_to_attr offset)
         else fill buf pos)"

definition blob_set_raw_len :: "bytes \<Rightarrow> nat \<Rightarrow> u32 \<Rightarrow> bytes option" where
  "blob_set_raw_len m attr len =
     do { w \<leftarrow> id_len m attr;
          store_be32 m attr ((w AND NOT BLOB_ATTR_LEN_MASK) OR (len AND BLOB_ATTR_LEN_MASK)) }"

definition ENOMEM :: int where "ENOMEM = 12"

definition blob_buf_init :: "grow_fun \<Rightarrow> blob_buf \<Rightarrow> int \<Rightarrow> (blob_buf \<times> int) option" where
  "blob_buf_init grow buf aid =
     do { (buf, r) \<leftarrow> blob_add grow (buf\<lparr>bb_head := Some 0\<rparr>) 0 aid 0;
          Some (buf, if r = None then - ENOMEM else 0) }"

definition blob_buf_free :: "blob_buf \<Rightarrow> blob_buf" where
  "blob_buf_free buf = buf\<lparr>bb_buf := [], bb_buflen := 0\<rparr>"

definition blob_new :: "grow_fun \<Rightarrow> blob_buf \<Rightarrow> int \<Rightarrow> int \<Rightarrow> (blob_buf \<times> nat option) option" where
  "blob_new grow buf aid payload =
     do { hd \<leftarrow> bb_head buf;
          next \<leftarrow> blob_next (bb_buf buf) hd;
          (buf, r) \<leftarrow> blob_add grow buf next aid payload;
          case r of None \<Rightarrow> Some (buf, None)
          | Some attr \<Rightarrow>
            do { hd \<leftarrow> bb_head buf;
                 l1 \<leftarrow> blob_pad_len (bb_buf buf) hd;
                 l2 \<leftarrow> blob_pad_len (bb_buf buf) attr;
                 m \<leftarrow> blob_set_raw_len (bb_buf buf) hd (l1 + l2);
                 Some (buf\<lparr>bb_buf := m\<rparr>, Some attr) } }"

text \<open>The data to copy is a block of bytes of its own; \<^const>\<open>None\<close> is a NULL pointer.\<close>

definition blob_put_raw :: "grow_fun \<Rightarrow> blob_buf \<Rightarrow> bytes option \<Rightarrow> u32 \<Rightarrow> (blob_buf \<times> nat option) option" where
  "blob_put_raw grow buf ptr len =
     (case ptr of None \<Rightarrow> Some (buf, None)
      | Some src \<Rightarrow>
        if len < 4 then Some (buf, None)
        else
          do { hd \<leftarrow> bb_head buf;
               next \<leftarrow> blob_next (bb_buf buf) hd;
               (buf, r) \<leftarrow> blob_add grow buf next 0 (sint (len - 4));
               case r of None \<Rightarrow> Some (buf, None)
               | Some attr \<Rightarrow>
                 do { hd \<leftarrow> bb_head buf;
                      l1 \<leftarrow> blob_pad_len (bb_buf buf) hd;
                      m \<leftarrow> blob_set_raw_len (bb_buf buf) hd (l1 + len);
                      bs \<leftarrow> rdn src 0 (unat len);
                      m \<leftarrow> wrn m attr bs;
                      Some (buf\<lparr>bb_buf := m\<rparr>, Some attr) } })"

definition blob_put :: "grow_fun \<Rightarrow> blob_buf \<Rightarrow> int \<Rightarrow> bytes option \<Rightarrow> u32 \<Rightarrow> (blob_buf \<times> nat option) option" where
  "blob_put grow buf aid ptr len =
     do { (buf, r) \<leftarrow> blob_new grow buf aid (sint len);
          case (r, ptr) of
            (None, _) \<Rightarrow> Some (buf, None)
          | (Some attr, None) \<Rightarrow> Some (buf, Some attr)
          | (Some attr, Some src) \<Rightarrow>
            do { bs \<leftarrow> rdn src 0 (unat len);
                 m \<leftarrow> wrn (bb_buf buf) (blob_data attr) bs;
                 Some (buf\<lparr>bb_buf := m\<rparr>, Some attr) } }"

definition blob_nest_start :: "grow_fun \<Rightarrow> blob_buf \<Rightarrow> int \<Rightarrow> (blob_buf \<times> nat) option" where
  "blob_nest_start grow buf aid =
     do { hd \<leftarrow> bb_head buf;
          let offset = attr_to_offset hd in
          do { (buf, r) \<leftarrow> blob_new grow buf aid 0;
               let buf = buf\<lparr>bb_head := r\<rparr> in
               Some (buf, if r = None then 0 else offset) } }"

definition blob_nest_end :: "blob_buf \<Rightarrow> nat \<Rightarrow> blob_buf option" where
  "blob_nest_end buf cookie =
     (let attr = offset_to_attr cookie in
      do { hd \<leftarrow> bb_head buf;
           l1 \<leftarrow> blob_pad_len (bb_buf buf) attr;
           l2 \<leftarrow> blob_len (bb_buf buf) hd;
           m \<leftarrow> blob_set_raw_len (bb_buf buf) attr (l1 + l2);
           Some (buf\<lparr>bb_buf := m, bb_head := Some attr\<rparr>) })"

definition blob_put_string :: "grow_fun \<Rightarrow> blob_buf \<Rightarrow> int \<Rightarrow> bytes \<Rightarrow> (blob_buf \<times> nat option) option" where
  "blob_put_string grow buf aid str = blob_put grow buf aid (Some (str @ [0])) (of_nat (length str + 1))"

definition blob_put_u8 :: "grow_fun \<Rightarrow> blob_buf \<Rightarrow> int \<Rightarrow> u8 \<Rightarrow> (blob_buf \<times> nat option) option" where
  "blob_put_u8 grow buf aid val = blob_put grow buf aid (Some [val]) 1"

definition blob_put_u16 :: "grow_fun \<Rightarrow> blob_buf \<Rightarrow> int \<Rightarrow> u16 \<Rightarrow> (blob_buf \<times> nat option) option" where
  "blob_put_u16 grow buf aid val = blob_put grow buf aid (Some (be_bytes16 val)) 2"

definition blob_put_u32 :: "grow_fun \<Rightarrow> blob_buf \<Rightarrow> int \<Rightarrow> u32 \<Rightarrow> (blob_buf \<times> nat option) option" where
  "blob_put_u32 grow buf aid val = blob_put grow buf aid (Some (be_bytes32 val)) 4"

definition blob_put_u64 :: "grow_fun \<Rightarrow> blob_buf \<Rightarrow> int \<Rightarrow> u64 \<Rightarrow> (blob_buf \<times> nat option) option" where
  "blob_put_u64 grow buf aid val =
     blob_put grow buf aid (Some (be_bytes32 (ucast (drop_bit 32 val)) @ be_bytes32 (ucast val))) 8"

section \<open>Reading\<close>

text \<open>
  The loop \<^verbatim>\<open>__blob_for_each_attr\<close>: the positions it visits, in order. The bounds test compares
  unsigned lengths; \<open>rem\<close> decreases by at least four in every round.
\<close>

partial_function (option) blob_for_each_attr' :: "bytes \<Rightarrow> nat \<Rightarrow> int \<Rightarrow> nat list option" where
  "blob_for_each_attr' m p rem =
     (if rem \<le> 0 then Some []
      else do { l \<leftarrow> blob_pad_len m p;
                if uint l \<le> rem \<and> 4 \<le> l
                then do { ps \<leftarrow> blob_for_each_attr' m (p + unat l) (rem - uint l); Some (p # ps) }
                else Some [] })"

definition blob_for_each_attr :: "bytes \<Rightarrow> nat option \<Rightarrow> nat list option" where
  "blob_for_each_attr m attr =
     (case attr of None \<Rightarrow> Some []
      | Some a \<Rightarrow> do { l \<leftarrow> blob_len m a; blob_for_each_attr' m (blob_data a) (sint l) })"

definition BLOB_ATTR_STRING :: int where "BLOB_ATTR_STRING = 3"
definition BLOB_ATTR_INT8 :: int where "BLOB_ATTR_INT8 = 4"
definition BLOB_ATTR_INT64 :: int where "BLOB_ATTR_INT64 = 7"
definition BLOB_ATTR_LAST :: int where "BLOB_ATTR_LAST = 8"

definition blob_type_minlen :: "u32 list" where
  "blob_type_minlen = [0, 0, 0, 1, 1, 2, 4, 8]"

definition blob_check_type :: "bytes \<Rightarrow> nat \<Rightarrow> u32 \<Rightarrow> int \<Rightarrow> bool option" where
  "blob_check_type m data len type =
     (if type \<ge> BLOB_ATTR_LAST then Some False
      else do { minlen \<leftarrow> (if type < 0 then None else rd blob_type_minlen (nat type));
        if (if type \<ge> BLOB_ATTR_INT8 \<and> type \<le> BLOB_ATTR_INT64 then len \<noteq> minlen else len < minlen)
        then Some False
        else if type = BLOB_ATTR_STRING
        then do { b \<leftarrow> rd m (data + unat (len - 1)); Some (b = 0) }
        else Some True })"

record blob_attr_info =
  bi_type :: u32
  bi_minlen :: u32
  bi_maxlen :: u32
  bi_validate :: "(bytes \<Rightarrow> nat \<Rightarrow> bool) option"

text \<open>The tests that the body of the loop of \<^verbatim>\<open>blob_parse\<close> makes before it records an attribute.\<close>

definition blob_accept :: "bytes \<Rightarrow> blob_attr_info list option \<Rightarrow> nat \<Rightarrow> u32 \<Rightarrow> nat \<Rightarrow> bool option" where
  "blob_accept m info aid len p =
     (case info of None \<Rightarrow> Some True
      | Some is \<Rightarrow> do { i \<leftarrow> rd is aid;
          ok \<leftarrow> (let type = sint (bi_type i) in
                 if type < BLOB_ATTR_LAST then blob_check_type m (blob_data p) len type else Some True);
          Some (ok \<and> \<not> (bi_minlen i \<noteq> 0 \<and> len < bi_minlen i) \<and> \<not> (bi_maxlen i \<noteq> 0 \<and> len > bi_maxlen i)
            \<and> (case bi_validate i of None \<Rightarrow> True | Some v \<Rightarrow> v m p)) })"

definition blob_parse_step ::
  "bytes \<Rightarrow> blob_attr_info list option \<Rightarrow> int \<Rightarrow> nat \<Rightarrow> nat option list \<times> int \<Rightarrow> (nat option list \<times> int) option" where
  "blob_parse_step m info maxid p = (\<lambda>(data, found).
     do { aid \<leftarrow> blob_id m p; len \<leftarrow> blob_len m p;
          if sint aid \<ge> maxid then Some (data, found)
          else do { ok \<leftarrow> blob_accept m info (unat aid) len p;
            if ok then
              do { old \<leftarrow> rd data (unat aid);
                   Some (data[unat aid := Some p], if old = None then found + 1 else found) }
            else Some (data, found) } })"

definition blob_parse ::
  "bytes \<Rightarrow> nat option \<Rightarrow> blob_attr_info list option \<Rightarrow> int \<Rightarrow> (nat option list \<times> int) option" where
  "blob_parse m attr info maxid =
     do { ps \<leftarrow> blob_for_each_attr m attr;
          foldM (blob_parse_step m info maxid) ps (replicate (nat maxid) None, 0) }"

text \<open>Two attributes, possibly in different blocks; \<^const>\<open>None\<close> is NULL.\<close>

definition blob_attr_equal :: "(bytes \<times> nat) option \<Rightarrow> (bytes \<times> nat) option \<Rightarrow> bool option" where
  "blob_attr_equal a1 a2 =
     (case (a1, a2) of
        (None, None) \<Rightarrow> Some True
      | (Some (m1, p1), Some (m2, p2)) \<Rightarrow>
          do { l1 \<leftarrow> blob_pad_len m1 p1; l2 \<leftarrow> blob_pad_len m2 p2;
               if l1 \<noteq> l2 then Some False
               else do { b1 \<leftarrow> rdn m1 p1 (unat l1); b2 \<leftarrow> rdn m2 p2 (unat l1); Some (b1 = b2) } }
      | _ \<Rightarrow> Some False)"

definition blob_memdup :: "(u32 \<Rightarrow> bool) \<Rightarrow> bytes \<Rightarrow> nat \<Rightarrow> bytes option option" where
  "blob_memdup malloc_ok m attr =
     do { size \<leftarrow> blob_pad_len m attr;
          if malloc_ok size then do { bs \<leftarrow> rdn m attr (unat size); Some (Some bs) } else Some None }"

end
