(* ===== verification/BlobRepr.thy ===== *)
theory BlobRepr
  imports Blob
begin

text \<open>
  What the bytes of a blob buffer stand for. A header is a tag (the id in the low seven bits, the
  flag for extended attributes in the eighth) and a length; an attribute is a header, its payload
  and zero bytes up to the next multiple of four; a buffer under construction is a stack of open
  attributes, each with the attributes put into it so far. The operations of \<^verbatim>\<open>blob.c\<close> are refined
  to operations on that stack.
\<close>

section \<open>Words\<close>

definition hdrw :: "nat \<Rightarrow> nat \<Rightarrow> u32" where
  "hdrw t n = of_nat n OR push_bit 24 (of_nat t)"

definition hdr :: "nat \<Rightarrow> nat \<Rightarrow> bytes" where
  "hdr t n = be_bytes32 (hdrw t n)"

definition pad4 :: "nat \<Rightarrow> nat" where
  "pad4 n = (n + 3) div 4 * 4"

lemma length_hdr [simp]: "length (hdr t n) = 4"
  by (simp add: hdr_def)

lemma pad4_bounds: "n \<le> pad4 n" "pad4 n < n + 4" "pad4 n mod 4 = 0"
  by (auto simp: pad4_def)

lemma pad4_aligned [simp]: "n mod 4 = 0 \<Longrightarrow> pad4 n = n"
  by (auto simp: pad4_def)

lemma len_mask: "BLOB_ATTR_LEN_MASK = mask 24"
  by (simp add: BLOB_ATTR_LEN_MASK_def mask_eq_exp_minus_1)

lemma id_mask: "BLOB_ATTR_ID_MASK = push_bit 24 (mask 7)"
  by (simp add: BLOB_ATTR_ID_MASK_def mask_eq_exp_minus_1)

lemma nat_bit_less: "bit n k \<Longrightarrow> n < 2 ^ m \<Longrightarrow> k < (m::nat)" for n :: nat
proof (rule ccontr)
  assume b: "bit n k" and n: "n < 2 ^ m" and k: "\<not> k < m"
  have "take_bit m n = n" using n by (simp add: take_bit_nat_eq_self)
  then show False using b k by (metis bit_take_bit_iff)
qed

lemma hdrw_len: "n < 2 ^ 24 \<Longrightarrow> hdrw t n AND BLOB_ATTR_LEN_MASK = of_nat n"
  unfolding len_mask hdrw_def using nat_bit_less [of n _ 24] by (intro bit_word_eqI) (auto simp: bit_simps)

lemma hdrw_id: "n < 2 ^ 24 \<Longrightarrow> drop_bit BLOB_ATTR_ID_SHIFT (hdrw t n AND BLOB_ATTR_ID_MASK) = of_nat (t mod 128)"
proof -
  assume n: "n < 2 ^ 24"
  have t: "t mod 128 = take_bit 7 t" by (simp add: take_bit_eq_mod)
  show ?thesis
    unfolding id_mask hdrw_def BLOB_ATTR_ID_SHIFT_def t using nat_bit_less [OF _ n]
    by (intro bit_word_eqI) (auto simp: bit_simps)
qed

lemma hdrw_init: "n < 2 ^ 24 \<Longrightarrow> i < 128 \<Longrightarrow>
    (of_nat n AND BLOB_ATTR_LEN_MASK) OR (push_bit BLOB_ATTR_ID_SHIFT (word_of_int (int i)) AND BLOB_ATTR_ID_MASK) = hdrw i n"
  unfolding len_mask id_mask hdrw_def BLOB_ATTR_ID_SHIFT_def
  using nat_bit_less [of n _ 24] nat_bit_less [of i _ 7] by (intro bit_word_eqI) (auto simp: bit_simps)

lemma hdrw_set: "n < 2 ^ 24 \<Longrightarrow> n' < 2 ^ 24 \<Longrightarrow>
    (hdrw t n AND NOT BLOB_ATTR_LEN_MASK) OR (of_nat n' AND BLOB_ATTR_LEN_MASK) = hdrw t n'"
  unfolding len_mask hdrw_def using nat_bit_less [of n _ 24] nat_bit_less [of n' _ 24]
  by (intro bit_word_eqI) (auto simp: bit_simps)

lemma pad_word: "n < 2 ^ 31 \<Longrightarrow> (of_nat n + BLOB_ATTR_ALIGN - 1) AND NOT (BLOB_ATTR_ALIGN - 1) = of_nat (pad4 n)"
proof -
  assume n: "n < 2 ^ 31"
  have m: "(BLOB_ATTR_ALIGN - 1) = mask 2" by (simp add: BLOB_ATTR_ALIGN_def mask_eq_exp_minus_1)
  have e: "of_nat n + BLOB_ATTR_ALIGN - 1 = (of_nat (n + 3) :: u32)" by (simp add: BLOB_ATTR_ALIGN_def)
  have q: "(w AND NOT (mask 2)) = push_bit 2 (drop_bit 2 w)" for w :: u32
    by (rule bit_word_eqI) (auto simp: bit_simps not_less le_iff_add)
  have r: "push_bit 2 (drop_bit 2 (of_nat (n + 3) :: u32)) = of_nat (pad4 n)"
  proof -
    have "drop_bit 2 (of_nat k :: u32) = of_nat (k div 4)" if "k < 2 ^ 32" for k
      using that by (intro word_unat_eq_iff [THEN iffD2])
        (simp add: drop_bit_eq_div unat_div unat_of_nat take_bit_nat_eq_self flip: take_bit_eq_mod)
    from this [of "n + 3"] have "drop_bit 2 (of_nat (n + 3) :: u32) = of_nat ((n + 3) div 4)" using n by simp
    then show ?thesis by (simp add: push_bit_eq_mult pad4_def)
  qed
  show ?thesis unfolding e m q r ..
qed

section \<open>Reading a header\<close>

lemma be_word32_hdr [simp]: "be_word32 (hdr t n) = hdrw t n"
  by (simp add: hdr_def be_bytes32_inv)

definition hdr_at :: "bytes \<Rightarrow> nat \<Rightarrow> nat \<Rightarrow> nat \<Rightarrow> bool" where
  "hdr_at m p t n \<longleftrightarrow> rdn m p 4 = Some (hdr t n) \<and> 4 \<le> n \<and> n < 2 ^ 24"

lemma hdr_at_append: "p = length a \<Longrightarrow> 4 \<le> n \<Longrightarrow> n < 2 ^ 24 \<Longrightarrow> hdr_at (a @ hdr t n @ c) p t n"
  by (simp add: hdr_at_def rdn_at)

lemma hdr_reads:
  assumes "hdr_at m p t n"
  shows "id_len m p = Some (hdrw t n)" "blob_id m p = Some (of_nat (t mod 128))"
    "blob_len m p = Some (of_nat (n - 4))" "blob_raw_len m p = Some (of_nat n)"
    "blob_pad_len m p = Some (of_nat (pad4 n))" "blob_next m p = Some (p + pad4 n)"
proof -
  have n: "4 \<le> n" "n < 2 ^ 24" using assms by (simp_all add: hdr_at_def)
  show w: "id_len m p = Some (hdrw t n)" using assms by (simp add: id_len_def load_be32_def hdr_at_def)
  show "blob_id m p = Some (of_nat (t mod 128))" unfolding blob_id_def w using hdrw_id [OF n(2), of t] by simp
  have l: "blob_len m p = Some (of_nat n - 4)" using w n by (simp add: blob_len_def hdrw_len)
  then show "blob_len m p = Some (of_nat (n - 4))" using n by (simp add: of_nat_diff)
  show r: "blob_raw_len m p = Some (of_nat n)" using l by (simp add: blob_raw_len_def)
  then show p: "blob_pad_len m p = Some (of_nat (pad4 n))" using n by (simp add: blob_pad_len_def pad_word)
  have "pad4 n < 2 ^ 32" using pad4_bounds(2) [of n] n by simp
  then show "blob_next m p = Some (p + pad4 n)"
    using p by (simp add: blob_next_def of_nat_inverse [OF refl])
qed

lemma set_raw_len_at:
  assumes "p = length a" "4 \<le> n" "n < 2 ^ 24" "n' < 2 ^ 24"
  shows "blob_set_raw_len (a @ hdr t n @ c) p (of_nat n') = Some (a @ hdr t n' @ c)"
  using hdr_reads(1) [OF hdr_at_append [OF assms(1-3)]] assms hdrw_set
  by (simp add: blob_set_raw_len_def store_be32_def wrn_at flip: hdr_def)

section \<open>Buffers under construction\<close>

text \<open>An attribute on the wire, and the bytes in front of the innermost open attribute.\<close>

definition enc :: "nat \<Rightarrow> bytes \<Rightarrow> bytes" where
  "enc t d = hdr t (4 + length d) @ d @ replicate (pad4 (length d) - length d) 0"

lemma pad4_add4 [simp]: "pad4 (4 + n) = 4 + pad4 n" "pad4 (Suc (Suc (Suc (Suc n)))) = 4 + pad4 n"
  unfolding pad4_def by presburger+

lemma length_enc [simp]: "length (enc t d) = 4 + pad4 (length d)"
  using pad4_bounds(1) [of "length d"] by (simp add: enc_def)

lemma pad4_mod [simp]: "pad4 n mod 4 = 0"
  by (rule pad4_bounds)

type_synonym open_attr = "nat \<times> bytes"

definition outer_bytes :: "open_attr list \<Rightarrow> bytes" where
  "outer_bytes st = concat (map (\<lambda>(t, c). hdr t (8 + length c) @ c) st)"

lemma outer_bytes_simps [simp]: "outer_bytes [] = []" "outer_bytes ((t, c) # st) = hdr t (8 + length c) @ c @ outer_bytes st"
  "outer_bytes (st @ st') = outer_bytes st @ outer_bytes st'"
  by (simp_all add: outer_bytes_def)

definition buf_ok :: "blob_buf \<Rightarrow> bool" where
  "buf_ok b \<longleftrightarrow> bb_buflen b = int (length (bb_buf b)) \<and> length (bb_buf b) mod 4 = 0 \<and> length (bb_buf b) < 2 ^ 30"

definition blob_repr :: "blob_buf \<Rightarrow> open_attr list \<Rightarrow> nat \<Rightarrow> bytes \<Rightarrow> bool" where
  "blob_repr b st t c \<longleftrightarrow> buf_ok b \<and> bb_head b = Some (length (outer_bytes st)) \<and>
     (\<exists>junk. bb_buf b = outer_bytes st @ hdr t (4 + length c) @ c @ junk) \<and>
     (\<forall>(t', c')\<in>set ((t, c) # st). length c' mod 4 = 0) \<and> length (outer_bytes st) + 4 + length c < 2 ^ 24"

lemma mod4_add: "a mod 4 = 0 \<Longrightarrow> b mod 4 = 0 \<Longrightarrow> (a + b) mod (4::nat) = 0"
  by presburger

lemma pad4_fits: "p mod 4 = 0 \<Longrightarrow> n + 4 \<le> r \<Longrightarrow> (p + r) mod 4 = 0 \<Longrightarrow> 4 + pad4 n \<le> r"
  unfolding pad4_def by presburger

lemma outer_mod: "\<forall>(t', c')\<in>set st. length c' mod 4 = 0 \<Longrightarrow> length (outer_bytes st) mod 4 = 0"
  by (induction st) (auto simp: mod_add_eq [symmetric] simp del: mod_add_eq)

text \<open>What the operations need of a grow function.\<close>

locale blob_grower =
  fixes grow :: grow_fun
  assumes grow_extends: "0 < n \<Longrightarrow> n < 2 ^ 30 \<Longrightarrow> grow buf n = Some buf' \<Longrightarrow>
    \<exists>z. bb_buf buf' = bb_buf buf @ z \<and> n \<le> int (length z) \<and> int (length z) \<le> n + 256 \<and>
      length z mod 4 = 0 \<and> bb_buflen buf' = bb_buflen buf + int (length z)"

lemma sint_small: "n < 2 ^ 31 \<Longrightarrow> sint (of_nat n :: u32) = int n"
  using c_int_nat [of n] by (simp add: c_int_def)

lemma split_at_length: "p \<le> length m \<Longrightarrow> \<exists>a c. m = a @ c \<and> length a = p"
  by (metis append_take_drop_id length_take min.absorb2)

lemma fill_attr:
  assumes "m = pre @ rest" "p = length pre" "4 + pad4 n \<le> length rest" "4 + n < 2 ^ 24" "i < 128"
  shows "\<exists>d junk. do { m \<leftarrow> blob_init m p (int i) (word_of_int (int n + 4)); blob_fill_pad m p } =
      Some (pre @ hdr i (4 + n) @ d @ replicate (pad4 n - n) 0 @ junk) \<and> length d = n \<and>
      rest = take 4 rest @ d @ take (pad4 n - n) (drop (4 + n) rest) @ junk"
proof -
  have pn: "n \<le> pad4 n" by (rule pad4_bounds)
  obtain h r1 where r: "rest = h @ r1" "length h = 4" using split_at_length [of 4 rest] assms(3) by auto
  obtain d r2 where d: "r1 = d @ r2" "length d = n" using split_at_length [of n r1] assms(3) pn r by auto
  obtain z junk where z: "r2 = z @ junk" "length z = pad4 n - n"
  proof -
    have "pad4 n - n \<le> length r2" using assms(3) pn r d by simp
    then show thesis using split_at_length that by blast
  qed
  have len: "word_of_int (int n + 4) = (of_nat (4 + n) :: u32)" by (simp add: add.commute)
  have 1: "blob_init m p (int i) (word_of_int (int n + 4)) = Some (pre @ hdr i (4 + n) @ r1)"
    unfolding blob_init_def len using hdrw_init [OF assms(4,5)] assms(1,2) r
    by (simp add: store_be32_def wrn_at del: of_nat_add flip: hdr_def)
  have h: "hdr_at (pre @ hdr i (4 + n) @ r1) p i (4 + n)"
    using assms(2,4) by (intro hdr_at_append) auto
  have small: "pad4 n < 2 ^ 24 + 4" using pad4_bounds(2) [of n] assms(4) by linarith
  have delta: "sint (of_nat (pad4 (4 + n)) - of_nat (4 + n) :: u32) = int (pad4 n - n)"
  proof -
    have "(of_nat (pad4 (4 + n)) - of_nat (4 + n) :: u32) = of_nat (pad4 n - n)" using pn by (simp add: of_nat_diff)
    moreover have "pad4 n - n < 4" using pad4_bounds(2) [of n] by linarith
    ultimately show ?thesis by (simp add: sint_small)
  qed
  have lenp: "sint (of_nat (pad4 (4 + n)) :: u32) = int (4 + pad4 n)"
    using small by (simp add: sint_small del: of_nat_add)
  have "blob_fill_pad (pre @ hdr i (4 + n) @ d @ z @ junk) p =
      Some (pre @ hdr i (4 + n) @ d @ replicate (pad4 n - n) 0 @ junk)"
  proof (cases "pad4 n = n")
    case True
    then show ?thesis using hdr_reads(4,5) [OF h] delta z(2) d z(1) unfolding blob_fill_pad_def Let_def by simp
  next
    case False
    have "nat (int p + int (4 + pad4 n) - int (pad4 n - n)) = length (pre @ hdr i (4 + n) @ d)"
      using assms(2) d(2) pn by simp
    then have "wrn ((pre @ hdr i (4 + n) @ d) @ z @ junk) (nat (int p + int (4 + pad4 n) - int (pad4 n - n))) (replicate (pad4 n - n) 0) =
      Some ((pre @ hdr i (4 + n) @ d) @ replicate (pad4 n - n) 0 @ junk)"
      using z(2) by (intro wrn_at) simp_all
    moreover have "nat (int (pad4 n) - int n) = pad4 n - n" using pn by linarith
    ultimately show ?thesis
      using hdr_reads(4,5) [OF h] delta lenp False pn d(1) z(1) unfolding blob_fill_pad_def Let_def by simp
  qed
  then show ?thesis using 1 r d z by (intro exI [of _ d] exI [of _ junk]) simp
qed

context blob_grower
begin

text \<open>\<^verbatim>\<open>blob_add\<close> at the end of what is there: it makes room or reports that it cannot.\<close>

lemma blob_add_at:
  assumes b: "buf_ok b" "bb_buf b = pre @ rest" "pos = length pre" "length pre mod 4 = 0"
    and size: "length pre + 4 + pad4 n < 2 ^ 24" and i: "i < 128"
  shows "(\<exists>k>0. grow b k = None \<and> blob_add grow b pos (int i) (int n) = Some (b, None)) \<or>
    (\<exists>b' d junk. blob_add grow b pos (int i) (int n) = Some (b', Some pos) \<and> buf_ok b' \<and> bb_head b' = bb_head b \<and>
      length d = n \<and> bb_buf b' = pre @ hdr i (4 + n) @ d @ replicate (pad4 n - n) 0 @ junk)"
proof -
  have pn: "n \<le> pad4 n" by (rule pad4_bounds)
  let ?req = "int pos + 4 + int n - bb_buflen b"
  have len: "bb_buflen b = int (length pre + length rest)" "length (pre @ rest) < 2 ^ 30" using b by (auto simp: buf_ok_def)
  have "\<bar>?req\<bar> < 2 ^ 31" using len size pn b(3) by simp
  then have req: "c_int (int (attr_to_offset pos) - int BLOB_COOKIE + 4 + int n - bb_buflen b) = ?req"
    by (simp add: attr_to_offset_def c_int_small)
  have fill: "\<exists>d junk. do { m \<leftarrow> blob_init (bb_buf b') pos (int i) (word_of_int (int n + 4)); blob_fill_pad m pos } =
      Some (pre @ hdr i (4 + n) @ d @ replicate (pad4 n - n) 0 @ junk) \<and> length d = n \<and>
      length (pre @ hdr i (4 + n) @ d @ replicate (pad4 n - n) 0 @ junk) = length (bb_buf b')"
    if t1: "bb_buf b' = pre @ rest'" and t2: "4 + pad4 n \<le> length rest'" for b' :: blob_buf and rest'
  proof -
    obtain d junk where *: "do { m \<leftarrow> blob_init (bb_buf b') pos (int i) (word_of_int (int n + 4)); blob_fill_pad m pos } =
      Some (pre @ hdr i (4 + n) @ d @ replicate (pad4 n - n) 0 @ junk)" "length d = n"
      "rest' = take 4 rest' @ d @ take (pad4 n - n) (drop (4 + n) rest') @ junk"
      using fill_attr [OF t1 b(3) t2 _ i] size pn by auto
    have "length rest' = 4 + n + (pad4 n - n) + length junk"
    proof -
      have "length (take 4 rest') = 4" "length (take (pad4 n - n) (drop (4 + n) rest')) = pad4 n - n"
        using t2 pn by auto
      then show ?thesis using *(2) by (subst *(3)) simp
    qed
    then show ?thesis using *(1,2) t1 by auto
  qed
  show ?thesis
  proof (cases "0 < ?req")
    case False
    then have "n + 4 \<le> length rest" using len b(3) by simp
    moreover have "(length pre + length rest) mod 4 = 0" using b by (simp add: buf_ok_def)
    ultimately have "4 + pad4 n \<le> length rest"
      using b(4) by (intro pad4_fits)
    from fill [OF b(2) this] obtain d junk where
      "do { m \<leftarrow> blob_init (bb_buf b) pos (int i) (word_of_int (int n + 4)); blob_fill_pad m pos } =
        Some (pre @ hdr i (4 + n) @ d @ replicate (pad4 n - n) 0 @ junk)" "length d = n"
      "length (pre @ hdr i (4 + n) @ d @ replicate (pad4 n - n) 0 @ junk) = length (bb_buf b)" by blast
    then show ?thesis
      using False req b(1) by (intro disjI2) (auto simp: blob_add_def Let_def buf_ok_def split: bind_splits)
  next
    case True
    show ?thesis
    proof (cases "grow b ?req")
      case None
      then have "blob_add grow b pos (int i) (int n) = Some (b, None)"
        unfolding blob_add_def Let_def req using True by (simp add: blob_buf_grow_def)
      then show ?thesis using None True by blast
    next
      case (Some b1)
      have "?req < 2 ^ 30" using size pn b(3) len by simp
      from grow_extends [OF True this Some] obtain z where z: "bb_buf b1 = bb_buf b @ z" "?req \<le> int (length z)"
        "int (length z) \<le> ?req + 256" "length z mod 4 = 0" "bb_buflen b1 = bb_buflen b + int (length z)"
        by (elim exE conjE)
      let ?b = "b1\<lparr>bb_head := bb_head b\<rparr>"
      have "n + 4 \<le> length rest + length z" using z(2) len b(3) by simp
      moreover have m: "(length pre + (length rest + length z)) mod 4 = 0"
      proof -
        have "(length pre + length rest) mod 4 = 0" using b(1,2) by (simp add: buf_ok_def)
        from mod4_add [OF this z(4)] show ?thesis by (simp only: add.assoc)
      qed
      ultimately have f1: "4 + pad4 n \<le> length (rest @ z)"
        using b(4) unfolding length_append by (intro pad4_fits)
      have f2: "bb_buf ?b = pre @ (rest @ z)" using z(1) b(2) by simp
      from fill [OF f2 f1] obtain d junk where *:
        "do { m \<leftarrow> blob_init (bb_buf ?b) pos (int i) (word_of_int (int n + 4)); blob_fill_pad m pos } =
          Some (pre @ hdr i (4 + n) @ d @ replicate (pad4 n - n) 0 @ junk)" "length d = n"
        "length (pre @ hdr i (4 + n) @ d @ replicate (pad4 n - n) 0 @ junk) = length (bb_buf ?b)" by blast
      have ok: "buf_ok ?b" using z b(1-3) m size len pn by (simp add: buf_ok_def add.assoc)
      have g: "blob_buf_grow grow b ?req = Some ?b"
        using Some by (simp add: blob_buf_grow_def attr_to_offset_def offset_to_attr_def option.map_ident)
      have p: "offset_to_attr (attr_to_offset pos) = pos" by (simp add: attr_to_offset_def offset_to_attr_def)
      have "blob_add grow b pos (int i) (int n) = Some (?b\<lparr>bb_buf := pre @ hdr i (4 + n) @ d @ replicate (pad4 n - n) 0 @ junk\<rparr>, Some pos)"
        unfolding blob_add_def Let_def req p using True g *(1) by (auto split: bind_splits)
      moreover have "buf_ok (?b\<lparr>bb_buf := pre @ hdr i (4 + n) @ d @ replicate (pad4 n - n) 0 @ junk\<rparr>)"
        using ok *(3) unfolding buf_ok_def by simp
      ultimately show ?thesis using *(2) by (intro disjI2) fastforce
    qed
  qed
qed

end

lemma enc_nil: "enc t [] = hdr t 4"
  by (simp add: enc_def)

lemma enc_aligned: "length d mod 4 = 0 \<Longrightarrow> enc t d = hdr t (4 + length d) @ d"
  by (simp add: enc_def)

lemma repr_head:
  assumes "blob_repr b st t c"
  obtains junk where "bb_buf b = outer_bytes st @ hdr t (4 + length c) @ c @ junk"
    "hdr_at (bb_buf b) (length (outer_bytes st)) t (4 + length c)" "bb_head b = Some (length (outer_bytes st))"
    "length c mod 4 = 0" "length (outer_bytes st) mod 4 = 0" "buf_ok b"
proof -
  obtain junk where "bb_buf b = outer_bytes st @ hdr t (4 + length c) @ c @ junk" using assms by (auto simp: blob_repr_def)
  moreover from this have "hdr_at (bb_buf b) (length (outer_bytes st)) t (4 + length c)"
    using assms by (auto simp: blob_repr_def intro!: hdr_at_append)
  ultimately show thesis using assms outer_mod [of st] by (intro that) (auto simp: blob_repr_def)
qed

context blob_grower
begin

lemma blob_new_repr:
  assumes r: "blob_repr b st t c" and i: "i < 128"
    and size: "length (outer_bytes st) + 4 + length c + 4 + pad4 n < 2 ^ 24"
  shows "(\<exists>k>0. grow b k = None \<and> blob_new grow b (int i) (int n) = Some (b, None)) \<or>
    (\<exists>b' d. blob_new grow b (int i) (int n) = Some (b', Some (length (outer_bytes st) + 4 + length c)) \<and>
      length d = n \<and> blob_repr b' st t (c @ enc i d))"
proof -
  let ?o = "outer_bytes st"
  let ?pre = "?o @ hdr t (4 + length c) @ c"
  have pn: "n \<le> pad4 n" by (rule pad4_bounds)
  obtain junk where j: "bb_buf b = ?o @ hdr t (4 + length c) @ c @ junk" "hdr_at (bb_buf b) (length ?o) t (4 + length c)"
    "bb_head b = Some (length ?o)" "length c mod 4 = 0" "length ?o mod 4 = 0" "buf_ok b"
    by (rule repr_head [OF r])
  have nx: "blob_next (bb_buf b) (length ?o) = Some (length ?pre)"
    using hdr_reads(6) [OF j(2)] j(4) by simp
  have pre: "length ?pre mod 4 = 0" using mod4_add [OF j(5) mod4_add [OF _ j(4), of 4]] by simp
  have buf: "bb_buf b = ?pre @ junk" using j(1) by simp
  have sz: "length ?pre + 4 + pad4 n < 2 ^ 24" using size by simp
  from blob_add_at [OF j(6) buf refl pre sz i]
  show ?thesis
  proof (elim disjE exE conjE)
    fix k assume k: "0 < k" "grow b k = None" "blob_add grow b (length ?pre) (int i) (int n) = Some (b, None)"
    have "blob_new grow b (int i) (int n) = Some (b, None)"
      unfolding blob_new_def j(3) bind.bind_lunit nx k(3) by simp
    then show ?thesis using k(1,2) by blast
  next
    fix b' d junk'
    assume a: "blob_add grow b (length ?pre) (int i) (int n) = Some (b', Some (length ?pre))" "buf_ok b'"
      "bb_head b' = bb_head b" "length d = n"
      "bb_buf b' = ?pre @ hdr i (4 + n) @ d @ replicate (pad4 n - n) 0 @ junk'"
    let ?e = "hdr i (4 + n) @ d @ replicate (pad4 n - n) 0"
    have e: "?e = enc i d" using a(4) by (simp add: enc_def)
    have h1: "hdr_at (bb_buf b') (length ?o) t (4 + length c)"
      unfolding a(5) append_assoc using size by (intro hdr_at_append) simp_all
    have h2: "hdr_at (bb_buf b') (length ?pre) i (4 + n)"
      unfolding a(5) using sz pn by (intro hdr_at_append) simp_all
    let ?n = "4 + length (c @ enc i d)"
    have l: "of_nat (pad4 (4 + length c)) + of_nat (pad4 (4 + n)) = (of_nat ?n :: u32)"
      using j(4) a(4) by simp
    have b5: "bb_buf b' = ?o @ hdr t (4 + length c) @ ((c @ enc i d) @ junk')"
      unfolding a(5) using e by simp
    have set: "blob_set_raw_len (bb_buf b') (length ?o) (of_nat ?n) = Some (?o @ hdr t ?n @ ((c @ enc i d) @ junk'))"
      unfolding b5 using size a(4) by (intro set_raw_len_at) simp_all
    have "blob_new grow b (int i) (int n) =
        Some (b'\<lparr>bb_buf := ?o @ hdr t ?n @ ((c @ enc i d) @ junk')\<rparr>, Some (length ?pre))"
      unfolding blob_new_def j(3) bind.bind_lunit nx a(1) prod.case option.case a(3)
        hdr_reads(5) [OF h1] hdr_reads(5) [OF h2] l set by simp
    moreover have "blob_repr (b'\<lparr>bb_buf := ?o @ hdr t ?n @ ((c @ enc i d) @ junk')\<rparr>) st t (c @ enc i d)"
      using r a(2-4) b5 j(3) size mod4_add [OF j(4) pad4_mod [of n]]
      by (auto simp: blob_repr_def buf_ok_def add.assoc mod_add_eq)
    moreover have "length ?pre = length ?o + 4 + length c" by simp
    ultimately show ?thesis using a(4) by metis
  qed
qed

lemma blob_put_repr:
  assumes r: "blob_repr b st t c" and i: "i < 128"
    and size: "length (outer_bytes st) + 4 + length c + 4 + pad4 (length d) < 2 ^ 24"
  shows "(\<exists>k>0. grow b k = None \<and> blob_put grow b (int i) (Some (d @ x)) (of_nat (length d)) = Some (b, None)) \<or>
    (\<exists>b'. blob_put grow b (int i) (Some (d @ x)) (of_nat (length d)) = Some (b', Some (length (outer_bytes st) + 4 + length c)) \<and>
      blob_repr b' st t (c @ enc i d))"
proof -
  let ?p = "length (outer_bytes st) + 4 + length c"
  have len: "sint (of_nat (length d) :: u32) = int (length d)" "unat (of_nat (length d) :: u32) = length d"
    using size pad4_bounds(1) [of "length d"] by (auto simp: sint_small intro!: of_nat_inverse [OF refl])
  from blob_new_repr [OF r i size] show ?thesis
  proof (elim disjE exE conjE)
    fix k assume "0 < k" "grow b k = None" "blob_new grow b (int i) (int (length d)) = Some (b, None)"
    then show ?thesis by (auto simp: blob_put_def len)
  next
    fix b' d' assume n: "blob_new grow b (int i) (int (length d)) = Some (b', Some ?p)" "length d' = length d"
      "blob_repr b' st t (c @ enc i d')"
    let ?o = "outer_bytes st"
    let ?l = "4 + length (c @ enc i d)"
    obtain junk where "bb_buf b' = ?o @ hdr t (4 + length (c @ enc i d')) @ (c @ enc i d') @ junk"
      using n(3) by (auto simp: blob_repr_def)
    then have j: "bb_buf b' = (?o @ hdr t ?l @ c @ hdr i (4 + length d)) @ d' @ (replicate (pad4 (length d) - length d) 0 @ junk)"
      using n(2) by (simp add: enc_def)
    have "wrn (bb_buf b') (blob_data ?p) d =
        Some ((?o @ hdr t ?l @ c @ hdr i (4 + length d)) @ d @ (replicate (pad4 (length d) - length d) 0 @ junk))"
      unfolding j using n(2) by (intro wrn_at) (simp_all add: blob_data_def)
    then have "wrn (bb_buf b') (blob_data ?p) d = Some (?o @ hdr t ?l @ (c @ enc i d) @ junk)"
      by (simp add: enc_def)
    then have "blob_put grow b (int i) (Some (d @ x)) (of_nat (length d)) =
        Some (b'\<lparr>bb_buf := ?o @ hdr t ?l @ (c @ enc i d) @ junk\<rparr>, Some ?p)"
      by (simp add: blob_put_def len n(1))
    moreover have "blob_repr (b'\<lparr>bb_buf := ?o @ hdr t ?l @ (c @ enc i d) @ junk\<rparr>) st t (c @ enc i d)"
      using n(2,3) j by (auto simp: blob_repr_def buf_ok_def enc_def)
    ultimately show ?thesis by metis
  qed
qed

lemma blob_nest_start_repr:
  assumes r: "blob_repr b st t c" and i: "i < 128" and size: "length (outer_bytes st) + 8 + length c < 2 ^ 24"
  shows "(\<exists>k>0. grow b k = None \<and> (\<exists>b'. blob_nest_start grow b (int i) = Some (b', 0))) \<or>
    (\<exists>b'. blob_nest_start grow b (int i) = Some (b', attr_to_offset (length (outer_bytes st))) \<and>
      blob_repr b' (st @ [(t, c)]) i [])"
proof -
  let ?p = "length (outer_bytes st) + 4 + length c"
  have hd: "bb_head b = Some (length (outer_bytes st))" using r by (simp add: blob_repr_def)
  have "length (outer_bytes st) + 4 + length c + 4 + pad4 0 < 2 ^ 24" using size by (simp add: pad4_def)
  from blob_new_repr [OF r i this] show ?thesis
  proof (elim disjE exE conjE)
    fix k assume k: "0 < k" "grow b k = None" "blob_new grow b (int i) (int 0) = Some (b, None)"
    then show ?thesis by (auto simp: blob_nest_start_def hd)
  next
    fix b' d assume n: "blob_new grow b (int i) (int 0) = Some (b', Some ?p)" "length d = 0" "blob_repr b' st t (c @ enc i d)"
    have "blob_nest_start grow b (int i) = Some (b'\<lparr>bb_head := Some ?p\<rparr>, attr_to_offset (length (outer_bytes st)))"
      using n(1) by (simp add: blob_nest_start_def hd)
    moreover have "blob_repr (b'\<lparr>bb_head := Some ?p\<rparr>) (st @ [(t, c)]) i []"
      using n(2,3) r size by (auto simp: blob_repr_def buf_ok_def enc_nil add.assoc)
    ultimately show ?thesis by blast
  qed
qed

end

lemma blob_nest_end_repr:
  assumes r: "blob_repr b (st @ [(t, c)]) t' c'"
  shows "\<exists>b'. blob_nest_end b (attr_to_offset (length (outer_bytes st))) = Some b' \<and> blob_repr b' st t (c @ enc t' c')"
proof -
  let ?o = "outer_bytes st"
  obtain junk where j: "bb_buf b = outer_bytes (st @ [(t, c)]) @ hdr t' (4 + length c') @ c' @ junk"
    "hdr_at (bb_buf b) (length (outer_bytes (st @ [(t, c)]))) t' (4 + length c')"
    "bb_head b = Some (length (outer_bytes (st @ [(t, c)])))" "length c' mod 4 = 0"
    "length (outer_bytes (st @ [(t, c)])) mod 4 = 0" "buf_ok b"
    by (rule repr_head [OF r])
  have c: "length c mod 4 = 0" using r by (simp add: blob_repr_def)
  have size: "length ?o + 8 + length c + length c' < 2 ^ 24" using r by (simp add: blob_repr_def)
  have b: "bb_buf b = ?o @ hdr t (8 + length c) @ (c @ enc t' c' @ junk)"
    using j(1) enc_aligned [OF j(4)] by simp
  have h: "hdr_at (bb_buf b) (length ?o) t (8 + length c)"
    unfolding b using size by (intro hdr_at_append) simp_all
  have o: "offset_to_attr (attr_to_offset (length ?o)) = length ?o" by (simp add: attr_to_offset_def offset_to_attr_def)
  let ?n = "4 + length (c @ enc t' c')"
  have p: "pad4 (8 + length c) = 8 + length c" using mod4_add [OF _ c, of 8] by simp
  have l: "of_nat (pad4 (8 + length c)) + of_nat (4 + length c' - 4) = (of_nat ?n :: u32)"
    unfolding p using j(4) by simp
  have "blob_set_raw_len (bb_buf b) (length ?o) (of_nat ?n) = Some (?o @ hdr t ?n @ (c @ enc t' c' @ junk))"
    unfolding b using size j(4) by (intro set_raw_len_at) simp_all
  then have "blob_nest_end b (attr_to_offset (length ?o)) =
      Some (b\<lparr>bb_buf := ?o @ hdr t ?n @ (c @ enc t' c' @ junk), bb_head := Some (length ?o)\<rparr>)"
    unfolding blob_nest_end_def Let_def o j(3) bind.bind_lunit hdr_reads(5) [OF h] hdr_reads(3) [OF j(2)] l by simp
  moreover have "blob_repr (b\<lparr>bb_buf := ?o @ hdr t ?n @ (c @ enc t' c' @ junk), bb_head := Some (length ?o)\<rparr>) st t (c @ enc t' c')"
    using r b size j(4) mod4_add [OF c j(4)] by (auto simp: blob_repr_def buf_ok_def add.assoc mod_add_eq)
  ultimately show ?thesis by blast
qed

context blob_grower
begin

lemma blob_buf_init_repr:
  assumes "buf_ok b" "i < 128"
  shows "(\<exists>k>0. \<exists>b'. grow (b\<lparr>bb_head := Some 0\<rparr>) k = None \<and> blob_buf_init grow b (int i) = Some (b', - ENOMEM)) \<or>
    (\<exists>b'. blob_buf_init grow b (int i) = Some (b', 0) \<and> blob_repr b' [] i [])"
proof -
  let ?b = "b\<lparr>bb_head := Some 0\<rparr>"
  have ok: "buf_ok ?b" using assms(1) by (simp add: buf_ok_def)
  have s: "length [] + 4 + pad4 0 < 2 ^ 24" by (simp add: pad4_def)
  have z: "bb_buf ?b = [] @ bb_buf b" "(0::nat) = length ([]::bytes)" "length ([]::bytes) mod 4 = 0" by simp_all
  from blob_add_at [OF ok z s assms(2)] show ?thesis
  proof (elim disjE exE conjE)
    fix k assume "0 < k" "grow ?b k = None" "blob_add grow ?b 0 (int i) (int 0) = Some (?b, None)"
    then show ?thesis by (auto simp: blob_buf_init_def)
  next
    fix b' d junk assume a: "blob_add grow ?b 0 (int i) (int 0) = Some (b', Some 0)" "buf_ok b'" "bb_head b' = bb_head ?b"
      "length d = 0" "bb_buf b' = [] @ hdr i (4 + 0) @ d @ replicate (pad4 0 - 0) 0 @ junk"
    then have "blob_repr b' [] i []" by (simp add: blob_repr_def pad4_def)
    moreover have "blob_buf_init grow b (int i) = Some (b', 0)" using a(1) by (simp add: blob_buf_init_def)
    ultimately show ?thesis by blast
  qed
qed

end

text \<open>The default grow function keeps its promise, whatever \<^verbatim>\<open>realloc\<close> answers.\<close>

interpretation heap_buf: blob_grower "blob_buffer_grow realloc_ok" for realloc_ok
proof
  fix n :: int and buf buf'
  assume n: "0 < n" "n < 2 ^ 30" and g: "blob_buffer_grow realloc_ok buf n = Some buf'"
  let ?d = "(n div 256 + 1) * 256"
  have d: "n \<le> ?d" "?d \<le> n + 256" using div_mult_mod_eq [of n 256] pos_mod_bound [of 256 n] pos_mod_sign [of 256 n]
    unfolding distrib_right by linarith+
  have "n sdiv 256 = n div 256" using n by (simp add: signed_divide_int_def)
  then have "buf' = buf\<lparr>bb_buf := bb_buf buf @ replicate (nat ?d) 0, bb_buflen := bb_buflen buf + ?d\<rparr>"
    using g by (simp add: blob_buffer_grow_def Let_def split: if_splits)
  moreover have "nat ?d mod 4 = 0"
  proof -
    have "?d = int (4 * (64 * nat (n div 256 + 1)))" using n by simp
    then show ?thesis by (simp only: nat_int mod_mult_self1_is_0)
  qed
  ultimately show "\<exists>z. bb_buf buf' = bb_buf buf @ z \<and> n \<le> int (length z) \<and> int (length z) \<le> n + 256 \<and>
      length z mod 4 = 0 \<and> bb_buflen buf' = bb_buflen buf + int (length z)"
    using d n by (intro exI [of _ "replicate (nat ?d) 0"]) simp
qed

end
