(* ===== verification/BlobSpec.thy ===== *)
theory BlobSpec
  imports BlobRepr
begin

text \<open>
  Reading attributes: the iteration is total and stays inside the attribute on any input, what was
  built is what is read back, and what \<^verbatim>\<open>blob_parse\<close> puts into its table.
\<close>

section \<open>Iterating over anything\<close>

lemma pad_word_ge: "w \<noteq> 0 \<Longrightarrow> w \<le> mask 24 \<Longrightarrow> w \<le> (w + BLOB_ATTR_ALIGN - 1) AND NOT (BLOB_ATTR_ALIGN - 1)"
proof -
  assume w: "w \<le> mask 24"
  have n: "unat w < 2 ^ 24" using w by (simp add: word_le_nat_alt mask_eq_exp_minus_1)
  have "unat (of_nat (pad4 (unat w)) :: u32) = pad4 (unat w)"
    using n pad4_bounds(2) [of "unat w"] by (intro of_nat_inverse [OF refl]) simp
  then show ?thesis
    using pad_word [of "unat w"] n pad4_bounds(1) [of "unat w"] by (simp add: word_le_nat_alt)
qed

lemma id_len_read: "p + 4 \<le> length m \<Longrightarrow> \<exists>w. id_len m p = Some w"
  by (auto simp: id_len_def load_be32_def rdn_def)

definition raw_at :: "bytes \<Rightarrow> nat \<Rightarrow> nat" where
  "raw_at m p = unat (the (blob_raw_len m p))"

lemma header_reads:
  assumes "p + 4 \<le> length m"
  shows "blob_raw_len m p = Some (of_nat (raw_at m p))" "raw_at m p < 2 ^ 24"
    "blob_pad_len m p = Some (of_nat (pad4 (raw_at m p)))" "\<exists>w. blob_id m p = Some w"
    "blob_len m p = Some (of_nat (raw_at m p) - 4)"
proof -
  obtain w where w: "id_len m p = Some w" using id_len_read [OF assms] by blast
  have r: "blob_raw_len m p = Some (w AND BLOB_ATTR_LEN_MASK)" "blob_len m p = Some ((w AND BLOB_ATTR_LEN_MASK) - 4)"
    using w by (simp_all add: blob_raw_len_def blob_len_def)
  then show 1: "blob_raw_len m p = Some (of_nat (raw_at m p))" "blob_len m p = Some (of_nat (raw_at m p) - 4)"
    by (simp_all add: raw_at_def)
  have "w AND BLOB_ATTR_LEN_MASK \<le> BLOB_ATTR_LEN_MASK" by (simp add: word_and_le1 word_and_le2)
  then have "unat (w AND BLOB_ATTR_LEN_MASK) < 2 ^ 24"
    unfolding word_le_nat_alt by (simp add: BLOB_ATTR_LEN_MASK_def)
  then show 2: "raw_at m p < 2 ^ 24" using r by (simp add: raw_at_def)
  show "blob_pad_len m p = Some (of_nat (pad4 (raw_at m p)))"
    using 1(1) 2 by (simp add: blob_pad_len_def pad_word)
  show "\<exists>w. blob_id m p = Some w" using w by (simp add: blob_id_def)
qed

lemma pad_unat: "n < 2 ^ 24 \<Longrightarrow> unat (of_nat (pad4 n) :: u32) = pad4 n"
  using pad4_bounds(2) [of n] by (intro of_nat_inverse [OF refl]) simp

text \<open>Each visited attribute lies between the start and the end, one behind the other.\<close>

fun visits :: "bytes \<Rightarrow> nat \<Rightarrow> nat \<Rightarrow> nat list \<Rightarrow> bool" where
  "visits m p e [] \<longleftrightarrow> True"
| "visits m p e (q # qs) \<longleftrightarrow> q = p \<and> 1 \<le> raw_at m p \<and> p + pad4 (raw_at m p) \<le> e \<and>
     visits m (p + pad4 (raw_at m p)) e qs"

lemma pad4_ge_4: "4 \<le> pad4 n \<longleftrightarrow> 1 \<le> n"
  unfolding pad4_def by presburger

lemma for_each_total:
  "p + n + 3 \<le> length m \<Longrightarrow> \<exists>ps. blob_for_each_attr' m p (int n) = Some ps \<and> visits m p (p + n) ps"
proof (induction n arbitrary: p rule: less_induct)
  case (less n)
  show ?case
  proof (cases "n = 0")
    case True
    then show ?thesis by (subst blob_for_each_attr'.simps) simp
  next
    case False
    then have p: "p + 4 \<le> length m" using less.prems by simp
    let ?r = "raw_at m p"
    note h = header_reads [OF p]
    have u: "unat (of_nat (pad4 ?r) :: u32) = pad4 ?r" by (rule pad_unat [OF h(2)])
    then have c: "uint (of_nat (pad4 ?r) :: u32) = int (pad4 ?r)" by (metis of_nat_unat)
    have c4: "(4 :: u32) \<le> of_nat (pad4 ?r) \<longleftrightarrow> 4 \<le> pad4 ?r" using u by (simp add: word_le_nat_alt)
    show ?thesis
    proof (cases "pad4 ?r \<le> n \<and> 4 \<le> pad4 ?r")
      case True
      have "(p + pad4 ?r) + (n - pad4 ?r) + 3 \<le> length m" "n - pad4 ?r < n" using True False less.prems by linarith+
      then obtain ps where ps: "blob_for_each_attr' m (p + pad4 ?r) (int (n - pad4 ?r)) = Some ps"
        "visits m (p + pad4 ?r) (p + pad4 ?r + (n - pad4 ?r)) ps"
        using less.IH [of "n - pad4 ?r" "p + pad4 ?r"] by blast
      moreover have "int (n - pad4 ?r) = int n - int (pad4 ?r)" using True by simp
      ultimately have "blob_for_each_attr' m p (int n) = Some (p # ps)"
        using True False h(3) c c4 u by (subst blob_for_each_attr'.simps) auto
      moreover have "p + pad4 ?r + (n - pad4 ?r) = p + n" using True by simp
      then have "visits m p (p + n) (p # ps)" using True ps(2) by (simp add: pad4_ge_4)
      ultimately show ?thesis by blast
    next
      case False
      then have "blob_for_each_attr' m p (int n) = Some []"
        using h(3) c c4 \<open>n \<noteq> 0\<close> by (subst blob_for_each_attr'.simps) auto
      then show ?thesis by auto
    qed
  qed
qed

section \<open>Reading back what was built\<close>

datatype blob_tree = Data nat bytes | Nest nat "blob_tree list"

fun enc_tree :: "blob_tree \<Rightarrow> bytes" where
  "enc_tree (Data i d) = enc i d"
| "enc_tree (Nest i ts) = enc i (concat (map enc_tree ts))"

text \<open>A client that builds a tree: one call per attribute, nested attributes between start and end.\<close>

fun put_tree :: "grow_fun \<Rightarrow> blob_tree \<Rightarrow> blob_buf \<Rightarrow> blob_buf option"
  and put_trees :: "grow_fun \<Rightarrow> blob_tree list \<Rightarrow> blob_buf \<Rightarrow> blob_buf option" where
  "put_tree grow (Data i d) b = map_option fst (blob_put grow b (int i) (Some d) (of_nat (length d)))"
| "put_tree grow (Nest i ts) b =
     do { (b, cookie) \<leftarrow> blob_nest_start grow b (int i); b \<leftarrow> put_trees grow ts b; blob_nest_end b cookie }"
| "put_trees grow [] b = Some b"
| "put_trees grow (t # ts) b = do { b \<leftarrow> put_tree grow t b; put_trees grow ts b }"

text \<open>What a reader sees at an attribute.\<close>

fun sees :: "bytes \<Rightarrow> nat \<Rightarrow> blob_tree \<Rightarrow> bool" where
  "sees m p (Data i d) \<longleftrightarrow> blob_id m p = Some (of_nat i) \<and> blob_len m p = Some (of_nat (length d)) \<and>
     rdn m (blob_data p) (length d) = Some d"
| "sees m p (Nest i ts) \<longleftrightarrow> blob_id m p = Some (of_nat i) \<and>
     (\<exists>ps. blob_for_each_attr m (Some p) = Some ps \<and> list_all2 (sees m) ps ts)"

fun ids_ok :: "blob_tree \<Rightarrow> bool" where
  "ids_ok (Data i d) \<longleftrightarrow> i < 128"
| "ids_ok (Nest i ts) \<longleftrightarrow> i < 128 \<and> (\<forall>t\<in>set ts. ids_ok t)"

lemma length_enc_tree: "length (enc_tree t) mod 4 = 0"
  by (cases t) simp_all

lemma length_enc_trees: "length (concat (map enc_tree ts)) mod 4 = 0"
  by (induction ts) (simp_all add: mod4_add length_enc_tree)

text \<open>\<^verbatim>\<open>realloc\<close> that never fails.\<close>

abbreviation always :: grow_fun where
  "always \<equiv> blob_buffer_grow (\<lambda>_. True)"

lemma always_grows [simp]: "always b k \<noteq> None"
  by (simp add: blob_buffer_grow_def Let_def)

lemma put_tree_repr:
  "grow = always \<Longrightarrow> blob_repr b st t c \<Longrightarrow> ids_ok T \<Longrightarrow> length (outer_bytes st) + 4 + length c + length (enc_tree T) < 2 ^ 24 \<Longrightarrow>
     \<exists>b'. put_tree grow T b = Some b' \<and> blob_repr b' st t (c @ enc_tree T)"
  "grow = always \<Longrightarrow> blob_repr b st t c \<Longrightarrow> \<forall>T\<in>set Ts. ids_ok T \<Longrightarrow>
     length (outer_bytes st) + 4 + length c + length (concat (map enc_tree Ts)) < 2 ^ 24 \<Longrightarrow>
     \<exists>b'. put_trees grow Ts b = Some b' \<and> blob_repr b' st t (c @ concat (map enc_tree Ts))"
proof (induction grow T b and grow Ts b arbitrary: st t c and st t c rule: put_tree_put_trees.induct)
  case (1 grow i d b)
  have "i < 128" "length (outer_bytes st) + 4 + length c + 4 + pad4 (length d) < 2 ^ 24" using "1.prems"(3,4) by simp_all
  from heap_buf.blob_put_repr [OF "1.prems"(2) this, of "\<lambda>_. True" "[]"] show ?case
    using "1.prems"(1) by auto
next
  case (2 grow i ts b)
  let ?x = "concat (map enc_tree ts)"
  have s: "i < 128" "length (outer_bytes st) + 8 + length c + length ?x < 2 ^ 24"
    using "2.prems"(3,4) length_enc_trees [of ts] by simp_all
  have "length (outer_bytes st) + 8 + length c < 2 ^ 24" using s(2) by simp
  from heap_buf.blob_nest_start_repr [OF "2.prems"(2) s(1) this, of "\<lambda>_. True"] obtain b1 where b1:
    "blob_nest_start always b (int i) = Some (b1, attr_to_offset (length (outer_bytes st)))"
    "blob_repr b1 (st @ [(t, c)]) i []"
    by auto
  obtain b2 where b2: "put_trees grow ts b1 = Some b2" "blob_repr b2 (st @ [(t, c)]) i ([] @ ?x)"
    using "2.IH" [OF _ refl _ b1(2)] b1(1) "2.prems"(1,3) s(2) by auto
  then show ?case using "2.prems"(1) blob_nest_end_repr [of b2 st t c i ?x] b1(1) by auto
next
  case (4 grow T Ts b)
  obtain b1 where b1: "put_tree grow T b = Some b1" "blob_repr b1 st t (c @ enc_tree T)"
    using "4.IH"(1) [OF "4.prems"(1,2)] "4.prems"(3,4) by auto
  obtain b2 where "put_trees grow Ts b1 = Some b2" "blob_repr b2 st t ((c @ enc_tree T) @ concat (map enc_tree Ts))"
    using "4.IH"(2) [OF _ _ b1(2)] b1(1) "4.prems"(1,3,4) by auto
  then show ?case using "4.prems"(1) b1 by simp
qed simp

fun offsets :: "nat \<Rightarrow> bytes list \<Rightarrow> nat list" where
  "offsets p [] = []"
| "offsets p (x # xs) = p # offsets (p + length x) xs"

lemma for_each_enc:
  assumes "m = pre @ concat (map (\<lambda>(t, d). enc t d) as) @ post" "p = length pre"
    "length (concat (map (\<lambda>(t, d). enc t d) as)) < 2 ^ 24"
  shows "blob_for_each_attr' m p (int (length (concat (map (\<lambda>(t, d). enc t d) as)))) =
    Some (offsets p (map (\<lambda>(t, d). enc t d) as))"
  using assms
proof (induction as arbitrary: pre p)
  case Nil
  then show ?case by (subst blob_for_each_attr'.simps) simp
next
  case (Cons a as)
  obtain t d where a: "a = (t, d)" by (cases a)
  let ?x = "concat (map (\<lambda>(t, d). enc t d) as)"
  have len: "length d \<le> pad4 (length d)" "4 + pad4 (length d) + length ?x < 2 ^ 24"
    using Cons.prems(3) a pad4_bounds(1) by simp_all
  have "hdr_at m p t (4 + length d)"
    unfolding Cons.prems(1) using Cons.prems(2) a len by (auto simp: enc_def intro!: hdr_at_append)
  note h = hdr_reads(5) [OF this]
  have u: "unat (of_nat (4 + pad4 (length d)) :: u32) = 4 + pad4 (length d)"
    using len by (intro of_nat_inverse [OF refl]) simp
  then have c: "uint (of_nat (4 + pad4 (length d)) :: u32) = int (4 + pad4 (length d))" by (metis of_nat_unat)
  have c4: "(4 :: u32) \<le> of_nat (4 + pad4 (length d))" using u by (simp add: word_le_nat_alt del: of_nat_add)
  have IH: "blob_for_each_attr' m (p + (4 + pad4 (length d))) (int (length ?x)) =
      Some (offsets (p + (4 + pad4 (length d))) (map (\<lambda>(t, d). enc t d) as))"
    using Cons.prems a len by (intro Cons.IH [of "pre @ enc t d"]) simp_all
  have l: "int (length (concat (map (\<lambda>(t, d). enc t d) (a # as)))) = int (4 + pad4 (length d)) + int (length ?x)"
    using a by simp
  show ?case
    unfolding l using h c c4 u IH a
    by (subst blob_for_each_attr'.simps) (simp del: of_nat_add)
qed

lemma enc_tree_pair: "\<exists>as. map enc_tree ts = map (\<lambda>(t, d). enc t d) as"
proof (induction ts)
  case (Cons t ts)
  then obtain as where "map enc_tree ts = map (\<lambda>(t, d). enc t d) as" by blast
  then show ?case
    by (cases t) (auto intro: exI [of _ "(x, y) # as" for x y])
qed simp

lemma sees_at:
  "m = pre @ enc_tree T @ post \<Longrightarrow> length (enc_tree T) < 2 ^ 24 \<Longrightarrow> ids_ok T \<Longrightarrow> sees m (length pre) T"
proof (induction T arbitrary: pre post)
  case (Data i d)
  have n: "4 + length d < 2 ^ 24" using Data.prems(2) pad4_bounds(1) [of "length d"] by simp
  then have h: "hdr_at m (length pre) i (4 + length d)"
    using Data.prems(1) by (auto simp: enc_def intro!: hdr_at_append)
  have "rdn ((pre @ hdr i (4 + length d)) @ d @ (replicate (pad4 (length d) - length d) 0 @ post)) (blob_data (length pre)) (length d) = Some d"
    by (intro rdn_at) (simp_all add: blob_data_def)
  then show ?case using hdr_reads(2,3) [OF h] Data.prems by (simp add: enc_def)
next
  case (Nest i ts)
  let ?x = "concat (map enc_tree ts)"
  have x: "length ?x mod 4 = 0" by (rule length_enc_trees)
  have m: "m = pre @ hdr i (4 + length ?x) @ ?x @ post" using Nest.prems(1) enc_aligned [OF x] by simp
  have n: "4 + length ?x < 2 ^ 24" using Nest.prems(2) x by simp
  have h: "hdr_at m (length pre) i (4 + length ?x)" unfolding m using n by (intro hdr_at_append) simp_all
  have "m = (pre @ hdr i (4 + length ?x)) @ ?x @ post" using m by simp
  moreover obtain as where as: "map enc_tree ts = map (\<lambda>(t, d). enc t d) as" using enc_tree_pair by blast
  ultimately have it: "blob_for_each_attr' m (length pre + 4) (int (length ?x)) = Some (offsets (length pre + 4) (map enc_tree ts))"
    using n for_each_enc [of m "pre @ hdr i (4 + length ?x)" as post "length pre + 4"] unfolding as by simp
  have each: "list_all2 (sees m) (offsets (length q) (map enc_tree us)) us"
    if "set us \<subseteq> set ts" "m = q @ concat (map enc_tree us) @ post" "length (concat (map enc_tree us)) < 2 ^ 24" for us q
    using that
  proof (induction us arbitrary: q)
    case (Cons u us)
    have "sees m (length q) u"
      using Cons.prems Nest.prems(3) by (intro Nest.IH [of u q "concat (map enc_tree us) @ post"]) auto
    moreover have "list_all2 (sees m) (offsets (length (q @ enc_tree u)) (map enc_tree us)) us"
      using Cons.prems by (intro Cons.IH) auto
    ultimately show ?case by simp
  qed simp
  have "list_all2 (sees m) (offsets (length (pre @ hdr i (4 + length ?x))) (map enc_tree ts)) ts"
    using m n by (intro each) simp_all
  moreover have "blob_for_each_attr m (Some (length pre)) = Some (offsets (length pre + 4) (map enc_tree ts))"
    using it hdr_reads(3) [OF h] n sint_small [of "length ?x"] by (simp add: blob_for_each_attr_def blob_data_def)
  ultimately show ?case using hdr_reads(2) [OF h] Nest.prems(3) by simp
qed

section \<open>Properties\<close>


definition empty_buf :: blob_buf where
  "empty_buf = \<lparr>bb_head = Some 0, bb_buflen = 0, bb_buf = []\<rparr>"

lemma empty_buf_ok: "buf_ok empty_buf"
  by (simp add: buf_ok_def empty_buf_def)

definition small_buf :: blob_buf where
  "small_buf = \<lparr>bb_head = Some 0, bb_buflen = 4, bb_buf = hdr 5 4\<rparr>"

lemma small_buf_repr: "blob_repr small_buf [] 5 []"
  by (simp add: blob_repr_def small_buf_def buf_ok_def)


text \<open>
  C16: What was built is what is read: after \<^verbatim>\<open>blob_buf_init\<close> with an id and any sequence of puts and
  nested attributes whose encoding fits the 24-bit length, \<^verbatim>\<open>blob_for_each_attr\<close> on the buffer visits
  exactly those attributes in order, and each shows its id, its length and its data, at every depth.
\<close>

theorem blob_build_read:
  assumes "i < 128" "\<forall>T\<in>set Ts. ids_ok T" "4 + length (concat (map enc_tree Ts)) < 2 ^ 24"
  shows "\<exists>b1 b2. blob_buf_init always empty_buf (int i) = Some (b1, 0) \<and> put_trees always Ts b1 = Some b2 \<and>
    bb_head b2 = Some 0 \<and> sees (bb_buf b2) 0 (Nest i Ts)"
proof -
  obtain b1 where b1: "blob_buf_init always empty_buf (int i) = Some (b1, 0)" "blob_repr b1 [] i []"
    using heap_buf.blob_buf_init_repr [OF empty_buf_ok assms(1), of "\<lambda>_. True"] by auto
  obtain b2 where b2: "put_trees always Ts b1 = Some b2" "blob_repr b2 [] i (concat (map enc_tree Ts))"
    using put_tree_repr(2) [OF refl b1(2) assms(2)] assms(3) by auto
  then obtain junk where "bb_buf b2 = [] @ enc_tree (Nest i Ts) @ junk"
    using enc_aligned [OF length_enc_trees] by (auto simp: blob_repr_def)
  then have "sees (bb_buf b2) 0 (Nest i Ts)"
    using assms length_enc_trees [of Ts] sees_at [of _ "[]" "Nest i Ts" junk] by simp
  moreover have "bb_head b2 = Some 0" using b2(2) by (simp add: blob_repr_def)
  ultimately show ?thesis using b1(1) b2(1) by auto
qed

lemma blob_build_read_witness:
  "\<exists>b1 b2. blob_buf_init always empty_buf 1 = Some (b1, 0) \<and>
    put_trees always [Data 2 [9], Nest 3 [Data 4 []]] b1 = Some b2 \<and>
    sees (bb_buf b2) 0 (Nest 1 [Data 2 [9], Nest 3 [Data 4 []]])"
proof -
  have "4 + length (concat (map enc_tree [Data 2 [9], Nest 3 [Data 4 []]])) < 2 ^ 24" by (simp add: pad4_def)
  from blob_build_read [of 1, OF _ _ this] show ?thesis by auto
qed

text \<open>
  C17: Reading hostile input: on any bytes whatsoever, as long as three more bytes than the attribute
  may be read, the iteration terminates, never reads outside the block, and every attribute it
  visits lies with its padding between the start and the end of the payload, behind the one before.
\<close>

theorem blob_iteration_safe:
  assumes "a + 4 \<le> length m" "blob_len m a = Some l" "unat l < 2 ^ 31" "a + 4 + unat l + 3 \<le> length m"
  shows "\<exists>ps. blob_for_each_attr m (Some a) = Some ps \<and> visits m (a + 4) (a + 4 + unat l) ps"
proof -
  have "sint l = int (unat l)" using assms(3) sint_small [of "unat l"] by simp
  then show ?thesis
    using for_each_total [of "a + 4" "unat l" m] assms(2,4) by (simp add: blob_for_each_attr_def blob_data_def)
qed

lemma blob_iteration_safe_witness:
  "\<exists>ps. blob_for_each_attr (hdr 1 9 @ [0, 0, 0, 4, 7, 0, 0, 0]) (Some 0) = Some ps \<and>
     visits (hdr 1 9 @ [0, 0, 0, 4, 7, 0, 0, 0]) 4 9 ps"
proof -
  have "hdr_at (hdr 1 9 @ [0, 0, 0, 4, 7, 0, 0, 0]) 0 1 9"
    using hdr_at_append [of 0 "[]" 9 1] by simp
  from hdr_reads(3) [OF this] show ?thesis
    using blob_iteration_safe [of 0 "hdr 1 9 @ [0, 0, 0, 4, 7, 0, 0, 0]" 5] by simp
qed

section \<open>Parsing into a table\<close>

definition accepted :: "bytes \<Rightarrow> blob_attr_info list option \<Rightarrow> nat \<Rightarrow> nat \<Rightarrow> bool" where
  "accepted m info k p \<longleftrightarrow> blob_id m p = Some (of_nat k) \<and>
     (\<exists>len. blob_len m p = Some len \<and> blob_accept m info k len p = Some True)"

definition info_ok :: "blob_attr_info list option \<Rightarrow> int \<Rightarrow> bool" where
  "info_ok info maxid \<longleftrightarrow> 0 \<le> maxid \<and> maxid < 2 ^ 31 \<and> (case info of None \<Rightarrow> True
     | Some is \<Rightarrow> nat maxid \<le> length is \<and> (\<forall>i\<in>set is. 0 \<le> sint (bi_type i)))"

lemma type_minlen_length: "length blob_type_minlen = 8"
  by (simp add: blob_type_minlen_def)

lemma check_type_total:
  assumes "0 \<le> type" "data + unat len \<le> length m"
  shows "\<exists>r. blob_check_type m data len type = Some r"
proof (cases "type < BLOB_ATTR_LAST")
  case True
  then have t: "nat type < length blob_type_minlen" using assms(1) by (simp add: BLOB_ATTR_LAST_def type_minlen_length)
  have "data + unat (len - 1) < length m" if "type = BLOB_ATTR_STRING" "\<not> len < blob_type_minlen ! nat type"
  proof -
    have "len \<noteq> 0" using that by (auto simp: BLOB_ATTR_STRING_def blob_type_minlen_def)
    then have "unat (len - 1) = unat len - 1" "0 < unat len"
      by (simp_all add: unat_minus_one unat_gt_0)
    then show ?thesis using assms(2) by linarith
  qed
  then show ?thesis using True t assms(1) by (auto simp: blob_check_type_def rd_def)
qed (auto simp: blob_check_type_def)

lemma accept_total:
  assumes "info_ok info maxid" "k < nat maxid" "p + 4 + unat len \<le> length m"
  shows "\<exists>r. blob_accept m info k len p = Some r"
proof (cases info)
  case (Some infos)
  then have i: "k < length infos" "0 \<le> sint (bi_type (infos ! k))" using assms by (auto simp: info_ok_def)
  have "\<exists>r. blob_check_type m (blob_data p) len (sint (bi_type (infos ! k))) = Some r"
    using i assms(3) by (intro check_type_total) (simp_all add: blob_data_def)
  then show ?thesis using Some i by (auto simp: blob_accept_def rd_def Let_def)
qed (auto simp: blob_accept_def)

lemma visits_bounds:
  "visits m p e ps \<Longrightarrow> q \<in> set ps \<Longrightarrow> p \<le> q \<and> q + pad4 (raw_at m q) \<le> e \<and> 1 \<le> raw_at m q"
  by (induction ps arbitrary: p) fastforce+

lemma id_small: "blob_id m p = Some w \<Longrightarrow> unat w < 128"
proof -
  assume "blob_id m p = Some w"
  then obtain v where "w = drop_bit 24 (v AND BLOB_ATTR_ID_MASK)" by (auto simp: blob_id_def BLOB_ATTR_ID_SHIFT_def split: bind_splits)
  then have "w = w AND mask 7" by (auto simp: id_mask bit_simps intro!: bit_word_eqI)
  then have "w \<le> mask 7" by (metis word_and_le1)
  then show ?thesis by (simp add: word_le_nat_alt mask_eq_exp_minus_1)
qed

lemma parse_fold:
  assumes info: "info_ok info maxid"
    and ps: "\<forall>p\<in>set ps. p + 4 \<le> length m \<and> 4 \<le> raw_at m p \<and> p + raw_at m p \<le> length m"
  shows "\<exists>data found. foldM (blob_parse_step m info maxid) ps (replicate (nat maxid) None, 0) = Some (data, found) \<and>
    length data = nat maxid \<and> (\<forall>k<nat maxid. data ! k = find (accepted m info k) (rev ps)) \<and>
    found = int (length (filter (\<lambda>x. x \<noteq> None) data))"
  using ps
proof (induction ps rule: rev_induct)
  case (snoc p ps)
  obtain data found where IH: "foldM (blob_parse_step m info maxid) ps (replicate (nat maxid) None, 0) = Some (data, found)"
    "length data = nat maxid" "\<forall>k<nat maxid. data ! k = find (accepted m info k) (rev ps)"
    "found = int (length (filter (\<lambda>x. x \<noteq> None) data))"
    using snoc by auto
  have p: "p + 4 \<le> length m" "4 \<le> raw_at m p" "p + raw_at m p \<le> length m" using snoc.prems by auto
  obtain w where w: "blob_id m p = Some w" using header_reads(4) [OF p(1)] by blast
  let ?len = "of_nat (raw_at m p) - 4 :: u32"
  note len = header_reads(5) [OF p(1)]
  have u: "unat ?len = raw_at m p - 4"
  proof -
    have "?len = of_nat (raw_at m p - 4)" using p(2) by (simp add: of_nat_diff)
    moreover have "unat (of_nat (raw_at m p - 4) :: u32) = raw_at m p - 4"
      using header_reads(2) [OF p(1)] by (intro of_nat_inverse [OF refl]) simp
    ultimately show ?thesis by simp
  qed
  let ?k = "unat w"
  have k: "?k < 128" by (rule id_small [OF w])
  have sw: "sint w = int ?k" using sint_small [of ?k] k by simp
  have acc: "accepted m info j p \<longleftrightarrow> j = ?k \<and> blob_accept m info ?k ?len p = Some True" if "j < nat maxid" for j
  proof -
    have "maxid < 2147483648" using info by (simp add: info_ok_def)
    then have "int j < 2147483648" using that by linarith
    then have "j < 2 ^ 32" by simp
    then show ?thesis using w len of_nat_inverse [of j w] by (auto simp: accepted_def)
  qed
  have step: "foldM (blob_parse_step m info maxid) (ps @ [p]) (replicate (nat maxid) None, 0) =
      blob_parse_step m info maxid p (data, found)"
    using IH(1) by (cases "blob_parse_step m info maxid p (data, found)") simp_all
  show ?case
  proof (cases "int ?k < maxid \<and> blob_accept m info ?k ?len p = Some True")
    case True
    then have "?k < nat maxid" by linarith
    then have K: "?k < length data" using IH(2) by simp
    let ?f = "if data ! ?k = None then found + 1 else found"
    have "blob_parse_step m info maxid p (data, found) = Some (data[?k := Some p], ?f)"
      using True w len sw K by (simp add: blob_parse_step_def rd_def)
    moreover have "\<forall>j<nat maxid. data[?k := Some p] ! j = find (accepted m info j) (rev (ps @ [p]))"
      using IH(2,3) K True acc by (auto simp: nth_list_update)
    moreover have "?f = int (length (filter (\<lambda>x. x \<noteq> None) (data[?k := Some p])))"
    proof -
      have d: "data = take ?k data @ data ! ?k # drop (Suc ?k) data" using K by (rule id_take_nth_drop)
      have "data[?k := Some p] = take ?k data @ Some p # drop (Suc ?k) data" using K by (rule upd_conv_take_nth_drop)
      moreover have "length (filter (\<lambda>x. x \<noteq> None) data) = length (filter (\<lambda>x. x \<noteq> None) (take ?k data)) +
          (if data ! ?k = None then 0 else 1) + length (filter (\<lambda>x. x \<noteq> None) (drop (Suc ?k) data))"
        by (subst d) simp
      ultimately show ?thesis using IH(4) by simp
    qed
    ultimately show ?thesis unfolding step using IH(2) by simp
  next
    case False
    have na: "\<not> accepted m info j p" if "j < nat maxid" for j
    proof
      assume "accepted m info j p"
      then have "j = ?k" "blob_accept m info ?k ?len p = Some True" using acc [OF that] by simp_all
      moreover have "int j < maxid" using that by linarith
      ultimately show False using False by simp
    qed
    have "blob_parse_step m info maxid p (data, found) = Some (data, found)"
    proof (cases "int ?k < maxid")
      case True
      then have "?k < nat maxid" by linarith
      moreover have "p + 4 + unat ?len \<le> length m" using u p by simp
      ultimately obtain r where "blob_accept m info ?k ?len p = Some r" using accept_total [OF info] by blast
      then show ?thesis using True False w len sw by (auto simp: blob_parse_step_def)
    qed (use w len sw in \<open>simp add: blob_parse_step_def\<close>)
    then show ?thesis unfolding step using IH na by simp
  qed
qed simp



definition parse_input :: bytes where
  "parse_input = hdr 1 20 @ (enc 2 [0] @ enc 2 [7]) @ [0, 0, 0]"

lemma hdr_at_raw: "hdr_at m p t n \<Longrightarrow> raw_at m p = n"
  using hdr_reads(4) [of m p t n] by (auto simp: raw_at_def hdr_at_def intro!: of_nat_inverse [OF refl])

lemma parse_input_reads:
  "hdr_at parse_input 0 1 20" "hdr_at parse_input 4 2 5" "hdr_at parse_input 12 2 5"
  using hdr_at_append [of 0 "[]" 20 1] hdr_at_append [of 4 "hdr 1 20" 5 2]
    hdr_at_append [of 12 "hdr 1 20 @ enc 2 [0]" 5 2]
  by (simp_all add: parse_input_def enc_def pad4_def)

lemma parse_input_each: "blob_for_each_attr parse_input (Some 0) = Some [4, 12]"
  using for_each_enc [of parse_input "hdr 1 20" "[(2, [0]), (2, [7])]" "[0, 0, 0]" 4]
    hdr_reads(3) [OF parse_input_reads(1)]
  by (simp add: blob_for_each_attr_def blob_data_def parse_input_def pad4_def)


lemma short_header:
  "(1 AND BLOB_ATTR_LEN_MASK) - 4 = - 3" "(- 3 + 4 + BLOB_ATTR_ALIGN - 1) AND NOT (BLOB_ATTR_ALIGN - 1) = 4"
  "drop_bit BLOB_ATTR_ID_SHIFT (1 AND BLOB_ATTR_ID_MASK) = 0"
  by (simp_all add: BLOB_ATTR_LEN_MASK_def BLOB_ATTR_ALIGN_def BLOB_ATTR_ID_MASK_def BLOB_ATTR_ID_SHIFT_def)

text \<open>
  A member whose header says it is shorter than a header passes the test of the loop; its length
  wraps around, and the string check of \<^verbatim>\<open>blob_check_type\<close> reads far behind the block.
\<close>

lemma short_header_faults:
  assumes m: "m = hdr 1 8 @ be_bytes32 1 @ z" and z: "length z = 12" and i: "bi_type i = 3"
  shows "blob_len m 0 = Some 4" "blob_parse m (Some 0) (Some [i]) 1 = None"
proof -
  have h: "hdr_at m 0 1 8" using hdr_at_append [of 0 "[]" 8 1] by (simp add: m)
  show l0: "blob_len m 0 = Some 4" using hdr_reads(3) [OF h] by simp
  have "rdn m 4 4 = Some (be_bytes32 1)" unfolding m by (rule rdn_at) simp_all
  then have w: "id_len m 4 = Some 1" by (simp add: id_len_def load_be32_def be_bytes32_inv)
  have l: "blob_len m 4 = Some (- 3)" "blob_pad_len m 4 = Some 4" "blob_id m 4 = Some 0"
    unfolding blob_len_def blob_pad_len_def blob_raw_len_def blob_id_def w bind.bind_lunit short_header by (rule refl)+
  have "blob_for_each_attr' m 8 0 = Some []" by (subst blob_for_each_attr'.simps) simp
  then have "blob_for_each_attr' m 4 4 = Some [4]" using l(2) by (subst blob_for_each_attr'.simps) simp
  then have e: "blob_for_each_attr m (Some 0) = Some [4]" using l0 by (simp add: blob_for_each_attr_def blob_data_def)
  have far: "\<not> 8 + unat (- 4 :: u32) < length m" using z by (simp add: m)
  have "\<not> (- 3 :: u32) < 1" by simp
  then have "blob_check_type m 8 (- 3) 3 = None"
    using far by (simp add: blob_check_type_def BLOB_ATTR_LAST_def BLOB_ATTR_STRING_def BLOB_ATTR_INT8_def BLOB_ATTR_INT64_def
      blob_type_minlen_def rd_def)
  then show "blob_parse m (Some 0) (Some [i]) 1 = None"
    using e l i by (simp add: blob_parse_def blob_parse_step_def blob_accept_def blob_data_def rd_def BLOB_ATTR_LAST_def)
qed

lemma blob_parse_short_header_faults:
  "\<exists>m info. blob_len m 0 = Some 4 \<and> length m = 20 \<and> blob_parse m (Some 0) (Some info) 1 = None"
  using short_header_faults [of _ "replicate 12 0" "\<lparr>bi_type = 3, bi_minlen = 0, bi_maxlen = 0, bi_validate = None\<rparr>", OF refl]
  by (intro exI conjI) (assumption | simp)+

end
