(* ===== verification/Blobmsg.thy ===== *)
theory Blobmsg
  imports BlobSpec
begin

text \<open>
  \<^verbatim>\<open>blobmsg.h\<close>, \<^verbatim>\<open>blobmsg.c\<close>: named and typed attributes. The payload of an extended attribute starts with
  the length of the name in network order, the name with its terminator, and padding to four bytes.
  Pointers are offsets as in \<^theory_text>\<open>Blob\<close>; a C string argument is the list of its bytes, NULL is
  \<^const>\<open>None\<close>.
\<close>

section \<open>Layout\<close>

definition BLOBMSG_ALIGN :: nat where "BLOBMSG_ALIGN = 2"

definition BLOBMSG_PADDING :: "nat \<Rightarrow> nat" where
  "BLOBMSG_PADDING len = (len + 2 ^ BLOBMSG_ALIGN - 1) div 2 ^ BLOBMSG_ALIGN * 2 ^ BLOBMSG_ALIGN"

text \<open>\<^verbatim>\<open>enum blobmsg_type\<close>.\<close>

definition BLOBMSG_TYPE_UNSPEC :: int where "BLOBMSG_TYPE_UNSPEC = 0"
definition BLOBMSG_TYPE_ARRAY :: int where "BLOBMSG_TYPE_ARRAY = 1"
definition BLOBMSG_TYPE_TABLE :: int where "BLOBMSG_TYPE_TABLE = 2"
definition BLOBMSG_TYPE_STRING :: int where "BLOBMSG_TYPE_STRING = 3"
definition BLOBMSG_TYPE_INT64 :: int where "BLOBMSG_TYPE_INT64 = 4"
definition BLOBMSG_TYPE_INT32 :: int where "BLOBMSG_TYPE_INT32 = 5"
definition BLOBMSG_TYPE_INT16 :: int where "BLOBMSG_TYPE_INT16 = 6"
definition BLOBMSG_TYPE_INT8 :: int where "BLOBMSG_TYPE_INT8 = 7"
definition BLOBMSG_TYPE_LAST :: int where "BLOBMSG_TYPE_LAST = 7"
definition BLOBMSG_TYPE_BOOL :: int where "BLOBMSG_TYPE_BOOL = BLOBMSG_TYPE_INT8"

lemmas blobmsg_types = BLOBMSG_TYPE_UNSPEC_def BLOBMSG_TYPE_ARRAY_def BLOBMSG_TYPE_TABLE_def
  BLOBMSG_TYPE_STRING_def BLOBMSG_TYPE_INT64_def BLOBMSG_TYPE_INT32_def BLOBMSG_TYPE_INT16_def
  BLOBMSG_TYPE_INT8_def BLOBMSG_TYPE_LAST_def BLOBMSG_TYPE_BOOL_def

text \<open>The table \<^verbatim>\<open>blob_type\<close>: the blob type of the payload of each message type, 0 for containers.\<close>

definition blob_type :: "int list" where
  "blob_type = [2, 0, 0, BLOB_ATTR_STRING, BLOB_ATTR_INT64, 6, 5, BLOB_ATTR_INT8]"

record blobmsg_policy =
  bp_name :: "bytes option"
  bp_type :: int

definition blobmsg_hdrlen :: "nat \<Rightarrow> nat" where
  "blobmsg_hdrlen namelen = BLOBMSG_PADDING (2 + namelen + 1)"

section \<open>Reading\<close>

definition blobmsg_namelen :: "bytes \<Rightarrow> nat \<Rightarrow> u16 option" where
  "blobmsg_namelen m hp = load_be16 m hp"

definition blobmsg_clear_name :: "bytes \<Rightarrow> nat \<Rightarrow> bytes option" where
  "blobmsg_clear_name m attr = wrn m (blob_data attr + 2) [0]"

definition blobmsg_name :: "nat \<Rightarrow> nat" where
  "blobmsg_name attr = blob_data attr + 2"

definition blobmsg_type :: "bytes \<Rightarrow> nat \<Rightarrow> int option" where
  "blobmsg_type m attr = do { i \<leftarrow> blob_id m attr; Some (sint i) }"

definition blobmsg_data :: "bytes \<Rightarrow> nat \<Rightarrow> nat option" where
  "blobmsg_data m attr =
     do { ext \<leftarrow> blob_is_extended m attr;
          if ext then do { n \<leftarrow> load_be16 m (blob_data attr); Some (blob_data attr + blobmsg_hdrlen (unat n)) }
          else Some (blob_data attr) }"

definition blobmsg_data_len :: "bytes \<Rightarrow> nat \<Rightarrow> int option" where
  "blobmsg_data_len m attr =
     do { end \<leftarrow> blobmsg_data m attr; l \<leftarrow> blob_len m attr;
          Some (c_int (uint l - int (end - blob_data attr))) }"

definition blobmsg_len :: "bytes \<Rightarrow> nat \<Rightarrow> int option" where
  "blobmsg_len m attr = blobmsg_data_len m attr"

definition blobmsg_get_u8 :: "bytes \<Rightarrow> nat \<Rightarrow> u8 option" where
  "blobmsg_get_u8 m attr = do { p \<leftarrow> blobmsg_data m attr; rd m p }"

definition blobmsg_get_bool :: "bytes \<Rightarrow> nat \<Rightarrow> bool option" where
  "blobmsg_get_bool m attr = do { b \<leftarrow> blobmsg_get_u8 m attr; Some (b \<noteq> 0) }"

definition blobmsg_get_u16 :: "bytes \<Rightarrow> nat \<Rightarrow> u16 option" where
  "blobmsg_get_u16 m attr = do { p \<leftarrow> blobmsg_data m attr; load_be16 m p }"

definition blobmsg_get_u32 :: "bytes \<Rightarrow> nat \<Rightarrow> u32 option" where
  "blobmsg_get_u32 m attr = do { p \<leftarrow> blobmsg_data m attr; load_be32 m p }"

definition blobmsg_get_u64 :: "bytes \<Rightarrow> nat \<Rightarrow> u64 option" where
  "blobmsg_get_u64 m attr =
     do { p \<leftarrow> blobmsg_data m attr; h \<leftarrow> load_be32 m p; l \<leftarrow> load_be32 m (p + 4);
          Some (push_bit 32 (ucast h) OR ucast l) }"

definition blobmsg_get_string :: "bytes \<Rightarrow> nat option \<Rightarrow> nat option option" where
  "blobmsg_get_string m attr =
     (case attr of None \<Rightarrow> Some None | Some a \<Rightarrow> do { p \<leftarrow> blobmsg_data m a; Some (Some p) })"

section \<open>Checking and parsing\<close>

definition blobmsg_check_attr :: "bytes \<Rightarrow> nat \<Rightarrow> bool \<Rightarrow> bool option" where
  "blobmsg_check_attr m attr name =
     do { bl \<leftarrow> blob_len m attr;
          if bl < 2 then Some False
          else do { n \<leftarrow> blobmsg_namelen m (blob_data attr);
            if n = 0 \<and> name then Some False
            else if ucast n > bl - 2 then Some False
            else do { z \<leftarrow> rd m (blobmsg_name attr + unat n);
              if z \<noteq> 0 then Some False
              else do { i \<leftarrow> blob_id m attr;
                len \<leftarrow> blobmsg_data_len m attr;
                data \<leftarrow> blobmsg_data m attr;
                if sint i > BLOBMSG_TYPE_LAST then Some False
                else do { ty \<leftarrow> rd blob_type (unat i);
                  if ty = 0 then Some True else blob_check_type m data (word_of_int len) ty } } } } }"

text \<open>
  A loop over attributes whose body may return from the function (\<^const>\<open>Inl\<close>) or go on (\<^const>\<open>Inr\<close>).
\<close>

partial_function (option) blob_loop ::
  "bytes \<Rightarrow> (nat \<Rightarrow> 's \<Rightarrow> ('r + 's) option) \<Rightarrow> nat \<Rightarrow> int \<Rightarrow> 's \<Rightarrow> ('r + 's) option" where
  "blob_loop m body p rem s =
     (if rem \<le> 0 then Some (Inr s)
      else do { l \<leftarrow> blob_pad_len m p;
                if uint l \<le> rem \<and> 4 \<le> l
                then do { r \<leftarrow> body p s;
                          case r of Inl x \<Rightarrow> Some (Inl x)
                          | Inr s \<Rightarrow> blob_loop m body (p + unat l) (rem - uint l) s }
                else Some (Inr s) })"

definition blobmsg_for_each_attr ::
  "bytes \<Rightarrow> (nat \<Rightarrow> 's \<Rightarrow> ('r + 's) option) \<Rightarrow> nat option \<Rightarrow> 's \<Rightarrow> ('r + 's) option" where
  "blobmsg_for_each_attr m body attr s =
     (case attr of None \<Rightarrow> Some (Inr s)
      | Some a \<Rightarrow> do { rem \<leftarrow> blobmsg_data_len m a; p \<leftarrow> blobmsg_data m a; blob_loop m body p rem s })"

definition blobmsg_check_array :: "bytes \<Rightarrow> nat \<Rightarrow> int \<Rightarrow> int option" where
  "blobmsg_check_array m attr type =
     do { ty \<leftarrow> blobmsg_type m attr;
          if ty \<noteq> BLOBMSG_TYPE_TABLE \<and> ty \<noteq> BLOBMSG_TYPE_ARRAY then Some (-1)
          else let name = (ty = BLOBMSG_TYPE_TABLE) in
            do { r \<leftarrow> blobmsg_for_each_attr m (\<lambda>cur sz.
                   do { ct \<leftarrow> blobmsg_type m cur;
                        if type \<noteq> BLOBMSG_TYPE_UNSPEC \<and> ct \<noteq> type then Some (Inl (-1))
                        else do { ok \<leftarrow> blobmsg_check_attr m cur name;
                                  Some (if ok then Inr (sz + 1) else Inl (-1)) } }) (Some attr) 0;
                 Some (case r of Inl x \<Rightarrow> x | Inr sz \<Rightarrow> sz) } }"

definition blobmsg_check_attr_list :: "bytes \<Rightarrow> nat \<Rightarrow> int \<Rightarrow> bool option" where
  "blobmsg_check_attr_list m attr type = do { n \<leftarrow> blobmsg_check_array m attr type; Some (n \<ge> 0) }"

text \<open>The parsers fill a table and return 0, or -1 with the table as far as it got.\<close>

definition blobmsg_parse_array ::
  "blobmsg_policy list \<Rightarrow> nat \<Rightarrow> bytes \<Rightarrow> nat \<Rightarrow> u32 \<Rightarrow> (nat option list \<times> int) option" where
  "blobmsg_parse_array policy policy_len m data len =
     do { r \<leftarrow> blob_loop m (\<lambda>attr (tb, i).
            do { pol \<leftarrow> rd policy i; ty \<leftarrow> blob_id m attr;
                 if bp_type pol \<noteq> BLOBMSG_TYPE_UNSPEC \<and> uint ty \<noteq> bp_type pol then Some (Inr (tb, i))
                 else do { ok \<leftarrow> blobmsg_check_attr m attr False;
                   if \<not> ok then Some (Inl (tb, -1))
                   else do { old \<leftarrow> rd tb i;
                     if old \<noteq> None then Some (Inr (tb, i))
                     else let tb = tb[i := Some attr]; i = i + 1 in
                          Some (if i = policy_len then Inl (tb, 0) else Inr (tb, i)) } } })
            data (uint len) (replicate policy_len None, 0);
          Some (case r of Inl x \<Rightarrow> x | Inr (tb, i) \<Rightarrow> (tb, 0)) }"

text \<open>One round of the inner loop of \<^verbatim>\<open>blobmsg_parse\<close>; the name lengths are kept in bytes.\<close>

definition blobmsg_match ::
  "bytes \<Rightarrow> nat \<Rightarrow> blobmsg_policy \<Rightarrow> nat option list \<Rightarrow> nat \<Rightarrow> ((nat option list \<times> int) + nat option list) option" where
  "blobmsg_match m attr pol tb i =
     (case bp_name pol of None \<Rightarrow> Some (Inr tb)
      | Some pname \<Rightarrow>
        do { ty \<leftarrow> blob_id m attr;
             if bp_type pol \<noteq> BLOBMSG_TYPE_UNSPEC \<and> uint ty \<noteq> bp_type pol then Some (Inr tb)
             else do { n \<leftarrow> blobmsg_namelen m (blob_data attr);
               if n \<noteq> ucast (of_nat (length pname) :: u8) then Some (Inr tb)
               else do { ok \<leftarrow> blobmsg_check_attr m attr True;
                 if \<not> ok then Some (Inl (tb, -1))
                 else do { old \<leftarrow> rd tb i;
                   if old \<noteq> None then Some (Inr tb)
                   else do { nm \<leftarrow> cstr_at m (blobmsg_name attr);
                             Some (Inr (if c_strcmp pname nm \<noteq> 0 then tb else tb[i := Some attr])) } } } } })"

fun blobmsg_policies ::
  "bytes \<Rightarrow> nat \<Rightarrow> blobmsg_policy list \<Rightarrow> nat option list \<Rightarrow> nat \<Rightarrow> ((nat option list \<times> int) + nat option list) option" where
  "blobmsg_policies m attr [] tb i = Some (Inr tb)"
| "blobmsg_policies m attr (pol # ps) tb i =
     do { r \<leftarrow> blobmsg_match m attr pol tb i;
          case r of Inl x \<Rightarrow> Some (Inl x) | Inr tb \<Rightarrow> blobmsg_policies m attr ps tb (i + 1) }"

definition blobmsg_parse ::
  "blobmsg_policy list \<Rightarrow> nat \<Rightarrow> bytes \<Rightarrow> nat \<Rightarrow> u32 \<Rightarrow> (nat option list \<times> int) option" where
  "blobmsg_parse policy policy_len m data len =
     do { r \<leftarrow> blob_loop m (\<lambda>attr tb. blobmsg_policies m attr (take policy_len policy) tb 0)
            data (uint len) (replicate policy_len None);
          Some (case r of Inl x \<Rightarrow> x | Inr tb \<Rightarrow> (tb, 0)) }"

section \<open>Building\<close>

text \<open>\<^verbatim>\<open>blobmsg_new\<close> returns the attribute and, in \<^verbatim>\<open>*data\<close>, where its data go.\<close>

definition blobmsg_new ::
  "grow_fun \<Rightarrow> blob_buf \<Rightarrow> int \<Rightarrow> bytes option \<Rightarrow> int \<Rightarrow> (blob_buf \<times> (nat \<times> nat) option) option" where
  "blobmsg_new grow buf type name payload_len =
     (let name = (case name of None \<Rightarrow> [] | Some s \<Rightarrow> s);
          namelen = length name;
          attrlen = c_int (int (blobmsg_hdrlen namelen) + payload_len)
      in do { (buf, r) \<leftarrow> blob_new grow buf type attrlen;
              case r of None \<Rightarrow> Some (buf, None)
              | Some attr \<Rightarrow>
                do { w \<leftarrow> id_len (bb_buf buf) attr;
                     m \<leftarrow> store_be32 (bb_buf buf) attr (w OR BLOB_ATTR_EXTENDED);
                     let hp = blob_data attr in
                     do { m \<leftarrow> wrn m hp (be_bytes16 (of_nat namelen));
                          m \<leftarrow> wrn m (hp + 2) (name @ [0]);
                          pad_end \<leftarrow> blobmsg_data m attr;
                          let pad_start = hp + 2 + namelen in
                          do { m \<leftarrow> (if pad_start < pad_end then wrn m pad_start (replicate (pad_end - pad_start) 0) else Some m);
                               Some (buf\<lparr>bb_buf := m\<rparr>, Some (attr, pad_end)) } } } })"

definition blobmsg_open_nested :: "grow_fun \<Rightarrow> blob_buf \<Rightarrow> bytes option \<Rightarrow> bool \<Rightarrow> (blob_buf \<times> nat) option" where
  "blobmsg_open_nested grow buf name array =
     do { hd \<leftarrow> bb_head buf;
          let type = (if array then BLOBMSG_TYPE_ARRAY else BLOBMSG_TYPE_TABLE);
              offset = attr_to_offset hd;
              name = (case name of None \<Rightarrow> [] | Some s \<Rightarrow> s)
          in do { (buf, r) \<leftarrow> blobmsg_new grow buf type (Some name) 0;
                  case r of None \<Rightarrow> Some (buf, 0)
                  | Some (head, _) \<Rightarrow>
                    do { hd \<leftarrow> bb_head buf;
                         l \<leftarrow> blob_pad_len (bb_buf buf) hd;
                         m \<leftarrow> blob_set_raw_len (bb_buf buf) hd (l - of_nat (blobmsg_hdrlen (length name)));
                         Some (buf\<lparr>bb_buf := m, bb_head := Some head\<rparr>, offset) } } }"

definition blobmsg_open_array :: "grow_fun \<Rightarrow> blob_buf \<Rightarrow> bytes option \<Rightarrow> (blob_buf \<times> nat) option" where
  "blobmsg_open_array grow buf name = blobmsg_open_nested grow buf name True"

definition blobmsg_open_table :: "grow_fun \<Rightarrow> blob_buf \<Rightarrow> bytes option \<Rightarrow> (blob_buf \<times> nat) option" where
  "blobmsg_open_table grow buf name = blobmsg_open_nested grow buf name False"

definition blobmsg_close_array :: "blob_buf \<Rightarrow> nat \<Rightarrow> blob_buf option" where
  "blobmsg_close_array buf cookie = blob_nest_end buf cookie"

definition blobmsg_close_table :: "blob_buf \<Rightarrow> nat \<Rightarrow> blob_buf option" where
  "blobmsg_close_table buf cookie = blob_nest_end buf cookie"

definition blobmsg_buf_init :: "grow_fun \<Rightarrow> blob_buf \<Rightarrow> (blob_buf \<times> int) option" where
  "blobmsg_buf_init grow buf = blob_buf_init grow buf BLOBMSG_TYPE_TABLE"

definition blobmsg_add_field ::
  "grow_fun \<Rightarrow> blob_buf \<Rightarrow> int \<Rightarrow> bytes option \<Rightarrow> bytes \<Rightarrow> u32 \<Rightarrow> (blob_buf \<times> int) option" where
  "blobmsg_add_field grow buf type name data len =
     do { (buf, r) \<leftarrow> blobmsg_new grow buf type name (sint len);
          case r of None \<Rightarrow> Some (buf, -1)
          | Some (attr, data_dest) \<Rightarrow>
            if len > 0
            then do { bs \<leftarrow> rdn data 0 (unat len); m \<leftarrow> wrn (bb_buf buf) data_dest bs; Some (buf\<lparr>bb_buf := m\<rparr>, 0) }
            else Some (buf, 0) }"

definition blobmsg_add_u8 :: "grow_fun \<Rightarrow> blob_buf \<Rightarrow> bytes option \<Rightarrow> u8 \<Rightarrow> (blob_buf \<times> int) option" where
  "blobmsg_add_u8 grow buf name val = blobmsg_add_field grow buf BLOBMSG_TYPE_INT8 name [val] 1"

definition blobmsg_add_u16 :: "grow_fun \<Rightarrow> blob_buf \<Rightarrow> bytes option \<Rightarrow> u16 \<Rightarrow> (blob_buf \<times> int) option" where
  "blobmsg_add_u16 grow buf name val = blobmsg_add_field grow buf BLOBMSG_TYPE_INT16 name (be_bytes16 val) 2"

definition blobmsg_add_u32 :: "grow_fun \<Rightarrow> blob_buf \<Rightarrow> bytes option \<Rightarrow> u32 \<Rightarrow> (blob_buf \<times> int) option" where
  "blobmsg_add_u32 grow buf name val = blobmsg_add_field grow buf BLOBMSG_TYPE_INT32 name (be_bytes32 val) 4"

definition blobmsg_add_u64 :: "grow_fun \<Rightarrow> blob_buf \<Rightarrow> bytes option \<Rightarrow> u64 \<Rightarrow> (blob_buf \<times> int) option" where
  "blobmsg_add_u64 grow buf name val = blobmsg_add_field grow buf BLOBMSG_TYPE_INT64 name
     (be_bytes32 (ucast (drop_bit 32 val)) @ be_bytes32 (ucast val)) 8"

definition blobmsg_add_string :: "grow_fun \<Rightarrow> blob_buf \<Rightarrow> bytes option \<Rightarrow> bytes \<Rightarrow> (blob_buf \<times> int) option" where
  "blobmsg_add_string grow buf name str =
     blobmsg_add_field grow buf BLOBMSG_TYPE_STRING name (str @ [0]) (of_nat (length str + 1))"

definition blobmsg_add_blob :: "grow_fun \<Rightarrow> blob_buf \<Rightarrow> bytes \<Rightarrow> nat \<Rightarrow> (blob_buf \<times> int) option" where
  "blobmsg_add_blob grow buf m attr =
     do { ty \<leftarrow> blobmsg_type m attr; nm \<leftarrow> cstr_at m (blobmsg_name attr);
          p \<leftarrow> blobmsg_data m attr; l \<leftarrow> blobmsg_data_len m attr;
          blobmsg_add_field grow buf ty (Some nm) (drop p m) (word_of_int l) }"

section \<open>String buffers\<close>

definition blobmsg_alloc_string_buffer ::
  "grow_fun \<Rightarrow> blob_buf \<Rightarrow> bytes option \<Rightarrow> u32 \<Rightarrow> (blob_buf \<times> nat option) option" where
  "blobmsg_alloc_string_buffer grow buf name maxlen =
     do { (buf, r) \<leftarrow> blobmsg_new grow buf BLOBMSG_TYPE_STRING name (sint maxlen);
          case r of None \<Rightarrow> Some (buf, None)
          | Some (attr, data_dest) \<Rightarrow>
            do { hd \<leftarrow> bb_head buf;
                 l1 \<leftarrow> blob_pad_len (bb_buf buf) hd; l2 \<leftarrow> blob_pad_len (bb_buf buf) attr;
                 m \<leftarrow> blob_set_raw_len (bb_buf buf) hd (l1 - l2);
                 r \<leftarrow> blob_raw_len m attr;
                 m \<leftarrow> blob_set_raw_len m attr (r - maxlen);
                 Some (buf\<lparr>bb_buf := m\<rparr>, Some data_dest) } }"

definition blobmsg_realloc_string_buffer ::
  "grow_fun \<Rightarrow> blob_buf \<Rightarrow> u32 \<Rightarrow> (blob_buf \<times> nat) option" where
  "blobmsg_realloc_string_buffer grow buf maxlen =
     do { hd \<leftarrow> bb_head buf;
          attr \<leftarrow> blob_next (bb_buf buf) hd;
          pl \<leftarrow> blob_pad_len (bb_buf buf) attr;
          let offset = int (attr_to_offset attr) + uint pl - int BLOB_COOKIE;
              required = c_int (uint maxlen - (bb_buflen buf - offset))
          in if required \<le> 0 then do { d \<leftarrow> blobmsg_data (bb_buf buf) attr; Some (buf, d) }
             else let buf = (case blob_buf_grow grow buf required of None \<Rightarrow> buf | Some b \<Rightarrow> b) in
               do { hd \<leftarrow> bb_head buf;
                    attr \<leftarrow> blob_next (bb_buf buf) hd;
                    d \<leftarrow> blobmsg_data (bb_buf buf) attr;
                    Some (buf, d) } }"

definition blobmsg_add_string_buffer :: "blob_buf \<Rightarrow> blob_buf option" where
  "blobmsg_add_string_buffer buf =
     do { hd \<leftarrow> bb_head buf;
          attr \<leftarrow> blob_next (bb_buf buf) hd;
          d \<leftarrow> blobmsg_data (bb_buf buf) attr;
          str \<leftarrow> cstr_at (bb_buf buf) d;
          r \<leftarrow> blob_raw_len (bb_buf buf) attr;
          m \<leftarrow> blob_set_raw_len (bb_buf buf) attr (r + of_nat (length str + 1));
          m \<leftarrow> blob_fill_pad m attr;
          r \<leftarrow> blob_raw_len m hd; l \<leftarrow> blob_pad_len m attr;
          m \<leftarrow> blob_set_raw_len m hd (r + l);
          Some (buf\<lparr>bb_buf := m\<rparr>) }"

text \<open>
  \<^verbatim>\<open>blobmsg_vprintf\<close>; what \<^verbatim>\<open>vsnprintf\<close> makes of the format and the arguments is the parameter \<open>txt\<close>. The
  result of the allocation is not checked before \<^verbatim>\<open>vsprintf\<close> writes to it.
\<close>

definition blobmsg_vprintf :: "grow_fun \<Rightarrow> blob_buf \<Rightarrow> bytes option \<Rightarrow> bytes \<Rightarrow> blob_buf option" where
  "blobmsg_vprintf grow buf name txt =
     do { (buf, r) \<leftarrow> blobmsg_alloc_string_buffer grow buf name (of_nat (length txt + 1));
          d \<leftarrow> r;
          m \<leftarrow> wrn (bb_buf buf) d (txt @ [0]);
          blobmsg_add_string_buffer (buf\<lparr>bb_buf := m\<rparr>) }"

end
