(* ===== verification/BlobmsgSpec.thy ===== *)
theory BlobmsgSpec
  imports Blobmsg
begin

text \<open>
  Messages on the wire: a field is the attribute whose payload is name header and data. Adding
  fields and opening nested tables refine the operations on the stack of open attributes of
  \<^theory_text>\<open>BlobRepr\<close>; what was added is what the accessors return; an attribute that passes
  \<^verbatim>\<open>blobmsg_check_attr\<close> can be read safely.
\<close>

section \<open>Fields\<close>

lemma hdrlen_pad: "blobmsg_hdrlen n = pad4 (n + 3)"
  by (simp add: blobmsg_hdrlen_def BLOBMSG_PADDING_def BLOBMSG_ALIGN_def pad4_def add.commute)

lemma hdrlen_bounds: "n + 3 \<le> blobmsg_hdrlen n" "blobmsg_hdrlen n < n + 7" "blobmsg_hdrlen n mod 4 = 0"
  using pad4_bounds [of "n + 3"] by (simp_all add: hdrlen_pad)

definition bmsg :: "bytes \<Rightarrow> bytes \<Rightarrow> bytes" where
  "bmsg name data = be_bytes16 (of_nat (length name)) @ name @
     replicate (blobmsg_hdrlen (length name) - 2 - length name) 0 @ data"

lemma length_bmsg [simp]: "length (bmsg name data) = blobmsg_hdrlen (length name) + length data"
  using hdrlen_bounds(1) [of "length name"] by (simp add: bmsg_def)

lemma hdrw_extend: "t < 128 \<Longrightarrow> hdrw t n OR BLOB_ATTR_EXTENDED = hdrw (t + 128) n"
proof -
  assume t: "t < 128"
  have "\<not> bit (of_nat t :: u32) 7" using nat_bit_less [of t 7 7] t by (auto simp: bit_simps)
  then have "of_nat t AND 2 ^ 7 = (0 :: u32)" unfolding and_exp_eq_0_iff_not_bit .
  then have "of_nat t AND push_bit 7 1 = (0 :: u32)" by (simp add: push_bit_eq_mult)
  then have "(of_nat (t + 128) :: u32) = of_nat t OR push_bit 7 1"
    using word_plus_and_or [of "of_nat t :: u32" "push_bit 7 1"] by (simp add: push_bit_eq_mult)
  moreover have "BLOB_ATTR_EXTENDED = push_bit 24 (push_bit 7 1)" by (simp add: BLOB_ATTR_EXTENDED_def push_bit_eq_mult)
  ultimately show ?thesis by (simp add: hdrw_def or.assoc push_bit_or del: push_bit_push_bit)
qed

lemma hdr_extended: "hdr_at m p (t + 128) n \<Longrightarrow> t < 128 \<Longrightarrow> blob_is_extended m p = Some True"
proof -
  assume h: "hdr_at m p (t + 128) n" and t: "t < 128"
  have "hdrw (t + 128) n AND BLOB_ATTR_EXTENDED = BLOB_ATTR_EXTENDED"
    unfolding hdrw_extend [OF t, symmetric] by (simp add: bit_eq_iff bit_simps)
  then show ?thesis using hdr_reads(1) [OF h] by (simp add: blob_is_extended_def BLOB_ATTR_EXTENDED_def)
qed

lemma name_reads:
  assumes "rdn m (p + 4) 2 = Some (be_bytes16 (of_nat k))" "k < 2 ^ 16" "hdr_at m p (t + 128) n" "t < 128"
  shows "blobmsg_namelen m (blob_data p) = Some (of_nat k)" "blobmsg_data m p = Some (p + 4 + blobmsg_hdrlen k)"
proof -
  have l: "load_be16 m (p + 4) = Some (of_nat k)" using assms(1) by (simp add: load_be16_def be_bytes16_inv)
  then show "blobmsg_namelen m (blob_data p) = Some (of_nat k)" by (simp add: blobmsg_namelen_def blob_data_def)
  have "unat (of_nat k :: u16) = k" using assms(2) by (intro of_nat_inverse [OF refl]) simp
  then show "blobmsg_data m p = Some (p + 4 + blobmsg_hdrlen k)"
    using l hdr_extended [OF assms(3,4)] by (simp add: blobmsg_data_def blob_data_def)
qed

lemma repr_same_length:
  assumes "blob_repr b st t c" "m = outer_bytes st @ hdr t (4 + length c') @ c' @ junk"
    "length m = length (bb_buf b)" "length c' = length c"
  shows "blob_repr (b\<lparr>bb_buf := m\<rparr>) st t c'"
  using assms(1,3,4) unfolding blob_repr_def buf_ok_def by (auto simp: assms(2) intro!: exI [of _ junk])

context blob_grower
begin

lemma blobmsg_new_repr:
  assumes r: "blob_repr b st t c" and i: "i < 128" and nm: "length nm < 2 ^ 16"
    and size: "length (outer_bytes st) + 4 + length c + 4 + pad4 (blobmsg_hdrlen (length nm) + n) < 2 ^ 24"
  shows "(\<exists>k>0. grow b k = None \<and> blobmsg_new grow b (int i) (Some nm) (int n) = Some (b, None)) \<or>
    (\<exists>b' d. blobmsg_new grow b (int i) (Some nm) (int n) =
        Some (b', Some (length (outer_bytes st) + 4 + length c, length (outer_bytes st) + 4 + length c + 4 + blobmsg_hdrlen (length nm))) \<and>
      length d = n \<and> blob_repr b' st t (c @ enc (i + 128) (bmsg nm d)))"
proof -
  let ?p = "length (outer_bytes st) + 4 + length c"
  let ?h = "blobmsg_hdrlen (length nm)"
  have al: "c_int (int ?h + int n) = int (?h + n)"
    using size pad4_bounds(1) [of "?h + n"] by (intro trans [OF _ c_int_nat]) simp_all
  from blob_new_repr [OF r i size] show ?thesis
  proof (elim disjE exE conjE)
    fix k assume "0 < k" "grow b k = None" "blob_new grow b (int i) (int (?h + n)) = Some (b, None)"
    then show ?thesis by (auto simp: blobmsg_new_def al Let_def)
  next
    fix b1 d0 assume n: "blob_new grow b (int i) (int (?h + n)) = Some (b1, Some ?p)" "length d0 = ?h + n"
      "blob_repr b1 st t (c @ enc i d0)"
    have h3: "length nm + 3 \<le> ?h" by (rule hdrlen_bounds)
    obtain x1 y1 where x1: "d0 = x1 @ y1" "length x1 = 2" using split_at_length [of 2 d0] n(2) h3 by auto
    obtain x2 y2 where x2: "y1 = x2 @ y2" "length x2 = length nm" using split_at_length [of "length nm" y1] n(2) h3 x1 by auto
    obtain x3 d where x3: "y2 = x3 @ d" "length x3 = ?h - 2 - length nm"
    proof -
      have "?h - 2 - length nm \<le> length y2" using n(2) x1 x2 by simp
      then show thesis using split_at_length that by blast
    qed
    obtain z x4 where x4: "x3 = z # x4" using x3(2) h3 by (cases x3) auto
    have len: "length d = n" using n(2) x1 x2 x3 h3 by simp
    let ?o = "outer_bytes st"
    let ?L = "4 + length (c @ enc i d0)"
    let ?Z = "replicate (pad4 (?h + n) - (?h + n)) 0 :: bytes"
    obtain junk where j: "bb_buf b1 = ?o @ hdr t ?L @ (c @ enc i d0) @ junk" using n(3) by (auto simp: blob_repr_def)
    let ?pre = "?o @ hdr t ?L @ c"
    let ?N = "4 + (?h + n)"
    have p: "?p = length ?pre" by simp
    have b1: "bb_buf b1 = ?pre @ hdr i ?N @ (x1 @ x2 @ x3 @ d @ ?Z @ junk)"
      using j n(2) x1(1) x2(1) x3(1) by (simp add: enc_def)
    have N: "?N < 2 ^ 24" using size pad4_bounds(1) [of "?h + n"] by simp
    have w: "id_len (bb_buf b1) ?p = Some (hdrw i ?N)"
      unfolding b1 using N by (intro hdr_reads(1) hdr_at_append) simp_all
    let ?q = "?pre @ hdr (i + 128) ?N"
    have m1: "store_be32 (bb_buf b1) ?p (hdrw i ?N OR BLOB_ATTR_EXTENDED) = Some (?q @ x1 @ (x2 @ x3 @ d @ ?Z @ junk))"
      unfolding store_be32_def b1 hdrw_extend [OF i] using p wrn_at [of ?p ?pre "hdr (i + 128) ?N" "hdr i ?N"]
      by (simp add: hdr_def)
    let ?k = "be_bytes16 (of_nat (length nm))"
    have m2: "wrn (?q @ x1 @ (x2 @ x3 @ d @ ?Z @ junk)) (blob_data ?p) ?k = Some (?q @ ?k @ (x2 @ x3 @ d @ ?Z @ junk))"
      using x1(2) by (intro wrn_at) (simp_all add: blob_data_def)
    have m3: "wrn (?q @ ?k @ (x2 @ x3 @ d @ ?Z @ junk)) (blob_data ?p + 2) (nm @ [0]) =
        Some (?q @ ?k @ nm @ [0] @ x4 @ d @ ?Z @ junk)"
      using wrn_at [of "blob_data ?p + 2" "?q @ ?k" "nm @ [0]" "x2 @ [z]" "x4 @ d @ ?Z @ junk"] x2(2) x4
      by (simp add: blob_data_def)
    let ?m3 = "?q @ ?k @ nm @ [0] @ x4 @ d @ ?Z @ junk"
    have ha: "hdr_at ?m3 ?p (i + 128) ?N" using p N hdr_at_append [of ?p ?pre ?N "i + 128"] by simp
    have rd: "rdn ?m3 (?p + 4) 2 = Some ?k" using rdn_at [of "?p + 4" ?q 2 ?k] by simp
    have pe: "blobmsg_data ?m3 ?p = Some (?p + 4 + ?h)" by (rule name_reads(2) [OF rd nm ha i])
    have z: "?p + 4 + ?h - (blob_data ?p + 2 + length nm) = ?h - 2 - length nm" by (simp add: blob_data_def)
    have "wrn ((?q @ ?k @ nm) @ ([0] @ x4) @ (d @ ?Z @ junk)) (blob_data ?p + 2 + length nm) (replicate (?h - 2 - length nm) 0) =
        Some ((?q @ ?k @ nm) @ replicate (?h - 2 - length nm) 0 @ (d @ ?Z @ junk))"
      using x3(2) x4 by (intro wrn_at) (simp_all add: blob_data_def)
    then have m4: "wrn ?m3 (blob_data ?p + 2 + length nm) (replicate (?h - 2 - length nm) 0) =
        Some (?q @ (?k @ nm @ replicate (?h - 2 - length nm) 0 @ d) @ ?Z @ junk)"
      by (simp only: append_assoc)
    have lt: "blob_data ?p + 2 + length nm < ?p + 4 + ?h" using h3 by (simp add: blob_data_def)
    let ?b = "b1\<lparr>bb_buf := ?q @ (?k @ nm @ replicate (?h - 2 - length nm) 0 @ d) @ ?Z @ junk\<rparr>"
    have "blobmsg_new grow b (int i) (Some nm) (int n) = Some (?b, Some (?p, ?p + 4 + ?h))"
      unfolding blobmsg_new_def Let_def option.case al n(1) bind.bind_lunit prod.case w m1 m2 m3 pe z m4 if_P [OF lt] ..
    moreover have "blob_repr ?b st t (c @ enc (i + 128) (bmsg nm d))"
    proof -
      have e: "length (enc (i + 128) (bmsg nm d)) = length (enc i d0)" using n(2) len by simp
      have B1: "?q @ (?k @ nm @ replicate (?h - 2 - length nm) 0 @ d) @ ?Z @ junk =
          ?o @ hdr t (4 + length (c @ enc (i + 128) (bmsg nm d))) @ (c @ enc (i + 128) (bmsg nm d)) @ junk"
      proof -
        have e2: "4 + length (c @ enc (i + 128) (bmsg nm d)) = ?L" using e by simp
        show ?thesis unfolding e2 using len n(2) unfolding enc_def length_bmsg by (simp add: bmsg_def)
      qed
      have B2: "length (?q @ (?k @ nm @ replicate (?h - 2 - length nm) 0 @ d) @ ?Z @ junk) = length (bb_buf b1)"
        unfolding b1 using x1 x2 x3 by simp
      show ?thesis by (rule repr_same_length [OF n(3) B1 B2]) (use e in simp)
    qed
    ultimately show ?thesis using len by blast
  qed
qed

end

section \<open>Reading a field\<close>

text \<open>The data that suit a message type.\<close>

definition data_ok :: "nat \<Rightarrow> bytes \<Rightarrow> bool" where
  "data_ok i d \<longleftrightarrow> i \<le> 7 \<and> (i = 3 \<longrightarrow> d \<noteq> [] \<and> last d = 0) \<and> (i = 4 \<longrightarrow> length d = 8) \<and>
     (i = 5 \<longrightarrow> length d = 4) \<and> (i = 6 \<longrightarrow> length d = 2) \<and> (i = 7 \<longrightarrow> length d = 1)"

lemma field_reads:
  assumes m: "m = pre @ enc (i + 128) (bmsg nm d) @ post" and p: "p = length pre" and i: "i < 128"
    and nm: "length nm < 2 ^ 16" "is_cstr nm" and size: "4 + length (bmsg nm d) < 2 ^ 24"
  shows "blobmsg_type m p = Some (int i)" "cstr_at m (blobmsg_name p) = Some nm"
    "blobmsg_namelen m (blob_data p) = Some (of_nat (length nm))"
    "blobmsg_data m p = Some (p + 4 + blobmsg_hdrlen (length nm))" "blobmsg_data_len m p = Some (int (length d))"
    "rdn m (p + 4 + blobmsg_hdrlen (length nm)) (length d) = Some d"
    "rd m (blobmsg_name p + length nm) = Some 0"
    "blob_len m p = Some (of_nat (length (bmsg nm d)))" "blob_id m p = Some (of_nat i)"
proof -
  let ?h = "blobmsg_hdrlen (length nm)"
  let ?k = "be_bytes16 (of_nat (length nm))"
  let ?N = "4 + length (bmsg nm d)"
  let ?Z = "replicate (pad4 (length (bmsg nm d)) - length (bmsg nm d)) 0 @ post"
  have h: "length nm + 3 \<le> ?h" by (rule hdrlen_bounds)
  obtain x where x: "replicate (?h - 2 - length nm) (0::u8) = 0 # x" using h by (cases "?h - 2 - length nm") auto
  have m1: "m = (pre @ hdr (i + 128) ?N) @ ?k @ (nm @ replicate (?h - 2 - length nm) 0 @ d @ ?Z)"
    unfolding m enc_def by (simp add: bmsg_def)
  have ha: "hdr_at m p (i + 128) ?N" unfolding m1 append_assoc using p size by (intro hdr_at_append) simp_all
  show ty: "blob_id m p = Some (of_nat i)" using hdr_reads(2) [OF ha] i by (simp add: mod_add_self2)
  show "blobmsg_type m p = Some (int i)" using ty i sint_small [of i] by (simp add: blobmsg_type_def)
  have "rdn m (p + 4) 2 = Some ?k" unfolding m1 using p by (intro rdn_at) simp_all
  note nr = name_reads [OF this nm(1) ha i]
  then show "blobmsg_namelen m (blob_data p) = Some (of_nat (length nm))"
    and q: "blobmsg_data m p = Some (p + 4 + ?h)" by blast+
  have m2: "m = (pre @ hdr (i + 128) ?N @ ?k) @ nm @ 0 # (x @ d @ ?Z)" unfolding m1 x by simp
  show "cstr_at m (blobmsg_name p) = Some nm"
    unfolding m2 using p nm(2) by (intro cstr_at_append) (simp_all add: blobmsg_name_def blob_data_def)
  show "rd m (blobmsg_name p + length nm) = Some 0"
    using m2 p by (simp add: rd_def blobmsg_name_def blob_data_def nth_append)
  show l: "blob_len m p = Some (of_nat (length (bmsg nm d)))" using hdr_reads(3) [OF ha] by simp
  have "uint (of_nat (length (bmsg nm d)) :: u32) = int (length (bmsg nm d))"
    using size by (simp add: unsigned_of_nat take_bit_nat_eq_self del: length_bmsg)
  moreover have "length (bmsg nm d) = ?h + length d" by simp
  moreover have "c_int (int (length d)) = int (length d)" using size by (intro c_int_nat) simp
  ultimately show "blobmsg_data_len m p = Some (int (length d))"
    using q l by (simp add: blobmsg_data_len_def blob_data_def del: length_bmsg)
  have m3: "m = (pre @ hdr (i + 128) ?N @ ?k @ nm @ replicate (?h - 2 - length nm) 0) @ d @ ?Z" unfolding m1 by simp
  show "rdn m (p + 4 + ?h) (length d) = Some d" unfolding m3 using p h by (intro rdn_at) simp_all
qed

lemma field_checks:
  assumes m: "m = pre @ enc (i + 128) (bmsg nm d) @ post" and p: "p = length pre"
    and nm: "length nm < 2 ^ 16" "is_cstr nm" and size: "4 + length (bmsg nm d) < 2 ^ 24"
    and ok: "data_ok i d" "named \<longrightarrow> nm \<noteq> []"
  shows "blobmsg_check_attr m p named = Some True"
proof -
  have i: "i < 128" using ok by (simp add: data_ok_def)
  note f = field_reads [OF m p i nm size]
  let ?l = "length (bmsg nm d)"
  have h: "length nm + 3 \<le> blobmsg_hdrlen (length nm)" by (rule hdrlen_bounds)
  have ul: "unat (of_nat ?l :: u32) = ?l" using size by (intro of_nat_inverse [OF refl]) simp
  have un: "unat (of_nat (length nm) :: u16) = length nm" using nm(1) by (intro of_nat_inverse [OF refl]) simp
  have ud: "unat (of_nat (length d) :: u32) = length d" using size by (intro of_nat_inverse [OF refl]) simp
  have c1: "\<not> (of_nat ?l :: u32) < 2" using ul h unfolding word_less_nat_alt by simp
  have "(of_nat ?l - 2 :: u32) = of_nat (?l - 2)" 
  proof -
    have "2 \<le> ?l" using h by simp
    then show ?thesis by (simp only: of_nat_diff of_nat_numeral)
  qed
  moreover have "unat (of_nat (?l - 2) :: u32) = ?l - 2" using size by (intro of_nat_inverse [OF refl]) simp
  moreover have "unat (ucast (of_nat (length nm) :: u16) :: u32) = length nm" using un nm(1) by (simp add: unsigned_ucast_eq take_bit_nat_eq_self)
  ultimately have c2: "\<not> (of_nat ?l - 2 :: u32) < ucast (of_nat (length nm) :: u16)"
    using h unfolding word_less_nat_alt by simp
  have c3: "(of_nat (length nm) :: u16) = 0 \<longleftrightarrow> nm = []"
  proof -
    have "(of_nat (length nm) :: u16) = 0 \<longleftrightarrow> unat (of_nat (length nm) :: u16) = 0" by (rule unat_eq_zero [symmetric])
    then show ?thesis unfolding un by simp
  qed
  have si: "sint (of_nat i :: u32) = int i" "unat (of_nat i :: u32) = i"
    using i sint_small [of i] by (auto intro!: of_nat_inverse [OF refl])
  have last: "rd m (p + 4 + blobmsg_hdrlen (length nm) + (length d - 1)) = Some (last d)" if "d \<noteq> []"
  proof -
    have "m ! (p + 4 + blobmsg_hdrlen (length nm) + (length d - 1)) = d ! (length d - 1)"
    proof -
      have "d = take (length d) (drop (p + 4 + blobmsg_hdrlen (length nm)) m)"
        "p + 4 + blobmsg_hdrlen (length nm) + length d \<le> length m" using f(6) by (simp_all add: rdn_Some)
      then have "d ! (length d - 1) = take (length d) (drop (p + 4 + blobmsg_hdrlen (length nm)) m) ! (length d - 1)" by simp
      also have "\<dots> = m ! (p + 4 + blobmsg_hdrlen (length nm) + (length d - 1))" 
        using that \<open>p + 4 + blobmsg_hdrlen (length nm) + length d \<le> length m\<close> by (subst nth_take) simp_all
      finally show ?thesis ..
    qed
    moreover have "p + 4 + blobmsg_hdrlen (length nm) + (length d - 1) < length m"
      using f(6) that by (cases d) (auto simp: rdn_Some)
    ultimately show ?thesis using that by (simp add: rd_def last_conv_nth)
  qed
  have ct: "blob_check_type m (p + 4 + blobmsg_hdrlen (length nm)) (of_nat (length d)) ty = Some True"
    if "ty = blob_type ! i" "ty \<noteq> 0" for ty
  proof -
    have "i \<le> 7" using ok by (simp add: data_ok_def)
    moreover have "i \<noteq> 1" "i \<noteq> 2" using that by (auto simp: blob_type_def)
    ultimately have "i = 0 \<or> i = 3 \<or> i = 4 \<or> i = 5 \<or> i = 6 \<or> i = 7" by linarith
    then consider "i = 0" | "i = 3" | "i = 4" | "i = 5" | "i = 6" | "i = 7" by blast
    then show ?thesis
    proof cases
      case 2
      then have d: "d \<noteq> []" "last d = 0" using ok by (simp_all add: data_ok_def)
      have ne: "(of_nat (length d) :: u32) \<noteq> 0"
      proof
        assume "(of_nat (length d) :: u32) = 0"
        then have "unat (of_nat (length d) :: u32) = 0" by simp
        then show False using ud d(1) by simp
      qed
      then have "unat (of_nat (length d) - 1 :: u32) = length d - 1"
        using unat_minus_one [OF ne] ud by simp
      moreover from ne have "\<not> (of_nat (length d) :: u32) < 1" by (simp add: word_less_1)
      ultimately show ?thesis
        using last [OF d(1)] d that 2 by (simp add: blob_check_type_def blob_type_def blob_type_minlen_def rd_def
          BLOB_ATTR_LAST_def BLOB_ATTR_STRING_def BLOB_ATTR_INT8_def BLOB_ATTR_INT64_def)
    qed (use ok that in \<open>simp_all add: blob_check_type_def blob_type_def blob_type_minlen_def rd_def data_ok_def
          BLOB_ATTR_LAST_def BLOB_ATTR_STRING_def BLOB_ATTR_INT8_def BLOB_ATTR_INT64_def\<close>)
  qed
  have "i < length blob_type" using ok by (simp add: data_ok_def blob_type_def)
  then show ?thesis
    using f c1 c2 c3 si un ok ct [OF refl]
    unfolding blobmsg_check_attr_def f bind.bind_lunit un si
    by (auto simp: data_ok_def BLOBMSG_TYPE_LAST_def rd_def)
qed

section \<open>Building messages\<close>

context blob_grower
begin

lemma blobmsg_add_field_repr:
  assumes r: "blob_repr b st t c" and i: "i < 128" and nm: "length nm < 2 ^ 16"
    and size: "length (outer_bytes st) + 4 + length c + 4 + pad4 (blobmsg_hdrlen (length nm) + length d) < 2 ^ 24"
  shows "(\<exists>k>0. grow b k = None \<and> blobmsg_add_field grow b (int i) (Some nm) (d @ x) (of_nat (length d)) = Some (b, -1)) \<or>
    (\<exists>b'. blobmsg_add_field grow b (int i) (Some nm) (d @ x) (of_nat (length d)) = Some (b', 0) \<and>
      blob_repr b' st t (c @ enc (i + 128) (bmsg nm d)))"
proof -
  let ?p = "length (outer_bytes st) + 4 + length c"
  let ?h = "blobmsg_hdrlen (length nm)"
  have len: "sint (of_nat (length d) :: u32) = int (length d)" "unat (of_nat (length d) :: u32) = length d"
    using size pad4_bounds(1) [of "?h + length d"] by (auto simp: sint_small intro!: of_nat_inverse [OF refl])
  from blobmsg_new_repr [OF r i nm size] show ?thesis
  proof (elim disjE exE conjE)
    fix k assume "0 < k" "grow b k = None" "blobmsg_new grow b (int i) (Some nm) (int (length d)) = Some (b, None)"
    then show ?thesis by (auto simp: blobmsg_add_field_def len)
  next
    fix b1 d0 assume n: "blobmsg_new grow b (int i) (Some nm) (int (length d)) = Some (b1, Some (?p, ?p + 4 + ?h))"
      "length d0 = length d" "blob_repr b1 st t (c @ enc (i + 128) (bmsg nm d0))"
    have h3: "length nm + 3 \<le> ?h" by (rule hdrlen_bounds)
    let ?o = "outer_bytes st"
    let ?c = "\<lambda>d. c @ enc (i + 128) (bmsg nm d)"
    let ?k = "be_bytes16 (of_nat (length nm)) @ nm @ replicate (?h - 2 - length nm) 0"
    let ?Z = "replicate (pad4 (?h + length d) - (?h + length d)) 0 :: bytes"
    obtain junk where j: "bb_buf b1 = ?o @ hdr t (4 + length (?c d0)) @ ?c d0 @ junk" using n(3) by (auto simp: blob_repr_def)
    let ?q = "?o @ hdr t (4 + length (?c d0)) @ c @ hdr (i + 128) (4 + (?h + length d)) @ ?k"
    have b1: "bb_buf b1 = ?q @ d0 @ (?Z @ junk)"
      unfolding j enc_def length_bmsg n(2) by (simp add: bmsg_def)
    have m1: "wrn (bb_buf b1) (?p + 4 + ?h) d = Some (?q @ d @ (?Z @ junk))"
      unfolding b1 using n(2) h3 by (intro wrn_at) simp_all
    have B1: "?q @ d @ (?Z @ junk) = ?o @ hdr t (4 + length (?c d)) @ ?c d @ junk"
    proof -
      have e: "4 + length (?c d) = 4 + length (?c d0)" using n(2) by simp
      show ?thesis unfolding e unfolding enc_def length_bmsg by (simp add: bmsg_def)
    qed
    have B2: "length (?q @ d @ (?Z @ junk)) = length (bb_buf b1)" unfolding b1 using n(2) by simp
    have R: "blob_repr (b1\<lparr>bb_buf := ?q @ d @ (?Z @ junk)\<rparr>) st t (?c d)"
      by (rule repr_same_length [OF n(3) B1 B2]) (use n(2) in simp)
    show ?thesis
    proof (cases "d = []")
      case True
      then have "b1\<lparr>bb_buf := ?q @ d @ (?Z @ junk)\<rparr> = b1" using b1 n(2) by simp
      then show ?thesis using n(1) R True by (auto simp: blobmsg_add_field_def)
    next
      case False
      then have "0 < (of_nat (length d) :: u32)" using len(2) unfolding word_less_nat_alt by simp
      then have "blobmsg_add_field grow b (int i) (Some nm) (d @ x) (of_nat (length d)) =
          Some (b1\<lparr>bb_buf := ?q @ d @ (?Z @ junk)\<rparr>, 0)"
        unfolding blobmsg_add_field_def len n(1) bind.bind_lunit prod.case option.case rdn_prefix m1 by simp
      then show ?thesis using R by blast
    qed
  qed
qed

lemma blobmsg_open_nested_repr:
  assumes r: "blob_repr b st t c" and nm: "length nm < 2 ^ 16"
    and size: "length (outer_bytes st) + 8 + length c + blobmsg_hdrlen (length nm) < 2 ^ 24"
  shows "(\<exists>k>0. grow b k = None \<and> (\<exists>b'. blobmsg_open_nested grow b (Some nm) array = Some (b', 0))) \<or>
    (\<exists>b'. blobmsg_open_nested grow b (Some nm) array = Some (b', attr_to_offset (length (outer_bytes st))) \<and>
      blob_repr b' (st @ [(t, c)]) ((if array then 1 else 2) + 128) (bmsg nm []))"
proof -
  let ?p = "length (outer_bytes st) + 4 + length c"
  let ?h = "blobmsg_hdrlen (length nm)"
  let ?i = "if array then 1 else 2 :: nat"
  have hm: "?h mod 4 = 0" by (rule hdrlen_bounds)
  have ty: "(if array then BLOBMSG_TYPE_ARRAY else BLOBMSG_TYPE_TABLE) = int ?i" by (simp add: blobmsg_types)
  have s: "length (outer_bytes st) + 4 + length c + 4 + pad4 (?h + 0) < 2 ^ 24" using size hm by simp
  have i: "?i < 128" by simp
  have hd: "bb_head b = Some (length (outer_bytes st))" using r by (simp add: blob_repr_def)
  from blobmsg_new_repr [OF r i nm s] show ?thesis
  proof (elim disjE exE conjE)
    fix k assume "0 < k" "grow b k = None" "blobmsg_new grow b (int ?i) (Some nm) (int 0) = Some (b, None)"
    then show ?thesis unfolding blobmsg_open_nested_def ty by (auto simp: hd Let_def)
  next
    fix b1 d assume n: "blobmsg_new grow b (int ?i) (Some nm) (int 0) = Some (b1, Some (?p, ?p + 4 + ?h))" "length d = 0"
      "blob_repr b1 st t (c @ enc (?i + 128) (bmsg nm d))"
    let ?x = "bmsg nm []"
    let ?o = "outer_bytes st"
    have d: "d = []" using n(2) by simp
    have x: "length ?x mod 4 = 0" using hm by simp
    have e: "enc (?i + 128) ?x = hdr (?i + 128) (4 + length ?x) @ ?x" by (rule enc_aligned [OF x])
    obtain junk where j: "bb_buf b1 = ?o @ hdr t (4 + length (c @ enc (?i + 128) ?x)) @ (c @ enc (?i + 128) ?x) @ junk"
      "hdr_at (bb_buf b1) (length ?o) t (4 + length (c @ enc (?i + 128) ?x))" "bb_head b1 = Some (length ?o)"
      "length (c @ enc (?i + 128) ?x) mod 4 = 0" "length ?o mod 4 = 0" "buf_ok b1"
      using repr_head [OF n(3)] unfolding d by metis
    have l: "of_nat (pad4 (4 + length (c @ enc (?i + 128) ?x))) - of_nat ?h = (of_nat (8 + length c) :: u32)"
    proof -
      have "pad4 (4 + length (c @ enc (?i + 128) ?x)) = 4 + length (c @ enc (?i + 128) ?x)"
        by (intro pad4_aligned mod4_add j(4)) simp
      then show ?thesis using hm by simp
    qed
    let ?m = "?o @ hdr t (8 + length c) @ ((c @ enc (?i + 128) ?x) @ junk)"
    have set: "blob_set_raw_len (bb_buf b1) (length ?o) (of_nat (8 + length c)) = Some ?m"
      unfolding j(1) using size hm by (intro set_raw_len_at) simp_all
    have "blobmsg_open_nested grow b (Some nm) array =
        Some (b1\<lparr>bb_buf := ?m, bb_head := Some ?p\<rparr>, attr_to_offset (length ?o))"
      unfolding blobmsg_open_nested_def Let_def hd ty bind.bind_lunit option.case n(1) [simplified] prod.case j(3)
        hdr_reads(5) [OF j(2)] l set using n(1) by (simp add: j(3) hdr_reads(5) [OF j(2)] l set)
    moreover have "blob_repr (b1\<lparr>bb_buf := ?m, bb_head := Some ?p\<rparr>) (st @ [(t, c)]) (?i + 128) ?x"
      using n(3) r size hm j(1,6) unfolding d e by (auto simp: blob_repr_def buf_ok_def add.assoc)
    ultimately show ?thesis by blast
  qed
qed

end

end
