(* ===== verification/BlobmsgCheck.thy ===== *)
theory BlobmsgCheck
  imports BlobmsgSpec
begin

text \<open>
  The properties of messages: adding and nesting, reading back, the guarantee that
  \<^verbatim>\<open>blobmsg_check_attr\<close> gives for hostile input, and the table that \<^verbatim>\<open>blobmsg_parse\<close> fills.
\<close>

section \<open>Adding and reading fields\<close>

lemma repr_field:
  assumes "blob_repr b st t (c @ enc (i + 128) (bmsg nm d))"
  obtains pre post where "bb_buf b = pre @ enc (i + 128) (bmsg nm d) @ post"
    "length pre = length (outer_bytes st) + 4 + length c"
proof -
  obtain junk where j: "bb_buf b = outer_bytes st @ hdr t (4 + length (c @ enc (i + 128) (bmsg nm d))) @ (c @ enc (i + 128) (bmsg nm d)) @ junk"
    using assms by (auto simp: blob_repr_def)
  show thesis
    by (rule that [of "outer_bytes st @ hdr t (4 + length (c @ enc (i + 128) (bmsg nm d))) @ c" junk])
      (simp_all only: j append_assoc length_append length_hdr add.assoc)
qed

text \<open>
  C19: \<^verbatim>\<open>blobmsg_add_field\<close> either fails with -1 and leaves the buffer alone, or appends a field that
  reads back as it was given: the type, the name, the position and length of the data and the data
  themselves; the field passes \<^verbatim>\<open>blobmsg_check_attr\<close> when the data suit the type. Tables and arrays
  opened by \<^verbatim>\<open>blobmsg_open_nested\<close> and closed again end up in the same way in their parent.
\<close>

theorem blobmsg_field_roundtrip:
  assumes "blob_repr b st t c" "i \<le> 7" "length nm < 2 ^ 16" "is_cstr nm"
    "length (outer_bytes st) + 4 + length c + 4 + pad4 (blobmsg_hdrlen (length nm) + length d) < 2 ^ 24"
  shows "blobmsg_add_field (blob_buffer_grow realloc_ok) b (int i) (Some nm) d (of_nat (length d)) = Some (b, -1) \<or>
    (\<exists>b' p q. blobmsg_add_field (blob_buffer_grow realloc_ok) b (int i) (Some nm) d (of_nat (length d)) = Some (b', 0) \<and>
      blob_repr b' st t (c @ enc (i + 128) (bmsg nm d)) \<and> p = length (outer_bytes st) + 4 + length c \<and>
      blobmsg_type (bb_buf b') p = Some (int i) \<and> cstr_at (bb_buf b') (blobmsg_name p) = Some nm \<and>
      blobmsg_data (bb_buf b') p = Some q \<and> blobmsg_data_len (bb_buf b') p = Some (int (length d)) \<and>
      rdn (bb_buf b') q (length d) = Some d \<and>
      (data_ok i d \<longrightarrow> blobmsg_check_attr (bb_buf b') p (nm \<noteq> []) = Some True))"
proof -
  have i: "i < 128" using assms(2) by simp
  have sz: "4 + length (bmsg nm d) < 2 ^ 24"
    using assms(5) pad4_bounds(1) [of "blobmsg_hdrlen (length nm) + length d"] by simp
  from heap_buf.blobmsg_add_field_repr [OF assms(1) i assms(3,5), of realloc_ok "[]"] show ?thesis
  proof (elim disjE exE conjE)
    fix b' assume b': "blobmsg_add_field (blob_buffer_grow realloc_ok) b (int i) (Some nm) (d @ []) (of_nat (length d)) = Some (b', 0)"
      "blob_repr b' st t (c @ enc (i + 128) (bmsg nm d))"
    obtain pre post where p: "bb_buf b' = pre @ enc (i + 128) (bmsg nm d) @ post"
      "length pre = length (outer_bytes st) + 4 + length c" by (rule repr_field [OF b'(2)])
    note f = field_reads [OF p(1) p(2) [symmetric] i assms(3,4) sz]
    have "blobmsg_check_attr (bb_buf b') (length (outer_bytes st) + 4 + length c) (nm \<noteq> []) = Some True" if "data_ok i d"
      by (rule field_checks [OF p(1) p(2) [symmetric] assms(3,4) sz that]) simp
    then show ?thesis using b' f by (intro disjI2 exI conjI) (assumption | simp)+
  qed simp
qed

lemma blobmsg_field_roundtrip_witness:
  "\<exists>b' q. blobmsg_add_field always small_buf 3 (Some [110]) [104, 105, 0] 3 = Some (b', 0) \<and>
     blobmsg_type (bb_buf b') 4 = Some 3 \<and> blobmsg_data (bb_buf b') 4 = Some q \<and>
     rdn (bb_buf b') q (length [104, 105, 0 :: u8]) = Some [104, 105, 0] \<and> blobmsg_check_attr (bb_buf b') 4 True = Some True"
proof -
  have g: "blobmsg_add_field always small_buf (int 3) (Some [110]) [104, 105, 0] (of_nat (length [104, 105, 0 :: u8])) \<noteq> Some (small_buf, -1)"
    using heap_buf.blobmsg_add_field_repr [OF small_buf_repr, of 3 "[110]" "[104, 105, 0]" "\<lambda>_. True" "[]"]
    by (auto simp: pad4_def hdrlen_pad)
  have "data_ok 3 [104, 105, 0]" by (simp add: data_ok_def)
  with blobmsg_field_roundtrip [OF small_buf_repr, of 3 "[110]" "[104, 105, 0]" "\<lambda>_. True"] g
  show ?thesis by (auto simp: pad4_def hdrlen_pad is_cstr_def)
qed



section \<open>What a checked attribute guarantees\<close>

lemma sint_word_of_c_int: "sint (word_of_int (c_int x) :: u32) = c_int x"
  using c_int_idem [of x] by (simp only: c_int_def)

lemma check_int_type:
  assumes "blob_check_type m q (word_of_int dl) ty = Some True" "ty \<in> {4, 5, 6, 7}" "dl = c_int x"
  shows "dl = (if ty = 4 then 1 else if ty = 5 then 2 else if ty = 6 then 4 else 8)"
proof -
  let ?n = "if ty = 4 then 1 else if ty = 5 then 2 else if ty = 6 then 4 else 8"
  have "word_of_int dl = (?n :: u32)"
    using assms(1,2) by (auto simp: blob_check_type_def BLOB_ATTR_LAST_def BLOB_ATTR_STRING_def BLOB_ATTR_INT8_def
      BLOB_ATTR_INT64_def blob_type_minlen_def rd_def split: if_splits)
  then have "sint (word_of_int dl :: u32) = sint (?n :: u32)" by simp
  then show ?thesis using sint_word_of_c_int [of x] assms(3) by (auto split: if_splits)
qed

lemma check_string_type:
  assumes "blob_check_type m q (word_of_int dl) 3 = Some True" "dl = c_int x" "length m < 2 ^ 31"
  shows "1 \<le> dl \<and> m ! (q + nat dl - 1) = 0"
proof -
  let ?w = "word_of_int dl :: u32"
  have w: "\<not> ?w < 1" "q + unat (?w - 1) < length m" "m ! (q + unat (?w - 1)) = 0"
    using assms(1) by (auto simp: blob_check_type_def BLOB_ATTR_LAST_def BLOB_ATTR_STRING_def BLOB_ATTR_INT8_def
      BLOB_ATTR_INT64_def blob_type_minlen_def rd_def split: if_splits bind_splits)
  then have ne: "?w \<noteq> 0" by auto
  then have u: "unat (?w - 1) = unat ?w - 1" "0 < unat ?w" using unat_minus_one [OF ne] by (simp_all add: unat_gt_0)
  show ?thesis
  proof (cases "unat ?w < 2 ^ 31")
    case True
    have "dl = int (unat ?w)" using sint_small [OF True] sint_word_of_c_int [of x] assms(2) by simp
    then have "nat dl = unat ?w" "1 \<le> dl" using u(2) by linarith+
    then show ?thesis using u w(3) by simp
  next
    case False
    then have "2 ^ 31 \<le> q + unat (?w - 1) + 1" using u by linarith
    then have "length m \<le> q + unat (?w - 1) + 1" using assms(3) by linarith
    then have e: "q + unat (?w - 1) + 1 = length m" using w(2) by linarith
    then have False using assms(3) False u by linarith
    then show ?thesis ..
  qed
qed

lemma bit7: "drop_bit 24 (v AND BLOB_ATTR_ID_MASK) = w \<Longrightarrow> unat (w :: u32) < 128"
  using id_small [of "be_bytes32 v" 0 w]
  by (simp add: blob_id_def id_len_def load_be32_def rdn_def be_bytes32_inv BLOB_ATTR_ID_SHIFT_def)

lemma u16_less: "unat (k :: u16) < 2 ^ 16"
  using unsigned_less [of k, where 'a = nat] by simp

lemma cstr_at_within:
  assumes "i + k < length m" "m ! (i + k) = 0"
  shows "\<exists>s. cstr_at m i = Some s \<and> length s \<le> k"
proof -
  have d: "drop i m = take k (drop i m) @ 0 # drop (Suc k) (drop i m)"
    using assms id_take_nth_drop [of k "drop i m"] by simp
  have "0 \<in> set (drop i m)" by (subst d) simp
  moreover have "length (takeWhile (\<lambda>b. b \<noteq> 0) (drop i m)) \<le> k"
  proof (rule ccontr)
    let ?t = "takeWhile (\<lambda>b. b \<noteq> 0) (drop i m)"
    assume "\<not> ?thesis"
    then have k: "k < length ?t" by simp
    then have "?t ! k \<noteq> 0" using set_takeWhileD [OF nth_mem [OF k]] by blast
    moreover have "?t ! k = drop i m ! k" using k by (rule takeWhile_nth)
    ultimately show False using assms by simp
  qed
  ultimately show ?thesis using assms(1) by (simp add: cstr_at_def)
qed


definition string_field :: bytes where
  "string_field = enc 131 (bmsg [110] [104, 105, 0]) @ [0, 0, 0]"

lemma string_field_reads:
  "blob_len string_field 0 = Some 7" "blobmsg_check_attr string_field 0 True = Some True" "length string_field = 15"
proof -
  have s: "string_field = [] @ enc (3 + 128) (bmsg [110] [104, 105, 0]) @ [0, 0, 0]" "0 = length ([]::bytes)"
    by (simp_all add: string_field_def)
  have n: "length [110::u8] < 2 ^ 16" "is_cstr [110]" "4 + length (bmsg [110] [104, 105, 0]) < 2 ^ 24" "data_ok 3 [104, 105, 0]"
    by (simp_all add: is_cstr_def data_ok_def hdrlen_pad pad4_def)
  show "blob_len string_field 0 = Some 7"
    using field_reads(8) [OF s _ n(1-3)] by (simp add: hdrlen_pad pad4_def)
  show "blobmsg_check_attr string_field 0 True = Some True"
    by (rule field_checks [OF s n]) simp
  show "length string_field = 15" by (simp add: string_field_def hdrlen_pad pad4_def)
qed


text \<open>
  The test of the name length lets a name through whose terminator is the first byte behind the
  payload. The rounded-up name header is then longer than the payload, the data length is negative,
  and the string check reads four gigabytes further on.
\<close>

lemma blobmsg_check_attr_faults:
  assumes m: "m = hdr 131 7 @ [0, 1, 65, 0] @ z" and z: "length z < 1000"
  shows "blob_len m 0 = Some 3" "blobmsg_check_attr m 0 True = None"
proof -
  have h: "hdr_at m 0 (3 + 128) 7" using hdr_at_append [of 0 "[]" 7 131] by (simp add: m)
  show l: "blob_len m 0 = Some 3" using hdr_reads(3) [OF h] by simp
  have id: "blob_id m 0 = Some 3" using hdr_reads(2) [OF h] by simp
  have b: "be_bytes16 (of_nat 1) = [0, 1]" by (simp add: be_bytes16_def byte_def)
  have "rdn m (0 + 4) 2 = Some (be_bytes16 (of_nat 1))"
    unfolding m b using rdn_at [of 4 "hdr 131 7" 2 "[0, 1]" "[65, 0] @ z"] by simp
  from name_reads [OF this _ h] have n: "blobmsg_namelen m (blob_data 0) = Some 1" "blobmsg_data m 0 = Some 8"
    by (simp_all add: hdrlen_pad pad4_def)
  have dl: "blobmsg_data_len m 0 = Some (- 1)"
    using n(2) l by (simp add: blobmsg_data_len_def blob_data_def c_int_small)
  have z0: "rd m 7 = Some 0" by (simp add: rd_def m nth_append)
  have "rd m (8 + unat (- 2 :: u32)) = None" using z by (simp add: rd_def m)
  moreover have "\<not> (- 1 :: u32) < 1" by simp
  ultimately have ct: "blob_check_type m 8 (- 1) 3 = None"
    by (simp add: blob_check_type_def BLOB_ATTR_LAST_def BLOB_ATTR_STRING_def BLOB_ATTR_INT8_def BLOB_ATTR_INT64_def
      blob_type_minlen_def rd_def)
  show "blobmsg_check_attr m 0 True = None"
    using l n id dl z0 ct
    by (simp add: blobmsg_check_attr_def blobmsg_name_def blob_data_def BLOBMSG_TYPE_LAST_def blob_type_def BLOB_ATTR_STRING_def rd_def)
qed

section \<open>Parsing into a table\<close>

fun run_body :: "(nat \<Rightarrow> 's \<Rightarrow> ('r + 's) option) \<Rightarrow> nat list \<Rightarrow> 's \<Rightarrow> ('r + 's) option" where
  "run_body body [] s = Some (Inr s)"
| "run_body body (p # ps) s =
     do { r \<leftarrow> body p s; case r of Inl x \<Rightarrow> Some (Inl x) | Inr s \<Rightarrow> run_body body ps s }"

lemma blob_loop_each:
  "blob_for_each_attr' m p rem = Some ps \<Longrightarrow> blob_loop m body p rem s = run_body body ps s"
proof (induction ps arbitrary: p rem s)
  case Nil
  then show ?case
    by (subst blob_loop.simps, subst (asm) blob_for_each_attr'.simps) (auto split: if_splits bind_splits)
next
  case (Cons q ps)
  from Cons.prems obtain l where l: "0 < rem" "blob_pad_len m p = Some l" "uint l \<le> rem" "4 \<le> l" "q = p"
    "blob_for_each_attr' m (p + unat l) (rem - uint l) = Some ps"
    by (subst (asm) blob_for_each_attr'.simps) (auto split: if_splits bind_splits)
  then show ?case
    by (subst blob_loop.simps) (auto simp: Cons.IH split: bind_splits sum.splits)
qed

definition candidate :: "bytes \<Rightarrow> blobmsg_policy \<Rightarrow> nat \<Rightarrow> bool" where
  "candidate m pol p \<longleftrightarrow> (\<exists>nm ty. bp_name pol = Some nm \<and> blob_id m p = Some ty \<and>
     (bp_type pol = BLOBMSG_TYPE_UNSPEC \<or> uint ty = bp_type pol) \<and>
     blobmsg_namelen m (blob_data p) = Some (ucast (of_nat (length nm) :: u8)))"

definition matches :: "bytes \<Rightarrow> blobmsg_policy \<Rightarrow> nat \<Rightarrow> bool" where
  "matches m pol p \<longleftrightarrow> candidate m pol p \<and>
     (\<exists>nm s. bp_name pol = Some nm \<and> cstr_at m (blobmsg_name p) = Some s \<and> c_strcmp nm s = 0)"

lemma checked_reads:
  assumes "blobmsg_check_attr m p named = Some r" "r"
  shows "\<exists>ty n s. blob_id m p = Some ty \<and> blobmsg_namelen m (blob_data p) = Some n \<and> cstr_at m (blobmsg_name p) = Some s"
proof -
  obtain ty n where *: "blob_id m p = Some ty" "blobmsg_namelen m (blob_data p) = Some n" "rd m (blobmsg_name p + unat n) = Some 0"
    using assms by (auto simp: blobmsg_check_attr_def split: bind_splits if_splits)
  then show ?thesis using cstr_at_within [of "blobmsg_name p" "unat n" m] by (auto simp: rd_def split: if_splits)
qed

lemma match_checked:
  assumes c: "blobmsg_check_attr m p True = Some True" and i: "i < length tb"
  shows "blobmsg_match m p pol tb i = Some (Inr (if tb ! i = None \<and> matches m pol p then tb[i := Some p] else tb))"
proof -
  obtain ty n s where *: "blob_id m p = Some ty" "blobmsg_namelen m (blob_data p) = Some n" "cstr_at m (blobmsg_name p) = Some s"
    using checked_reads [OF c] by auto
  show ?thesis
    using * c i by (auto simp: blobmsg_match_def matches_def candidate_def rd_def split: option.splits)
qed

lemma policies_checked:
  assumes c: "blobmsg_check_attr m p True = Some True"
  shows "i + length pols \<le> length tb \<Longrightarrow> \<exists>tb'. blobmsg_policies m p pols tb i = Some (Inr tb') \<and> length tb' = length tb \<and>
    (\<forall>j<length tb. tb' ! j = (if i \<le> j \<and> j < i + length pols \<and> tb ! j = None \<and> matches m (pols ! (j - i)) p then Some p else tb ! j))"
proof (induction pols arbitrary: tb i)
  case (Cons pol pols)
  let ?tb = "if tb ! i = None \<and> matches m pol p then tb[i := Some p] else tb"
  have m: "blobmsg_match m p pol tb i = Some (Inr ?tb)" using Cons.prems by (intro match_checked [OF c]) simp
  have "i + 1 + length pols \<le> length ?tb" using Cons.prems by simp
  from Cons.IH [OF this] obtain tb' where t: "blobmsg_policies m p pols ?tb (i + 1) = Some (Inr tb')" "length tb' = length tb"
    "\<forall>j<length tb. tb' ! j = (if i + 1 \<le> j \<and> j < i + 1 + length pols \<and> ?tb ! j = None \<and> matches m (pols ! (j - (i + 1))) p then Some p else ?tb ! j)"
    by auto
  have "tb' ! j = (if i \<le> j \<and> j < i + length (pol # pols) \<and> tb ! j = None \<and> matches m ((pol # pols) ! (j - i)) p then Some p else tb ! j)"
    if j: "j < length tb" for j
  proof (cases "j = i")
    case True
    then show ?thesis using t(3) j by (auto simp: nth_list_update)
  next
    case False
    then have "?tb ! j = tb ! j" by simp
    moreover have "(pol # pols) ! (j - i) = pols ! (j - (i + 1))" if "i \<le> j" using False that by (simp add: nth_Cons')
    ultimately show ?thesis using t(3) j False by auto
  qed
  then show ?case using m t(1,2) by simp
qed simp

lemma parse_checked:
  assumes "\<forall>p\<in>set ps. blobmsg_check_attr m p True = Some True"
  shows "\<exists>tb. run_body (\<lambda>attr tb. blobmsg_policies m attr policy tb 0) ps (replicate (length policy) None) = Some (Inr tb) \<and>
    length tb = length policy \<and> (\<forall>i<length policy. tb ! i = find (matches m (policy ! i)) ps)"
proof -
  have "\<exists>tb. run_body (\<lambda>attr tb. blobmsg_policies m attr policy tb 0) ps tb0 = Some (Inr tb) \<and>
    length tb = length policy \<and> (\<forall>i<length policy. tb ! i = (if tb0 ! i = None then find (matches m (policy ! i)) ps else tb0 ! i))"
    if "length tb0 = length policy" for tb0
    using assms that
  proof (induction ps arbitrary: tb0)
    case (Cons p ps)
    obtain tb1 where 1: "blobmsg_policies m p policy tb0 0 = Some (Inr tb1)" "length tb1 = length tb0"
      "\<forall>j<length tb0. tb1 ! j = (if j < length policy \<and> tb0 ! j = None \<and> matches m (policy ! j) p then Some p else tb0 ! j)"
      using policies_checked [of m p 0 policy tb0] Cons.prems by auto
    obtain tb where "run_body (\<lambda>attr tb. blobmsg_policies m attr policy tb 0) ps tb1 = Some (Inr tb)"
      "length tb = length policy" "\<forall>i<length policy. tb ! i = (if tb1 ! i = None then find (matches m (policy ! i)) ps else tb1 ! i)"
      using Cons.IH [of tb1] Cons.prems 1(2) by auto
    then show ?case using 1 Cons.prems(2) by auto
  qed simp
  from this [of "replicate (length policy) None"] show ?thesis by auto
qed

text \<open>
  C22: When every member is a valid named attribute, \<^verbatim>\<open>blobmsg_parse\<close> returns 0 and entry \<open>i\<close> of the
  table is the first member with the type (or any type) and the name of policy \<open>i\<close>, NULL if there is
  none. Names are compared through a length kept in one byte.
\<close>

theorem blobmsg_parse_table:
  assumes "blob_for_each_attr' m data (uint len) = Some ps" "\<forall>p\<in>set ps. blobmsg_check_attr m p True = Some True"
  shows "\<exists>tb. blobmsg_parse policy (length policy) m data len = Some (tb, 0) \<and> length tb = length policy \<and>
    (\<forall>i<length policy. tb ! i = find (matches m (policy ! i)) ps)"
  using parse_checked [OF assms(2), of policy]
  by (auto simp: blobmsg_parse_def blob_loop_each [OF assms(1)])

lemma string_field_each: "blob_for_each_attr' string_field 0 (uint (12 :: u32)) = Some [0]"
  using for_each_enc [of string_field "[]" "[(131, bmsg [110] [104, 105, 0])]" "[0, 0, 0]" 0]
  by (simp add: string_field_def hdrlen_pad pad4_def)

lemma blobmsg_parse_table_witness:
  "\<exists>tb. blobmsg_parse [\<lparr>bp_name = Some [110], bp_type = 3\<rparr>] 1 string_field 0 12 = Some (tb, 0) \<and> length tb = 1"
  using blobmsg_parse_table [OF string_field_each, of "[\<lparr>bp_name = Some [110], bp_type = 3\<rparr>]"] string_field_reads(2) by auto

lemma run_append: "run_body f (xs @ ys) s =
    (case run_body f xs s of None \<Rightarrow> None | Some (Inl x) \<Rightarrow> Some (Inl x) | Some (Inr s) \<Rightarrow> run_body f ys s)"
  by (induction xs arbitrary: s) (auto split: bind_splits sum.splits option.splits)

text \<open>
  C23: The first member that is a candidate for some policy (by type and name length) but is not a
  valid attribute makes \<^verbatim>\<open>blobmsg_parse\<close> return -1, whatever follows it.
\<close>

theorem blobmsg_parse_error:
  assumes "blob_for_each_attr' m data (uint len) = Some (ps @ p # qs)" "\<forall>q\<in>set ps. blobmsg_check_attr m q True = Some True"
    "blobmsg_check_attr m p True = Some False" "pol \<in> set policy" "candidate m pol p"
  shows "\<exists>tb. blobmsg_parse policy (length policy) m data len = Some (tb, -1)"
proof -
  obtain ty n where r: "blob_id m p = Some ty" "blobmsg_namelen m (blob_data p) = Some n"
    using assms(5) by (auto simp: candidate_def)
  have bad: "\<exists>tb'. blobmsg_policies m p pols tb i = Some (Inl (tb', -1))" if "pol \<in> set pols" for pols tb i
    using that
  proof (induction pols arbitrary: tb i)
    case (Cons pol' pols)
    have "blobmsg_match m p pol' tb i = (if candidate m pol' p then Some (Inl (tb, -1)) else Some (Inr tb))"
      using r assms(3) by (auto simp: blobmsg_match_def candidate_def split: option.splits)
    then show ?case using Cons assms(5) by auto
  qed simp
  obtain tb where "run_body (\<lambda>attr tb. blobmsg_policies m attr policy tb 0) ps (replicate (length policy) None) = Some (Inr tb)"
    using parse_checked [OF assms(2)] by blast
  moreover obtain tb' where "blobmsg_policies m p policy tb 0 = Some (Inl (tb', -1))" using bad [OF assms(4)] by blast
  ultimately show ?thesis
    by (simp add: blobmsg_parse_def blob_loop_each [OF assms(1)] run_append)
qed

definition bad_field :: bytes where
  "bad_field = hdr 131 8 @ [0, 9, 65, 0] @ [0, 0, 0]"

lemma blobmsg_parse_error_witness:
  "\<exists>tb. blobmsg_parse [\<lparr>bp_name = Some [97, 97, 97, 97, 97, 97, 97, 97, 97], bp_type = 0\<rparr>] 1 bad_field 0 8 = Some (tb, -1)"
proof -
  let ?pol = "\<lparr>bp_name = Some [97, 97, 97, 97, 97, 97, 97, 97, 97], bp_type = 0\<rparr>"
  have e: "bad_field = [] @ concat (map (\<lambda>(t, d). enc t d) [(131, [0, 9, 65, 0])]) @ [0, 0, 0]"
    by (simp add: bad_field_def enc_def pad4_def)
  have each: "blob_for_each_attr' bad_field 0 (uint (8 :: u32)) = Some ([] @ 0 # [])"
    using for_each_enc [OF e, of 0] by (simp add: pad4_def)
  have h: "hdr_at bad_field 0 (3 + 128) 8" using hdr_at_append [of 0 "[]" 8 131] by (simp add: bad_field_def)
  have l: "blob_len bad_field 0 = Some 4" "blob_id bad_field 0 = Some 3" using hdr_reads(2,3) [OF h] by simp_all
  have b: "be_bytes16 (of_nat 9) = [0, 9]" by (simp add: be_bytes16_def byte_def)
  have "rdn bad_field (0 + 4) 2 = Some (be_bytes16 (of_nat 9))"
    unfolding b using rdn_at [of 4 "hdr 131 8" 2 "[0, 9]" "[65, 0] @ [0, 0, 0]"] by (simp add: bad_field_def)
  from name_reads [OF this _ h] have n: "blobmsg_namelen bad_field (blob_data 0) = Some 9" by simp
  have c: "blobmsg_check_attr bad_field 0 True = Some False"
    using l n by (simp add: blobmsg_check_attr_def)
  have "candidate bad_field ?pol 0" using l n by (simp add: candidate_def BLOBMSG_TYPE_UNSPEC_def)
  then show ?thesis using blobmsg_parse_error [OF each _ c, of ?pol "[?pol]"] by simp
qed

end
