(* ===== verification/Kvlist.thy ===== *)
theory Kvlist
  imports AvlSpec Blob
begin

text \<open>
  \<^verbatim>\<open>kvlist.h\<close>, \<^verbatim>\<open>kvlist.c\<close>: a key/value store as an AVL tree of string keys without duplicates. A node is
  one allocation that holds the tree node, a copy of the data and a copy of the name; the set of
  allocated nodes is part of the state, so that a leak or a dangling node would show.
\<close>

section \<open>Operations\<close>

record kvlist =
  kv_avl :: "bytes avl"
  kv_data :: "ptr \<Rightarrow> bytes"
  kv_live :: "ptr set"

text \<open>\<^verbatim>\<open>get_len\<close> looks at the data a pointer points to: a block that may be longer than the value.\<close>

type_synonym get_len = "bytes \<Rightarrow> int option"

definition kvlist_strlen :: get_len where
  "kvlist_strlen data = do { s \<leftarrow> cstr_at data 0; Some (int (length s) + 1) }"

definition kvlist_blob_len :: get_len where
  "kvlist_blob_len data = do { l \<leftarrow> blob_pad_len data 0; Some (sint l) }"

definition kvlist_init :: "kvlist \<Rightarrow> kvlist" where
  "kvlist_init kv = kv\<lparr>kv_avl := avl_init avl_strcmp False (kv_avl kv)\<rparr>"

definition kvlist_get' :: "kvlist \<Rightarrow> bytes \<Rightarrow> ptr option" where
  "kvlist_get' kv name = avl_find_element' (kv_avl kv) name AVL_FIND_EQUAL"

definition kvlist_get :: "kvlist \<Rightarrow> bytes \<Rightarrow> bytes option option" where
  "kvlist_get kv name =
     do { node \<leftarrow> kvlist_get' kv name;
          Some (if node = 0 then None else Some (kv_data kv node)) }"

definition kvlist_delete :: "kvlist \<Rightarrow> bytes \<Rightarrow> (kvlist \<times> bool) option" where
  "kvlist_delete kv name =
     do { node \<leftarrow> kvlist_get' kv name;
          if node \<noteq> 0
          then do { t \<leftarrow> avl_delete (kv_avl kv) node;
                    Some (kv\<lparr>kv_avl := t, kv_live := kv_live kv - {node}\<rparr>, True) }
          else Some (kv, False) }"

text \<open>
  \<open>node\<close> is the address that \<^verbatim>\<open>calloc_a\<close> returns; the source does not test it for NULL. The result of
  \<^verbatim>\<open>avl_insert\<close> is ignored.
\<close>

definition kvlist_set :: "get_len \<Rightarrow> ptr \<Rightarrow> kvlist \<Rightarrow> bytes \<Rightarrow> bytes \<Rightarrow> kvlist option" where
  "kvlist_set get_len node kv name data =
     do { len \<leftarrow> get_len data;
          (kv, _) \<leftarrow> kvlist_delete kv name;
          if node = 0 \<or> len < 0 then None
          else do { bs \<leftarrow> rdn data 0 (nat len);
            let t = (kv_avl kv)\<lparr>av_key := (av_key (kv_avl kv))(node := name)\<rparr> in
            do { (t, _) \<leftarrow> avl_insert t node;
                 Some (kv\<lparr>kv_avl := t, kv_data := (kv_data kv)(node := bs), kv_live := insert node (kv_live kv)\<rparr>) } } }"

definition kvlist_free :: "kvlist \<Rightarrow> kvlist option" where
  "kvlist_free kv =
     do { (t, live) \<leftarrow> avl_remove_all_elements (\<lambda>node live. live - {node}) (kv_avl kv) (kv_live kv);
          Some (kv\<lparr>kv_avl := t, kv_live := live\<rparr>) }"

text \<open>\<^verbatim>\<open>kvlist_for_each\<close>: the names and values in the order of the walk; the walk ends at the list head.\<close>

partial_function (option) kvlist_walk :: "kvlist \<Rightarrow> ptr \<Rightarrow> (bytes \<times> bytes) list option" where
  "kvlist_walk kv node =
     (if node = av_head (kv_avl kv) then Some []
      else do { r \<leftarrow> kvlist_walk kv (nxt (av_list (kv_avl kv)) node);
                Some ((av_key (kv_avl kv) node, kv_data kv node) # r) })"

definition kvlist_for_each :: "kvlist \<Rightarrow> (bytes \<times> bytes) list option" where
  "kvlist_for_each kv = kvlist_walk kv (nxt (av_list (kv_avl kv)) (av_head (kv_avl kv)))"

section \<open>The map a store stands for\<close>

definition kv_names :: "kvlist \<Rightarrow> ptr list \<Rightarrow> bytes list" where
  "kv_names kv xs = map (av_key (kv_avl kv)) xs"

text \<open>
  The nodes in tree order, with C strings as names; their pairs are the map, the allocated nodes are
  those in the tree.
\<close>

definition kv_nodes :: "kvlist \<Rightarrow> ptr list \<Rightarrow> bool" where
  "kv_nodes kv xs \<longleftrightarrow> avl_repr (kv_avl kv) xs \<and> av_comp (kv_avl kv) = avl_strcmp \<and> \<not> av_allow_dups (kv_avl kv) \<and>
     (\<forall>x\<in>set xs. is_cstr (av_key (kv_avl kv) x)) \<and> distinct (map (av_key (kv_avl kv)) xs) \<and>
     kv_live kv = set xs \<and> av_head (kv_avl kv) \<noteq> 0 \<and> av_head (kv_avl kv) \<notin> kv_live kv"

definition kv_pairs :: "kvlist \<Rightarrow> ptr list \<Rightarrow> (bytes \<times> bytes) list" where
  "kv_pairs kv xs = map (\<lambda>x. (av_key (kv_avl kv) x, kv_data kv x)) xs"

definition kv_repr :: "kvlist \<Rightarrow> (bytes \<rightharpoonup> bytes) \<Rightarrow> bool" where
  "kv_repr kv m \<longleftrightarrow> (\<exists>xs. kv_nodes kv xs \<and> m = map_of (kv_pairs kv xs))"

lemma map_of_find: "map_of (map (\<lambda>x. (f x, g x)) xs) k = map_option g (find (\<lambda>x. k = f x) xs)"
  by (induction xs) auto

lemma find_cong_set: "(\<And>x. x \<in> set xs \<Longrightarrow> P x = Q x) \<Longrightarrow> find P xs = find Q xs"
  by (induction xs) auto

lemma strcmp_zero: "is_cstr a \<Longrightarrow> is_cstr b \<Longrightarrow> avl_strcmp a b = 0 \<longleftrightarrow> a = b"
  by (simp add: avl_strcmp_def c_strcmp_eq)

lemma comparator_kv: "kv_nodes kv xs \<Longrightarrow> comparator (av_comp (kv_avl kv))"
  using strcmp.comparator_axioms by (simp add: kv_nodes_def)

lemma kv_find:
  assumes "kv_nodes kv xs" "is_cstr name"
  shows "kvlist_get' kv name = Some (node_or_NULL (find (\<lambda>x. name = av_key (kv_avl kv) x) xs))"
proof -
  have "find (\<lambda>x. key_cmp (kv_avl kv) name x = 0) xs = find (\<lambda>x. name = av_key (kv_avl kv) x) xs"
    using assms by (intro find_cong_set) (auto simp: kv_nodes_def strcmp_zero)
  then show ?thesis
    using avl_find_repr [OF comparator_kv [OF assms(1)], of xs name] assms(1)
    by (simp add: kvlist_get'_def avl_find_element'_def node_or_NULL_def kv_nodes_def)
qed

lemma kv_node_nonzero: "kv_nodes kv xs \<Longrightarrow> x \<in> set xs \<Longrightarrow> x \<noteq> 0"
  using repr_nonzero by (auto simp: kv_nodes_def)

lemma kv_find_cases:
  assumes "kv_nodes kv xs" "is_cstr name"
  obtains (absent) "kvlist_get' kv name = Some 0" "map_of (kv_pairs kv xs) name = None"
      "name \<notin> set (map (av_key (kv_avl kv)) xs)"
    | (present) x where "kvlist_get' kv name = Some x" "x \<noteq> 0" "x \<in> set xs" "av_key (kv_avl kv) x = name"
      "map_of (kv_pairs kv xs) name = Some (kv_data kv x)"
proof (cases "find (\<lambda>x. name = av_key (kv_avl kv) x) xs")
  case None
  then show ?thesis using kv_find [OF assms] None
    by (intro absent) (auto simp: node_or_NULL_def kv_pairs_def map_of_find find_None_iff)
next
  case (Some x)
  then have "x \<in> set xs" "av_key (kv_avl kv) x = name" by (auto simp: find_Some_iff)
  then show ?thesis using kv_find [OF assms] Some kv_node_nonzero [OF assms(1)]
    by (intro present [of x]) (auto simp: node_or_NULL_def kv_pairs_def map_of_find)
qed

lemma kvlist_get_repr:
  assumes "kv_repr kv m" "is_cstr name"
  shows "kvlist_get kv name = Some (m name)"
proof -
  obtain xs where xs: "kv_nodes kv xs" "m = map_of (kv_pairs kv xs)" using assms(1) by (auto simp: kv_repr_def)
  show ?thesis by (rule kv_find_cases [OF xs(1) assms(2)]) (simp_all add: kvlist_get_def xs(2))
qed

lemma map_of_remove1:
  "distinct (map f xs) \<Longrightarrow> x \<in> set xs \<Longrightarrow>
     map_of (map (\<lambda>x. (f x, g x)) (remove1 x xs)) = (map_of (map (\<lambda>x. (f x, g x)) xs))(f x := None)"
proof (induction xs)
  case (Cons y ys)
  show ?case
  proof (cases "y = x")
    case True
    then have "map_of (map (\<lambda>x. (f x, g x)) ys) (f x) = None"
      using Cons.prems(1) by (simp add: map_of_eq_None_iff image_image)
    then show ?thesis using True by (auto simp: fun_eq_iff)
  next
    case False
    then have "f y \<noteq> f x" "x \<in> set ys" using Cons.prems by force+
    then show ?thesis using Cons False by (auto simp: fun_eq_iff)
  qed
qed simp

lemma kvlist_delete_nodes:
  assumes kv: "kv_nodes kv xs" and name: "is_cstr name"
  shows "\<exists>kv' xs'. kvlist_delete kv name = Some (kv', map_of (kv_pairs kv xs) name \<noteq> None) \<and> kv_nodes kv' xs' \<and>
    map_of (kv_pairs kv' xs') = (map_of (kv_pairs kv xs))(name := None) \<and> set xs' \<subseteq> set xs \<and>
    av_head (kv_avl kv') = av_head (kv_avl kv) \<and> name \<notin> set (map (av_key (kv_avl kv')) xs')"
proof (rule kv_find_cases [OF kv name])
  assume "kvlist_get' kv name = Some 0" "map_of (kv_pairs kv xs) name = None"
    "name \<notin> set (map (av_key (kv_avl kv)) xs)"
  then show ?thesis using kv
    by (intro exI [of _ kv] exI [of _ xs]) (auto simp: kvlist_delete_def fun_upd_idem)
next
  fix x assume x: "kvlist_get' kv name = Some x" "x \<noteq> 0" "x \<in> set xs" "av_key (kv_avl kv) x = name"
    "map_of (kv_pairs kv xs) name = Some (kv_data kv x)"
  have r: "avl_repr (kv_avl kv) xs" using kv by (simp add: kv_nodes_def)
  obtain t where t: "avl_delete (kv_avl kv) x = Some t" "avl_repr t (remove1 x xs)" "av_key t = av_key (kv_avl kv)"
    "av_head t = av_head (kv_avl kv)" "av_comp t = av_comp (kv_avl kv)" "av_allow_dups t = av_allow_dups (kv_avl kv)"
    using avl_delete_repr [OF comparator_kv [OF kv] r x(3)] by blast
  let ?kv = "kv\<lparr>kv_avl := t, kv_live := kv_live kv - {x}\<rparr>"
  have d: "distinct xs" "distinct (map (av_key (kv_avl kv)) xs)" using kv by (auto simp: kv_nodes_def distinct_map)
  have keys: "distinct (map (av_key (kv_avl kv)) (remove1 x xs))" "name \<notin> av_key (kv_avl kv) ` set (remove1 x xs)"
    using d x(3,4) by (auto simp: distinct_map inj_on_def)
  have "kv_nodes ?kv (remove1 x xs)"
    using kv t d(1) keys(1) by (auto simp: kv_nodes_def)
  moreover have "map_of (kv_pairs ?kv (remove1 x xs)) = (map_of (kv_pairs kv xs))(name := None)"
    using map_of_remove1 [OF d(2) x(3), of "kv_data kv"] x(4) t(3) by (simp add: kv_pairs_def)
  ultimately show ?thesis
    using x t keys(2) set_remove1_subset [of x xs]
    by (intro exI [of _ ?kv] exI [of _ "remove1 x xs"]) (auto simp: kvlist_delete_def)
qed

lemma kvlist_delete_repr:
  assumes "kv_repr kv m" "is_cstr name"
  shows "\<exists>kv'. kvlist_delete kv name = Some (kv', m name \<noteq> None) \<and> kv_repr kv' (m(name := None))"
proof -
  obtain xs where xs: "kv_nodes kv xs" "m = map_of (kv_pairs kv xs)" using assms(1) by (auto simp: kv_repr_def)
  show ?thesis using kvlist_delete_nodes [OF xs(1) assms(2)] unfolding kv_repr_def xs(2) by metis
qed

lemma kvlist_set_repr:
  assumes kv: "kv_repr kv m" and name: "is_cstr name" and len: "get_len data = Some len" "0 \<le> len" "nat len \<le> length data"
    and node: "node \<noteq> 0" "node \<notin> kv_live kv" "node \<noteq> av_head (kv_avl kv)"
  shows "\<exists>kv'. kvlist_set get_len node kv name data = Some kv' \<and> kv_repr kv' (m(name \<mapsto> take (nat len) data))"
proof -
  obtain xs where xs: "kv_nodes kv xs" "m = map_of (kv_pairs kv xs)" using kv by (auto simp: kv_repr_def)
  obtain kv1 xs1 where 1: "kvlist_delete kv name = Some (kv1, map_of (kv_pairs kv xs) name \<noteq> None)" "kv_nodes kv1 xs1"
    "map_of (kv_pairs kv1 xs1) = m(name := None)" "set xs1 \<subseteq> set xs" "av_head (kv_avl kv1) = av_head (kv_avl kv)"
    "name \<notin> set (map (av_key (kv_avl kv1)) xs1)"
    using kvlist_delete_nodes [OF xs(1) name] xs(2) by blast
  have fresh: "node \<notin> set xs1" using 1(4) node(2) xs(1) by (auto simp: kv_nodes_def)
  let ?t = "(kv_avl kv1)\<lparr>av_key := (av_key (kv_avl kv1))(node := name)\<rparr>"
  let ?bs = "take (nat len) data"
  have rep: "avl_repr ?t xs1" using 1(2) fresh by (intro avl_repr_key) (auto simp: kv_nodes_def)
  have cmp: "comparator (av_comp ?t)" using comparator_kv [OF 1(2)] by simp
  have cs: "\<forall>x\<in>set xs1. is_cstr (av_key (kv_avl kv1) x)" using 1(2) by (simp add: kv_nodes_def)
  have nf: "find (\<lambda>x. key_cmp ?t (av_key ?t node) x = 0) xs1 = None"
    using 1(2,6) fresh cs name by (auto simp: find_None_iff kv_nodes_def strcmp_zero)
  let ?P = "\<lambda>y. key_cmp ?t (av_key ?t node) y < 0"
  let ?xs = "insert_before ?P node xs1"
  obtain t where t: "avl_insert ?t node = Some (t, 0)" "avl_repr t ?xs" "av_key t = av_key ?t" "av_head t = av_head ?t"
    "av_comp t = av_comp ?t" "av_allow_dups t = av_allow_dups ?t"
    using avl_insert_repr [OF cmp rep node(1)] fresh node(3) 1(5) nf by auto
  let ?kv = "kv1\<lparr>kv_avl := t, kv_data := (kv_data kv1)(node := ?bs), kv_live := insert node (kv_live kv1)\<rparr>"
  have S: "kvlist_set get_len node kv name data = Some ?kv"
    using 1(1) t(1) len node(1) by (simp add: kvlist_set_def rdn_def Let_def)
  have agree: "\<forall>x\<in>set xs1. av_key t x = av_key (kv_avl kv1) x" using fresh t(3) by auto
  have dk: "distinct (map (av_key t) (node # xs1))"
    using 1(2,6) agree t(3) by (auto simp: kv_nodes_def distinct_map inj_on_def)
  have dx: "distinct (node # xs1)" using dk by (auto simp: distinct_map)
  have dk': "distinct (map (av_key t) ?xs)"
    using dk dx by (auto simp: distinct_map distinct_insert_before)
  have n: "kv_nodes ?kv ?xs"
    using 1(2,5) t(2-6) dk' name node cs agree unfolding kv_nodes_def by (auto simp: fresh)
  have e1: "map_of (kv_pairs ?kv ?xs) = map_of (kv_pairs ?kv (node # xs1))"
  proof -
    have "map fst (kv_pairs ?kv ys) = map (av_key t) ys" for ys by (simp add: kv_pairs_def comp_def)
    moreover have "set (kv_pairs ?kv ?xs) = set (kv_pairs ?kv (node # xs1))" by (auto simp: kv_pairs_def)
    ultimately show ?thesis using dk dk' by (simp only: map_of_inject_set)
  qed
  have e2: "map_of (kv_pairs ?kv (node # xs1)) = (map_of (kv_pairs kv1 xs1))(name \<mapsto> ?bs)"
  proof -
    have "kv_pairs ?kv xs1 = kv_pairs kv1 xs1" using agree fresh by (auto simp: kv_pairs_def)
    moreover have "kv_pairs ?kv (node # xs1) = (name, ?bs) # kv_pairs ?kv xs1" using t(3) by (simp add: kv_pairs_def)
    ultimately show ?thesis by simp
  qed
  have "map_of (kv_pairs ?kv ?xs) = m(name \<mapsto> ?bs)" unfolding e1 e2 1(3) by simp
  then have "kv_repr ?kv (m(name \<mapsto> ?bs))" using n unfolding kv_repr_def by metis
  then show ?thesis using S by blast
qed

lemma kvlist_init_repr: "kv_live kv = {} \<Longrightarrow> av_head (kv_avl kv) \<noteq> 0 \<Longrightarrow> kv_repr (kvlist_init kv) Map.empty"
proof -
  assume kv: "kv_live kv = {}" "av_head (kv_avl kv) \<noteq> 0"
  have "avl_repr (avl_init avl_strcmp False (kv_avl kv)) []"
    using avl_init_groups [of avl_strcmp False "kv_avl kv"] unfolding avl_repr_def by (intro exI [of _ "[]"]) simp
  then have "kv_nodes (kvlist_init kv) []" using kv by (simp add: kv_nodes_def kvlist_init_def avl_init_def)
  then show ?thesis unfolding kv_repr_def kv_pairs_def by (intro exI [of _ "[]"]) simp
qed

lemma kvlist_free_repr:
  assumes "kv_repr kv m" "card (kv_live kv) < 2 ^ 32"
  shows "\<exists>kv'. kvlist_free kv = Some kv' \<and> kv_repr kv' Map.empty \<and> kv_live kv' = {}"
proof -
  obtain xs where xs: "kv_nodes kv xs" using assms(1) by (auto simp: kv_repr_def)
  then have d: "distinct xs" "avl_repr (kv_avl kv) xs" "kv_live kv = set xs" by (auto simp: kv_nodes_def distinct_map)
  have k: "keeps_list (\<lambda>_ s. Some s)" by (simp add: keeps_list_def)
  have "length xs < 2 ^ 32" using assms(2) d by (simp add: distinct_card)
  from avl_walks(4) [OF comparator_kv [OF xs] d(2) k this, of "\<lambda>node live. live - {node}" "kv_live kv"]
  obtain t where t: "avl_remove_all_elements (\<lambda>node live. live - {node}) (kv_avl kv) (kv_live kv) =
      Some (t, fold (\<lambda>node live. live - {node}) xs (kv_live kv))" "avl_repr t []"
    "av_comp t = av_comp (kv_avl kv)" "av_allow_dups t = av_allow_dups (kv_avl kv)" "av_head t = av_head (kv_avl kv)"
    by blast
  have "fold (\<lambda>node live. live - {node}) xs L = L - set xs" for L :: "ptr set"
    by (induction xs arbitrary: L) auto
  then have l: "fold (\<lambda>node live. live - {node}) xs (kv_live kv) = {}" using d(3) by simp
  let ?kv = "kv\<lparr>kv_avl := t, kv_live := {}\<rparr>"
  have "kv_nodes ?kv []" using xs t by (simp add: kv_nodes_def)
  then have "kv_repr ?kv Map.empty" unfolding kv_repr_def kv_pairs_def by (intro exI [of _ "[]"]) simp
  then show ?thesis using t(1) l by (intro exI [of _ ?kv]) (simp add: kvlist_free_def)
qed

text \<open>The walk over a store, in the order of the names.\<close>

lemma kvlist_walk_chain:
  "chain (av_list (kv_avl kv)) p xs (av_head (kv_avl kv)) \<Longrightarrow> \<forall>x\<in>set xs. x \<noteq> av_head (kv_avl kv) \<Longrightarrow>
    kvlist_walk kv (nxt (av_list (kv_avl kv)) p) = Some (kv_pairs kv xs)"
proof (induction xs arbitrary: p)
  case Nil
  then show ?case by (subst kvlist_walk.simps) (simp add: kv_pairs_def)
next
  case (Cons x xs)
  then show ?case by (subst kvlist_walk.simps) (simp add: kv_pairs_def)
qed

lemma kvlist_for_each_nodes:
  assumes "kv_nodes kv xs"
  shows "kvlist_for_each kv = Some (kv_pairs kv xs)"
    and "sorted_wrt (\<lambda>a b. c_strcmp (fst a) (fst b) \<le> 0) (kv_pairs kv xs)" "distinct (map fst (kv_pairs kv xs))"
proof -
  have r: "avl_repr (kv_avl kv) xs" "av_comp (kv_avl kv) = avl_strcmp" "distinct (map (av_key (kv_avl kv)) xs)"
    using assms by (auto simp: kv_nodes_def)
  show "kvlist_for_each kv = Some (kv_pairs kv xs)"
    using repr_dll [OF r(1)] by (auto simp: kvlist_for_each_def dll_def intro!: kvlist_walk_chain)
  show "sorted_wrt (\<lambda>a b. c_strcmp (fst a) (fst b) \<le> 0) (kv_pairs kv xs)"
    using repr_in_order [OF comparator_kv [OF assms] r(1)] r(2)
    by (simp add: in_order_def kv_pairs_def sorted_wrt_map avl_strcmp_def)
  show "distinct (map fst (kv_pairs kv xs))" using r(3) by (simp add: kv_pairs_def comp_def)
qed

section \<open>The interface of a string map\<close>

datatype 'v map_op = Put bytes 'v | Remove bytes

locale string_map =
  fixes repr :: "'s \<Rightarrow> (bytes \<rightharpoonup> bytes) \<Rightarrow> bool"
    and get :: "'s \<Rightarrow> bytes \<Rightarrow> bytes option option"
    and put :: "'s \<Rightarrow> bytes \<Rightarrow> 'v \<Rightarrow> 's option"
    and remove :: "'s \<Rightarrow> bytes \<Rightarrow> ('s \<times> bool) option"
    and valid :: "'v \<Rightarrow> bool" and stored :: "'v \<Rightarrow> bytes"
  assumes get_repr: "repr s m \<Longrightarrow> is_cstr k \<Longrightarrow> get s k = Some (m k)"
    and put_repr: "repr s m \<Longrightarrow> is_cstr k \<Longrightarrow> valid v \<Longrightarrow> \<exists>s'. put s k v = Some s' \<and> repr s' (m(k \<mapsto> stored v))"
    and remove_repr: "repr s m \<Longrightarrow> is_cstr k \<Longrightarrow> \<exists>s'. remove s k = Some (s', m k \<noteq> None) \<and> repr s' (m(k := None))"
begin

definition step :: "'v map_op \<Rightarrow> 's \<Rightarrow> 's option" where
  "step c s = (case c of Put k v \<Rightarrow> put s k v | Remove k \<Rightarrow> map_option fst (remove s k))"

definition effect :: "'v map_op \<Rightarrow> (bytes \<rightharpoonup> bytes) \<Rightarrow> (bytes \<rightharpoonup> bytes)" where
  "effect c m = (case c of Put k v \<Rightarrow> m(k \<mapsto> stored v) | Remove k \<Rightarrow> m(k := None))"

definition op_ok :: "'v map_op \<Rightarrow> bool" where
  "op_ok c = (case c of Put k v \<Rightarrow> is_cstr k \<and> valid v | Remove k \<Rightarrow> is_cstr k)"

lemma step_repr: "repr s m \<Longrightarrow> op_ok c \<Longrightarrow> \<exists>s'. step c s = Some s' \<and> repr s' (effect c m)"
  using put_repr remove_repr by (cases c) (fastforce simp: step_def effect_def op_ok_def)+

lemma history:
  "repr s m \<Longrightarrow> \<forall>c\<in>set cs. op_ok c \<Longrightarrow> \<exists>s'. foldM step cs s = Some s' \<and> repr s' (fold effect cs m)"
proof (induction cs arbitrary: s m)
  case (Cons c cs)
  obtain s1 where "step c s = Some s1" "repr s1 (effect c m)" using step_repr [OF Cons.prems(1), of c] Cons.prems(2) by auto
  then show ?case using Cons.IH [of s1 "effect c m"] Cons.prems(2) by simp
qed simp

lemma get_after_put:
  assumes "repr s m" "is_cstr k" "is_cstr k'" "valid v"
  shows "\<exists>s'. put s k v = Some s' \<and> get s' k' = (if k' = k then Some (Some (stored v)) else get s k')"
  using put_repr [OF assms(1,2,4)] get_repr [OF assms(1,3)] get_repr [OF _ assms(3)] by fastforce

end

text \<open>The allocator is the C library's: any function that returns an address that is not in use.\<close>

locale kv_alloc =
  fixes alloc :: "kvlist \<Rightarrow> ptr"
  assumes alloc_fresh: "finite (kv_live kv) \<Longrightarrow> alloc kv \<noteq> 0 \<and> alloc kv \<notin> kv_live kv \<and> alloc kv \<noteq> av_head (kv_avl kv)"

definition kv_put :: "(kvlist \<Rightarrow> ptr) \<Rightarrow> kvlist \<Rightarrow> bytes \<Rightarrow> bytes \<Rightarrow> kvlist option" where
  "kv_put alloc kv k v = kvlist_set kvlist_strlen (alloc kv) kv k (v @ [0])"

lemma kv_repr_finite: "kv_repr kv m \<Longrightarrow> finite (kv_live kv)"
  by (auto simp: kv_repr_def kv_nodes_def)

sublocale kv_alloc \<subseteq> kv: string_map kv_repr kvlist_get "kv_put alloc" kvlist_delete is_cstr "\<lambda>v. v @ [0]"
proof
  fix kv m k v assume kv: "kv_repr kv m" "is_cstr k" "is_cstr v"
  have "kvlist_strlen (v @ [0]) = Some (int (length v) + 1)"
    using cstr_at_append [OF kv(3), of 0 "[]" "[]"] by (simp add: kvlist_strlen_def)
  then show "\<exists>s'. kv_put alloc kv k v = Some s' \<and> kv_repr s' (m(k \<mapsto> v @ [0]))"
    using kvlist_set_repr [OF kv(1,2), of kvlist_strlen "v @ [0]" "int (length v) + 1" "alloc kv"]
      alloc_fresh [OF kv_repr_finite [OF kv(1)]] by (simp add: kv_put_def nat_add_distrib)
qed (rule kvlist_get_repr kvlist_delete_repr, assumption+)+

text \<open>An allocator that hands out ever larger addresses.\<close>

definition bump_alloc :: "kvlist \<Rightarrow> ptr" where
  "bump_alloc kv = Suc (Max (insert (av_head (kv_avl kv)) (kv_live kv)))"

interpretation bump: kv_alloc bump_alloc
proof
  fix kv :: kvlist assume f: "finite (kv_live kv)"
  have "x < bump_alloc kv" if "x \<in> insert (av_head (kv_avl kv)) (kv_live kv)" for x
    using Max_ge [of "insert (av_head (kv_avl kv)) (kv_live kv)" x] f that by (simp add: bump_alloc_def less_Suc_eq_le)
  then show "bump_alloc kv \<noteq> 0 \<and> bump_alloc kv \<notin> kv_live kv \<and> bump_alloc kv \<noteq> av_head (kv_avl kv)"
    by (auto simp: bump_alloc_def)
qed

context kv_alloc begin

lemma kv_map: "string_map kv_repr kvlist_get (kv_put alloc) kvlist_delete is_cstr (\<lambda>v. v @ [0])"
  by (rule kv.string_map_axioms)

end

section \<open>The properties of a store\<close>

definition kv_step :: "(kvlist \<Rightarrow> ptr) \<Rightarrow> bytes map_op \<Rightarrow> kvlist \<Rightarrow> kvlist option" where
  "kv_step alloc = string_map.step (kv_put alloc) kvlist_delete"

fun kv_effect :: "bytes map_op \<Rightarrow> (bytes \<rightharpoonup> bytes) \<Rightarrow> (bytes \<rightharpoonup> bytes)" where
  "kv_effect (Put k v) m = m(k \<mapsto> v @ [0])"
| "kv_effect (Remove k) m = m(k := None)"

fun kv_op_ok :: "bytes map_op \<Rightarrow> bool" where
  "kv_op_ok (Put k v) \<longleftrightarrow> is_cstr k \<and> is_cstr v"
| "kv_op_ok (Remove k) \<longleftrightarrow> is_cstr k"

lemma kv_step_simps [simp]:
  assumes "kv_alloc alloc"
  shows "kv_step alloc (Put k v) s = kv_put alloc s k v" "kv_step alloc (Remove k) s = map_option fst (kvlist_delete s k)"
  by (simp_all add: kv_step_def string_map.step_def [OF kv_alloc.kv_map [OF assms]])

lemma kv_effect_map:
  assumes "kv_alloc alloc"
  shows "string_map.effect (\<lambda>v. v @ [0]) = kv_effect" "string_map.op_ok is_cstr = kv_op_ok"
  by (intro ext, simp add: string_map.effect_def [OF kv_alloc.kv_map [OF assms]]
      string_map.op_ok_def [OF kv_alloc.kv_map [OF assms]] split: map_op.split)+

text \<open>
  C24: After any sequence of \<^verbatim>\<open>kvlist_set\<close> and \<^verbatim>\<open>kvlist_delete\<close> calls on a store that was just initialised,
  none of which faults, \<^verbatim>\<open>kvlist_get\<close> returns for each name what the sequence as updates of a map gives,
  \<^verbatim>\<open>kvlist_for_each\<close> ends and lists exactly the pairs of this map with the names in strictly increasing
  order.
\<close>

theorem kvlist_history:
  assumes "kv_alloc alloc" "kv_live kv = {}" "av_head (kv_avl kv) \<noteq> 0" "\<forall>c\<in>set cs. kv_op_ok c"
  shows "\<exists>s ps. foldM (kv_step alloc) cs (kvlist_init kv) = Some s \<and>
    (\<forall>k. is_cstr k \<longrightarrow> kvlist_get s k = Some (fold kv_effect cs Map.empty k)) \<and>
    kvlist_for_each s = Some ps \<and> map_of ps = fold kv_effect cs Map.empty \<and>
    sorted_wrt (\<lambda>a b. c_strcmp (fst a) (fst b) \<le> 0) ps \<and> distinct (map fst ps)"
proof -
  note sm = kv_alloc.kv_map [OF assms(1)] and eff = kv_effect_map [OF assms(1)]
  obtain s where s: "foldM (kv_step alloc) cs (kvlist_init kv) = Some s" "kv_repr s (fold kv_effect cs Map.empty)"
    using string_map.history [OF sm kvlist_init_repr [OF assms(2,3)], of cs] assms(4)
    unfolding eff kv_step_def by blast
  obtain xs where xs: "kv_nodes s xs" "fold kv_effect cs Map.empty = map_of (kv_pairs s xs)"
    using s(2) by (auto simp: kv_repr_def)
  show ?thesis
    using s(1) kvlist_get_repr [OF s(2)] kvlist_for_each_nodes [OF xs(1)] xs(2)
    by (intro exI [of _ s] exI [of _ "kv_pairs s xs"]) simp
qed

definition kv_empty :: kvlist where
  "kv_empty = \<lparr>kv_avl = (undefined :: bytes avl)\<lparr>av_head := 1\<rparr>, kv_data = \<lambda>_. [], kv_live = {}\<rparr>"

lemma kvlist_history_witness:
  "\<exists>s ps. foldM (kv_step bump_alloc) [Put [98] [49], Put [97] [50], Put [98] [51], Remove [99]] (kvlist_init kv_empty) = Some s \<and>
    kvlist_get s [98] = Some (Some [51, 0]) \<and> kvlist_get s [99] = Some None \<and> kvlist_for_each s = Some ps \<and>
    map_of ps [97] = Some [50, 0]"
  using kvlist_history [OF bump.kv_alloc_axioms, of kv_empty "[Put [98] [49], Put [97] [50], Put [98] [51], Remove [99]]"]
  by (fastforce simp: kv_empty_def is_cstr_def)

text \<open>
  \<^verbatim>\<open>kvlist_free\<close> frees every node of a store, exactly those that are allocated, and leaves an
  empty store that can be used again.
\<close>

theorem kvlist_free_correct:
  assumes "kv_repr kv m" "card (kv_live kv) < 2 ^ 32"
  shows "\<exists>kv'. kvlist_free kv = Some kv' \<and> kv_live kv' = {} \<and> kv_repr kv' Map.empty"
  using kvlist_free_repr [OF assms] by blast

lemma kvlist_free_correct_witness:
  "\<exists>kv'. kvlist_free (kvlist_init kv_empty) = Some kv' \<and> kv_live kv' = {} \<and> kv_repr kv' Map.empty"
  by (rule kvlist_free_correct [OF kvlist_init_repr]) (simp_all add: kv_empty_def kvlist_init_def)

end
