(* ===== verification/Vlist.thy ===== *)
theory Vlist
  imports AvlSpec
begin

text \<open>
  \<^verbatim>\<open>vlist.h\<close>, \<^verbatim>\<open>vlist.c\<close>: an AVL tree without duplicates whose nodes carry a version, so that after a
  reload the nodes that were not added again can be flushed. \<open>'w\<close> is what the update callback works on.
\<close>

section \<open>Operations\<close>

record ('k, 'w) vlist =
  v_avl :: "'k avl"
  v_keep_old :: bool
  v_no_delete :: bool
  v_version :: int
  v_node_version :: "ptr \<Rightarrow> int"
  v_world :: 'w

type_synonym ('k, 'w) vlist_update_cb = "ptr \<Rightarrow> ptr \<Rightarrow> ('k, 'w) vlist \<Rightarrow> ('k, 'w) vlist option"

definition VLIST_TREE_INIT :: "('k \<Rightarrow> 'k \<Rightarrow> int) \<Rightarrow> bool \<Rightarrow> bool \<Rightarrow> ('k, 'w) vlist \<Rightarrow> ('k, 'w) vlist" where
  "VLIST_TREE_INIT cmp keep_old no_delete s =
     s\<lparr>v_avl := avl_init cmp False (v_avl s), v_version := 1, v_keep_old := keep_old, v_no_delete := no_delete\<rparr>"

definition vlist_init :: "('k \<Rightarrow> 'k \<Rightarrow> int) \<Rightarrow> ('k, 'w) vlist \<Rightarrow> ('k, 'w) vlist" where
  "vlist_init cmp s = s\<lparr>v_version := 1, v_avl := avl_init cmp False (v_avl s)\<rparr>"

definition vlist_find :: "('k, 'w) vlist \<Rightarrow> 'k \<Rightarrow> ptr option" where
  "vlist_find s name = avl_find_element' (v_avl s) name AVL_FIND_EQUAL"

definition vlist_update :: "('k, 'w) vlist \<Rightarrow> ('k, 'w) vlist" where
  "vlist_update s = s\<lparr>v_version := c_int (v_version s + 1)\<rparr>"

definition vlist_delete :: "('k, 'w) vlist_update_cb \<Rightarrow> ptr \<Rightarrow> ('k, 'w) vlist \<Rightarrow> ('k, 'w) vlist option" where
  "vlist_delete update node s =
     do { s \<leftarrow> (if \<not> v_no_delete s then do { t \<leftarrow> avl_delete (v_avl s) node; Some (s\<lparr>v_avl := t\<rparr>) } else Some s);
          update 0 node s }"

definition vlist_add :: "('k, 'w) vlist_update_cb \<Rightarrow> ptr \<Rightarrow> 'k \<Rightarrow> ('k, 'w) vlist \<Rightarrow> ('k, 'w) vlist option" where
  "vlist_add update node key s =
     (let s = s\<lparr>v_avl := (v_avl s)\<lparr>av_key := (av_key (v_avl s))(node := key)\<rparr>,
               v_node_version := (v_node_version s)(node := v_version s)\<rparr>
      in do { anode \<leftarrow> avl_find (v_avl s) key;
              if anode \<noteq> 0 \<and> (v_keep_old s \<or> v_no_delete s)
              then update node anode (s\<lparr>v_node_version := (v_node_version s)(anode := v_version s)\<rparr>)
              else do { t \<leftarrow> (if anode \<noteq> 0 then avl_delete (v_avl s) anode else Some (v_avl s));
                        (t, _) \<leftarrow> avl_insert t node;
                        update node anode (s\<lparr>v_avl := t\<rparr>) } })"

text \<open>The test of \<^verbatim>\<open>vlist_flush\<close> that skips a node, and its \<^verbatim>\<open>avl_for_each_element_safe\<close> loop.\<close>

definition vlist_current :: "('k, 'w) vlist \<Rightarrow> ptr \<Rightarrow> bool" where
  "vlist_current s node \<longleftrightarrow> (v_node_version s node = v_version s \<or> v_node_version s node = -1) \<and> v_version s \<noteq> -1"

partial_function (option) vlist_flush_loop ::
  "('k, 'w) vlist_update_cb \<Rightarrow> ('k, 'w) vlist \<Rightarrow> ptr \<Rightarrow> ptr \<Rightarrow> ('k, 'w) vlist option" where
  "vlist_flush_loop update s node tmp =
     (if prv (av_list (v_avl s)) node = avl_last_element (v_avl s) then Some s
      else do { s \<leftarrow> (if vlist_current s node then Some s else vlist_delete update node s);
                vlist_flush_loop update s tmp (avl_next_element (v_avl s) tmp) })"

definition vlist_flush :: "('k, 'w) vlist_update_cb \<Rightarrow> ('k, 'w) vlist \<Rightarrow> ('k, 'w) vlist option" where
  "vlist_flush update s =
     (let node = avl_first_element (v_avl s) in vlist_flush_loop update s node (avl_next_element (v_avl s) node))"

definition vlist_flush_all :: "('k, 'w) vlist_update_cb \<Rightarrow> ('k, 'w) vlist \<Rightarrow> ('k, 'w) vlist option" where
  "vlist_flush_all update s = vlist_flush update (s\<lparr>v_version := -1\<rparr>)"

section \<open>The nodes of a tree\<close>

text \<open>A callback that leaves the tree alone (it may free the old node) and updates the world.\<close>

definition cb_is :: "('k, 'w) vlist_update_cb \<Rightarrow> (ptr \<Rightarrow> ptr \<Rightarrow> 'w \<Rightarrow> 'w) \<Rightarrow> bool" where
  "cb_is update f \<longleftrightarrow> (\<forall>new old s. update new old s = Some (s\<lparr>v_world := f new old (v_world s)\<rparr>))"

definition vlist_wf :: "('k, 'w) vlist \<Rightarrow> ptr list \<Rightarrow> bool" where
  "vlist_wf s xs \<longleftrightarrow> avl_repr (v_avl s) xs \<and> comparator (av_comp (v_avl s)) \<and> \<not> av_allow_dups (v_avl s) \<and>
     (\<forall>x\<in>set xs. \<forall>y\<in>set xs. x \<noteq> y \<longrightarrow> key_cmp (v_avl s) (av_key (v_avl s) x) y \<noteq> 0)"

lemma repr_distinct: "avl_repr s xs \<Longrightarrow> distinct (av_head s # xs)"
  using repr_dll by (fastforce simp: dll_def)

lemma vlist_wf_delete:
  assumes "vlist_wf s xs" "x \<in> set xs"
  shows "\<exists>t. avl_delete (v_avl s) x = Some t \<and> vlist_wf (s\<lparr>v_avl := t\<rparr>) (remove1 x xs) \<and>
    av_key t = av_key (v_avl s) \<and> av_comp t = av_comp (v_avl s) \<and> av_head t = av_head (v_avl s)"
proof -
  have w: "avl_repr (v_avl s) xs" "comparator (av_comp (v_avl s))" using assms(1) by (auto simp: vlist_wf_def)
  obtain t where t: "avl_delete (v_avl s) x = Some t" "avl_repr t (remove1 x xs)" "av_key t = av_key (v_avl s)"
    "av_head t = av_head (v_avl s)" "av_comp t = av_comp (v_avl s)" "av_allow_dups t = av_allow_dups (v_avl s)"
    using avl_delete_repr [OF w(2,1) assms(2)] by blast
  have "vlist_wf (s\<lparr>v_avl := t\<rparr>) (remove1 x xs)"
    using assms(1) t set_remove1_subset [of x xs] by (auto simp: vlist_wf_def subset_iff)
  then show ?thesis using t by blast
qed

lemma vlist_wf_insert:
  assumes wf: "vlist_wf s xs" and x: "node \<noteq> 0" "node \<notin> set (av_head (v_avl s) # xs)"
    and new: "\<forall>y\<in>set xs. key_cmp (v_avl s) (av_key (v_avl s) node) y \<noteq> 0"
  shows "\<exists>t. avl_insert (v_avl s) node = Some (t, 0) \<and> av_key t = av_key (v_avl s) \<and>
    vlist_wf (s\<lparr>v_avl := t\<rparr>) (insert_before (\<lambda>y. key_cmp (v_avl s) (av_key (v_avl s) node) y < 0) node xs)"
proof -
  have w: "avl_repr (v_avl s) xs" "comparator (av_comp (v_avl s))" "\<not> av_allow_dups (v_avl s)"
    using wf by (auto simp: vlist_wf_def)
  have "find (\<lambda>y. key_cmp (v_avl s) (av_key (v_avl s) node) y = 0) xs = None"
    using new by (simp add: find_None_iff)
  then obtain t where t: "avl_insert (v_avl s) node = Some (t, 0)" "av_key t = av_key (v_avl s)"
    "av_comp t = av_comp (v_avl s)" "av_allow_dups t = av_allow_dups (v_avl s)"
    "avl_repr t (insert_before (\<lambda>y. key_cmp (v_avl s) (av_key (v_avl s) node) y < 0) node xs)"
    using avl_insert_repr [OF w(2,1) x] by auto
  have flip: "\<forall>y\<in>set xs. key_cmp (v_avl s) (av_key (v_avl s) y) node \<noteq> 0"
    using new comparator.cmp_eq_iff [OF w(2)] by blast
  have "vlist_wf (s\<lparr>v_avl := t\<rparr>) (insert_before (\<lambda>y. key_cmp (v_avl s) (av_key (v_avl s) node) y < 0) node xs)"
    using wf t new flip by (simp add: vlist_wf_def)
  then show ?thesis using t by blast
qed

lemma vlist_wf_frame:
  "v_avl s' = v_avl s \<Longrightarrow> vlist_wf s' xs = vlist_wf s xs"
  by (simp add: vlist_wf_def)

lemma insert_before_cong: "(\<And>y. y \<in> set ys \<Longrightarrow> P y = Q y) \<Longrightarrow> insert_before P x ys = insert_before Q x ys"
  unfolding insert_before_def by (simp cong: takeWhile_cong dropWhile_cong)

section \<open>Adding\<close>

text \<open>
  C30: \<^verbatim>\<open>vlist_add\<close> of a node that is not in the tree returns, with the node's version set to that of the
  tree. If no node has the key, the node is inserted in order and the callback gets it with no old
  node. Otherwise the callback gets both; with \<^verbatim>\<open>keep_old\<close> or \<^verbatim>\<open>no_delete\<close> the old node stays and its
  version is renewed, else the new node takes its place.
\<close>

theorem vlist_add_correct:
  assumes wf: "vlist_wf s xs" and cb: "cb_is update f" and node: "node \<noteq> 0" "node \<notin> set (av_head (v_avl s) # xs)"
  shows "\<exists>s' xs'. vlist_add update node key s = Some s' \<and> vlist_wf s' xs' \<and>
    v_node_version s' node = v_version s \<and> v_version s' = v_version s \<and> av_key (v_avl s') node = key \<and>
    (case find (\<lambda>y. key_cmp (v_avl s) key y = 0) xs of
       None \<Rightarrow> v_world s' = f node 0 (v_world s) \<and> xs' = insert_before (\<lambda>y. key_cmp (v_avl s) key y < 0) node xs
     | Some old \<Rightarrow> v_world s' = f node old (v_world s) \<and>
         (if v_keep_old s \<or> v_no_delete s then xs' = xs \<and> v_node_version s' old = v_version s
          else xs' = insert_before (\<lambda>y. key_cmp (v_avl s) key y < 0) node (remove1 old xs)))"
proof -
  let ?t = "(v_avl s)\<lparr>av_key := (av_key (v_avl s))(node := key)\<rparr>"
  let ?s = "s\<lparr>v_avl := ?t, v_node_version := (v_node_version s)(node := v_version s)\<rparr>"
  have nk: "y \<in> set xs \<Longrightarrow> av_key ?t y = av_key (v_avl s) y" for y using node by auto
  have wf1: "vlist_wf ?s xs"
    using wf avl_repr_key [of "v_avl s" xs "(av_key (v_avl s))(node := key)"] nk node by (auto simp: vlist_wf_def)
  then have w: "avl_repr ?t xs" "comparator (av_comp ?t)" by (auto simp: vlist_wf_def)
  have same: "find (\<lambda>y. key_cmp ?t key y = 0) xs = find (\<lambda>y. key_cmp (v_avl s) key y = 0) xs"
    using node by (intro find_cong) auto
  have found: "avl_find ?t key = Some (case find (\<lambda>y. key_cmp (v_avl s) key y = 0) xs of None \<Rightarrow> 0 | Some x \<Rightarrow> x)"
    using avl_find_repr [OF w(2,1), of key] unfolding same .
  have ins: "insert_before (\<lambda>y. key_cmp ?t key y < 0) node ys = insert_before (\<lambda>y. key_cmp (v_avl s) key y < 0) node ys"
    if "set ys \<subseteq> set xs" for ys
    using that node by (intro insert_before_cong) auto
  show ?thesis
  proof (cases "find (\<lambda>y. key_cmp (v_avl s) key y = 0) xs")
    case None
    then have new: "\<forall>y\<in>set xs. key_cmp ?t key y \<noteq> 0" using node by (auto simp: find_None_iff)
    obtain t where t: "avl_insert ?t node = Some (t, 0)" "av_key t = av_key ?t"
      "vlist_wf (?s\<lparr>v_avl := t\<rparr>) (insert_before (\<lambda>y. key_cmp ?t key y < 0) node xs)"
      using vlist_wf_insert [OF wf1 node(1)] node new by auto
    then show ?thesis using found None cb ins [of xs]
      by (intro exI [of _ "?s\<lparr>v_avl := t, v_world := f node 0 (v_world s)\<rparr>"]
        exI [of _ "insert_before (\<lambda>y. key_cmp (v_avl s) key y < 0) node xs"])
        (simp add: vlist_add_def cb_is_def vlist_wf_def)
  next
    case (Some old)
    then have old: "old \<in> set xs" "key_cmp (v_avl s) key old = 0" by (auto simp: find_Some_iff)
    then have nz: "old \<noteq> 0" "old \<noteq> node" using repr_nonzero [OF w(1)] node by auto
    show ?thesis
    proof (cases "v_keep_old s \<or> v_no_delete s")
      case True
      let ?s' = "?s\<lparr>v_node_version := (v_node_version ?s)(old := v_version s), v_world := f node old (v_world s)\<rparr>"
      have "vlist_wf ?s' xs" using wf1 by (simp add: vlist_wf_def)
      then show ?thesis using found Some True cb nz
        by (intro exI [of _ ?s'] exI [of _ xs]) (simp add: vlist_add_def cb_is_def)
    next
      case False
      obtain t where t: "avl_delete ?t old = Some t" "vlist_wf (?s\<lparr>v_avl := t\<rparr>) (remove1 old xs)"
        "av_key t = av_key ?t" "av_comp t = av_comp ?t" "av_head t = av_head ?t"
        using vlist_wf_delete [OF wf1 old(1)] by auto
      have d: "distinct xs" using repr_distinct [OF w(1)] by simp
      have new: "key_cmp t (av_key t node) y \<noteq> 0" if y: "y \<in> set (remove1 old xs)" for y
      proof
        assume "key_cmp t (av_key t node) y = 0"
        moreover have "y \<in> set xs" "y \<noteq> old" using y d by auto
        moreover from this have "y \<noteq> node" using node by auto
        ultimately have "key_cmp (v_avl s) key y = 0" using t by simp
        then have "key_cmp (v_avl s) (av_key (v_avl s) old) y = 0"
          using comparator.cmp_eq_left [OF w(2), of key "av_key (v_avl s) old" "av_key (v_avl s) y"] old(2)
          by (simp add: sgn_if split: if_splits)
        then show False using wf \<open>y \<in> set xs\<close> \<open>y \<noteq> old\<close> old(1) by (auto simp: vlist_wf_def)
      qed
      obtain u where u: "avl_insert t node = Some (u, 0)" "av_key u = av_key t"
        "vlist_wf (?s\<lparr>v_avl := u\<rparr>) (insert_before (\<lambda>y. key_cmp t (av_key t node) y < 0) node (remove1 old xs))"
        using vlist_wf_insert [OF t(2) node(1)] node new t(5) set_remove1_subset [of old xs] by auto
      have e: "insert_before (\<lambda>y. key_cmp t (av_key t node) y < 0) node (remove1 old xs) =
          insert_before (\<lambda>y. key_cmp (v_avl s) key y < 0) node (remove1 old xs)"
        using ins [of "remove1 old xs"] set_remove1_subset [of old xs] t by simp
      show ?thesis using found Some False cb nz t(1,3) u e
        by (intro exI [of _ "?s\<lparr>v_avl := u, v_world := f node old (v_world s)\<rparr>"]
          exI [of _ "insert_before (\<lambda>y. key_cmp (v_avl s) key y < 0) node (remove1 old xs)"])
          (simp add: vlist_add_def cb_is_def vlist_wf_def)
    qed
  qed
qed

section \<open>Flushing\<close>

lemma flush_keep_filter:
  "vlist_current (s\<lparr>v_avl := t, v_world := w\<rparr>) = vlist_current s"
  by (simp add: vlist_current_def fun_eq_iff)

lemma vlist_delete_step:
  assumes wf: "vlist_wf s xs" and cb: "cb_is update f" and x: "x \<in> set xs"
  shows "\<exists>t. vlist_delete update x s = Some (s\<lparr>v_avl := t, v_world := f 0 x (v_world s)\<rparr>) \<and>
    vlist_wf (s\<lparr>v_avl := t\<rparr>) (if v_no_delete s then xs else remove1 x xs) \<and> av_head t = av_head (v_avl s)"
proof (cases "v_no_delete s")
  case True
  then show ?thesis using wf cb by (intro exI [of _ "v_avl s"]) (simp add: vlist_delete_def cb_is_def)
next
  case False
  then show ?thesis using vlist_wf_delete [OF wf x] cb by (auto simp: vlist_delete_def cb_is_def)
qed

lemma vlist_walk_position:
  assumes "vlist_wf s (us @ rest)"
  shows "prv (av_list (v_avl s)) (hd (rest @ [av_head (v_avl s)])) = last (av_head (v_avl s) # us)"
    "avl_last_element (v_avl s) = last (av_head (v_avl s) # us @ rest)"
    "rest = e # es \<Longrightarrow> avl_next_element (v_avl s) e = hd (es @ [av_head (v_avl s)])"
    "rest \<noteq> [] \<Longrightarrow> last (av_head (v_avl s) # us) \<noteq> last (av_head (v_avl s) # us @ rest)"
proof -
  have d: "dll (av_list (v_avl s)) (av_head (v_avl s)) (us @ rest)"
    using repr_dll [of "v_avl s"] assms by (auto simp: vlist_wf_def)
  show "prv (av_list (v_avl s)) (hd (rest @ [av_head (v_avl s)])) = last (av_head (v_avl s) # us)"
    by (rule dll_prv_at [OF d])
  show "avl_last_element (v_avl s) = last (av_head (v_avl s) # us @ rest)"
    using dll_ends(2) [OF d] by (simp add: avl_last_element_def)
  show "avl_next_element (v_avl s) e = hd (es @ [av_head (v_avl s)])" if "rest = e # es"
    using dll_nxt_at [of "av_list (v_avl s)" "av_head (v_avl s)" "us @ [e]" es] d that by (simp add: avl_next_element_def)
  assume "rest \<noteq> []"
  then have "last rest \<in> set rest" by simp
  moreover have "last (av_head (v_avl s) # us) \<in> set (av_head (v_avl s) # us)" by (rule last_in_set) simp
  moreover have "distinct (av_head (v_avl s) # us @ rest)" using d by (simp add: dll_def)
  then have "set (av_head (v_avl s) # us) \<inter> set rest = {}" by auto
  ultimately show "last (av_head (v_avl s) # us) \<noteq> last (av_head (v_avl s) # us @ rest)"
    using \<open>rest \<noteq> []\<close> by (metis disjoint_iff last_ConsR last_appendR append_is_Nil_conv)
qed

lemma vlist_flush_walk:
  assumes cb: "cb_is update f"
  shows "vlist_wf s (us @ rest) \<Longrightarrow>
    \<exists>t. vlist_flush_loop update s (hd (rest @ [av_head (v_avl s)])) (avl_next_element (v_avl s) (hd (rest @ [av_head (v_avl s)]))) =
        Some (s\<lparr>v_avl := t, v_world := fold (f 0) (filter (\<lambda>n. \<not> vlist_current s n) rest) (v_world s)\<rparr>) \<and>
      vlist_wf (s\<lparr>v_avl := t\<rparr>) (us @ (if v_no_delete s then rest else filter (vlist_current s) rest))"
proof (induction rest arbitrary: us s)
  case Nil
  note pos = vlist_walk_position [OF Nil]
  show ?case using Nil pos(1,2) by (intro exI [of _ "v_avl s"]) (subst vlist_flush_loop.simps, simp)
next
  case (Cons e rest)
  note pos = vlist_walk_position [OF Cons.prems]
  have ne: "prv (av_list (v_avl s)) e \<noteq> avl_last_element (v_avl s)" using pos(1,2,4) by simp
  have nx: "avl_next_element (v_avl s) e = hd (rest @ [av_head (v_avl s)])" using pos(3) by simp
  show ?case
  proof (cases "vlist_current s e")
    case True
    then show ?thesis using Cons.IH [of s "us @ [e]"] Cons.prems ne nx
      by (subst vlist_flush_loop.simps) (auto split: if_splits)
  next
    case False
    obtain t where t: "vlist_delete update e s = Some (s\<lparr>v_avl := t, v_world := f 0 e (v_world s)\<rparr>)"
      "vlist_wf (s\<lparr>v_avl := t\<rparr>) (if v_no_delete s then us @ e # rest else remove1 e (us @ e # rest))"
      "av_head t = av_head (v_avl s)"
      using vlist_delete_step [OF Cons.prems cb, of e] by auto
    have "e \<notin> set us" using repr_distinct Cons.prems by (fastforce simp: vlist_wf_def)
    then have r: "remove1 e (us @ e # rest) = us @ rest" by (simp add: remove1_append)
    let ?s = "s\<lparr>v_avl := t, v_world := f 0 e (v_world s)\<rparr>"
    let ?us = "if v_no_delete s then us @ [e] else us"
    have "vlist_wf ?s (?us @ rest)"
      using t(2) r by (simp add: vlist_wf_def split: if_splits)
    from Cons.IH [OF this] show ?thesis
      using False t(1,3) ne nx
      by (subst vlist_flush_loop.simps) (auto simp: flush_keep_filter vlist_wf_def split: if_splits)
  qed
qed

text \<open>
  C31: \<^verbatim>\<open>vlist_flush\<close> returns; the callback gets, once and in order, every node whose version is neither
  that of the tree nor -1, and unless \<^verbatim>\<open>no_delete\<close> is set exactly these leave the tree.
  \<^verbatim>\<open>vlist_flush_all\<close> does so with every node.
\<close>

theorem vlist_flush_correct:
  assumes "vlist_wf s xs" "cb_is update f"
  shows "(\<exists>s'. vlist_flush update s = Some s' \<and>
      v_world s' = fold (f 0) (filter (\<lambda>n. \<not> vlist_current s n) xs) (v_world s) \<and>
      vlist_wf s' (if v_no_delete s then xs else filter (vlist_current s) xs)) \<and>
    (\<exists>s'. vlist_flush_all update s = Some s' \<and> v_world s' = fold (f 0) xs (v_world s) \<and>
      vlist_wf s' (if v_no_delete s then xs else []))"
proof -
  have flush: "\<exists>s'. vlist_flush update s = Some s' \<and>
      v_world s' = fold (f 0) (filter (\<lambda>n. \<not> vlist_current s n) xs) (v_world s) \<and>
      vlist_wf s' (if v_no_delete s then xs else filter (vlist_current s) xs)" if wf: "vlist_wf s xs" for s
  proof -
    have "avl_first_element (v_avl s) = hd (xs @ [av_head (v_avl s)])"
      using dll_ends(1) [OF repr_dll, of "v_avl s" xs] wf
      by (simp add: avl_first_element_def vlist_wf_def split: list.splits)
    then obtain t where t: "vlist_flush update s = Some (s\<lparr>v_avl := t, v_world := fold (f 0) (filter (\<lambda>n. \<not> vlist_current s n) xs) (v_world s)\<rparr>)"
      "vlist_wf (s\<lparr>v_avl := t\<rparr>) (if v_no_delete s then xs else filter (vlist_current s) xs)"
      using vlist_flush_walk [OF assms(2), of s "[]" xs] wf by (auto simp: vlist_flush_def Let_def)
    then show ?thesis by (simp add: vlist_wf_def)
  qed
  have wf': "vlist_wf (s\<lparr>v_version := -1\<rparr>) xs" using assms(1) by (simp add: vlist_wf_def)
  have "\<not> vlist_current (s\<lparr>v_version := -1\<rparr>) n" for n by (simp add: vlist_current_def)
  then show ?thesis using flush [OF assms(1)] flush [OF wf']
    by (auto simp: vlist_flush_all_def split: if_splits)
qed

section \<open>Example\<close>

definition vlist3 :: "(int, (ptr \<times> ptr) list) vlist" where
  "vlist3 = \<lparr>v_avl = tree3\<lparr>av_allow_dups := False\<rparr>, v_keep_old = False, v_no_delete = False, v_version = 2,
     v_node_version = (\<lambda>_. 1)(3 := 2), v_world = []\<rparr>"

lemma vlist3_wf: "vlist_wf vlist3 [2, 3, 4]"
proof -
  have "avl_repr (tree3\<lparr>av_allow_dups := False\<rparr>) [2, 3, 4]"
  proof -
    have "avl_shape (tree3\<lparr>av_allow_dups := False\<rparr>) (Node (Node Leaf 2 Leaf) 3 (Node Leaf 4 Leaf))"
      by (simp add: avl_shape_def tree3_def)
    moreover have "dll (av_list tree3) 1 [2, 3, 4]"
      using list_add_tail_dll [OF heap23_dll, of 4] by (simp add: tree3_def)
    ultimately have "avl_groups (tree3\<lparr>av_allow_dups := False\<rparr>) [(2, []), (3, []), (4, [])]"
      unfolding avl_groups_def groups_ok_def
      by (intro conjI exI [of _ "Node (Node Leaf 2 Leaf) 3 (Node Leaf 4 Leaf)"]) (simp_all add: tree3_def)
    then show ?thesis unfolding avl_repr_def by (intro exI [of _ "[(2, []), (3, []), (4, [])]"]) simp
  qed
  then show ?thesis using tree3_comparator by (simp add: vlist_wf_def vlist3_def tree3_def)
qed

definition log_cb :: "(int, (ptr \<times> ptr) list) vlist_update_cb" where
  "log_cb new old s = Some (s\<lparr>v_world := (new, old) # v_world s\<rparr>)"

lemma log_cb_is: "cb_is log_cb (\<lambda>new old w. (new, old) # w)"
  by (simp add: cb_is_def log_cb_def)

lemma vlist_add_correct_witness:
  "\<exists>s'. vlist_add log_cb 9 3 vlist3 = Some s' \<and> vlist_wf s' [2, 9, 4] \<and> v_world s' = [(9, 3)] \<and> v_node_version s' 9 = 2"
  using vlist_add_correct [OF vlist3_wf log_cb_is, of 9 3]
  by (auto simp: vlist3_def tree3_def insert_before_def)

lemma vlist_flush_correct_witness:
  "\<exists>s'. vlist_flush log_cb vlist3 = Some s' \<and> vlist_wf s' [3] \<and> v_world s' = [(0, 4), (0, 2)]"
  using vlist_flush_correct [OF vlist3_wf log_cb_is, THEN conjunct1]
  by (auto simp: vlist_current_def vlist3_def)

end
