(* ===== verification/Uloop.thy ===== *)
theory Uloop
  imports ListHead "HOL-Library.Signed_Division"
begin

text \<open>
  \<^verbatim>\<open>uloop.h\<close>, \<^verbatim>\<open>uloop.c\<close>: the event loop (the \<^verbatim>\<open>epoll\<close> variant). The static variables, the objects the
  user registers and the signal dispositions of the process are one state; the kernel and the user's
  callbacks are functions on the state that the operations take as a parameter.
\<close>

section \<open>State\<close>

record timeval =
  tv_sec :: int
  tv_usec :: int

text \<open>The values of \<^verbatim>\<open>sa_handler\<close>: the two handlers of the loop, the defaults, and those of others.\<close>

datatype handler = SIG_DFL | SIG_IGN | Handle_sigint | Handle_sigchld | Other_handler nat

record sigaction =
  sa_handler :: handler
  sa_flags :: u32

definition timeouts :: ptr where "timeouts = 1"
definition processes :: ptr where "processes = 2"
definition SIGINT :: nat where "SIGINT = 2"
definition SIGPIPE :: nat where "SIGPIPE = 13"
definition SIGTERM :: nat where "SIGTERM = 15"
definition SIGCHLD :: nat where "SIGCHLD = 17"

definition ULOOP_READ :: u32 where "ULOOP_READ = 1"
definition ULOOP_WRITE :: u32 where "ULOOP_WRITE = 2"
definition ULOOP_EDGE_TRIGGER :: u32 where "ULOOP_EDGE_TRIGGER = 4"
definition ULOOP_BLOCKING :: u32 where "ULOOP_BLOCKING = 8"
definition ULOOP_EVENT_MASK :: u32 where "ULOOP_EVENT_MASK = ULOOP_READ OR ULOOP_WRITE"
definition ULOOP_EVENT_BUFFERED :: u32 where "ULOOP_EVENT_BUFFERED = 16"
definition ULOOP_ERROR_CB :: u32 where "ULOOP_ERROR_CB = 64"
definition ULOOP_MAX_EVENTS :: nat where "ULOOP_MAX_EVENTS = 10"

definition EPOLLIN :: u32 where "EPOLLIN = 1"
definition EPOLLOUT :: u32 where "EPOLLOUT = 4"
definition EPOLLERR :: u32 where "EPOLLERR = 8"
definition EPOLLHUP :: u32 where "EPOLLHUP = 0x10"
definition EPOLLRDHUP :: u32 where "EPOLLRDHUP = 0x2000"
definition EPOLLET :: u32 where "EPOLLET = 0x80000000"

text \<open>
  Timers, processes and descriptors are known by the address of their object; \<^verbatim>\<open>cb\<close> fields tell only
  whether the pointer is set. The stack of running descriptor callbacks has its top first; a frame
  holds the descriptor (0 for NULL) and the buffered events. \<open>'w\<close> is everything outside the loop.
\<close>

record 'w uloop =
  ul_links :: list_heap
  t_pending :: "ptr \<Rightarrow> bool"
  t_cb :: "ptr \<Rightarrow> bool"
  t_time :: "ptr \<Rightarrow> timeval"
  p_pending :: "ptr \<Rightarrow> bool"
  p_pid :: "ptr \<Rightarrow> int"
  fd_cb :: "ptr \<Rightarrow> bool"
  fd_fd :: "ptr \<Rightarrow> int"
  fd_eof :: "ptr \<Rightarrow> bool"
  fd_error :: "ptr \<Rightarrow> bool"
  fd_registered :: "ptr \<Rightarrow> bool"
  fd_flags :: "ptr \<Rightarrow> u8"
  fd_stack :: "(ptr \<times> u32) list"
  cur_fds :: "(ptr \<times> u32) list"
  cur_fd :: nat
  cur_nfds :: nat
  poll_fd :: int
  uloop_cancelled :: bool
  do_sigchld :: bool
  recursive_calls :: int
  sigactions :: "nat \<Rightarrow> sigaction"
  old_sigaction :: "nat \<Rightarrow> sigaction"
  ul_world :: 'w

datatype epoll_op = EPOLL_CTL_ADD | EPOLL_CTL_MOD | EPOLL_CTL_DEL

text \<open>
  The kernel: the monotonic clock, \<^verbatim>\<open>waitpid(-1, &ret, WNOHANG)\<close> (process id and status), the calls on
  the epoll descriptor, \<^verbatim>\<open>fcntl\<close> and \<^verbatim>\<open>close\<close>; \<^verbatim>\<open>epoll_wait\<close> also tells which signals arrived while the
  process slept. The callbacks get the whole state, so they may call the operations of the loop.
\<close>

record 'w env =
  clock_gettime :: "'w \<Rightarrow> timeval \<times> 'w"
  waitpid :: "'w \<Rightarrow> (int \<times> int) \<times> 'w"
  epoll_create :: "'w \<Rightarrow> int \<times> 'w"
  epoll_ctl :: "int \<Rightarrow> epoll_op \<Rightarrow> int \<Rightarrow> u32 \<times> ptr \<Rightarrow> 'w \<Rightarrow> int \<times> 'w"
  epoll_wait :: "int \<Rightarrow> int \<Rightarrow> 'w \<Rightarrow> (int \<times> (u32 \<times> ptr) list) \<times> nat list \<times> 'w"
  set_nonblock :: "int \<Rightarrow> 'w \<Rightarrow> 'w"
  set_cloexec :: "int \<Rightarrow> 'w \<Rightarrow> 'w"
  close_fd :: "int \<Rightarrow> 'w \<Rightarrow> 'w"
  call_timer :: "ptr \<Rightarrow> 'w uloop \<Rightarrow> 'w uloop option"
  call_process :: "ptr \<Rightarrow> int \<Rightarrow> 'w uloop \<Rightarrow> 'w uloop option"
  call_fd :: "ptr \<Rightarrow> u32 \<Rightarrow> 'w uloop \<Rightarrow> 'w uloop option"

text \<open>The initial values of the static variables.\<close>

definition uloop_static :: "'w uloop \<Rightarrow> 'w uloop" where
  "uloop_static s = s\<lparr>ul_links := INIT_LIST_HEAD timeouts (INIT_LIST_HEAD processes (ul_links s)),
     fd_stack := [], cur_fds := replicate ULOOP_MAX_EVENTS (0, 0), cur_fd := 0, cur_nfds := 0,
     poll_fd := -1, uloop_cancelled := False, do_sigchld := False, recursive_calls := 0\<rparr>"

section \<open>File descriptors\<close>

definition uloop_init :: "'w env \<Rightarrow> 'w uloop \<Rightarrow> int \<times> 'w uloop" where
  "uloop_init env s =
     (if poll_fd s \<ge> 0 then (0, s)
      else let (fd, w) = epoll_create env (ul_world s); s = s\<lparr>poll_fd := fd, ul_world := w\<rparr> in
        if fd < 0 then (-1, s) else (0, s\<lparr>ul_world := set_cloexec env fd w\<rparr>))"

definition register_poll :: "'w env \<Rightarrow> ptr \<Rightarrow> u32 \<Rightarrow> 'w uloop \<Rightarrow> int \<times> 'w uloop" where
  "register_poll env fd flags s =
     (let op' = if fd_registered s fd then EPOLL_CTL_MOD else EPOLL_CTL_ADD;
          ev = 0;
          ev = if flags AND ULOOP_READ \<noteq> 0 then ev OR (EPOLLIN OR EPOLLRDHUP) else ev;
          ev = if flags AND ULOOP_WRITE \<noteq> 0 then ev OR EPOLLOUT else ev;
          ev = if flags AND ULOOP_EDGE_TRIGGER \<noteq> 0 then ev OR EPOLLET else ev;
          s = s\<lparr>fd_flags := (fd_flags s)(fd := ucast flags)\<rparr>;
          (ret, w) = epoll_ctl env (poll_fd s) op' (fd_fd s fd) (ev, fd) (ul_world s)
      in (ret, s\<lparr>ul_world := w\<rparr>))"

definition uloop_fd_delete' :: "'w env \<Rightarrow> ptr \<Rightarrow> 'w uloop \<Rightarrow> int \<times> 'w uloop" where
  "uloop_fd_delete' env sock s =
     (let s = s\<lparr>fd_flags := (fd_flags s)(sock := 0)\<rparr>;
          (ret, w) = epoll_ctl env (poll_fd s) EPOLL_CTL_DEL (fd_fd s sock) (0, 0) (ul_world s)
      in (ret, s\<lparr>ul_world := w\<rparr>))"

text \<open>The walk over the frames; \<^const>\<open>None\<close> if no frame belongs to \<open>fd\<close>.\<close>

primrec stack_event :: "ptr \<Rightarrow> int \<Rightarrow> (ptr \<times> u32) list \<Rightarrow> (ptr \<times> u32) list option" where
  "stack_event fd events [] = None"
| "stack_event fd events (cur # next') =
     (if fst cur \<noteq> fd then map_option ((#) cur) (stack_event fd events next')
      else if events < 0 then Some ((0, snd cur) # next')
      else Some ((fst cur, snd cur OR (word_of_int events OR ULOOP_EVENT_BUFFERED)) # next'))"

definition uloop_fd_stack_event :: "ptr \<Rightarrow> int \<Rightarrow> 'w uloop \<Rightarrow> bool \<times> 'w uloop" where
  "uloop_fd_stack_event fd events s =
     (if ucast (fd_flags s fd) AND ULOOP_EDGE_TRIGGER = 0 then (False, s)
      else case stack_event fd events (fd_stack s) of
          None \<Rightarrow> (False, s)
        | Some st \<Rightarrow> (True, s\<lparr>fd_stack := st\<rparr>))"

definition forget_fd :: "ptr \<Rightarrow> ptr \<times> u32 \<Rightarrow> ptr \<times> u32" where
  "forget_fd fd cur = (if fst cur \<noteq> fd then cur else (0, snd cur))"

definition uloop_fd_delete :: "'w env \<Rightarrow> ptr \<Rightarrow> 'w uloop \<Rightarrow> int \<times> 'w uloop" where
  "uloop_fd_delete env fd s =
     (let i = cur_fd s; n = cur_nfds s; xs = cur_fds s;
          s = s\<lparr>cur_fds := take i xs @ map (forget_fd fd) (take n (drop i xs)) @ drop n (drop i xs)\<rparr>
      in if \<not> fd_registered s fd then (0, s)
         else let s = s\<lparr>fd_registered := (fd_registered s)(fd := False)\<rparr>;
                  (_, s) = uloop_fd_stack_event fd (-1) s
              in uloop_fd_delete' env fd s)"

definition uloop_fd_add :: "'w env \<Rightarrow> ptr \<Rightarrow> u32 \<Rightarrow> 'w uloop \<Rightarrow> int \<times> 'w uloop" where
  "uloop_fd_add env sock flags s =
     (if flags AND (ULOOP_READ OR ULOOP_WRITE) = 0 then uloop_fd_delete env sock s
      else let s = (if \<not> fd_registered s sock \<and> flags AND ULOOP_BLOCKING = 0
                    then s\<lparr>ul_world := set_nonblock env (fd_fd s sock) (ul_world s)\<rparr> else s);
               (ret, s) = register_poll env sock flags s
           in if ret < 0 then (ret, s)
              else (ret, s\<lparr>fd_registered := (fd_registered s)(sock := True), fd_eof := (fd_eof s)(sock := False),
                           fd_error := (fd_error s)(sock := False)\<rparr>))"

text \<open>One event of \<^verbatim>\<open>uloop_fetch_events\<close>, stored at index \<open>n\<close> of \<^verbatim>\<open>cur_fds\<close>.\<close>

definition fetch_event :: "'w env \<Rightarrow> nat \<Rightarrow> u32 \<times> ptr \<Rightarrow> 'w uloop \<Rightarrow> 'w uloop option" where
  "fetch_event env n event s =
     (let (events, u) = event in
      do { cur \<leftarrow> rd (cur_fds s) n;
           let s = s\<lparr>cur_fds := (cur_fds s)[n := (u, snd cur)]\<rparr> in
           if u = 0 then Some s
           else
             let s = (if events AND (EPOLLERR OR EPOLLHUP) \<noteq> 0
                      then let s = s\<lparr>fd_error := (fd_error s)(u := True)\<rparr> in
                           if ucast (fd_flags s u) AND ULOOP_ERROR_CB = 0 then snd (uloop_fd_delete env u s) else s
                      else s)
             in if events AND (EPOLLRDHUP OR EPOLLIN OR EPOLLOUT OR EPOLLERR OR EPOLLHUP) = 0
                then Some (s\<lparr>cur_fds := (cur_fds s)[n := (0, snd cur)]\<rparr>)
                else
                  let s = (if events AND EPOLLRDHUP \<noteq> 0 then s\<lparr>fd_eof := (fd_eof s)(u := True)\<rparr> else s);
                      ev = 0;
                      ev = if events AND EPOLLIN \<noteq> 0 then ev OR ULOOP_READ else ev;
                      ev = if events AND EPOLLOUT \<noteq> 0 then ev OR ULOOP_WRITE else ev
                  in Some (s\<lparr>cur_fds := (cur_fds s)[n := (fst (cur_fds s ! n), ev)]\<rparr>) })"

primrec fetch_loop :: "'w env \<Rightarrow> nat \<Rightarrow> (u32 \<times> ptr) list \<Rightarrow> 'w uloop \<Rightarrow> 'w uloop option" where
  "fetch_loop env n [] s = Some s"
| "fetch_loop env n (e # es) s = do { s \<leftarrow> fetch_event env n e s; fetch_loop env (n + 1) es s }"

text \<open>A signal that arrives runs the handler of the loop if that is installed.\<close>

definition deliver_signal :: "nat \<Rightarrow> 'w uloop \<Rightarrow> 'w uloop" where
  "deliver_signal signo s =
     (case sa_handler (sigactions s signo) of
        Handle_sigint \<Rightarrow> s\<lparr>uloop_cancelled := True\<rparr>
      | Handle_sigchld \<Rightarrow> s\<lparr>do_sigchld := True\<rparr>
      | _ \<Rightarrow> s)"

definition uloop_fetch_events :: "'w env \<Rightarrow> int \<Rightarrow> 'w uloop \<Rightarrow> (int \<times> 'w uloop) option" where
  "uloop_fetch_events env timeout s =
     (let ((nfds, events), sigs, w) = epoll_wait env (poll_fd s) timeout (ul_world s);
          s = fold deliver_signal sigs (s\<lparr>ul_world := w\<rparr>)
      in do { s \<leftarrow> fetch_loop env 0 (take (nat nfds) events) s; Some (nfds, s) })"

text \<open>
  The do-while around the callback of a descriptor. Only this code changes the depth of the stack, so
  when a callback returns the frame pushed for it is the top again.
\<close>

partial_function (option) fd_cb_loop :: "'w env \<Rightarrow> ptr \<Rightarrow> u32 \<Rightarrow> 'w uloop \<Rightarrow> 'w uloop option" where
  "fd_cb_loop env fd events s =
     (case fd_stack s of
        [] \<Rightarrow> None
      | stack_cur # next' \<Rightarrow>
          if \<not> fd_cb s fd then None
          else do { s \<leftarrow> call_fd env fd events (s\<lparr>fd_stack := (fst stack_cur, 0) # next'\<rparr>);
                    case fd_stack s of
                      [] \<Rightarrow> None
                    | stack_cur # next' \<Rightarrow>
                        let events = snd stack_cur AND ULOOP_EVENT_MASK in
                        if fst stack_cur \<noteq> 0 \<and> events \<noteq> 0 then fd_cb_loop env fd events s
                        else Some (s\<lparr>fd_stack := next'\<rparr>) })"

partial_function (option) run_events_loop :: "'w env \<Rightarrow> 'w uloop \<Rightarrow> 'w uloop option" where
  "run_events_loop env s =
     (if cur_nfds s = 0 then Some s
      else do { cur \<leftarrow> rd (cur_fds s) (cur_fd s);
                let s = s\<lparr>cur_fd := cur_fd s + 1, cur_nfds := cur_nfds s - 1\<rparr>; fd = fst cur; events = snd cur in
                if fd = 0 then run_events_loop env s
                else if \<not> fd_cb s fd then run_events_loop env s
                else let (buffered, s) = uloop_fd_stack_event fd (sint events) s in
                  if buffered then run_events_loop env s
                  else fd_cb_loop env fd events (s\<lparr>fd_stack := (fd, 0) # fd_stack s\<rparr>) })"

definition uloop_run_events :: "'w env \<Rightarrow> int \<Rightarrow> 'w uloop \<Rightarrow> 'w uloop option" where
  "uloop_run_events env timeout s =
     do { s \<leftarrow> (if cur_nfds s = 0
               then do { (nfds, s) \<leftarrow> uloop_fetch_events env timeout (s\<lparr>cur_fd := 0\<rparr>);
                         Some (s\<lparr>cur_nfds := nat nfds\<rparr>) }
               else Some s);
          run_events_loop env s }"

section \<open>Timers\<close>

text \<open>\<^verbatim>\<open>long\<close> values are exact here; the conversion of the difference to \<^verbatim>\<open>int\<close> is not.\<close>

definition tv_diff :: "timeval \<Rightarrow> timeval \<Rightarrow> int" where
  "tv_diff t1 t2 = c_int ((tv_sec t1 - tv_sec t2) * 1000 + (tv_usec t1 - tv_usec t2) sdiv 1000)"

definition uloop_timeout_add :: "ptr \<Rightarrow> 'w uloop \<Rightarrow> (int \<times> 'w uloop) option" where
  "uloop_timeout_add timeout s =
     (if t_pending s timeout then Some (-1, s)
      else do { h \<leftarrow> list_insert_before (\<lambda>tmp. tv_diff (t_time s tmp) (t_time s timeout) > 0) timeout timeouts (ul_links s);
                Some (0, s\<lparr>ul_links := h, t_pending := (t_pending s)(timeout := True)\<rparr>) })"

definition uloop_timeout_cancel :: "ptr \<Rightarrow> 'w uloop \<Rightarrow> int \<times> 'w uloop" where
  "uloop_timeout_cancel timeout s =
     (if \<not> t_pending s timeout then (-1, s)
      else (0, s\<lparr>ul_links := list_del timeout (ul_links s), t_pending := (t_pending s)(timeout := False)\<rparr>))"

definition uloop_gettime :: "'w env \<Rightarrow> 'w uloop \<Rightarrow> timeval \<times> 'w uloop" where
  "uloop_gettime env s = (let (tv, w) = clock_gettime env (ul_world s) in (tv, s\<lparr>ul_world := w\<rparr>))"

definition timeout_at :: "timeval \<Rightarrow> int \<Rightarrow> timeval" where
  "timeout_at now msecs =
     (let time = now\<lparr>tv_sec := tv_sec now + msecs sdiv 1000, tv_usec := tv_usec now + (msecs smod 1000) * 1000\<rparr>
      in if tv_usec time > 1000000
         then time\<lparr>tv_sec := tv_sec time + 1, tv_usec := tv_usec time - 1000000\<rparr> else time)"

definition uloop_timeout_set :: "'w env \<Rightarrow> ptr \<Rightarrow> int \<Rightarrow> 'w uloop \<Rightarrow> (int \<times> 'w uloop) option" where
  "uloop_timeout_set env timeout msecs s =
     (let s = (if t_pending s timeout then snd (uloop_timeout_cancel timeout s) else s);
          (now, s) = uloop_gettime env s;
          s = s\<lparr>t_time := (t_time s)(timeout := timeout_at now msecs)\<rparr>
      in uloop_timeout_add timeout s)"

definition uloop_timeout_remaining :: "'w env \<Rightarrow> ptr \<Rightarrow> 'w uloop \<Rightarrow> int \<times> 'w uloop" where
  "uloop_timeout_remaining env timeout s =
     (if \<not> t_pending s timeout then (-1, s)
      else let (now, s) = uloop_gettime env s in (tv_diff (t_time s timeout) now, s))"

definition uloop_get_next_timeout :: "timeval \<Rightarrow> 'w uloop \<Rightarrow> int" where
  "uloop_get_next_timeout tv s =
     (if list_empty timeouts (ul_links s) then -1
      else let timeout = nxt (ul_links s) timeouts; diff = tv_diff (t_time s timeout) tv
           in if diff < 0 then 0 else diff)"

partial_function (option) uloop_process_timeouts :: "'w env \<Rightarrow> timeval \<Rightarrow> 'w uloop \<Rightarrow> 'w uloop option" where
  "uloop_process_timeouts env tv s =
     (if list_empty timeouts (ul_links s) then Some s
      else let t = nxt (ul_links s) timeouts in
        if tv_diff (t_time s t) tv > 0 then Some s
        else let s = snd (uloop_timeout_cancel t s) in
          do { s \<leftarrow> (if t_cb s t then call_timer env t s else Some s);
               uloop_process_timeouts env tv s })"

section \<open>Processes\<close>

definition uloop_process_add :: "ptr \<Rightarrow> 'w uloop \<Rightarrow> (int \<times> 'w uloop) option" where
  "uloop_process_add p s =
     (if p_pending s p then Some (-1, s)
      else do { h \<leftarrow> list_insert_before (\<lambda>tmp. p_pid s tmp > p_pid s p) p processes (ul_links s);
                Some (0, s\<lparr>ul_links := h, p_pending := (p_pending s)(p := True)\<rparr>) })"

definition uloop_process_delete :: "ptr \<Rightarrow> 'w uloop \<Rightarrow> int \<times> 'w uloop" where
  "uloop_process_delete p s =
     (if \<not> p_pending s p then (-1, s)
      else (0, s\<lparr>ul_links := list_del p (ul_links s), p_pending := (p_pending s)(p := False)\<rparr>))"

text \<open>
  The \<^verbatim>\<open>list_for_each_entry_safe\<close> over the processes: \<open>tmp\<close> is fetched before the body runs. A callback
  that deletes the process \<open>tmp\<close> clears its links, and the walk then goes on with \<open>tmp\<close> and follows a
  NULL pointer behind it, which is a fault.
\<close>

partial_function (option) process_scan :: "'w env \<Rightarrow> int \<Rightarrow> int \<Rightarrow> 'w uloop \<Rightarrow> ptr \<Rightarrow> ptr \<Rightarrow> 'w uloop option" where
  "process_scan env pid ret s p tmp =
     (if p = processes then Some s
      else if p_pid s p < pid
      then if tmp = 0 then None else process_scan env pid ret s tmp (nxt (ul_links s) tmp)
      else if p_pid s p > pid then Some s
      else let s = snd (uloop_process_delete p s) in
        do { s \<leftarrow> call_process env p ret s;
             if tmp = 0 then None else process_scan env pid ret s tmp (nxt (ul_links s) tmp) })"

partial_function (option) handle_processes_loop :: "'w env \<Rightarrow> 'w uloop \<Rightarrow> 'w uloop option" where
  "handle_processes_loop env s =
     (let ((pid, ret), w) = waitpid env (ul_world s); s = s\<lparr>ul_world := w\<rparr> in
      if pid \<le> 0 then Some s
      else let p = nxt (ul_links s) processes in
        do { s \<leftarrow> process_scan env pid ret s p (nxt (ul_links s) p);
             handle_processes_loop env s })"

definition uloop_handle_processes :: "'w env \<Rightarrow> 'w uloop \<Rightarrow> 'w uloop option" where
  "uloop_handle_processes env s = handle_processes_loop env (s\<lparr>do_sigchld := False\<rparr>)"

section \<open>Signals\<close>

text \<open>Of the \<^verbatim>\<open>old\<close> variables of \<^verbatim>\<open>uloop_setup_signals\<close> there is one for each signal with a handler.\<close>

definition uloop_install_handler :: "nat \<Rightarrow> handler \<Rightarrow> bool \<Rightarrow> 'w uloop \<Rightarrow> 'w uloop" where
  "uloop_install_handler signum hnd add s =
     (let sa = sigactions s signum in
      if add then
        if sa_handler sa = SIG_DFL
        then s\<lparr>old_sigaction := (old_sigaction s)(signum := sa),
               sigactions := (sigactions s)(signum := sa\<lparr>sa_handler := hnd, sa_flags := 0\<rparr>)\<rparr>
        else s
      else if sa_handler sa = hnd
        then s\<lparr>sigactions := (sigactions s)(signum := old_sigaction s signum)\<rparr>
        else s)"

text \<open>\<^verbatim>\<open>new_handler\<close> is a pointer, and \<^verbatim>\<open>SIG_DFL\<close> is the NULL pointer.\<close>

definition uloop_ignore_signal :: "nat \<Rightarrow> bool \<Rightarrow> 'w uloop \<Rightarrow> 'w uloop" where
  "uloop_ignore_signal signum ignore s =
     (let sa = sigactions s signum;
          NULL = SIG_DFL;
          new_handler = (if ignore then if sa_handler sa = SIG_DFL then SIG_IGN else NULL
                         else if sa_handler sa = SIG_IGN then SIG_DFL else NULL)
      in if new_handler \<noteq> NULL
         then s\<lparr>sigactions := (sigactions s)(signum := sa\<lparr>sa_handler := new_handler, sa_flags := 0\<rparr>)\<rparr>
         else s)"

definition uloop_setup_signals :: "bool \<Rightarrow> 'w uloop \<Rightarrow> 'w uloop" where
  "uloop_setup_signals add s =
     (let s = uloop_install_handler SIGINT Handle_sigint add s;
          s = uloop_install_handler SIGTERM Handle_sigint add s;
          s = uloop_install_handler SIGCHLD Handle_sigchld add s
      in uloop_ignore_signal SIGPIPE add s)"

section \<open>The loop\<close>

definition uloop_end :: "'w uloop \<Rightarrow> 'w uloop" where
  "uloop_end s = s\<lparr>uloop_cancelled := True\<rparr>"

partial_function (option) uloop_run_loop :: "'w env \<Rightarrow> 'w uloop \<Rightarrow> 'w uloop option" where
  "uloop_run_loop env s =
     (if uloop_cancelled s then Some s
      else let (tv, s) = uloop_gettime env s in
        do { s \<leftarrow> uloop_process_timeouts env tv s;
             s \<leftarrow> (if do_sigchld s then uloop_handle_processes env s else Some s);
             if uloop_cancelled s then Some s
             else let (tv, s) = uloop_gettime env s in
               do { s \<leftarrow> uloop_run_events env (uloop_get_next_timeout tv s) s;
                    uloop_run_loop env s } })"

definition uloop_run :: "'w env \<Rightarrow> 'w uloop \<Rightarrow> 'w uloop option" where
  "uloop_run env s =
     (let first = (recursive_calls s = 0);
          s = s\<lparr>recursive_calls := recursive_calls s + 1\<rparr>;
          s = (if first then uloop_setup_signals True s else s)
      in do { s \<leftarrow> uloop_run_loop env (s\<lparr>uloop_cancelled := False\<rparr>);
              let s = s\<lparr>recursive_calls := recursive_calls s - 1\<rparr> in
              Some (if recursive_calls s = 0 then uloop_setup_signals False s else s) })"

partial_function (option) clear_timeouts_loop :: "'w uloop \<Rightarrow> ptr \<Rightarrow> ptr \<Rightarrow> 'w uloop option" where
  "clear_timeouts_loop s t tmp =
     (if t = timeouts then Some s
      else let s = snd (uloop_timeout_cancel t s) in
        if tmp = 0 then None else clear_timeouts_loop s tmp (nxt (ul_links s) tmp))"

definition uloop_clear_timeouts :: "'w uloop \<Rightarrow> 'w uloop option" where
  "uloop_clear_timeouts s =
     (let t = nxt (ul_links s) timeouts in clear_timeouts_loop s t (nxt (ul_links s) t))"

partial_function (option) clear_processes_loop :: "'w uloop \<Rightarrow> ptr \<Rightarrow> ptr \<Rightarrow> 'w uloop option" where
  "clear_processes_loop s p tmp =
     (if p = processes then Some s
      else let s = snd (uloop_process_delete p s) in
        if tmp = 0 then None else clear_processes_loop s tmp (nxt (ul_links s) tmp))"

definition uloop_clear_processes :: "'w uloop \<Rightarrow> 'w uloop option" where
  "uloop_clear_processes s =
     (let p = nxt (ul_links s) processes in clear_processes_loop s p (nxt (ul_links s) p))"

definition uloop_done :: "'w env \<Rightarrow> 'w uloop \<Rightarrow> 'w uloop option" where
  "uloop_done env s =
     (if poll_fd s < 0 then Some s
      else let s = s\<lparr>ul_world := close_fd env (poll_fd s) (ul_world s), poll_fd := -1\<rparr> in
        do { s \<leftarrow> uloop_clear_timeouts s; uloop_clear_processes s })"

end
