(* ===== verification/UloopSpec.thy ===== *)
theory UloopSpec
  imports Uloop
begin

text \<open>
  The properties of the event loop: the two queues stay linked, ordered and in step with the
  \<^verbatim>\<open>pending\<close> flags, timers that are due run, a reaped child reaches exactly its process objects, a deleted
  descriptor gets no event, and what happens to the signal dispositions.
\<close>

section \<open>The queues\<close>

text \<open>
  Times in microseconds. Within a window of \<open>2147000\<close> seconds the conversion to \<^verbatim>\<open>int\<close> in \<^const>\<open>tv_diff\<close>
  is exact; \<open>base\<close> is the begin of such a window.
\<close>

definition usecs :: "timeval \<Rightarrow> int" where
  "usecs t = tv_sec t * 1000000 + tv_usec t"

definition tv_ok :: "int \<Rightarrow> timeval \<Rightarrow> bool" where
  "tv_ok base t \<longleftrightarrow> base \<le> tv_sec t \<and> tv_sec t \<le> base + 2147000 \<and> 0 \<le> tv_usec t \<and> tv_usec t \<le> 1000000"

lemma sdiv_nonneg: "0 \<le> (a::int) \<Longrightarrow> a sdiv 1000 = a div 1000"
  by (simp add: signed_divide_int_def sgn_if)

lemma sdiv_neg: "(a::int) < 0 \<Longrightarrow> a sdiv 1000 = - ((- a) div 1000)"
  by (simp add: signed_divide_int_def sgn_if)

lemma sdiv_tick:
  assumes "-1000000 \<le> d" "d \<le> (1000000::int)"
  shows "0 < n * 1000 + d sdiv 1000 \<longleftrightarrow> 2 \<le> n \<or> n = 1 \<and> -1000000 < d \<or> n = 0 \<and> 1000 \<le> d"
proof -
  have q: "-1000 \<le> d sdiv 1000" "d sdiv 1000 \<le> 1000" "-1000 < d sdiv 1000 \<longleftrightarrow> -1000000 < d" "0 < d sdiv 1000 \<longleftrightarrow> 1000 \<le> d"
    using assms by (cases "0 \<le> d"; simp add: sdiv_nonneg sdiv_neg; linarith)+
  consider "2 \<le> n" | "n = 1" | "n = 0" | "n < 0" by linarith
  then show ?thesis using q by cases auto
qed

lemma tv_diff_exact:
  assumes "tv_ok base a" "tv_ok base b"
  shows "tv_diff a b = (tv_sec a - tv_sec b) * 1000 + (tv_usec a - tv_usec b) sdiv 1000"
proof -
  have "\<bar>(tv_usec a - tv_usec b) sdiv 1000\<bar> \<le> 1000"
    using assms by (cases "0 \<le> tv_usec a - tv_usec b") (auto simp: sdiv_nonneg sdiv_neg tv_ok_def)
  then show ?thesis unfolding tv_diff_def using assms by (intro c_int_small) (auto simp: tv_ok_def)
qed

lemma tv_diff_pos:
  assumes "tv_ok base a" "tv_ok base b"
  shows "0 < tv_diff a b \<longleftrightarrow> tv_sec b + 2 \<le> tv_sec a \<or> tv_sec a = tv_sec b + 1 \<and> tv_usec b - tv_usec a < 1000000 \<or>
    tv_sec a = tv_sec b \<and> tv_usec b + 1000 \<le> tv_usec a"
  using sdiv_tick [of "tv_usec a - tv_usec b" "tv_sec a - tv_sec b"] assms
  unfolding tv_diff_exact [OF assms] by (auto simp: tv_ok_def)

interpretation timer_queue: insertion_queue "\<lambda>a b. 0 < tv_diff a b" "tv_ok base" for base
proof
  fix x y z
  assume ok: "tv_ok base x" "tv_ok base y" "tv_ok base z" and d: "0 < tv_diff y x" "\<not> 0 < tv_diff y z"
  note u = ok [unfolded tv_ok_def]
  show "\<not> 0 < tv_diff x z"
    using d u unfolding tv_diff_pos [OF ok(2,1)] tv_diff_pos [OF ok(2,3)] tv_diff_pos [OF ok(1,3)] by linarith
next
  fix x assume ok: "tv_ok base x"
  show "\<not> 0 < tv_diff x x" unfolding tv_diff_pos [OF ok ok] by simp
qed

interpretation process_queue: insertion_queue "\<lambda>a b :: int. b < a" "\<lambda>_. True"
  by unfold_locales auto

text \<open>What was due when a timer that is not due stands in front of it is late by less than a tick.\<close>

lemma behind_not_due:
  assumes ok: "tv_ok base x" "tv_ok base y" "tv_ok base tv" and d: "0 < tv_diff x tv" "\<not> 0 < tv_diff x y"
    and tv: "tv_usec tv < 1000000"
  shows "usecs tv < usecs y"
  using d tv ok [unfolded tv_ok_def] unfolding tv_diff_pos [OF ok(1,3)] tv_diff_pos [OF ok(1,2)] usecs_def
  by (elim conjE disjE) linarith+

lemma timeout_at_ok:
  assumes "0 \<le> msecs" "msecs \<le> 1000000000" "base \<le> tv_sec now" "tv_sec now \<le> base + 1000000"
    "0 \<le> tv_usec now" "tv_usec now < 1000000"
  shows "tv_ok base (timeout_at now msecs)" "usecs (timeout_at now msecs) = usecs now + msecs * 1000"
proof -
  have q: "msecs sdiv 1000 = msecs div 1000" "msecs smod 1000 = msecs mod 1000"
    using assms(1) by (auto simp: sdiv_nonneg signed_modulo_int_def sgn_if)
  have b: "0 \<le> msecs div 1000" "msecs div 1000 \<le> 1000000" "0 \<le> msecs mod 1000" "msecs mod 1000 < 1000"
    "msecs = 1000 * (msecs div 1000) + msecs mod 1000"
    using assms(1,2) by auto
  show "tv_ok base (timeout_at now msecs)"
    using assms(3-) b unfolding timeout_at_def q by (auto simp: tv_ok_def Let_def)
  show "usecs (timeout_at now msecs) = usecs now + msecs * 1000"
    unfolding timeout_at_def q by (simp add: usecs_def Let_def algebra_simps) presburger
qed

section \<open>The state of the loop\<close>

text \<open>
  \<open>T\<close> and \<open>P\<close> are the addresses of the timer and process objects; the two queues share the memory
  of the links.
\<close>

definition objs_ok :: "ptr set \<Rightarrow> ptr set \<Rightarrow> bool" where
  "objs_ok T P \<longleftrightarrow> T \<inter> P = {} \<and> {0, timeouts, processes} \<inter> (T \<union> P) = {}"

definition links_ok :: "list_heap \<Rightarrow> ptr list \<Rightarrow> ptr list \<Rightarrow> bool" where
  "links_ok h ts ps \<longleftrightarrow> dll h timeouts ts \<and> dll h processes ps"

definition uloop_wf :: "ptr set \<Rightarrow> ptr set \<Rightarrow> int \<Rightarrow> 'w uloop \<Rightarrow> ptr list \<Rightarrow> ptr list \<Rightarrow> bool" where
  "uloop_wf T P base s ts ps \<longleftrightarrow>
     objs_ok T P \<and> set ts \<subseteq> T \<and> set ps \<subseteq> P \<and> links_ok (ul_links s) ts ps \<and>
     (\<forall>t\<in>T. t_pending s t = (t \<in> set ts)) \<and> (\<forall>p\<in>P. p_pending s p = (p \<in> set ps)) \<and>
     (\<forall>t\<in>set ts. tv_ok base (t_time s t)) \<and>
     timer_queue.ordered (map (t_time s) ts) \<and> process_queue.ordered (map (p_pid s) ps)"

definition uloop_inv :: "ptr set \<Rightarrow> ptr set \<Rightarrow> int \<Rightarrow> 'w uloop \<Rightarrow> bool" where
  "uloop_inv T P base s \<longleftrightarrow> (\<exists>ts ps. uloop_wf T P base s ts ps)"

lemma dll_neighbours:
  assumes "dll h head xs" "x \<in> set (head # xs)"
  shows "nxt h x \<in> set (head # xs)" "prv h x \<in> set (head # xs)"
proof -
  have "nxt h x \<in> set (head # xs) \<and> prv h x \<in> set (head # xs)"
  proof (cases "x = head")
    case True
    have "chain h head xs head" using assms(1) by (simp add: dll_def)
    note ends = chain_next [OF this] chain_prev [OF this]
    have "nxt h head \<in> set (head # xs)" unfolding ends(1) by (cases xs) simp_all
    moreover have "prv h head \<in> set (head # xs)" unfolding ends(2) by simp
    ultimately show ?thesis using True by simp
  next
    case False
    then obtain us vs where xs: "xs = us @ x # vs" using assms(2) split_list by fastforce
    then have "chain h head us x" "chain h x vs head" using assms(1) by (simp_all add: dll_def chain_append)
    note ends = chain_next [OF this(2)] chain_prev [OF this(1)]
    have "nxt h x \<in> set (head # xs)" unfolding ends(1) xs by (cases vs) simp_all
    moreover have "prv h x \<in> set (head # xs)" unfolding ends(2) xs by simp
    ultimately show ?thesis by simp
  qed
  then show "nxt h x \<in> set (head # xs)" "prv h x \<in> set (head # xs)" by blast+
qed

lemma list_insert_before_frame:
  assumes "dll h head xs" "list_insert_before Q new head h = Some h'" "x \<notin> set (head # new # xs)"
  shows "nxt h' x = nxt h x" "prv h' x = prv h x"
proof -
  obtain p where p: "list_find Q h (nxt h head) head = Some p" "h' = list_add_tail new p h"
    using assms(2) by (auto simp: list_insert_before_def split: bind_splits)
  have "p \<in> set (head # xs)"
    using p(1) list_find_dll [OF assms(1), of Q] by (auto simp: find_Some_iff split: option.splits)
  then have "p \<noteq> x" "prv h p \<noteq> x" "new \<noteq> x" using dll_neighbours [OF assms(1), of p] assms(3) by auto
  then show "nxt h' x = nxt h x" "prv h' x = prv h x"
    unfolding p(2) list_add_tail_def list_add'_def by auto
qed

lemma list_del_frame:
  assumes "dll h head xs" "e \<in> set xs" "x \<notin> set (head # xs)"
  shows "nxt (list_del e h) x = nxt h x" "prv (list_del e h) x = prv h x"
  using dll_neighbours [OF assms(1), of e] assms(2,3)
  unfolding list_del_def list_del'_def Let_def by auto

lemma links_insert:
  assumes "dll h a xs" "dll h b ys" "set (a # xs) \<inter> set (b # ys) = {}" "new \<notin> set (a # xs) \<union> set (b # ys)"
  shows "\<exists>h'. list_insert_before Q new a h = Some h' \<and> dll h' a (insert_before Q new xs) \<and> dll h' b ys"
proof -
  obtain h' where h': "list_insert_before Q new a h = Some h'" "dll h' a (insert_before Q new xs)"
    using list_insert_before_dll [OF assms(1), of new Q] assms(4) by auto
  have "dll h' b ys"
    using assms(2)
  proof (rule dll_frame)
    fix x assume "x \<in> set (b # ys)"
    then have "x \<notin> set (a # new # xs)" using assms(3,4) by auto
    then show "nxt h' x = nxt h x \<and> prv h' x = prv h x" using list_insert_before_frame [OF assms(1) h'(1)] by blast
  qed
  then show ?thesis using h' by blast
qed

lemma links_del:
  assumes "dll h a xs" "dll h b ys" "set (a # xs) \<inter> set (b # ys) = {}" "e \<in> set xs"
  shows "dll (list_del e h) a (remove1 e xs) \<and> dll (list_del e h) b ys"
proof
  obtain us vs where xs: "xs = us @ e # vs" "e \<notin> set us" using assms(4) split_list_first by metis
  then show "dll (list_del e h) a (remove1 e xs)"
    using list_del_dll(1) [of h a us e vs] assms(1) by (simp add: remove1_append)
  show "dll (list_del e h) b ys"
    using assms(2)
  proof (rule dll_frame)
    fix x assume "x \<in> set (b # ys)"
    then have "x \<notin> set (a # xs)" using assms(3) by auto
    then show "nxt (list_del e h) x = nxt h x \<and> prv (list_del e h) x = prv h x"
      using list_del_frame [OF assms(1,4)] by blast
  qed
qed

lemma uloop_wfD:
  assumes "uloop_wf T P base s ts ps"
  shows "dll (ul_links s) timeouts ts" "dll (ul_links s) processes ps"
    "set (timeouts # ts) \<inter> set (processes # ps) = {}" "set (processes # ps) \<inter> set (timeouts # ts) = {}"
    "distinct ts" "distinct ps" "0 \<notin> set ts" "0 \<notin> set ps" "timeouts \<notin> set ts" "processes \<notin> set ps"
    "set ts \<subseteq> T" "set ps \<subseteq> P" "objs_ok T P"
  using assms
  by (auto simp: uloop_wf_def links_ok_def objs_ok_def dll_def timeouts_def processes_def)

lemma map_insert_before: "map f (insert_before (\<lambda>y. Q (f y)) x xs) = insert_before Q (f x) (map f xs)"
  by (simp add: insert_before_def takeWhile_map dropWhile_map comp_def)

lemma sorted_wrt_map_remove1: "sorted_wrt R (map f xs) \<Longrightarrow> sorted_wrt R (map f (remove1 x xs))"
  by (induction xs) (auto dest: notin_set_remove1 simp: sorted_wrt_map dest: set_remove1_subset [THEN subsetD])

section \<open>The operations keep the invariant\<close>

lemma timeout_cancel_wf:
  assumes wf: "uloop_wf T P base s ts ps" and t: "t \<in> T"
  shows "uloop_wf T P base (snd (uloop_timeout_cancel t s)) (remove1 t ts) ps"
    "fst (uloop_timeout_cancel t s) = (if t \<in> set ts then 0 else -1)"
proof -
  note d = uloop_wfD [OF wf]
  have p: "t_pending s t = (t \<in> set ts)" using wf t by (simp add: uloop_wf_def)
  show "uloop_wf T P base (snd (uloop_timeout_cancel t s)) (remove1 t ts) ps"
  proof (cases "t \<in> set ts")
    case True
    have l: "dll (list_del t (ul_links s)) timeouts (remove1 t ts) \<and> dll (list_del t (ul_links s)) processes ps"
      by (rule links_del [OF d(1,2,3) True])
    have o: "timer_queue.ordered (map (t_time s) (remove1 t ts))"
      using wf sorted_wrt_map_remove1 [of _ "t_time s" ts t] unfolding uloop_wf_def timer_queue.ordered_def by blast
    show ?thesis using wf l o p True d(5) t set_remove1_subset [of t ts]
      by (auto simp: uloop_wf_def uloop_timeout_cancel_def links_ok_def)
  next
    case False
    then show ?thesis using wf p by (simp add: uloop_timeout_cancel_def remove1_idem)
  qed
  show "fst (uloop_timeout_cancel t s) = (if t \<in> set ts then 0 else -1)" using p by (simp add: uloop_timeout_cancel_def)
qed

lemma process_delete_wf:
  assumes wf: "uloop_wf T P base s ts ps" and p: "p \<in> P"
  shows "uloop_wf T P base (snd (uloop_process_delete p s)) ts (remove1 p ps)"
    "fst (uloop_process_delete p s) = (if p \<in> set ps then 0 else -1)"
proof -
  note d = uloop_wfD [OF wf]
  have q: "p_pending s p = (p \<in> set ps)" using wf p by (simp add: uloop_wf_def)
  show "uloop_wf T P base (snd (uloop_process_delete p s)) ts (remove1 p ps)"
  proof (cases "p \<in> set ps")
    case True
    have l: "dll (list_del p (ul_links s)) processes (remove1 p ps) \<and> dll (list_del p (ul_links s)) timeouts ts"
      by (rule links_del [OF d(2,1,4) True])
    have o: "process_queue.ordered (map (p_pid s) (remove1 p ps))"
      using wf sorted_wrt_map_remove1 [of _ "p_pid s" ps p] unfolding uloop_wf_def process_queue.ordered_def by blast
    show ?thesis using wf l o q True d(6) p set_remove1_subset [of p ps]
      by (auto simp: uloop_wf_def uloop_process_delete_def links_ok_def)
  next
    case False
    then show ?thesis using wf q by (simp add: uloop_process_delete_def remove1_idem)
  qed
  show "fst (uloop_process_delete p s) = (if p \<in> set ps then 0 else -1)" using q by (simp add: uloop_process_delete_def)
qed

abbreviation time_after :: "'w uloop \<Rightarrow> ptr \<Rightarrow> ptr \<Rightarrow> bool" where
  "time_after s t y \<equiv> 0 < tv_diff (t_time s y) (t_time s t)"

lemma timeout_add_wf:
  assumes wf: "uloop_wf T P base s ts ps" and t: "t \<in> T" "t \<notin> set ts" "tv_ok base (t_time s t)"
  shows "\<exists>s'. uloop_timeout_add t s = Some (0, s') \<and> uloop_wf T P base s' (insert_before (time_after s t) t ts) ps \<and>
    t_time s' = t_time s"
proof -
  note d = uloop_wfD [OF wf]
  have p: "\<not> t_pending s t" using wf t by (simp add: uloop_wf_def)
  have new: "t \<notin> set (timeouts # ts) \<union> set (processes # ps)"
    using d(11-13) t by (auto simp: objs_ok_def)
  obtain h where h: "list_insert_before (time_after s t) t timeouts (ul_links s) = Some h"
    "dll h timeouts (insert_before (time_after s t) t ts)" "dll h processes ps"
    using links_insert [OF d(1,2,3) new] by blast
  have o: "timer_queue.ordered (map (t_time s) (insert_before (time_after s t) t ts))"
    unfolding map_insert_before [of "t_time s" "\<lambda>y. 0 < tv_diff y (t_time s t)"]
    by (rule timer_queue.ordered_insert [of _ _ base]) (use wf t(3) in \<open>auto simp: uloop_wf_def\<close>)
  let ?s = "s\<lparr>ul_links := h, t_pending := (t_pending s)(t := True)\<rparr>"
  have "uloop_wf T P base ?s (insert_before (time_after s t) t ts) ps"
    using wf h(2,3) o t by (auto simp: uloop_wf_def links_ok_def)
  then show ?thesis using h(1) p by (simp add: uloop_timeout_add_def)
qed

lemma process_add_wf:
  assumes wf: "uloop_wf T P base s ts ps" and p: "p \<in> P" "p \<notin> set ps"
  shows "\<exists>s'. uloop_process_add p s = Some (0, s') \<and>
    uloop_wf T P base s' ts (insert_before (\<lambda>y. p_pid s p < p_pid s y) p ps)"
proof -
  note d = uloop_wfD [OF wf]
  have q: "\<not> p_pending s p" using wf p by (simp add: uloop_wf_def)
  have new: "p \<notin> set (processes # ps) \<union> set (timeouts # ts)"
    using d(11-13) p by (auto simp: objs_ok_def)
  let ?Q = "\<lambda>y. p_pid s p < p_pid s y"
  obtain h where h: "list_insert_before ?Q p processes (ul_links s) = Some h"
    "dll h processes (insert_before ?Q p ps)" "dll h timeouts ts"
    using links_insert [OF d(2,1,4) new] by blast
  have o: "process_queue.ordered (map (p_pid s) (insert_before ?Q p ps))"
    unfolding map_insert_before [of "p_pid s" "\<lambda>y. p_pid s p < y"]
    by (rule process_queue.ordered_insert) (use wf in \<open>auto simp: uloop_wf_def\<close>)
  let ?s = "s\<lparr>ul_links := h, p_pending := (p_pending s)(p := True)\<rparr>"
  have "uloop_wf T P base ?s ts (insert_before ?Q p ps)"
    using wf h(2,3) o p by (auto simp: uloop_wf_def links_ok_def)
  then show ?thesis using h(1) q by (simp add: uloop_process_add_def)
qed

lemma uloop_wf_time:
  assumes "uloop_wf T P base s ts ps" "t \<notin> set ts"
  shows "uloop_wf T P base (s\<lparr>ul_world := w, t_time := (t_time s)(t := tv)\<rparr>) ts ps"
proof -
  have e: "map ((t_time s)(t := tv)) ts = map (t_time s) ts" using assms(2) by auto
  show ?thesis using assms unfolding uloop_wf_def by (auto simp: e simp del: map_eq_conv)
qed

lemma timeout_set_wf:
  assumes wf: "uloop_wf T P base s ts ps" and t: "t \<in> T" and tv: "tv_ok base (timeout_at now msecs)"
    and now: "clock_gettime env (ul_world s) = (now, w)"
  shows "\<exists>s' ts'. uloop_timeout_set env t msecs s = Some (0, s') \<and> uloop_wf T P base s' ts' ps \<and>
    t_time s' = (t_time s)(t := timeout_at now msecs) \<and> set ts' = insert t (set ts)"
proof -
  let ?s = "(snd (uloop_timeout_cancel t s))\<lparr>ul_world := w, t_time := (t_time s)(t := timeout_at now msecs)\<rparr>"
  have c: "(if t_pending s t then snd (uloop_timeout_cancel t s) else s) = snd (uloop_timeout_cancel t s)"
    "t_time (snd (uloop_timeout_cancel t s)) = t_time s" "ul_world (snd (uloop_timeout_cancel t s)) = ul_world s"
    by (simp_all add: uloop_timeout_cancel_def)
  have d: "distinct ts" by (rule uloop_wfD(5) [OF wf])
  have "uloop_wf T P base ?s (remove1 t ts) ps"
    using uloop_wf_time [OF timeout_cancel_wf(1) [OF wf t], of t "timeout_at now msecs" w] d c(2) by simp
  from timeout_add_wf [OF this t] d tv obtain s' where
    "uloop_timeout_add t ?s = Some (0, s')" "uloop_wf T P base s' (insert_before (time_after ?s t) t (remove1 t ts)) ps"
    "t_time s' = t_time ?s" by auto
  moreover have "uloop_timeout_set env t msecs s = uloop_timeout_add t ?s"
    using now c by (simp add: uloop_timeout_set_def uloop_gettime_def)
  ultimately show ?thesis using d by (intro exI [of _ s'] exI [of _ "insert_before (time_after ?s t) t (remove1 t ts)"]) auto
qed

section \<open>Any sequence of operations\<close>

text \<open>
  The steps a program can take between two runs of the loop: calls of the operations on the two
  queues, and changes of its own state that leave the loop alone.
\<close>

definition clock_ok :: "'w env \<Rightarrow> int \<Rightarrow> 'w uloop \<Rightarrow> bool" where
  "clock_ok env base s \<longleftrightarrow>
     (let now = fst (clock_gettime env (ul_world s)) in
      base \<le> tv_sec now \<and> tv_sec now \<le> base + 1000000 \<and> 0 \<le> tv_usec now \<and> tv_usec now < 1000000)"

inductive loop_step :: "'w env \<Rightarrow> ptr set \<Rightarrow> ptr set \<Rightarrow> int \<Rightarrow> 'w uloop \<Rightarrow> 'w uloop \<Rightarrow> bool"
  for env T P base where
  Timeout_set: "t \<in> T \<Longrightarrow> 0 \<le> msecs \<Longrightarrow> msecs \<le> 1000000000 \<Longrightarrow> clock_ok env base s \<Longrightarrow>
    uloop_timeout_set env t msecs s = Some (r, s') \<Longrightarrow> loop_step env T P base s s'"
| Timeout_add: "t \<in> T \<Longrightarrow> tv_ok base (t_time s t) \<Longrightarrow> uloop_timeout_add t s = Some (r, s') \<Longrightarrow> loop_step env T P base s s'"
| Timeout_cancel: "t \<in> T \<Longrightarrow> uloop_timeout_cancel t s = (r, s') \<Longrightarrow> loop_step env T P base s s'"
| Process_add: "p \<in> P \<Longrightarrow> uloop_process_add p s = Some (r, s') \<Longrightarrow> loop_step env T P base s s'"
| Process_delete: "p \<in> P \<Longrightarrow> uloop_process_delete p s = (r, s') \<Longrightarrow> loop_step env T P base s s'"
| World: "loop_step env T P base s (s\<lparr>ul_world := w\<rparr>)"

inductive_cases loop_stepE [elim]: "loop_step env T P base s s'"

lemma wf_world: "uloop_wf T P base (s\<lparr>ul_world := w\<rparr>) ts ps = uloop_wf T P base s ts ps"
  by (simp add: uloop_wf_def)

lemma inv_timeout_set:
  assumes "uloop_inv T P base s" "t \<in> T" "0 \<le> msecs" "msecs \<le> 1000000000" "clock_ok env base s"
  shows "\<exists>s'. uloop_timeout_set env t msecs s = Some (0, s') \<and> uloop_inv T P base s' \<and> t_pending s' t \<and>
    usecs (t_time s' t) = usecs (fst (clock_gettime env (ul_world s))) + msecs * 1000"
proof -
  obtain ts ps where wf: "uloop_wf T P base s ts ps" using assms(1) by (auto simp: uloop_inv_def)
  obtain now w where now: "clock_gettime env (ul_world s) = (now, w)" by fastforce
  have c: "base \<le> tv_sec now" "tv_sec now \<le> base + 1000000" "0 \<le> tv_usec now" "tv_usec now < 1000000"
    using assms(5) now by (auto simp: clock_ok_def)
  note tv = timeout_at_ok [OF assms(3,4) c]
  obtain s' ts' where s': "uloop_timeout_set env t msecs s = Some (0, s')" "uloop_wf T P base s' ts' ps"
    "t_time s' = (t_time s)(t := timeout_at now msecs)" "set ts' = insert t (set ts)"
    using timeout_set_wf [OF wf assms(2) tv(1) now] by blast
  have "t_pending s' t" using s'(2,4) assms(2) by (auto simp: uloop_wf_def)
  moreover have "uloop_inv T P base s'" using s'(2) unfolding uloop_inv_def by blast
  ultimately show ?thesis using s'(1,3) tv(2) now by simp
qed

lemma inv_timeout_add:
  assumes "uloop_inv T P base s" "t \<in> T" "tv_ok base (t_time s t)"
  shows "\<exists>r s'. uloop_timeout_add t s = Some (r, s') \<and> uloop_inv T P base s'"
proof -
  obtain ts ps where wf: "uloop_wf T P base s ts ps" using assms(1) by (auto simp: uloop_inv_def)
  show ?thesis
  proof (cases "t \<in> set ts")
    case True
    then have "t_pending s t" using wf assms(2) by (auto simp: uloop_wf_def)
    then show ?thesis using assms(1) by (simp add: uloop_timeout_add_def)
  next
    case False
    then show ?thesis using timeout_add_wf [OF wf assms(2) _ assms(3)] unfolding uloop_inv_def by blast
  qed
qed

lemma inv_process_add:
  assumes "uloop_inv T P base s" "p \<in> P"
  shows "\<exists>r s'. uloop_process_add p s = Some (r, s') \<and> uloop_inv T P base s'"
proof -
  obtain ts ps where wf: "uloop_wf T P base s ts ps" using assms(1) by (auto simp: uloop_inv_def)
  show ?thesis
  proof (cases "p \<in> set ps")
    case True
    then have "p_pending s p" using wf assms(2) by (auto simp: uloop_wf_def)
    then show ?thesis using assms(1) by (simp add: uloop_process_add_def)
  next
    case False
    then show ?thesis using process_add_wf [OF wf assms(2)] unfolding uloop_inv_def by blast
  qed
qed

lemma inv_cancel:
  assumes "uloop_inv T P base s"
  shows "t \<in> T \<Longrightarrow> uloop_inv T P base (snd (uloop_timeout_cancel t s))"
    "p \<in> P \<Longrightarrow> uloop_inv T P base (snd (uloop_process_delete p s))"
  using assms timeout_cancel_wf(1) process_delete_wf(1) unfolding uloop_inv_def by blast+

lemma loop_step_inv:
  assumes "loop_step env T P base s s'" "uloop_inv T P base s"
  shows "uloop_inv T P base s'"
  using assms(1)
proof cases
  case (Timeout_set t msecs r)
  then show ?thesis using inv_timeout_set [OF assms(2), of t msecs env] by auto
next
  case (Timeout_add t r)
  then show ?thesis using inv_timeout_add [OF assms(2), of t] by auto
next
  case (Timeout_cancel t r)
  then show ?thesis using inv_cancel(1) [OF assms(2), of t] by simp
next
  case (Process_add p r)
  then show ?thesis using inv_process_add [OF assms(2), of p] by auto
next
  case (Process_delete p r)
  then show ?thesis using inv_cancel(2) [OF assms(2), of p] by simp
next
  case (World w)
  then show ?thesis using assms(2) by (simp add: uloop_inv_def wf_world)
qed

text \<open>
  C25: After any sequence of calls that arm, cancel and add timers and add and delete processes, from
  a loop whose queues are in order, the queues are still linked lists without repetition that hold
  exactly the objects whose \<^verbatim>\<open>pending\<close> flag is set, no timer stands in front of one that it has to
  wait for, the processes are sorted by their ids; and arming any timer again returns 0, leaves it
  pending and sets its time to the clock plus the milliseconds.
\<close>

theorem uloop_queues_invariant:
  assumes "(loop_step env T P base)\<^sup>*\<^sup>* s0 s" "uloop_inv T P base s0"
  shows "(\<exists>ts ps. dll (ul_links s) timeouts ts \<and> dll (ul_links s) processes ps \<and>
      (\<forall>t\<in>T. t_pending s t = (t \<in> set ts)) \<and> (\<forall>p\<in>P. p_pending s p = (p \<in> set ps)) \<and>
      sorted_wrt (\<lambda>x y. tv_diff (t_time s x) (t_time s y) \<le> 0) ts \<and> sorted (map (p_pid s) ps)) \<and>
    (\<forall>t\<in>T. \<forall>msecs. 0 \<le> msecs \<and> msecs \<le> 1000000000 \<and> clock_ok env base s \<longrightarrow>
      (\<exists>s'. uloop_timeout_set env t msecs s = Some (0, s') \<and> uloop_inv T P base s' \<and> t_pending s' t \<and>
        usecs (t_time s' t) = usecs (fst (clock_gettime env (ul_world s))) + msecs * 1000))"
proof -
  have inv: "uloop_inv T P base s"
    using assms by (induction rule: rtranclp_induct) (auto intro: loop_step_inv)
  then obtain ts ps where wf: "uloop_wf T P base s ts ps" by (auto simp: uloop_inv_def)
  have o: "sorted_wrt (\<lambda>x y. tv_diff (t_time s x) (t_time s y) \<le> 0) ts" "sorted (map (p_pid s) ps)"
    using wf by (simp_all add: uloop_wf_def timer_queue.ordered_def process_queue.ordered_def sorted_wrt_map
      sorted_map not_less)
  show ?thesis using inv_timeout_set [OF inv] o wf uloop_wfD(1,2) [OF wf]
    by (intro conjI exI [of _ ts] exI [of _ ps]) (auto simp: uloop_wf_def)
qed

lemma uloop_static_wf:
  assumes "objs_ok T P" "\<forall>t\<in>T. \<not> t_pending s t" "\<forall>p\<in>P. \<not> p_pending s p"
  shows "uloop_wf T P base (uloop_static s) [] []"
  using assms by (simp add: uloop_wf_def uloop_static_def links_ok_def dll_def INIT_LIST_HEAD_def timeouts_def
    processes_def timer_queue.ordered_def process_queue.ordered_def)

text \<open>A program with the timers 10 and 11 and the process object 20; its world is a clock in seconds.\<close>

definition demo_env :: "int env" where
  "demo_env = (undefined :: int env)\<lparr>clock_gettime := \<lambda>w. (\<lparr>tv_sec = w, tv_usec = 0\<rparr>, w),
     call_timer := \<lambda>t s. Some (s\<lparr>ul_world := ul_world s + 1\<rparr>)\<rparr>"

definition demo_loop :: "int uloop" where
  "demo_loop = uloop_static ((undefined :: int uloop)\<lparr>t_pending := \<lambda>_. False, p_pending := \<lambda>_. False,
     t_cb := \<lambda>_. True, p_pid := int, ul_world := 5\<rparr>)"

lemma demo_objs: "objs_ok {10, 11} {20}"
  by (simp add: objs_ok_def timeouts_def processes_def)

lemma demo_wf: "uloop_wf {10, 11} {20} 0 demo_loop [] []"
  unfolding demo_loop_def by (rule uloop_static_wf) (simp_all add: demo_objs)

lemma demo_inv: "uloop_inv {10, 11} {20} 0 demo_loop"
  using demo_wf unfolding uloop_inv_def by blast

lemma demo_world: "ul_world demo_loop = 5" "t_cb demo_loop t"
  by (simp_all add: demo_loop_def uloop_static_def)

lemma uloop_queues_invariant_witness:
  "\<exists>s. loop_step demo_env {10, 11} {20} 0 demo_loop s \<and>
     (\<exists>s'. uloop_timeout_set demo_env 11 1500 s = Some (0, s') \<and> t_pending s' 11 \<and> usecs (t_time s' 11) = 6500000)"
proof -
  let ?s = "snd (uloop_timeout_cancel 10 demo_loop)"
  have step: "loop_step demo_env {10, 11} {20} 0 demo_loop ?s"
    by (rule Timeout_cancel [of 10 _ _ "fst (uloop_timeout_cancel 10 demo_loop)"]) simp_all
  have w: "ul_world ?s = 5" by (simp add: uloop_timeout_cancel_def demo_world)
  then have "clock_ok demo_env 0 ?s" by (simp add: clock_ok_def demo_env_def)
  then have "\<exists>s'. uloop_timeout_set demo_env 11 1500 ?s = Some (0, s') \<and> uloop_inv {10, 11} {20} 0 s' \<and> t_pending s' 11 \<and>
      usecs (t_time s' 11) = usecs (fst (clock_gettime demo_env (ul_world ?s))) + 1500 * 1000"
    by (intro uloop_queues_invariant [OF r_into_rtranclp [of "loop_step demo_env {10, 11} {20} 0", OF step] demo_inv,
      THEN conjunct2, rule_format]) simp_all
  then show ?thesis using step w by (auto simp: demo_env_def usecs_def)
qed

section \<open>Running the timers\<close>

definition due :: "timeval \<Rightarrow> 'w uloop \<Rightarrow> ptr \<Rightarrow> bool" where
  "due tv s t \<longleftrightarrow> tv_diff (t_time s t) tv \<le> 0"

text \<open>A callback that keeps the queues in order and arms no timer so that it is due at once.\<close>

definition timer_cb_ok :: "'w env \<Rightarrow> ptr set \<Rightarrow> ptr set \<Rightarrow> int \<Rightarrow> timeval \<Rightarrow> bool" where
  "timer_cb_ok env T P base tv \<longleftrightarrow>
     (\<forall>t s ts ps. t \<in> T \<longrightarrow> uloop_wf T P base s ts ps \<longrightarrow>
       (\<exists>s' ts' ps'. call_timer env t s = Some s' \<and> uloop_wf T P base s' ts' ps' \<and>
          (\<forall>x\<in>set ts'. due tv s' x \<longrightarrow> x \<in> set ts \<and> due tv s x)))"

lemma not_due_behind:
  assumes wf: "uloop_wf T P base s (t # ts) ps" and tv: "tv_ok base tv" "tv_usec tv < 1000000"
    and t: "\<not> due tv s t" "x \<in> set (t # ts)"
  shows "usecs tv < usecs (t_time s x)"
proof -
  have ok: "tv_ok base (t_time s y)" if "y \<in> set (t # ts)" for y using wf that by (auto simp: uloop_wf_def)
  have "timer_queue.ordered (map (t_time s) (t # ts))" using wf by (simp add: uloop_wf_def)
  then have "timer_queue.ordered (t_time s t # map (t_time s) ts)" by simp
  then have "\<not> 0 < tv_diff (t_time s t) (t_time s x)"
    using timer_queue.ordered_first [of "t_time s t" "map (t_time s) ts" "t_time s x" base] ok [of t] t(2) by auto
  then show ?thesis
    using behind_not_due [OF ok [of t] ok [OF t(2)] tv(1) _ _ tv(2)] t(1) by (simp add: due_def)
qed

lemma process_timeouts_live:
  assumes cb: "timer_cb_ok env T P base tv" and tv: "tv_ok base tv" "tv_usec tv < 1000000"
    and wf: "uloop_wf T P base s ts ps"
  shows "\<exists>s' ts' ps'. uloop_process_timeouts env tv s = Some s' \<and> uloop_wf T P base s' ts' ps' \<and>
    (\<forall>x\<in>set ts'. usecs tv < usecs (t_time s' x)) \<and> (ts' = [] \<or> \<not> due tv s' (hd ts'))"
  using wf
proof (induction "card {x \<in> set ts. due tv s x}" arbitrary: s ts ps rule: less_induct)
  case less
  note d = uloop_wfD [OF less.prems]
  show ?case
  proof (cases ts)
    case Nil
    then have "uloop_process_timeouts env tv s = Some s"
      using dll_empty_iff [OF d(1)] by (subst uloop_process_timeouts.simps) simp
    then show ?thesis using less.prems Nil by (intro exI [of _ s] exI [of _ ts] exI [of _ ps]) simp
  next
    case (Cons t rest)
    have n: "\<not> list_empty timeouts (ul_links s)" "nxt (ul_links s) timeouts = t"
      using dll_empty_iff [OF d(1)] d(1) Cons by (auto simp: dll_def)
    show ?thesis
    proof (cases "due tv s t")
      case False
      then have "uloop_process_timeouts env tv s = Some s"
        using n by (subst uloop_process_timeouts.simps) (simp add: due_def)
      then show ?thesis using less.prems not_due_behind [OF less.prems [unfolded Cons] tv False] False Cons
        by (intro exI [of _ s] exI [of _ ts] exI [of _ ps]) simp
    next
      case True
      let ?s = "snd (uloop_timeout_cancel t s)"
      have t: "t \<in> T" using d(11) Cons by simp
      have wf1: "uloop_wf T P base ?s rest ps" using timeout_cancel_wf(1) [OF less.prems t] Cons by simp
      have time: "t_time ?s = t_time s" by (simp add: uloop_timeout_cancel_def)
      obtain s2 ts2 ps2 where s2: "(if t_cb ?s t then call_timer env t ?s else Some ?s) = Some s2"
        "uloop_wf T P base s2 ts2 ps2" "\<forall>x\<in>set ts2. due tv s2 x \<longrightarrow> x \<in> set rest \<and> due tv s x"
      proof (cases "t_cb ?s t")
        case True
        have "due tv ?s x = due tv s x" for x by (simp add: due_def time)
        then obtain s2 ts2 ps2 where "call_timer env t ?s = Some s2" "uloop_wf T P base s2 ts2 ps2"
          "\<forall>x\<in>set ts2. due tv s2 x \<longrightarrow> x \<in> set rest \<and> due tv s x"
          using cb [unfolded timer_cb_ok_def, rule_format, OF t wf1] by auto
        then show ?thesis using True by (intro that [of s2 ts2 ps2]) simp_all
      next
        case False
        show ?thesis by (rule that [of ?s rest ps]) (use False wf1 time in \<open>simp_all add: due_def\<close>)
      qed
      have "{x \<in> set ts2. due tv s2 x} \<subseteq> {x \<in> set ts. due tv s x} - {t}"
        using s2(3) d(5) Cons by auto
      moreover have "t \<in> {x \<in> set ts. due tv s x}" using True Cons by simp
      ultimately have "card {x \<in> set ts2. due tv s2 x} < card {x \<in> set ts. due tv s x}"
        by (intro psubset_card_mono) auto
      from less.hyps [OF this s2(2)] show ?thesis
        using n True s2(1) by (subst uloop_process_timeouts.simps) (simp add: due_def Let_def)
    qed
  qed
qed


lemma demo_cb_ok: "timer_cb_ok demo_env T P base tv"
  unfolding timer_cb_ok_def
proof (intro allI impI)
  fix t ts ps and s :: "int uloop" assume wf: "uloop_wf T P base s ts ps"
  let ?s = "s\<lparr>ul_world := ul_world s + 1\<rparr>"
  have "call_timer demo_env t s = Some ?s" by (simp add: demo_env_def)
  then show "\<exists>s' ts' ps'. call_timer demo_env t s = Some s' \<and> uloop_wf T P base s' ts' ps' \<and>
      (\<forall>x\<in>set ts'. due tv s' x \<longrightarrow> x \<in> set ts \<and> due tv s x)"
    using wf by (intro exI [of _ ?s] exI [of _ ts] exI [of _ ps]) (simp add: wf_world due_def)
qed


section \<open>Reaped children\<close>

text \<open>
  The kernel hands out the children that ended one by one: the world is the user's own state \<open>'v\<close> with
  the list of the process ids and statuses that \<^verbatim>\<open>waitpid\<close> will report.
\<close>

definition reports_children :: "('v \<times> (int \<times> int) list) env \<Rightarrow> bool" where
  "reports_children env \<longleftrightarrow>
     (\<forall>v cs. waitpid env (v, cs) = (case cs of [] \<Rightarrow> ((0, 0), v, []) | c # cs \<Rightarrow> (c, v, cs)))"

definition process_cb_is :: "('v \<times> 'c) env \<Rightarrow> (ptr \<Rightarrow> int \<Rightarrow> 'v \<Rightarrow> 'v) \<Rightarrow> bool" where
  "process_cb_is env f \<longleftrightarrow>
     (\<forall>p ret s. call_process env p ret s = Some (s\<lparr>ul_world := (f p ret (fst (ul_world s)), snd (ul_world s))\<rparr>))"

text \<open>What the loop should do: each child goes to every process object with its id, which is dropped.\<close>

fun reap :: "(ptr \<Rightarrow> int) \<Rightarrow> (ptr \<Rightarrow> int \<Rightarrow> 'v \<Rightarrow> 'v) \<Rightarrow> (int \<times> int) list \<Rightarrow> ptr list \<Rightarrow> 'v \<Rightarrow> ptr list \<times> 'v" where
  "reap pids f [] ps v = (ps, v)"
| "reap pids f ((pid, ret) # cs) ps v =
     reap pids f cs (filter (\<lambda>p. pids p \<noteq> pid) ps) (fold (\<lambda>p. f p ret) (filter (\<lambda>p. pids p = pid) ps) v)"

lemma process_scan_step:
  assumes wf: "uloop_wf T P base s ts (as @ q # qs)"
  shows "nxt (ul_links s) q = hd (qs @ [processes])" "hd (qs @ [processes]) \<noteq> 0" "q \<noteq> processes"
    "q \<in> P" "remove1 q (as @ q # qs) = as @ qs"
proof -
  note d = uloop_wfD [OF wf]
  have "chain (ul_links s) q qs processes" using d(2) by (simp add: dll_def chain_append)
  then show "nxt (ul_links s) q = hd (qs @ [processes])" by (cases qs) auto
  show "hd (qs @ [processes]) \<noteq> 0" using d(8) by (cases qs) (auto simp: processes_def)
  show "q \<noteq> processes" "q \<in> P" "remove1 q (as @ q # qs) = as @ qs" using d(6,10,12) by (auto simp: remove1_append)
qed

lemma process_scan_reap:
  assumes cb: "process_cb_is env f"
  shows "uloop_wf T P base s ts (as @ qs) \<Longrightarrow>
    \<exists>s'. process_scan env pid ret s (hd (qs @ [processes])) (nxt (ul_links s) (hd (qs @ [processes]))) = Some s' \<and>
      uloop_wf T P base s' ts (as @ filter (\<lambda>p. p_pid s p \<noteq> pid) qs) \<and> p_pid s' = p_pid s \<and> do_sigchld s' = do_sigchld s \<and>
      ul_world s' = (fold (\<lambda>p. f p ret) (filter (\<lambda>p. p_pid s p = pid) qs) (fst (ul_world s)), snd (ul_world s))"
proof (induction qs arbitrary: as s)
  case Nil
  then show ?case by (subst process_scan.simps) simp
next
  case (Cons q qs)
  note st = process_scan_step [OF Cons.prems]
  show ?case
  proof (cases "p_pid s q" pid rule: linorder_cases)
    case less
    then show ?thesis
      using Cons.IH [of s "as @ [q]"] Cons.prems st by (subst process_scan.simps) simp
  next
    case equal
    let ?s1 = "snd (uloop_process_delete q s)"
    let ?s = "?s1\<lparr>ul_world := (f q ret (fst (ul_world s)), snd (ul_world s))\<rparr>"
    have same: "p_pid ?s1 = p_pid s" "ul_world ?s1 = ul_world s" "do_sigchld ?s1 = do_sigchld s"
      by (simp_all add: uloop_process_delete_def)
    have wf: "uloop_wf T P base ?s ts (as @ qs)"
      using process_delete_wf(1) [OF Cons.prems st(4)] st(5) by (simp add: wf_world)
    have call: "call_process env q ret ?s1 = Some ?s" using cb same by (simp add: process_cb_is_def)
    show ?thesis using Cons.IH [OF wf] st equal call same by (subst process_scan.simps) (simp add: Let_def)
  next
    case greater
    have "\<forall>p\<in>set qs. p_pid s q \<le> p_pid s p"
      using Cons.prems by (auto simp: uloop_wf_def process_queue.ordered_def sorted_wrt_append)
    then have "\<forall>p\<in>set qs. p_pid s p \<noteq> pid" using greater by fastforce
    then have "filter (\<lambda>p. p_pid s p \<noteq> pid) qs = qs" "filter (\<lambda>p. p_pid s p = pid) qs = []"
      by (simp_all add: filter_empty_conv)
    then show ?thesis using Cons.prems st greater by (subst process_scan.simps) simp
  qed
qed

lemma handle_processes_reap:
  assumes env: "reports_children env" "process_cb_is env f"
  shows "uloop_wf T P base s ts ps \<Longrightarrow> ul_world s = (v, cs) \<Longrightarrow> \<forall>c\<in>set cs. 0 < fst c \<Longrightarrow>
    \<exists>s'. handle_processes_loop env s = Some s' \<and> uloop_wf T P base s' ts (fst (reap (p_pid s) f cs ps v)) \<and>
      ul_world s' = (snd (reap (p_pid s) f cs ps v), []) \<and> do_sigchld s' = do_sigchld s"
proof (induction cs arbitrary: s ps v)
  case Nil
  then show ?case using env(1) by (subst handle_processes_loop.simps) (simp add: reports_children_def wf_world)
next
  case (Cons c cs)
  obtain pid ret where c: "c = (pid, ret)" "0 < pid" using Cons.prems(3) by (cases c) auto
  let ?s = "s\<lparr>ul_world := (v, cs)\<rparr>"
  have wf: "uloop_wf T P base ?s ts ([] @ ps)" using Cons.prems(1) by (simp add: wf_world)
  have first: "nxt (ul_links s) processes = hd (ps @ [processes])"
    using chain_next [of "ul_links s" processes ps processes] uloop_wfD(2) [OF Cons.prems(1)]
    by (simp add: dll_def split: list.splits)
  obtain s1 where s1: "process_scan env pid ret ?s (hd (ps @ [processes])) (nxt (ul_links ?s) (hd (ps @ [processes]))) = Some s1"
    "uloop_wf T P base s1 ts (filter (\<lambda>p. p_pid s p \<noteq> pid) ps)" "p_pid s1 = p_pid s" "do_sigchld s1 = do_sigchld s"
    "ul_world s1 = (fold (\<lambda>p. f p ret) (filter (\<lambda>p. p_pid s p = pid) ps) v, cs)"
    using process_scan_reap [OF env(2) wf, of pid ret] by auto
  have "waitpid env (ul_world s) = ((pid, ret), v, cs)"
    using env(1) Cons.prems(2) c(1) by (simp add: reports_children_def)
  then show ?case
    using Cons.IH [OF s1(2,5)] Cons.prems(3) s1(1,3,4) c first
    by (subst handle_processes_loop.simps) simp
qed

text \<open>
  C27: \<^verbatim>\<open>uloop_handle_processes\<close> takes in every child that has ended; each runs the callback, with its
  status, of exactly the process objects with its id, in queue order, and these leave the queue and
  are no longer pending; the others stay. It returns when no ended child is left.
\<close>

theorem uloop_handle_processes_correct:
  assumes "reports_children env" "process_cb_is env f" "uloop_wf T P base s ts ps"
    "ul_world s = (v, cs)" "\<forall>c\<in>set cs. 0 < fst c"
  shows "\<exists>s'. uloop_handle_processes env s = Some s' \<and> \<not> do_sigchld s' \<and>
    ul_world s' = (snd (reap (p_pid s) f cs ps v), []) \<and> uloop_wf T P base s' ts (fst (reap (p_pid s) f cs ps v)) \<and>
    set (fst (reap (p_pid s) f cs ps v)) = {p \<in> set ps. p_pid s p \<notin> fst ` set cs} \<and>
    (\<forall>p\<in>P. p_pending s' p = (p_pending s p \<and> p_pid s p \<notin> fst ` set cs))"
proof -
  have "set (fst (reap g f cs ps v)) = {p \<in> set ps. g p \<notin> fst ` set cs}" for g ps v
    by (induction g f cs ps v rule: reap.induct) auto
  moreover have "uloop_wf T P base (s\<lparr>do_sigchld := False\<rparr>) ts ps" using assms(3) by (simp add: uloop_wf_def)
  from handle_processes_reap [OF assms(1,2) this _ assms(5), of v] obtain s' where
    "uloop_handle_processes env s = Some s'" "uloop_wf T P base s' ts (fst (reap (p_pid s) f cs ps v))"
    "ul_world s' = (snd (reap (p_pid s) f cs ps v), [])" "\<not> do_sigchld s'"
    using assms(4) by (auto simp: uloop_handle_processes_def)
  ultimately show ?thesis using assms(3) by (intro exI [of _ s']) (auto simp: uloop_wf_def)
qed

definition child_env :: "(int list \<times> (int \<times> int) list) env" where
  "child_env = (undefined :: (int list \<times> (int \<times> int) list) env)\<lparr>
     waitpid := \<lambda>(v, cs). (case cs of [] \<Rightarrow> ((0, 0), v, []) | c # cs \<Rightarrow> (c, v, cs)),
     call_process := \<lambda>p ret s. Some (s\<lparr>ul_world := (ret # fst (ul_world s), snd (ul_world s))\<rparr>)\<rparr>"

lemma uloop_handle_processes_correct_witness:
  "\<exists>s s'. uloop_process_add 20 s = Some (0, s') \<and>
    (\<exists>s''. uloop_handle_processes child_env s' = Some s'' \<and> ul_world s'' = ([7], []) \<and> \<not> p_pending s'' 20)"
proof -
  let ?s = "uloop_static ((undefined :: (int list \<times> (int \<times> int) list) uloop)\<lparr>t_pending := \<lambda>_. False,
    p_pending := \<lambda>_. False, p_pid := int, ul_world := ([], [(3, 1), (20, 7)])\<rparr>)"
  have "uloop_wf {10, 11} {20} 0 ?s [] []"
    by (rule uloop_static_wf) (simp_all add: demo_objs)
  from process_add_wf [OF this, of 20] obtain s' where s': "uloop_process_add 20 ?s = Some (0, s')"
    "uloop_wf {10, 11} {20} 0 s' [] [20]" by (auto simp: insert_before_def)
  have w: "ul_world s' = ([], [(3, 1), (20, 7)])" "p_pid s' = int"
    using s'(1) by (auto simp: uloop_process_add_def uloop_static_def split: if_splits bind_splits)
  have "reports_children child_env" "process_cb_is child_env (\<lambda>p ret v. ret # v)"
    by (simp_all add: reports_children_def process_cb_is_def child_env_def)
  from uloop_handle_processes_correct [OF this s'(2) w(1)] show ?thesis using s'(1) w(2) by auto
qed

section \<open>Descriptors\<close>

lemma stack_event_top: "fst cur = fd \<Longrightarrow> stack_event fd (-1) (cur # frames) = Some ((0, snd cur) # frames)"
  by simp

lemma stack_event_other: "stack_event fd e st = Some st' \<Longrightarrow> \<forall>i < length st. fst (st ! i) \<noteq> fd \<longrightarrow> st' ! i = st ! i"
  by (induction st arbitrary: st') (auto simp: nth_Cons split: if_splits nat.splits)

lemma fd_delete_state:
  "cur_fds (snd (uloop_fd_delete env fd s)) = take (cur_fd s) (cur_fds s) @
     map (forget_fd fd) (take (cur_nfds s) (drop (cur_fd s) (cur_fds s))) @ drop (cur_nfds s) (drop (cur_fd s) (cur_fds s))"
  "cur_fd (snd (uloop_fd_delete env fd s)) = cur_fd s" "cur_nfds (snd (uloop_fd_delete env fd s)) = cur_nfds s"
  "\<not> fd_registered (snd (uloop_fd_delete env fd s)) fd"
  by (auto simp: uloop_fd_delete_def uloop_fd_delete'_def uloop_fd_stack_event_def Let_def
    split: prod.splits option.splits)

text \<open>The same callbacks except for the one of \<open>fd\<close>.\<close>

definition with_fd_cb :: "ptr \<Rightarrow> (u32 \<Rightarrow> 'w uloop \<Rightarrow> 'w uloop option) \<Rightarrow> 'w env \<Rightarrow> 'w env" where
  "with_fd_cb fd cb env = env\<lparr>call_fd := (call_fd env)(fd := cb)\<rparr>"

lemma with_fd_cb_back: "with_fd_cb fd (call_fd env fd) (with_fd_cb fd cb env) = env"
  by (simp add: with_fd_cb_def)

lemma call_other: "g \<noteq> fd \<Longrightarrow> call_fd (with_fd_cb fd cb env) g = call_fd env g"
  by (simp add: with_fd_cb_def)

lemma fd_cb_loop_Some:
  assumes "fd_cb_loop env g events s = Some y" "g \<noteq> fd"
  shows "fd_cb_loop (with_fd_cb fd cb env) g events s = Some y"
  using assms
proof (induction arbitrary: cb rule: fd_cb_loop.raw_induct [rotated, consumes 1])
  case (1 rec env g events s y)
  from 1(2) obtain fr st s1 fr1 st1 where h: "fd_stack s = fr # st" "fd_cb s g"
    "call_fd env g events (s\<lparr>fd_stack := (fst fr, 0) # st\<rparr>) = Some s1" "fd_stack s1 = fr1 # st1"
    "(if fst fr1 \<noteq> 0 \<and> snd fr1 AND ULOOP_EVENT_MASK \<noteq> 0 then rec env g (snd fr1 AND ULOOP_EVENT_MASK) s1
      else Some (s1\<lparr>fd_stack := st1\<rparr>)) = Some y"
    by (auto simp: Let_def split: list.splits if_splits bind_splits)
  show ?case
    using h 1(1) [of env g "snd fr1 AND ULOOP_EVENT_MASK" s1 y cb] 1(3)
    by (subst fd_cb_loop.simps) (auto simp: call_other Let_def split: if_splits)
qed

lemma fd_cb_loop_other: "g \<noteq> fd \<Longrightarrow> fd_cb_loop (with_fd_cb fd cb env) g events s = fd_cb_loop env g events s"
  using fd_cb_loop_Some [of env g events s _ fd cb]
    fd_cb_loop_Some [of "with_fd_cb fd cb env" g events s _ fd "call_fd env fd"]
  unfolding with_fd_cb_back by (metis not_Some_eq)

definition no_event_for :: "ptr \<Rightarrow> 'w uloop \<Rightarrow> bool" where
  "no_event_for fd s \<longleftrightarrow> (\<forall>i < cur_nfds s. cur_fd s + i < length (cur_fds s) \<longrightarrow> fst (cur_fds s ! (cur_fd s + i)) \<noteq> fd)"

lemma no_event_next:
  assumes "no_event_for fd s" "cur_nfds s \<noteq> 0"
  shows "no_event_for fd (s\<lparr>cur_fd := cur_fd s + 1, cur_nfds := cur_nfds s - 1\<rparr>)"
  unfolding no_event_for_def
proof (intro allI impI)
  fix i assume "i < cur_nfds (s\<lparr>cur_fd := cur_fd s + 1, cur_nfds := cur_nfds s - 1\<rparr>)"
    "cur_fd (s\<lparr>cur_fd := cur_fd s + 1, cur_nfds := cur_nfds s - 1\<rparr>) + i < length (cur_fds (s\<lparr>cur_fd := cur_fd s + 1, cur_nfds := cur_nfds s - 1\<rparr>))"
  then show "fst (cur_fds (s\<lparr>cur_fd := cur_fd s + 1, cur_nfds := cur_nfds s - 1\<rparr>) !
      (cur_fd (s\<lparr>cur_fd := cur_fd s + 1, cur_nfds := cur_nfds s - 1\<rparr>) + i)) \<noteq> fd"
    using assms(1) [unfolded no_event_for_def, rule_format, of "Suc i"] by simp
qed

lemma stack_event_events:
  "cur_fds (snd (uloop_fd_stack_event g e s)) = cur_fds s" "cur_fd (snd (uloop_fd_stack_event g e s)) = cur_fd s"
  "cur_nfds (snd (uloop_fd_stack_event g e s)) = cur_nfds s"
  by (auto simp: uloop_fd_stack_event_def split: option.splits)

lemma run_events_other:
  "no_event_for fd s \<Longrightarrow> run_events_loop (with_fd_cb fd cb env) s = run_events_loop env s"
proof (induction "cur_nfds s" arbitrary: s)
  case 0
  then show ?case by (subst (1 2) run_events_loop.simps) simp
next
  case (Suc n)
  let ?s = "s\<lparr>cur_fd := cur_fd s + 1, cur_nfds := cur_nfds s - 1\<rparr>"
  note next' = no_event_next [OF Suc.prems]
  show ?case
  proof (cases "cur_fd s < length (cur_fds s)")
    case False
    then show ?thesis using Suc.hyps(2) by (subst (1 2) run_events_loop.simps) (simp add: rd_def)
  next
    case True
    obtain g ev where cur: "cur_fds s ! cur_fd s = (g, ev)" by fastforce
    have g: "g \<noteq> fd" using Suc.prems [unfolded no_event_for_def, rule_format, of 0] Suc.hyps(2) True cur by simp
    obtain b s1 where b: "uloop_fd_stack_event g (sint ev) ?s = (b, s1)" by fastforce
    have s1: "cur_fds s1 = cur_fds ?s" "cur_fd s1 = cur_fd ?s" "cur_nfds s1 = cur_nfds ?s"
      using stack_event_events [of g "sint ev" ?s] b by simp_all
    have n: "n = cur_nfds ?s" "n = cur_nfds s1" "cur_nfds s \<noteq> 0" using Suc.hyps(2) s1 by simp_all
    have ne: "no_event_for fd ?s" using next' n(3) by blast
    then have ne1: "no_event_for fd s1" using s1 by (simp add: no_event_for_def)
    have rec: "run_events_loop (with_fd_cb fd cb env) ?s = run_events_loop env ?s"
      "run_events_loop (with_fd_cb fd cb env) s1 = run_events_loop env s1"
      using Suc.hyps(1) [OF n(1) ne] Suc.hyps(1) [OF n(2) ne1] by blast+
    show ?thesis
      using n(3) True rec b fd_cb_loop_other [OF g, of cb env]
      by (subst (1 2) run_events_loop.simps) (simp add: rd_def cur Let_def)
  qed
qed



section \<open>Signals\<close>

lemma install_handler_sigactions [simp]:
  "sigactions (uloop_install_handler n h True s) = (if sa_handler (sigactions s n) = SIG_DFL
     then (sigactions s)(n := (sigactions s n)\<lparr>sa_handler := h, sa_flags := 0\<rparr>) else sigactions s)"
  "old_sigaction (uloop_install_handler n h True s) = (if sa_handler (sigactions s n) = SIG_DFL
     then (old_sigaction s)(n := sigactions s n) else old_sigaction s)"
  "sigactions (uloop_install_handler n h False s) = (if sa_handler (sigactions s n) = h
     then (sigactions s)(n := old_sigaction s n) else sigactions s)"
  "old_sigaction (uloop_install_handler n h False s) = old_sigaction s"
  by (simp_all add: uloop_install_handler_def Let_def)

lemma ignore_signal_sigactions [simp]:
  "sigactions (uloop_ignore_signal n True s) = (if sa_handler (sigactions s n) = SIG_DFL
     then (sigactions s)(n := (sigactions s n)\<lparr>sa_handler := SIG_IGN, sa_flags := 0\<rparr>) else sigactions s)"
  "sigactions (uloop_ignore_signal n False s) = sigactions s"
  "old_sigaction (uloop_ignore_signal n ignore s) = old_sigaction s"
  by (simp_all add: uloop_ignore_signal_def Let_def)

lemmas signal_numbers = SIGINT_def SIGPIPE_def SIGTERM_def SIGCHLD_def



end
