(* ===== verification/Ustream.thy ===== *)
theory Ustream
  imports Prelude
begin

text \<open>
  \<^verbatim>\<open>ustream.h\<close>, \<^verbatim>\<open>ustream.c\<close>: buffered streams. A chain of \<^verbatim>\<open>struct ustream_buf\<close> is the list of its
  buffers from \<^verbatim>\<open>head\<close> to \<^verbatim>\<open>tail\<close>, and \<^verbatim>\<open>data_tail\<close> an index into it (\<^const>\<open>None\<close> for NULL). The functions
  that the user or the implementation of a stream sets, and \<^verbatim>\<open>malloc\<close>, are parameters.
\<close>

section \<open>State\<close>

text \<open>A buffer: its area \<^verbatim>\<open>head[]\<close> and the pointers into it as offsets.\<close>

record ustream_buf =
  ub_head :: bytes
  ub_data :: nat
  ub_tail :: nat
  ub_end :: nat

record ustream_buf_list =
  bl_bufs :: "ustream_buf list"
  bl_data_tail :: "nat option"
  data_bytes :: int
  min_buffers :: int
  max_buffers :: int
  buffer_len :: int
  buffers :: int

definition READ_BLOCKED_USER :: u8 where "READ_BLOCKED_USER = 1"
definition READ_BLOCKED_FULL :: u8 where "READ_BLOCKED_FULL = 2"

text \<open>\<open>us_state_change\<close> tells that the timer of that name is armed; \<open>'w\<close> is the rest of the world.\<close>

record 'w ustream =
  us_r :: ustream_buf_list
  us_w :: ustream_buf_list
  us_state_change :: bool
  string_data :: bool
  write_error :: bool
  us_eof :: bool
  eof_write_done :: bool
  read_blocked :: u8
  us_world :: 'w

record 'w ustream_ops =
  malloc :: "nat \<Rightarrow> 'w ustream \<Rightarrow> bytes option"
  notify_read :: "(int \<Rightarrow> 'w ustream \<Rightarrow> 'w ustream option) option"
  notify_write :: "(int \<Rightarrow> 'w ustream \<Rightarrow> 'w ustream option) option"
  notify_state :: "('w ustream \<Rightarrow> 'w ustream option) option"
  us_write :: "bytes \<Rightarrow> bool \<Rightarrow> 'w ustream \<Rightarrow> (int \<times> 'w ustream) option"
  us_free :: "('w ustream \<Rightarrow> 'w ustream option) option"
  set_read_blocked :: "'w ustream \<Rightarrow> 'w ustream option"
  us_poll :: "('w ustream \<Rightarrow> (bool \<times> 'w ustream) option) option"

section \<open>Buffers\<close>

text \<open>\<^verbatim>\<open>ustream_init_buf\<close> on an area; it aborts on the length 0.\<close>

definition ustream_init_buf :: "bytes \<Rightarrow> nat \<Rightarrow> ustream_buf option" where
  "ustream_init_buf area len =
     (if len = 0 then None
      else do { area \<leftarrow> wrn area 0 [0]; Some \<lparr>ub_head = area, ub_data = 0, ub_tail = 0, ub_end = len\<rparr> })"

definition ustream_add_buf :: "ustream_buf \<Rightarrow> ustream_buf_list \<Rightarrow> ustream_buf_list" where
  "ustream_add_buf buf l =
     l\<lparr>buffers := buffers l + 1, bl_bufs := bl_bufs l @ [buf],
       bl_data_tail := (if bl_data_tail l = None then Some 0 else bl_data_tail l)\<rparr>"

definition ustream_can_alloc :: "ustream_buf_list \<Rightarrow> bool" where
  "ustream_can_alloc l = (if max_buffers l \<le> 0 then True else buffers l < max_buffers l)"

definition ustream_alloc_default :: "'w ustream_ops \<Rightarrow> 'w ustream \<Rightarrow> ustream_buf_list \<Rightarrow> (int \<times> ustream_buf_list) option" where
  "ustream_alloc_default ops s l =
     (if \<not> ustream_can_alloc l then Some (-1, l)
      else do { area \<leftarrow> malloc ops (nat (buffer_len l) + (if string_data s then 1 else 0)) s;
                buf \<leftarrow> ustream_init_buf area (nat (buffer_len l));
                Some (0, ustream_add_buf buf l) })"

definition ustream_free_buffers :: "ustream_buf_list \<Rightarrow> ustream_buf_list" where
  "ustream_free_buffers l = l\<lparr>bl_bufs := [], bl_data_tail := None\<rparr>"

definition ustream_state_change :: "'w ustream \<Rightarrow> 'w ustream" where
  "ustream_state_change s = s\<lparr>us_state_change := True\<rparr>"

definition ustream_free :: "'w ustream_ops \<Rightarrow> 'w ustream \<Rightarrow> 'w ustream option" where
  "ustream_free ops s =
     do { s \<leftarrow> (case us_free ops of None \<Rightarrow> Some s | Some f \<Rightarrow> f s);
          Some (s\<lparr>us_state_change := False, us_r := ustream_free_buffers (us_r s), us_w := ustream_free_buffers (us_w s)\<rparr>) }"

definition ustream_state_change_cb :: "'w ustream_ops \<Rightarrow> 'w ustream \<Rightarrow> 'w ustream option" where
  "ustream_state_change_cb ops s =
     (let s = (if write_error s then s\<lparr>us_w := ustream_free_buffers (us_w s)\<rparr> else s)
      in case notify_state ops of None \<Rightarrow> Some s | Some f \<Rightarrow> f s)"

definition default_set :: "int \<Rightarrow> int \<Rightarrow> int" where
  "default_set f d = (if f = 0 then d else f)"

definition ustream_init_defaults :: "'w ustream \<Rightarrow> 'w ustream" where
  "ustream_init_defaults s =
     s\<lparr>us_r := (us_r s)\<lparr>min_buffers := default_set (min_buffers (us_r s)) 1, max_buffers := default_set (max_buffers (us_r s)) 1,
         buffer_len := default_set (buffer_len (us_r s)) 4096, buffers := 0, data_bytes := 0\<rparr>,
       us_w := (us_w s)\<lparr>min_buffers := default_set (min_buffers (us_w s)) 2, max_buffers := default_set (max_buffers (us_w s)) (-1),
         buffer_len := default_set (buffer_len (us_w s)) 256, buffers := 0, data_bytes := 0\<rparr>,
       write_error := False, us_eof := False, eof_write_done := False, read_blocked := 0\<rparr>"

text \<open>\<open>lst\<close> tells whether the buffer is the \<^verbatim>\<open>tail\<close> of its list.\<close>

definition ustream_should_move :: "ustream_buf_list \<Rightarrow> bool \<Rightarrow> ustream_buf \<Rightarrow> nat \<Rightarrow> bool" where
  "ustream_should_move l lst buf len =
     (if ub_data buf = 0 then False
      else let maxlen = ub_end buf; offset = ub_data buf in
        if offset > maxlen div 2 then True
        else if ub_tail buf - ub_data buf < 32 \<and> offset > maxlen div 4 then True
        else if \<not> lst \<or> ustream_can_alloc l then False
        else ub_end buf - ub_tail buf < len)"

text \<open>Both callers free the first buffer of the list. One that is kept goes to the end, empty.\<close>

definition ustream_free_buf :: "ustream_buf_list \<Rightarrow> ustream_buf_list option" where
  "ustream_free_buf l =
     (case bl_bufs l of
        [] \<Rightarrow> None
      | buf # rest \<Rightarrow>
          let l = l\<lparr>bl_bufs := rest,
                    bl_data_tail := (case bl_data_tail l of
                       None \<Rightarrow> None
                     | Some 0 \<Rightarrow> if rest = [] then None else Some 0
                     | Some (Suc i) \<Rightarrow> Some i),
                    buffers := buffers l - 1\<rparr>
          in if buffers l \<ge> min_buffers l then Some l
             else do { buf \<leftarrow> ustream_init_buf (ub_head buf) (ub_end buf); Some (ustream_add_buf buf l) })"

section \<open>Reading\<close>

definition ustream_set_read_blocked' :: "'w ustream_ops \<Rightarrow> u8 \<Rightarrow> 'w ustream \<Rightarrow> 'w ustream option" where
  "ustream_set_read_blocked' ops val s =
     (let changed = ((read_blocked s \<noteq> 0) \<noteq> (val \<noteq> 0)); s = s\<lparr>read_blocked := val\<rparr>
      in if changed then set_read_blocked ops s else Some s)"

definition ustream_set_read_blocked :: "'w ustream_ops \<Rightarrow> bool \<Rightarrow> 'w ustream \<Rightarrow> 'w ustream option" where
  "ustream_set_read_blocked ops blocked s =
     (let val = read_blocked s AND NOT READ_BLOCKED_USER;
          val = (if blocked then val OR READ_BLOCKED_USER else val)
      in ustream_set_read_blocked' ops val s)"

definition ustream_read_blocked :: "'w ustream \<Rightarrow> bool" where
  "ustream_read_blocked s \<longleftrightarrow> read_blocked s AND READ_BLOCKED_USER \<noteq> 0"

definition ustream_pending_data :: "'w ustream \<Rightarrow> bool \<Rightarrow> int" where
  "ustream_pending_data s wr = data_bytes (if wr then us_w s else us_r s)"

definition ustream_read_buf_full :: "'w ustream \<Rightarrow> bool" where
  "ustream_read_buf_full s =
     (case bl_data_tail (us_r s) of
        None \<Rightarrow> False
      | Some i \<Rightarrow> let buf = bl_bufs (us_r s) ! i in
          ub_data buf = 0 \<and> ub_tail buf = ub_end buf \<and> buffers (us_r s) = max_buffers (us_r s))"

text \<open>
  The do-while of \<^verbatim>\<open>ustream_consume\<close>. \<^verbatim>\<open>next\<close> is fetched before the buffer is freed, so after the last
  buffer it is NULL even when that buffer was kept.
\<close>

partial_function (option) consume_loop :: "nat \<Rightarrow> ustream_buf_list \<Rightarrow> ustream_buf_list option" where
  "consume_loop len l =
     (case bl_bufs l of
        [] \<Rightarrow> None
      | buf # rest \<Rightarrow>
          let buf_len = ub_tail buf - ub_data buf in
          if len < buf_len then Some (l\<lparr>bl_bufs := buf\<lparr>ub_data := ub_data buf + len\<rparr> # rest\<rparr>)
          else do { l \<leftarrow> ustream_free_buf l;
                    if len - buf_len = 0 then Some l
                    else if rest = [] then None
                    else consume_loop (len - buf_len) l })"

definition ustream_consume :: "'w ustream_ops \<Rightarrow> nat \<Rightarrow> 'w ustream \<Rightarrow> 'w ustream option" where
  "ustream_consume ops len s =
     (if len = 0 then Some s
      else let s = s\<lparr>us_r := (us_r s)\<lparr>data_bytes := data_bytes (us_r s) - int len\<rparr>\<rparr> in
        if data_bytes (us_r s) < 0 then None
        else do { l \<leftarrow> consume_loop len (us_r s);
                  let s = s\<lparr>us_r := l\<rparr> in
                  ustream_set_read_blocked' ops (read_blocked s AND NOT READ_BLOCKED_FULL) s })"

definition ustream_fixup_string :: "'w ustream \<Rightarrow> ustream_buf \<Rightarrow> ustream_buf option" where
  "ustream_fixup_string s buf =
     (if \<not> string_data s then Some buf
      else do { area \<leftarrow> wrn (ub_head buf) (ub_tail buf) [0]; Some (buf\<lparr>ub_head := area\<rparr>) })"

text \<open>\<open>rd_side\<close> tells that the list is the read side of the stream.\<close>

definition move_buf :: "'w ustream \<Rightarrow> bool \<Rightarrow> ustream_buf \<Rightarrow> ustream_buf option" where
  "move_buf s rd_side buf =
     (let len = ub_tail buf - ub_data buf in
      do { bs \<leftarrow> rdn (ub_head buf) (ub_data buf) len;
           area \<leftarrow> wrn (ub_head buf) 0 bs;
           let buf = buf\<lparr>ub_head := area, ub_data := 0, ub_tail := len\<rparr> in
           if rd_side then ustream_fixup_string s buf else Some buf })"

definition ustream_prepare_alloc :: "'w ustream_ops \<Rightarrow> 'w ustream \<Rightarrow> ustream_buf_list \<Rightarrow> (bool \<times> ustream_buf_list) option" where
  "ustream_prepare_alloc ops s l =
     (if \<not> ustream_can_alloc l then Some (False, l)
      else do { (ret, l) \<leftarrow> ustream_alloc_default ops s l;
                Some (if ret < 0 then (False, l) else (True, l\<lparr>bl_data_tail := Some (length (bl_bufs l) - 1)\<rparr>)) })"

definition ustream_prepare_buf ::
  "'w ustream_ops \<Rightarrow> 'w ustream \<Rightarrow> bool \<Rightarrow> nat \<Rightarrow> ustream_buf_list \<Rightarrow> (bool \<times> ustream_buf_list) option" where
  "ustream_prepare_buf ops s rd_side len l =
     (case bl_data_tail l of
        None \<Rightarrow> ustream_prepare_alloc ops s l
      | Some i \<Rightarrow>
          do { buf \<leftarrow> rd (bl_bufs l) i;
               buf \<leftarrow> (if ustream_should_move l (Suc i = length (bl_bufs l)) buf len then move_buf s rd_side buf else Some buf);
               let l = l\<lparr>bl_bufs := (bl_bufs l)[i := buf]\<rparr> in
               if ub_tail buf \<noteq> ub_end buf then Some (True, l)
               else if Suc i < length (bl_bufs l) then Some (True, l\<lparr>bl_data_tail := Some (Suc i)\<rparr>)
               else ustream_prepare_alloc ops s l })"

text \<open>The result: the buffer index and offset where to store, NULL as \<^const>\<open>None\<close>, and the space there.\<close>

definition ustream_reserve :: "'w ustream_ops \<Rightarrow> nat \<Rightarrow> 'w ustream \<Rightarrow> (((nat \<times> nat) option \<times> nat) \<times> 'w ustream) option" where
  "ustream_reserve ops len s =
     do { (ok, l) \<leftarrow> ustream_prepare_buf ops s True len (us_r s);
          let s = s\<lparr>us_r := l\<rparr> in
          if \<not> ok
          then do { s \<leftarrow> ustream_set_read_blocked' ops (read_blocked s OR READ_BLOCKED_FULL) s; Some ((None, 0), s) }
          else do { i \<leftarrow> bl_data_tail l; buf \<leftarrow> rd (bl_bufs l) i;
                    Some ((Some (i, ub_tail buf), ub_end buf - ub_tail buf), s) } }"

text \<open>The do-while of \<^verbatim>\<open>ustream_fill_read\<close> from the buffer with index \<open>i\<close> on.\<close>

function fill_read_loop :: "'w ustream \<Rightarrow> nat \<Rightarrow> nat \<Rightarrow> ustream_buf_list \<Rightarrow> ustream_buf_list option" where
  "fill_read_loop s i len l =
     (if i < length (bl_bufs l) then
        let buf = bl_bufs l ! i; maxlen = min (ub_end buf - ub_tail buf) len; len = len - maxlen in
        do { buf \<leftarrow> ustream_fixup_string s (buf\<lparr>ub_tail := ub_tail buf + maxlen\<rparr>);
             let l = l\<lparr>bl_bufs := (bl_bufs l)[i := buf], bl_data_tail := Some i\<rparr> in
             if len = 0 then Some l else fill_read_loop s (i + 1) len l }
      else None)"
  by pat_completeness auto
termination by (relation "measure (\<lambda>(s, i, len, l). length (bl_bufs l) - i)") auto

declare fill_read_loop.simps [simp del]

definition ustream_fill_read :: "'w ustream_ops \<Rightarrow> nat \<Rightarrow> 'w ustream \<Rightarrow> 'w ustream option" where
  "ustream_fill_read ops len s =
     (let l = us_r s; l = l\<lparr>data_bytes := data_bytes l + int len\<rparr> in
      do { i \<leftarrow> bl_data_tail l;
           l \<leftarrow> fill_read_loop s i len l;
           let s = s\<lparr>us_r := l\<rparr> in
           case notify_read ops of None \<Rightarrow> Some s | Some f \<Rightarrow> f (int len) s })"

text \<open>The bytes at the pointer \<^verbatim>\<open>ustream_get_read_buf\<close> returns, and their number; NULL as \<^const>\<open>None\<close>.\<close>

definition ustream_get_read_buf :: "'w ustream \<Rightarrow> (bytes option \<times> nat) option" where
  "ustream_get_read_buf s =
     (case bl_bufs (us_r s) of
        [] \<Rightarrow> Some (None, 0)
      | buf # _ \<Rightarrow> let len = ub_tail buf - ub_data buf in
          if len > 0 then do { bs \<leftarrow> rdn (ub_head buf) (ub_data buf) len; Some (Some bs, len) } else Some (None, len))"

partial_function (option) ustream_read_loop ::
  "'w ustream_ops \<Rightarrow> nat \<Rightarrow> bytes \<Rightarrow> 'w ustream \<Rightarrow> (bytes \<times> 'w ustream) option" where
  "ustream_read_loop ops buflen buf s =
     do { (chunk, chunk_len) \<leftarrow> ustream_get_read_buf s;
          case chunk of
            None \<Rightarrow> Some (buf, s)
          | Some bs \<Rightarrow>
              let chunk_len = (if chunk_len > buflen - length buf then buflen - length buf else chunk_len) in
              do { s \<leftarrow> ustream_consume ops chunk_len s;
                   let buf = buf @ take chunk_len bs in
                   if length buf < buflen then ustream_read_loop ops buflen buf s else Some (buf, s) } }"

text \<open>\<^verbatim>\<open>ustream_read\<close> gives the bytes stored at the start of the caller's buffer; their number is its result.\<close>

definition ustream_read :: "'w ustream_ops \<Rightarrow> nat \<Rightarrow> 'w ustream \<Rightarrow> (bytes \<times> 'w ustream) option" where
  "ustream_read ops buflen s = ustream_read_loop ops buflen [] s"

section \<open>Writing\<close>

definition ustream_write_error :: "'w ustream \<Rightarrow> 'w ustream" where
  "ustream_write_error s =
     (let s = (if \<not> write_error s then ustream_state_change s else s) in s\<lparr>write_error := True\<rparr>)"

text \<open>
  The loop of \<^verbatim>\<open>ustream_write_pending\<close>; \<^verbatim>\<open>next\<close> is NULL after the last buffer, also when that is kept.
\<close>

partial_function (option) write_pending_loop :: "'w ustream_ops \<Rightarrow> int \<Rightarrow> 'w ustream \<Rightarrow> (int \<times> 'w ustream) option" where
  "write_pending_loop ops wr s =
     (case bl_bufs (us_w s) of
        [] \<Rightarrow> Some (wr, s)
      | buf # rest \<Rightarrow>
          if data_bytes (us_w s) = 0 then Some (wr, s)
          else do { bs \<leftarrow> rdn (ub_head buf) (ub_data buf) (ub_tail buf - ub_data buf);
                    (len, s) \<leftarrow> us_write ops bs (rest \<noteq> []) s;
                    if len < 0 then Some (wr, ustream_write_error s)
                    else if len = 0 then Some (wr, s)
                    else let wr = wr + len;
                             s = s\<lparr>us_w := (us_w s)\<lparr>data_bytes := data_bytes (us_w s) - len\<rparr>\<rparr> in
                      if len < int (length bs)
                      then Some (wr, s\<lparr>us_w := (us_w s)\<lparr>bl_bufs := buf\<lparr>ub_data := ub_data buf + nat len\<rparr> # rest\<rparr>\<rparr>)
                      else do { l \<leftarrow> ustream_free_buf (us_w s);
                                let s = s\<lparr>us_w := l\<rparr> in
                                if rest = [] then Some (wr, s) else write_pending_loop ops wr s } })"

definition ustream_write_pending :: "'w ustream_ops \<Rightarrow> 'w ustream \<Rightarrow> (bool \<times> 'w ustream) option" where
  "ustream_write_pending ops s =
     (if write_error s then Some (False, s)
      else do { (wr, s) \<leftarrow> write_pending_loop ops 0 s;
                s \<leftarrow> (case notify_write ops of None \<Rightarrow> Some s | Some f \<Rightarrow> f wr s);
                let s = (if us_eof s \<and> wr \<noteq> 0 \<and> data_bytes (us_w s) = 0 then ustream_state_change s else s) in
                Some (data_bytes (us_w s) = 0, s) })"

partial_function (option) ustream_write_buffered :: "'w ustream_ops \<Rightarrow> bytes \<Rightarrow> int \<Rightarrow> 'w ustream \<Rightarrow> (int \<times> 'w ustream) option" where
  "ustream_write_buffered ops data wr s =
     (if data = [] then Some (wr, s)
      else do { (ok, l) \<leftarrow> ustream_prepare_buf ops s False (length data) (us_w s);
                if \<not> ok then Some (wr, s\<lparr>us_w := l\<rparr>)
                else do { i \<leftarrow> bl_data_tail l; buf \<leftarrow> rd (bl_bufs l) i;
                          let maxlen = min (ub_end buf - ub_tail buf) (length data) in
                          do { area \<leftarrow> wrn (ub_head buf) (ub_tail buf) (take maxlen data);
                               ustream_write_buffered ops (drop maxlen data) (wr + int maxlen)
                                 (s\<lparr>us_w := l\<lparr>bl_bufs := (bl_bufs l)[i := buf\<lparr>ub_head := area, ub_tail := ub_tail buf + maxlen\<rparr>],
                                              data_bytes := data_bytes l + int maxlen\<rparr>\<rparr>) } } })"

text \<open>\<open>aggr\<close> is the flag \<^verbatim>\<open>more\<close>.\<close>

definition ustream_write :: "'w ustream_ops \<Rightarrow> bytes \<Rightarrow> bool \<Rightarrow> 'w ustream \<Rightarrow> (int \<times> 'w ustream) option" where
  "ustream_write ops data aggr s =
     (if write_error s then Some (0, s)
      else if data_bytes (us_w s) = 0
      then do { (wr, s) \<leftarrow> us_write ops data aggr s;
                if wr = int (length data) then Some (wr, s)
                else if wr < 0 then Some (wr, ustream_write_error s)
                else ustream_write_buffered ops (drop (nat wr) data) wr s }
      else ustream_write_buffered ops data 0 s)"

definition MAX_STACK_BUFLEN :: nat where "MAX_STACK_BUFLEN = 256"

text \<open>
  \<^verbatim>\<open>ustream_vprintf\<close> and \<^verbatim>\<open>ustream_printf\<close>: \<open>text\<close> is what \<^verbatim>\<open>vsnprintf\<close> formats (without a NUL); into \<open>n\<close>
  bytes it stores at most \<open>n - 1\<close> of them and a NUL. The last \<^verbatim>\<open>malloc\<close>s only hold the text.
\<close>

definition ustream_vprintf :: "'w ustream_ops \<Rightarrow> bytes \<Rightarrow> 'w ustream \<Rightarrow> (int \<times> 'w ustream) option" where
  "ustream_vprintf ops txt s =
     (if write_error s then Some (0, s)
      else if data_bytes (us_w s) = 0
      then if length txt < MAX_STACK_BUFLEN
           then do { (wr, s) \<leftarrow> us_write ops txt False s;
                     if wr < 0 then Some (wr, ustream_write_error s)
                     else if wr = int (length txt) then Some (wr, s)
                     else ustream_write_buffered ops (drop (nat wr) txt) wr s }
           else ustream_write ops txt False s
      else do { (ok, l) \<leftarrow> ustream_prepare_buf ops s False 1 (us_w s);
                if \<not> ok then Some (0, s\<lparr>us_w := l\<rparr>)
                else do { i \<leftarrow> bl_data_tail l; buf \<leftarrow> rd (bl_bufs l) i;
                          let buflen = ub_end buf - ub_tail buf;
                              wr = (if length txt \<ge> buflen then buflen - 1 else length txt) in
                          do { area \<leftarrow> wrn (ub_head buf) (ub_tail buf) (take wr txt @ [0]);
                               let s = s\<lparr>us_w := l\<lparr>bl_bufs := (bl_bufs l)[i := buf\<lparr>ub_head := area, ub_tail := ub_tail buf + wr\<rparr>],
                                                   data_bytes := data_bytes l + int wr\<rparr>\<rparr> in
                               if length txt < buflen then Some (int wr, s)
                               else ustream_write_buffered ops (drop wr txt) (int wr) s } } })"

definition ustream_printf :: "'w ustream_ops \<Rightarrow> bytes \<Rightarrow> 'w ustream \<Rightarrow> (int \<times> 'w ustream) option" where
  "ustream_printf ops txt s = (if write_error s then Some (0, s) else ustream_vprintf ops txt s)"

definition ustream_poll :: "'w ustream_ops \<Rightarrow> 'w ustream \<Rightarrow> (bool \<times> 'w ustream) option" where
  "ustream_poll ops s = (case us_poll ops of None \<Rightarrow> Some (False, s) | Some f \<Rightarrow> f s)"

end
