(* ===== verification/UstreamSpec.thy ===== *)
theory UstreamSpec
  imports Ustream
begin

text \<open>
  The buffer chain of a stream as a queue of bytes: what the read side and the write side promise, and
  the limits on the number of buffers.
\<close>

section \<open>The bytes of a chain\<close>

definition ub_content :: "ustream_buf \<Rightarrow> bytes" where
  "ub_content b = take (ub_tail b - ub_data b) (drop (ub_data b) (ub_head b))"

text \<open>With \<open>sd\<close> (string data) there is room for a NUL behind the end.\<close>

definition ub_ok :: "bool \<Rightarrow> ustream_buf \<Rightarrow> bool" where
  "ub_ok sd b \<longleftrightarrow> ub_data b \<le> ub_tail b \<and> ub_tail b \<le> ub_end b \<and> 0 < ub_end b \<and>
     ub_end b + (if sd then 1 else 0) \<le> length (ub_head b)"

definition ub_empty :: "ustream_buf \<Rightarrow> bool" where
  "ub_empty b \<longleftrightarrow> ub_data b = 0 \<and> ub_tail b = 0"

text \<open>Before \<^verbatim>\<open>data_tail\<close> no buffer is empty, behind it all are.\<close>

definition layout :: "ustream_buf list \<Rightarrow> nat option \<Rightarrow> bool" where
  "layout bs dt \<longleftrightarrow> (case dt of None \<Rightarrow> bs = []
     | Some i \<Rightarrow> i < length bs \<and> (\<forall>b\<in>set (take i bs). ub_data b < ub_tail b) \<and> (\<forall>b\<in>set (drop (Suc i) bs). ub_empty b))"

definition content :: "ustream_buf_list \<Rightarrow> bytes" where
  "content l = concat (map ub_content (bl_bufs l))"

definition bl_ok :: "bool \<Rightarrow> ustream_buf_list \<Rightarrow> bool" where
  "bl_ok sd l \<longleftrightarrow> buffers l = int (length (bl_bufs l)) \<and> (\<forall>b\<in>set (bl_bufs l). ub_ok sd b) \<and>
     0 < buffer_len l \<and> layout (bl_bufs l) (bl_data_tail l)"

definition bl_wf :: "bool \<Rightarrow> ustream_buf_list \<Rightarrow> bool" where
  "bl_wf sd l \<longleftrightarrow> bl_ok sd l \<and> data_bytes l = int (length (content l))"

definition same_limits :: "ustream_buf_list \<Rightarrow> ustream_buf_list \<Rightarrow> bool" where
  "same_limits l l' \<longleftrightarrow> data_bytes l' = data_bytes l \<and> min_buffers l' = min_buffers l \<and>
     max_buffers l' = max_buffers l \<and> buffer_len l' = buffer_len l"

lemma same_limits_refl [simp]: "same_limits l l"
  by (simp add: same_limits_def)

lemma same_limits_trans: "same_limits l m \<Longrightarrow> same_limits m n \<Longrightarrow> same_limits l n"
  by (simp add: same_limits_def)

lemma length_ub_content [simp]: "ub_ok sd b \<Longrightarrow> length (ub_content b) = ub_tail b - ub_data b"
  by (auto simp: ub_content_def ub_ok_def)

lemma ub_empty_content [simp]: "ub_empty b \<Longrightarrow> ub_content b = []"
  by (simp add: ub_content_def ub_empty_def)

lemma all_empty_content: "\<forall>b\<in>set bs. ub_empty b \<Longrightarrow> concat (map ub_content bs) = []"
  by (induction bs) auto

lemma content_head_empty:
  assumes "bl_ok sd l" "bl_bufs l = b # rest" "ub_tail b \<le> ub_data b"
  shows "content l = []"
proof -
  obtain i where i: "bl_data_tail l = Some i" "\<forall>b\<in>set (take i (b # rest)). ub_data b < ub_tail b"
    "\<forall>b\<in>set (drop (Suc i) (b # rest)). ub_empty b"
    using assms(1,2) by (cases "bl_data_tail l") (auto simp: bl_ok_def layout_def)
  have "i = 0" using i(2) assms(3) by (cases i) auto
  then show ?thesis using i(3) assms(2,3) all_empty_content [of rest] by (simp add: content_def ub_content_def)
qed

section \<open>Buffers\<close>

lemma init_buf_ok:
  assumes "0 < len" "len + (if sd then 1 else 0) \<le> length area"
  shows "\<exists>b. ustream_init_buf area len = Some b \<and> ub_ok sd b \<and> ub_empty b"
  using assms by (cases area) (auto simp: ustream_init_buf_def wrn_def ub_ok_def ub_empty_def split: if_splits)

lemma layout_add: "layout bs dt \<Longrightarrow> ub_empty b \<Longrightarrow> layout (bs @ [b]) (if dt = None then Some 0 else dt)"
  by (cases dt) (auto simp: layout_def)

lemma add_buf_ok:
  assumes "bl_ok sd l" "ub_ok sd b" "ub_empty b"
  shows "bl_ok sd (ustream_add_buf b l)" "content (ustream_add_buf b l) = content l"
    "same_limits l (ustream_add_buf b l)"
  using assms layout_add [of "bl_bufs l" "bl_data_tail l" b]
  by (auto simp: bl_ok_def ustream_add_buf_def content_def same_limits_def)

lemma free_buf_ok:
  assumes ok: "bl_ok sd l" and l: "bl_bufs l = b # rest"
  shows "\<exists>l'. ustream_free_buf l = Some l' \<and> bl_ok sd l' \<and> content l' = concat (map ub_content rest) \<and>
    same_limits l l' \<and> buffers l' \<le> buffers l"
proof -
  let ?dt = "case bl_data_tail l of None \<Rightarrow> None | Some 0 \<Rightarrow> if rest = [] then None else Some 0 | Some (Suc i) \<Rightarrow> Some i"
  let ?l = "l\<lparr>bl_bufs := rest, bl_data_tail := ?dt, buffers := buffers l - 1\<rparr>"
  have "layout rest ?dt"
    using ok l by (cases rest) (auto simp: bl_ok_def layout_def split: option.splits nat.splits)
  then have o: "bl_ok sd ?l" "content ?l = concat (map ub_content rest)" using ok l by (auto simp: bl_ok_def content_def)
  have "ub_ok sd b" using ok l by (simp add: bl_ok_def)
  then obtain b' where b': "ustream_init_buf (ub_head b) (ub_end b) = Some b'" "ub_ok sd b'" "ub_empty b'"
    using init_buf_ok [of "ub_end b" sd "ub_head b"] by (auto simp: ub_ok_def)
  have s: "same_limits l ?l" by (simp add: same_limits_def)
  show ?thesis
  proof (cases "buffers l - 1 \<ge> min_buffers l")
    case True
    then show ?thesis using o s l by (simp add: ustream_free_buf_def)
  next
    case False
    have e: "ustream_free_buf l = Some (ustream_add_buf b' ?l)"
      using False b'(1) l by (simp add: ustream_free_buf_def)
    have "buffers (ustream_add_buf b' ?l) \<le> buffers l" by (simp add: ustream_add_buf_def)
    then show ?thesis using e add_buf_ok [OF o(1) b'(2,3)] o(2) same_limits_trans [OF s] by auto
  qed
qed

lemma drop_content:
  "len < ub_tail b - ub_data b \<Longrightarrow> ub_content (b\<lparr>ub_data := ub_data b + len\<rparr>) = drop len (ub_content b)"
  by (simp add: ub_content_def drop_take add.commute)

lemma consume_loop_ok:
  "bl_ok sd l \<Longrightarrow> 0 < len \<Longrightarrow> len \<le> length (content l) \<Longrightarrow>
    \<exists>l'. consume_loop len l = Some l' \<and> bl_ok sd l' \<and> content l' = drop len (content l) \<and> same_limits l l' \<and>
      buffers l' \<le> buffers l"
proof (induction len arbitrary: l rule: less_induct)
  case (less len)
  then obtain b rest where l: "bl_bufs l = b # rest" by (cases "bl_bufs l") (auto simp: content_def)
  have b: "ub_ok sd b" using less.prems(1) l by (simp add: bl_ok_def)
  have pos: "0 < ub_tail b - ub_data b"
    using content_head_empty [OF less.prems(1) l] less.prems(2,3) by (cases "ub_tail b \<le> ub_data b") auto
  have c: "content l = ub_content b @ concat (map ub_content rest)" using l by (simp add: content_def)
  show ?case
  proof (cases "len < ub_tail b - ub_data b")
    case True
    let ?b = "b\<lparr>ub_data := ub_data b + len\<rparr>"
    let ?l = "l\<lparr>bl_bufs := ?b # rest\<rparr>"
    have "layout (?b # rest) (bl_data_tail l)"
      using less.prems(1) l True by (auto simp: bl_ok_def layout_def take_Cons split: option.splits nat.splits)
    then have "bl_ok sd ?l" using less.prems(1) l True by (auto simp: bl_ok_def ub_ok_def)
    moreover have "content ?l = drop len (content l)"
      unfolding c using drop_content [OF True] True length_ub_content [OF b] by (simp add: content_def)
    moreover have "consume_loop len l = Some ?l" using l True by (subst consume_loop.simps) simp
    ultimately show ?thesis by (intro exI [of _ ?l]) (simp add: same_limits_def)
  next
    case False
    obtain l1 where l1: "ustream_free_buf l = Some l1" "bl_ok sd l1" "content l1 = concat (map ub_content rest)"
      "same_limits l l1" "buffers l1 \<le> buffers l"
      using free_buf_ok [OF less.prems(1) l] by blast
    have d: "drop len (content l) = drop (len - (ub_tail b - ub_data b)) (content l1)"
      unfolding c l1(3) using False length_ub_content [OF b] by simp
    show ?thesis
    proof (cases "len - (ub_tail b - ub_data b) = 0")
      case True
      have "consume_loop len l = Some l1" using l l1(1) False True by (subst consume_loop.simps) simp
      then show ?thesis using l1 d True by simp
    next
      case more: False
      have le: "len - (ub_tail b - ub_data b) \<le> length (content l1)"
        using less.prems(3) length_ub_content [OF b] unfolding c l1(3) by simp
      have "rest \<noteq> []" using le more l1(3) by (cases rest) auto
      then have e: "consume_loop len l = consume_loop (len - (ub_tail b - ub_data b)) l1"
        using l l1(1) False more by (subst consume_loop.simps) simp
      obtain l' where "consume_loop (len - (ub_tail b - ub_data b)) l1 = Some l'" "bl_ok sd l'"
        "content l' = drop (len - (ub_tail b - ub_data b)) (content l1)" "same_limits l1 l'" "buffers l' \<le> buffers l1"
        using less.IH [OF _ l1(2) _ le] more pos less.prems(2) by fastforce
      then show ?thesis using e d same_limits_trans [OF l1(4)] l1(5) by auto
    qed
  qed
qed

lemma move_buf_ok:
  assumes "ub_ok (string_data s) b"
  shows "\<exists>b'. move_buf s rdside b = Some b' \<and> ub_ok (string_data s) b' \<and> ub_content b' = ub_content b \<and>
    ub_data b' = 0 \<and> ub_tail b' = ub_tail b - ub_data b \<and> ub_end b' = ub_end b"
proof -
  let ?n = "ub_tail b - ub_data b"
  let ?area = "ub_content b @ drop ?n (ub_head b)"
  have n: "length (ub_content b) = ?n" "?n \<le> ub_end b" "ub_end b + (if string_data s then 1 else 0) \<le> length (ub_head b)"
    using assms by (auto simp: ub_ok_def)
  have r: "rdn (ub_head b) (ub_data b) ?n = Some (ub_content b)" using assms by (auto simp: rdn_def ub_content_def ub_ok_def)
  have w: "wrn (ub_head b) 0 (ub_content b) = Some ?area" using n by (simp add: wrn_def split: if_splits)
  let ?b = "b\<lparr>ub_head := ?area, ub_data := 0, ub_tail := ?n\<rparr>"
  have la: "length ?area = length (ub_head b)" using n by (simp split: if_splits)
  have "\<exists>area. ustream_fixup_string s ?b = Some (?b\<lparr>ub_head := area\<rparr>) \<and> length area = length (ub_head b) \<and> take ?n area = ub_content b"
  proof (cases "string_data s")
    case True
    then show ?thesis using n la
      by (intro exI [of _ "ub_content b @ 0 # drop (Suc ?n) (ub_head b)"]) (simp add: ustream_fixup_string_def wrn_def)
  next
    case False
    then show ?thesis using n la by (intro exI [of _ ?area]) (simp add: ustream_fixup_string_def)
  qed
  then obtain area where f: "ustream_fixup_string s ?b = Some (?b\<lparr>ub_head := area\<rparr>)" "length area = length (ub_head b)"
    "take ?n area = ub_content b" by blast
  let ?a = "if rdside then area else ?area"
  have "move_buf s rdside b = Some (?b\<lparr>ub_head := ?a\<rparr>)"
    using r w f(1) by (simp add: move_buf_def Let_def)
  moreover have "length ?a = length (ub_head b)" "take ?n ?a = ub_content b" using f la n(1) by simp_all
  then have "ub_ok (string_data s) (?b\<lparr>ub_head := ?a\<rparr>)" "ub_content (?b\<lparr>ub_head := ?a\<rparr>) = ub_content b"
    using n assms by (auto simp: ub_ok_def ub_content_def)
  ultimately show ?thesis by (intro exI [of _ "?b\<lparr>ub_head := ?a\<rparr>"]) simp
qed

lemma layout_update:
  assumes "layout bs (Some i)" "ub_data b < ub_tail b \<or> i = i"
  shows "layout (bs[i := b]) (Some i)"
  using assms(1) by (auto simp: layout_def take_update_swap drop_update_swap list_update_beyond)

lemma content_update:
  assumes "i < length bs" "ub_content b = ub_content (bs ! i)"
  shows "concat (map ub_content (bs[i := b])) = concat (map ub_content bs)"
proof -
  have "map ub_content (bs[i := b]) = map ub_content bs"
    using assms by (simp add: map_update) (metis length_map list_update_id nth_map)
  then show ?thesis by simp
qed

definition malloc_ok :: "'w ustream_ops \<Rightarrow> bool" where
  "malloc_ok ops \<longleftrightarrow> (\<forall>n s. \<exists>area. malloc ops n s = Some area \<and> length area = n)"

definition space_at_tail :: "ustream_buf_list \<Rightarrow> bool" where
  "space_at_tail l \<longleftrightarrow> (case bl_data_tail l of None \<Rightarrow> False
     | Some i \<Rightarrow> i < length (bl_bufs l) \<and> ub_tail (bl_bufs l ! i) < ub_end (bl_bufs l ! i))"

definition within_max :: "ustream_buf_list \<Rightarrow> bool" where
  "within_max l \<longleftrightarrow> 0 < max_buffers l \<longrightarrow> buffers l \<le> max_buffers l"

lemma prepare_alloc_ok:
  assumes ok: "bl_ok (string_data s) l" and m: "malloc_ok ops" and full: "\<forall>b\<in>set (bl_bufs l). ub_data b < ub_tail b"
  shows "\<exists>r l'. ustream_prepare_alloc ops s l = Some (r, l') \<and> bl_ok (string_data s) l' \<and> content l' = content l \<and>
    same_limits l l' \<and> (within_max l \<longrightarrow> within_max l') \<and> (r = ustream_can_alloc l) \<and> (r \<longrightarrow> space_at_tail l')"
proof (cases "ustream_can_alloc l")
  case False
  then show ?thesis using ok
    by (intro exI [of _ False] exI [of _ l]) (simp add: ustream_prepare_alloc_def)
next
  case True
  let ?n = "nat (buffer_len l) + (if string_data s then 1 else 0)"
  obtain area where a: "malloc ops ?n s = Some area" "length area = ?n" using m by (auto simp: malloc_ok_def)
  obtain b where b: "ustream_init_buf area (nat (buffer_len l)) = Some b" "ub_ok (string_data s) b" "ub_empty b"
    using init_buf_ok [of "nat (buffer_len l)" "string_data s" area] a(2) ok by (auto simp: bl_ok_def)
  let ?l = "(ustream_add_buf b l)\<lparr>bl_data_tail := Some (length (bl_bufs l))\<rparr>"
  have e: "ustream_prepare_alloc ops s l = Some (True, ?l)"
    using True a(1) b(1) by (simp add: ustream_prepare_alloc_def ustream_alloc_default_def ustream_add_buf_def)
  have "bl_ok (string_data s) ?l"
    using add_buf_ok(1) [OF ok b(2,3)] full by (auto simp: bl_ok_def layout_def ustream_add_buf_def)
  moreover have "content ?l = content l" "same_limits l ?l" using add_buf_ok(2,3) [OF ok b(2,3)] by (simp_all add: content_def same_limits_def)
  moreover have "space_at_tail ?l" using b(2,3) by (simp add: space_at_tail_def ustream_add_buf_def nth_append ub_ok_def ub_empty_def)
  moreover have "within_max ?l" using True by (auto simp: within_max_def ustream_can_alloc_def ustream_add_buf_def split: if_splits)
  ultimately show ?thesis using e True by blast
qed

lemma prepare_buf_ok:
  assumes ok: "bl_ok (string_data s) l" and m: "malloc_ok ops"
  shows "\<exists>r l'. ustream_prepare_buf ops s rdside len l = Some (r, l') \<and> bl_ok (string_data s) l' \<and> content l' = content l \<and>
    same_limits l l' \<and> (within_max l \<longrightarrow> within_max l') \<and> (r \<longrightarrow> space_at_tail l') \<and> (\<not> r \<longrightarrow> \<not> ustream_can_alloc l)"
proof (cases "bl_data_tail l")
  case None
  then have "bl_bufs l = []" using ok by (simp add: bl_ok_def layout_def)
  then show ?thesis using prepare_alloc_ok [OF ok m] None by (auto simp: ustream_prepare_buf_def)
next
  case (Some i)
  then have lay: "layout (bl_bufs l) (Some i)" and i: "i < length (bl_bufs l)" using ok by (auto simp: bl_ok_def layout_def)
  let ?b = "bl_bufs l ! i"
  have b: "ub_ok (string_data s) ?b" using ok i by (simp add: bl_ok_def)
  let ?mv = "ustream_should_move l (Suc i = length (bl_bufs l)) ?b len"
  obtain b' where b': "(if ?mv then move_buf s rdside ?b else Some ?b) = Some b'" "ub_ok (string_data s) b'"
    "ub_content b' = ub_content ?b" "ub_tail b' \<noteq> ub_end b' \<or> ub_data b' < ub_tail b'"
  proof (cases ?mv)
    case True
    then obtain b'' where "move_buf s rdside ?b = Some b''" "ub_ok (string_data s) b''" "ub_content b'' = ub_content ?b"
      "ub_data b'' = 0" "ub_tail b'' = ub_tail ?b - ub_data ?b" "ub_end b'' = ub_end ?b"
      using move_buf_ok [OF b] by blast
    then show ?thesis using True b by (intro that [of b'']) (auto simp: ub_ok_def)
  next
    case False
    then have "ub_data ?b = 0 \<or> ub_data ?b \<le> ub_end ?b div 2"
      by (auto simp: ustream_should_move_def Let_def split: if_splits)
    then show ?thesis using False b by (intro that [of ?b]) (auto simp: ub_ok_def)
  qed
  let ?l = "l\<lparr>bl_bufs := (bl_bufs l)[i := b']\<rparr>"
  have l: "bl_ok (string_data s) ?l"
    using ok Some b'(2) layout_update [OF lay, of b'] by (auto simp: bl_ok_def set_update_memI dest!: set_update_subset_insert [THEN subsetD])
  have c: "content ?l = content l" using content_update [OF i b'(3)] by (simp add: content_def)
  have sl: "same_limits l ?l" by (simp add: same_limits_def)
  have step: "ustream_prepare_buf ops s rdside len l = (if ub_tail b' \<noteq> ub_end b' then Some (True, ?l)
      else if Suc i < length (bl_bufs l) then Some (True, ?l\<lparr>bl_data_tail := Some (Suc i)\<rparr>)
      else ustream_prepare_alloc ops s ?l)"
    using Some i b'(1) by (simp add: ustream_prepare_buf_def rd_def Let_def cong: if_cong)
  have b'd: "ub_data b' < ub_tail b'" if "ub_tail b' = ub_end b'" using b'(4) that by simp
  have tk: "take (Suc i) ((bl_bufs l)[i := b']) = take i (bl_bufs l) @ [b']" using i by (rule take_Suc_update)
  have wm: "within_max ?l = within_max l" "ustream_can_alloc ?l = ustream_can_alloc l"
    by (simp_all add: within_max_def ustream_can_alloc_def)
  consider (space) "ub_tail b' \<noteq> ub_end b'" | (next') "ub_tail b' = ub_end b'" "Suc i < length (bl_bufs l)"
    | (full) "ub_tail b' = ub_end b'" "Suc i = length (bl_bufs l)" using i by linarith
  then show ?thesis
  proof cases
    case space
    then have "space_at_tail ?l" using Some i b'(2) by (auto simp: space_at_tail_def ub_ok_def)
    then show ?thesis using step space l c sl wm by (intro exI [of _ True] exI [of _ ?l]) simp
  next
    case next'
    let ?l' = "?l\<lparr>bl_data_tail := Some (Suc i)\<rparr>"
    have e: "ub_empty (bl_bufs l ! Suc i)" "\<forall>b\<in>set (drop (Suc (Suc i)) (bl_bufs l)). ub_empty b"
      using lay next'(2) by (auto simp: layout_def Cons_nth_drop_Suc [symmetric])
    have "layout ((bl_bufs l)[i := b']) (Some (Suc i))"
      using lay tk b'd [OF next'(1)] e(2) next'(2) by (auto simp: layout_def drop_update_swap list_update_beyond)
    then have "bl_ok (string_data s) ?l'" using l by (simp add: bl_ok_def)
    moreover have "ub_ok (string_data s) (bl_bufs l ! Suc i)" using ok next'(2) by (simp add: bl_ok_def)
    then have "space_at_tail ?l'" using e(1) next'(2) by (simp add: space_at_tail_def ub_empty_def ub_ok_def)
    moreover have "content ?l' = content l" "same_limits l ?l'" "within_max l \<longrightarrow> within_max ?l'"
      using c by (simp_all add: content_def same_limits_def within_max_def)
    ultimately show ?thesis using step next' by (intro exI [of _ True] exI [of _ ?l']) simp
  next
    case full
    have "set (bl_bufs ?l) = set (take (Suc i) ((bl_bufs l)[i := b']))" using full(2) by simp
    then have "\<forall>b\<in>set (bl_bufs ?l). ub_data b < ub_tail b"
      using lay b'd [OF full(1)] unfolding tk by (auto simp: layout_def)
    from prepare_alloc_ok [OF l m this] obtain r l' where *: "ustream_prepare_alloc ops s ?l = Some (r, l')"
      "bl_ok (string_data s) l'" "content l' = content ?l" "same_limits ?l l'" "within_max ?l \<longrightarrow> within_max l'"
      "r = ustream_can_alloc ?l" "r \<longrightarrow> space_at_tail l'" by blast
    then show ?thesis using step full c same_limits_trans [OF sl] wm by (intro exI [of _ r] exI [of _ l']) simp
  qed
qed

section \<open>Storing at the end\<close>

text \<open>Bytes stored behind the end of the data of a buffer, and the end moved behind them.\<close>

definition store_at :: "nat \<Rightarrow> nat \<Rightarrow> bytes \<Rightarrow> ustream_buf_list \<Rightarrow> ustream_buf_list option" where
  "store_at i off bs l =
     do { buf \<leftarrow> rd (bl_bufs l) i; area \<leftarrow> wrn (ub_head buf) off bs;
          Some (l\<lparr>bl_bufs := (bl_bufs l)[i := buf\<lparr>ub_head := area\<rparr>]\<rparr>) }"

lemma extend_buf:
  assumes "ub_ok sd b" "ub_tail b + length bs \<le> ub_end b" "wrn (ub_head b) (ub_tail b) (bs @ ex) = Some area"
  shows "ub_ok sd (b\<lparr>ub_head := area, ub_tail := ub_tail b + length bs\<rparr>)"
    "ub_content (b\<lparr>ub_head := area, ub_tail := ub_tail b + length bs\<rparr>) = ub_content b @ bs"
proof -
  have d: "ub_data b \<le> ub_tail b" "ub_tail b \<le> length (ub_head b)" using assms(1) by (auto simp: ub_ok_def split: if_splits)
  have a: "area = take (ub_tail b) (ub_head b) @ (bs @ ex) @ drop (ub_tail b + length (bs @ ex)) (ub_head b)"
    using assms(3) by (simp add: wrn_def split: if_splits)
  show "ub_ok sd (b\<lparr>ub_head := area, ub_tail := ub_tail b + length bs\<rparr>)"
    using assms wrn_length [OF assms(3)] by (simp add: ub_ok_def)
  show "ub_content (b\<lparr>ub_head := area, ub_tail := ub_tail b + length bs\<rparr>) = ub_content b @ bs"
  proof -
    let ?A = "drop (ub_data b) (take (ub_tail b) (ub_head b))"
    let ?Z = "ex @ drop (ub_tail b + length (bs @ ex)) (ub_head b)"
    have A: "ub_content b = ?A" by (simp add: ub_content_def drop_take)
    have l: "ub_tail b + length bs - ub_data b = length (?A @ bs)" using d by simp
    have "drop (ub_data b) area = (?A @ bs) @ ?Z" unfolding a using d by simp
    then show ?thesis unfolding ub_content_def A [unfolded ub_content_def] using l by simp
  qed
qed

lemma extend_list:
  assumes ok: "bl_ok sd l" and dt: "bl_data_tail l = Some i" "i < length (bl_bufs l)"
    and b: "ub_ok sd b" "ub_content b = ub_content (bl_bufs l ! i) @ bs"
  shows "bl_ok sd (l\<lparr>bl_bufs := (bl_bufs l)[i := b]\<rparr>)" "content (l\<lparr>bl_bufs := (bl_bufs l)[i := b]\<rparr>) = content l @ bs"
proof -
  have lay: "layout (bl_bufs l) (Some i)" using ok dt by (simp add: bl_ok_def)
  show "bl_ok sd (l\<lparr>bl_bufs := (bl_bufs l)[i := b]\<rparr>)"
    using ok dt b(1) layout_update [OF lay, of b] by (auto simp: bl_ok_def dest!: set_update_subset_insert [THEN subsetD])
  have e: "concat (map ub_content (drop (Suc i) (bl_bufs l))) = []"
    using lay by (intro all_empty_content) (simp add: layout_def)
  have "content l = concat (map ub_content (take i (bl_bufs l) @ bl_bufs l ! i # drop (Suc i) (bl_bufs l)))"
    unfolding content_def by (simp only: id_take_nth_drop [OF dt(2), symmetric])
  then have c: "content l = concat (map ub_content (take i (bl_bufs l))) @ ub_content (bl_bufs l ! i)" by (simp add: e)
  have "(bl_bufs l)[i := b] = take i (bl_bufs l) @ b # drop (Suc i) (bl_bufs l)" using dt(2) by (rule upd_conv_take_nth_drop)
  then have "content (l\<lparr>bl_bufs := (bl_bufs l)[i := b]\<rparr>) = concat (map ub_content (take i (bl_bufs l))) @ ub_content b"
    using e by (simp add: content_def)
  then show "content (l\<lparr>bl_bufs := (bl_bufs l)[i := b]\<rparr>) = content l @ bs" unfolding c b(2) by simp
qed

section \<open>The callbacks\<close>

definition quiet :: "('w ustream \<Rightarrow> 'w ustream option) \<Rightarrow> bool" where
  "quiet f \<longleftrightarrow> (\<forall>s. \<exists>w. f s = Some (s\<lparr>us_world := w\<rparr>))"

text \<open>
  What the core relies on: \<^verbatim>\<open>malloc\<close> succeeds, the notifications leave the stream alone, and \<^verbatim>\<open>write\<close>
  accepts a prefix of what it gets, which \<open>sent\<close> then has at its end, or fails.
\<close>

definition ops_ok :: "'w ustream_ops \<Rightarrow> ('w \<Rightarrow> bytes) \<Rightarrow> bool" where
  "ops_ok ops sent \<longleftrightarrow> malloc_ok ops \<and> quiet (set_read_blocked ops) \<and>
     (\<forall>f n. notify_read ops = Some f \<longrightarrow> quiet (f n)) \<and>
     (\<forall>f n s. notify_write ops = Some f \<longrightarrow> (\<exists>w. f n s = Some (s\<lparr>us_world := w\<rparr>) \<and> sent w = sent (us_world s))) \<and>
     (\<forall>bs aggr s. \<exists>n w. us_write ops bs aggr s = Some (n, s\<lparr>us_world := w\<rparr>) \<and> n \<le> int (length bs) \<and>
        sent w = sent (us_world s) @ take (nat n) bs)"

definition us_wf :: "'w ustream \<Rightarrow> bool" where
  "us_wf s \<longleftrightarrow> bl_wf (string_data s) (us_r s) \<and> bl_wf (string_data s) (us_w s)"

lemma set_blocked_ok:
  assumes "ops_ok ops sent"
  shows "\<exists>w. ustream_set_read_blocked' ops v s = Some (s\<lparr>read_blocked := v, us_world := w\<rparr>)"
proof (cases "(read_blocked s \<noteq> 0) \<noteq> (v \<noteq> 0)")
  case True
  then show ?thesis using assms by (auto simp: ustream_set_read_blocked'_def ops_ok_def quiet_def)
next
  case False
  then show ?thesis by (intro exI [of _ "us_world s"]) (auto simp: ustream_set_read_blocked'_def)
qed

section \<open>Reading\<close>

lemma consume_ok:
  assumes "ops_ok ops sent" "us_wf s" "len \<le> length (content (us_r s))"
  shows "\<exists>s'. ustream_consume ops len s = Some s' \<and> us_wf s' \<and> content (us_r s') = drop len (content (us_r s)) \<and>
    us_w s' = us_w s \<and> string_data s' = string_data s \<and> buffers (us_r s') \<le> buffers (us_r s) \<and>
    (0 < len \<longrightarrow> read_blocked s' AND READ_BLOCKED_FULL = 0)"
proof (cases "len = 0")
  case True
  then show ?thesis using assms by (simp add: ustream_consume_def)
next
  case False
  have r: "bl_ok (string_data s) (us_r s)" "data_bytes (us_r s) = int (length (content (us_r s)))"
    using assms(2) by (auto simp: us_wf_def bl_wf_def)
  let ?l = "(us_r s)\<lparr>data_bytes := data_bytes (us_r s) - int len\<rparr>"
  have "bl_ok (string_data s) ?l" "content ?l = content (us_r s)" using r(1) by (simp_all add: bl_ok_def content_def)
  then obtain l' where l': "consume_loop len ?l = Some l'" "bl_ok (string_data s) l'" "content l' = drop len (content (us_r s))"
    "same_limits ?l l'" "buffers l' \<le> buffers (us_r s)"
    using consume_loop_ok [of "string_data s" ?l len] False assms(3) by auto
  have wf: "bl_wf (string_data s) l'" using l' r(2) assms(3) by (auto simp: bl_wf_def same_limits_def)
  let ?v = "read_blocked s AND NOT READ_BLOCKED_FULL"
  obtain w where w: "ustream_set_read_blocked' ops ?v (s\<lparr>us_r := l'\<rparr>) = Some (s\<lparr>us_r := l', read_blocked := ?v, us_world := w\<rparr>)"
    using set_blocked_ok [OF assms(1)] by fastforce
  have "?v AND READ_BLOCKED_FULL = 0" by (rule bit_word_eqI) (auto simp: bit_simps)
  moreover have "ustream_consume ops len s = Some (s\<lparr>us_r := l', read_blocked := ?v, us_world := w\<rparr>)"
    using False l'(1) w r(2) assms(3) by (simp add: ustream_consume_def Let_def)
  ultimately show ?thesis using wf l'(3,5) assms(2)
    by (intro exI [of _ "s\<lparr>us_r := l', read_blocked := ?v, us_world := w\<rparr>"]) (simp add: us_wf_def)
qed

lemma consume_too_much: "us_wf s \<Longrightarrow> length (content (us_r s)) < len \<Longrightarrow> ustream_consume ops len s = None"
  by (simp add: ustream_consume_def us_wf_def bl_wf_def)

lemma get_read_buf_ok:
  assumes "us_wf s"
  shows "\<exists>bs. (content (us_r s) = [] \<longrightarrow> ustream_get_read_buf s = Some (None, 0)) \<and>
    (content (us_r s) \<noteq> [] \<longrightarrow> bs \<noteq> [] \<and> ustream_get_read_buf s = Some (Some bs, length bs) \<and>
       (\<exists>rest. content (us_r s) = bs @ rest))"
proof (cases "bl_bufs (us_r s)")
  case Nil
  then show ?thesis by (simp add: ustream_get_read_buf_def content_def)
next
  case (Cons b rest)
  have ok: "bl_ok (string_data s) (us_r s)" "ub_ok (string_data s) b"
    using assms Cons by (auto simp: us_wf_def bl_wf_def bl_ok_def)
  have c: "content (us_r s) = ub_content b @ concat (map ub_content rest)" using Cons by (simp add: content_def)
  show ?thesis
  proof (cases "ub_tail b \<le> ub_data b")
    case True
    then show ?thesis using content_head_empty [OF ok(1) Cons True] Cons by (simp add: ustream_get_read_buf_def)
  next
    case False
    have "rdn (ub_head b) (ub_data b) (ub_tail b - ub_data b) = Some (ub_content b)"
      using ok(2) by (auto simp: rdn_def ub_content_def ub_ok_def)
    then have g: "ustream_get_read_buf s = Some (Some (ub_content b), length (ub_content b))"
      using False Cons length_ub_content [OF ok(2)] by (simp add: ustream_get_read_buf_def)
    have "ub_content b \<noteq> []" using False length_ub_content [OF ok(2)] by (metis diff_is_0_eq list.size(3))
    then show ?thesis using g c by (intro exI [of _ "ub_content b"]) auto
  qed
qed

lemma read_loop_ok:
  assumes ops: "ops_ok ops sent"
  shows "us_wf s \<Longrightarrow> length buf \<le> buflen \<Longrightarrow>
    \<exists>s'. ustream_read_loop ops buflen buf s = Some (buf @ take (buflen - length buf) (content (us_r s)), s') \<and> us_wf s' \<and>
      content (us_r s') = drop (buflen - length buf) (content (us_r s)) \<and> us_w s' = us_w s"
proof (induction "length (content (us_r s))" arbitrary: buf s rule: less_induct)
  case less
  obtain bs where bs: "content (us_r s) = [] \<longrightarrow> ustream_get_read_buf s = Some (None, 0)"
    "content (us_r s) \<noteq> [] \<longrightarrow> bs \<noteq> [] \<and> ustream_get_read_buf s = Some (Some bs, length bs) \<and> (\<exists>rest. content (us_r s) = bs @ rest)"
    using get_read_buf_ok [OF less.prems(1)] by blast
  show ?case
  proof (cases "content (us_r s) = []")
    case True
    then have "ustream_read_loop ops buflen buf s = Some (buf, s)" using bs(1) by (subst ustream_read_loop.simps) simp
    then show ?thesis using True less.prems by simp
  next
    case False
    then obtain rest where g: "bs \<noteq> []" "ustream_get_read_buf s = Some (Some bs, length bs)" "content (us_r s) = bs @ rest"
      using bs(2) by blast
    let ?n = "min (length bs) (buflen - length buf)"
    have n: "(if length bs > buflen - length buf then buflen - length buf else length bs) = ?n" by simp
    have "?n \<le> length (content (us_r s))" using g(3) by simp
    then obtain s1 where s1: "ustream_consume ops ?n s = Some s1" "us_wf s1" "content (us_r s1) = drop ?n (content (us_r s))"
      "us_w s1 = us_w s" using consume_ok [OF ops less.prems(1)] by blast
    have step: "ustream_read_loop ops buflen buf s = (if length (buf @ take ?n bs) < buflen
        then ustream_read_loop ops buflen (buf @ take ?n bs) s1 else Some (buf @ take ?n bs, s1))"
      using g(2) s1(1) n by (subst ustream_read_loop.simps) (simp add: Let_def del: length_append)
    show ?thesis
    proof (cases "length (buf @ take ?n bs) < buflen")
      case True
      then have n': "?n = length bs" by auto
      have c1: "content (us_r s1) = rest" "length (content (us_r s1)) < length (content (us_r s))"
        using s1(3) g(1,3) n' by simp_all
      obtain s' where "ustream_read_loop ops buflen (buf @ bs) s1 = Some (buf @ bs @ take (buflen - length (buf @ bs)) rest, s')"
        "us_wf s'" "content (us_r s') = drop (buflen - length (buf @ bs)) rest" "us_w s' = us_w s1"
        using less.hyps [OF c1(2) s1(2), of "buf @ bs"] True n' c1(1) by auto
      then show ?thesis using step True n' g(3) s1(4) by auto
    next
      case False
      then have "?n = buflen - length buf" "buflen - length buf \<le> length bs" using less.prems(2) by auto
      then show ?thesis using step False s1 g(3) by auto
    qed
  qed
qed

text \<open>Filling the space that \<^verbatim>\<open>ustream_reserve\<close> gave.\<close>

lemma reserve_ok:
  assumes ops: "ops_ok ops sent" and wf: "us_wf s"
  shows "\<exists>p n s'. ustream_reserve ops len s = Some ((p, n), s') \<and> us_wf s' \<and> content (us_r s') = content (us_r s) \<and>
    us_w s' = us_w s \<and> string_data s' = string_data s \<and> (within_max (us_r s) \<longrightarrow> within_max (us_r s')) \<and>
    (case p of None \<Rightarrow> \<not> ustream_can_alloc (us_r s) \<and> read_blocked s' AND READ_BLOCKED_FULL \<noteq> 0
     | Some (i, off) \<Rightarrow> bl_data_tail (us_r s') = Some i \<and> i < length (bl_bufs (us_r s')) \<and>
         off = ub_tail (bl_bufs (us_r s') ! i) \<and> 0 < n \<and> off + n = ub_end (bl_bufs (us_r s') ! i))"
proof -
  have r: "bl_ok (string_data s) (us_r s)" "data_bytes (us_r s) = int (length (content (us_r s)))"
    using wf by (auto simp: us_wf_def bl_wf_def)
  have m: "malloc_ok ops" using ops by (simp add: ops_ok_def)
  obtain ok l where l: "ustream_prepare_buf ops s True len (us_r s) = Some (ok, l)" "bl_ok (string_data s) l"
    "content l = content (us_r s)" "same_limits (us_r s) l" "within_max (us_r s) \<longrightarrow> within_max l"
    "ok \<longrightarrow> space_at_tail l" "\<not> ok \<longrightarrow> \<not> ustream_can_alloc (us_r s)"
    using prepare_buf_ok [OF r(1) m] by blast
  have wf': "us_wf (s\<lparr>us_r := l\<rparr>)" using wf l r(2) by (auto simp: us_wf_def bl_wf_def same_limits_def)
  show ?thesis
  proof (cases ok)
    case True
    then obtain i where i: "bl_data_tail l = Some i" "i < length (bl_bufs l)" "ub_tail (bl_bufs l ! i) < ub_end (bl_bufs l ! i)"
      using l(6) by (auto simp: space_at_tail_def split: option.splits)
    then have "ustream_reserve ops len s = Some ((Some (i, ub_tail (bl_bufs l ! i)), ub_end (bl_bufs l ! i) - ub_tail (bl_bufs l ! i)), s\<lparr>us_r := l\<rparr>)"
      using True l(1) by (simp add: ustream_reserve_def rd_def)
    then show ?thesis using wf' i l(3,5)
      by (intro exI [of _ "Some (i, ub_tail (bl_bufs l ! i))"] exI [of _ "ub_end (bl_bufs l ! i) - ub_tail (bl_bufs l ! i)"]
        exI [of _ "s\<lparr>us_r := l\<rparr>"]) simp
  next
    case False
    let ?v = "read_blocked s OR READ_BLOCKED_FULL"
    obtain w where w: "ustream_set_read_blocked' ops ?v (s\<lparr>us_r := l\<rparr>) = Some (s\<lparr>us_r := l, read_blocked := ?v, us_world := w\<rparr>)"
      using set_blocked_ok [OF ops] by fastforce
    have "?v AND READ_BLOCKED_FULL = READ_BLOCKED_FULL" by (rule bit_word_eqI) (auto simp: bit_simps)
    then have "?v AND READ_BLOCKED_FULL \<noteq> 0" by (simp add: READ_BLOCKED_FULL_def)
    moreover have "ustream_reserve ops len s = Some ((None, 0), s\<lparr>us_r := l, read_blocked := ?v, us_world := w\<rparr>)"
      using False l(1) w by (simp add: ustream_reserve_def)
    ultimately show ?thesis using wf' l(3,5,7) False
      by (intro exI [of _ None] exI [of _ 0] exI [of _ "s\<lparr>us_r := l, read_blocked := ?v, us_world := w\<rparr>"])
        (simp add: us_wf_def)
  qed
qed

lemma fill_read_ok:
  assumes ops: "ops_ok ops sent" and wf: "us_wf s" and i: "bl_data_tail (us_r s) = Some i" "i < length (bl_bufs (us_r s))"
    and bs: "bs \<noteq> []" "ub_tail (bl_bufs (us_r s) ! i) + length bs \<le> ub_end (bl_bufs (us_r s) ! i)"
  shows "\<exists>l s'. store_at i (ub_tail (bl_bufs (us_r s) ! i)) bs (us_r s) = Some l \<and>
    ustream_fill_read ops (length bs) (s\<lparr>us_r := l\<rparr>) = Some s' \<and> us_wf s' \<and>
    content (us_r s') = content (us_r s) @ bs \<and> us_w s' = us_w s \<and> string_data s' = string_data s"
proof -
  let ?b = "bl_bufs (us_r s) ! i"
  have r: "bl_ok (string_data s) (us_r s)" "data_bytes (us_r s) = int (length (content (us_r s)))"
    using wf by (auto simp: us_wf_def bl_wf_def)
  have b: "ub_ok (string_data s) ?b" using r(1) i by (simp add: bl_ok_def)
  let ?ex = "if string_data s then [0] else [] :: bytes"
  have fit: "ub_tail ?b + length (bs @ ?ex) \<le> length (ub_head ?b)" using b bs(2) by (auto simp: ub_ok_def)
  obtain a1 where a1: "wrn (ub_head ?b) (ub_tail ?b) bs = Some a1" using fit by (auto simp: wrn_def)
  obtain a2 where a2: "wrn (ub_head ?b) (ub_tail ?b) (bs @ ?ex) = Some a2" using fit by (simp add: wrn_def)
  let ?b1 = "?b\<lparr>ub_head := a1\<rparr>" and ?b2 = "?b\<lparr>ub_head := a2, ub_tail := ub_tail ?b + length bs\<rparr>"
  have a12: "wrn a1 (ub_tail ?b + length bs) ?ex = Some a2" using a1 a2 by (simp add: wrn_append)
  have fx: "ustream_fixup_string (s\<lparr>us_r := l\<rparr>) (?b1\<lparr>ub_tail := ub_tail ?b + length bs\<rparr>) = Some ?b2" for l
    using a12 by (cases "string_data s") (auto simp: ustream_fixup_string_def wrn_def split: if_splits)
  let ?l = "(us_r s)\<lparr>bl_bufs := (bl_bufs (us_r s))[i := ?b1]\<rparr>"
  let ?l2 = "(us_r s)\<lparr>bl_bufs := (bl_bufs (us_r s))[i := ?b2], data_bytes := data_bytes (us_r s) + int (length bs)\<rparr>"
  have st: "store_at i (ub_tail ?b) bs (us_r s) = Some ?l" using i a1 by (simp add: store_at_def rd_def)
  have mn: "min (ub_end ?b - ub_tail ?b) (length bs) = length bs" using bs(2) by simp
  have "fill_read_loop (s\<lparr>us_r := ?l\<rparr>) i (length bs) (?l\<lparr>data_bytes := data_bytes (us_r s) + int (length bs)\<rparr>) = Some (?l2\<lparr>bl_data_tail := Some i\<rparr>)"
    using i fx mn bs(2) by (subst fill_read_loop.simps) (auto simp: Let_def)
  moreover have "?l2\<lparr>bl_data_tail := Some i\<rparr> = ?l2" using i(1) by simp
  ultimately have f: "fill_read_loop (s\<lparr>us_r := ?l\<rparr>) i (length bs) (?l\<lparr>data_bytes := data_bytes (us_r s) + int (length bs)\<rparr>) = Some ?l2"
    by simp
  note ext = extend_buf [OF b bs(2) a2]
  have l2: "bl_ok (string_data s) ?l2" "content ?l2 = content (us_r s) @ bs"
    using extend_list [OF r(1) i ext] by (simp_all add: bl_ok_def content_def)
  have wf2: "us_wf (s\<lparr>us_r := ?l2\<rparr>)" using wf l2 r(2) by (simp add: us_wf_def bl_wf_def)
  obtain w where w: "(case notify_read ops of None \<Rightarrow> Some (s\<lparr>us_r := ?l2\<rparr>) | Some f \<Rightarrow> f (int (length bs)) (s\<lparr>us_r := ?l2\<rparr>)) =
      Some (s\<lparr>us_r := ?l2, us_world := w\<rparr>)"
  proof (cases "notify_read ops")
    case None
    then show ?thesis by (intro that [of "us_world s"]) simp
  next
    case (Some g)
    then have "quiet (g (int (length bs)))" using ops by (auto simp: ops_ok_def)
    then obtain w where "g (int (length bs)) (s\<lparr>us_r := ?l2\<rparr>) = Some (s\<lparr>us_r := ?l2, us_world := w\<rparr>)"
      by (auto simp: quiet_def)
    then show ?thesis using Some by (intro that [of w]) simp
  qed
  have "ustream_fill_read ops (length bs) (s\<lparr>us_r := ?l\<rparr>) = Some (s\<lparr>us_r := ?l2, us_world := w\<rparr>)"
    using i f w by (simp add: ustream_fill_read_def Let_def)
  then show ?thesis using st wf2 l2(2) by (intro exI [of _ ?l] exI [of _ "s\<lparr>us_r := ?l2, us_world := w\<rparr>"]) (simp add: us_wf_def)
qed

section \<open>Writing\<close>

definition written :: "('w \<Rightarrow> bytes) \<Rightarrow> 'w ustream \<Rightarrow> bytes" where
  "written sent s = sent (us_world s) @ content (us_w s)"

lemma write_call:
  assumes "ops_ok ops sent"
  obtains n w where "us_write ops bs aggr s = Some (n, s\<lparr>us_world := w\<rparr>)" "n \<le> int (length bs)"
    "sent w = sent (us_world s) @ take (nat n) bs"
  using assms unfolding ops_ok_def by blast

lemma write_buffered_ok:
  assumes ops: "ops_ok ops sent"
  shows "us_wf s \<Longrightarrow> \<exists>n s'. ustream_write_buffered ops data wr s = Some (wr + int n, s') \<and> n \<le> length data \<and> us_wf s' \<and>
    content (us_w s') = content (us_w s) @ take n data \<and> us_r s' = us_r s \<and> us_world s' = us_world s \<and>
    write_error s' = write_error s \<and> max_buffers (us_w s') = max_buffers (us_w s) \<and>
    (within_max (us_w s) \<longrightarrow> within_max (us_w s')) \<and> (max_buffers (us_w s) \<le> 0 \<longrightarrow> n = length data)"
proof (induction "length data" arbitrary: data wr s rule: less_induct)
  case less
  show ?case
  proof (cases "data = []")
    case True
    then show ?thesis using less.prems
      by (intro exI [of _ 0] exI [of _ s]) (subst ustream_write_buffered.simps, simp)
  next
    case False
    have r: "bl_ok (string_data s) (us_w s)" "data_bytes (us_w s) = int (length (content (us_w s)))"
      using less.prems by (auto simp: us_wf_def bl_wf_def)
    have m: "malloc_ok ops" using ops by (simp add: ops_ok_def)
    obtain ok l where l: "ustream_prepare_buf ops s False (length data) (us_w s) = Some (ok, l)" "bl_ok (string_data s) l"
      "content l = content (us_w s)" "same_limits (us_w s) l" "within_max (us_w s) \<longrightarrow> within_max l"
      "ok \<longrightarrow> space_at_tail l" "\<not> ok \<longrightarrow> \<not> ustream_can_alloc (us_w s)"
      using prepare_buf_ok [OF r(1) m] by blast
    show ?thesis
    proof (cases ok)
      case nok: False
      have "us_wf (s\<lparr>us_w := l\<rparr>)" using less.prems l r(2) by (simp add: us_wf_def bl_wf_def same_limits_def)
      moreover have "0 < max_buffers (us_w s)" using nok l(7) by (simp add: ustream_can_alloc_def split: if_splits)
      moreover have "ustream_write_buffered ops data wr s = Some (wr, s\<lparr>us_w := l\<rparr>)"
        using False nok l(1) by (subst ustream_write_buffered.simps) simp
      ultimately show ?thesis using l(3-5) by (intro exI [of _ 0] exI [of _ "s\<lparr>us_w := l\<rparr>"]) (simp add: same_limits_def)
    next
      case True
      then obtain i where i: "bl_data_tail l = Some i" "i < length (bl_bufs l)" "ub_tail (bl_bufs l ! i) < ub_end (bl_bufs l ! i)"
        using l(6) by (auto simp: space_at_tail_def split: option.splits)
      let ?b = "bl_bufs l ! i"
      let ?n = "min (ub_end ?b - ub_tail ?b) (length data)"
      have b: "ub_ok (string_data s) ?b" using l(2) i by (simp add: bl_ok_def)
      have n: "0 < ?n" "length (take ?n data) = ?n" "ub_tail ?b + length (take ?n data) \<le> ub_end ?b" using i(3) False by auto
      obtain area where area: "wrn (ub_head ?b) (ub_tail ?b) (take ?n data) = Some area"
        using n(3) b by (auto simp: wrn_def ub_ok_def)
      then have area': "wrn (ub_head ?b) (ub_tail ?b) (take ?n data @ []) = Some area" by simp
      let ?b1 = "?b\<lparr>ub_head := area, ub_tail := ub_tail ?b + ?n\<rparr>"
      note ext = extend_buf [OF b n(3) area', unfolded n(2)]
      let ?l1 = "l\<lparr>bl_bufs := (bl_bufs l)[i := ?b1], data_bytes := data_bytes l + int ?n\<rparr>"
      have l1: "bl_ok (string_data s) ?l1" "content ?l1 = content (us_w s) @ take ?n data"
        using extend_list [OF l(2) i(1,2) ext] l(3) by (simp_all add: bl_ok_def content_def)
      let ?s1 = "s\<lparr>us_w := ?l1\<rparr>"
      have wf1: "us_wf ?s1" using less.prems l1 r(2) l(4) n(2) by (simp add: us_wf_def bl_wf_def same_limits_def)
      have step: "ustream_write_buffered ops data wr s = ustream_write_buffered ops (drop ?n data) (wr + int ?n) ?s1"
        using False True l(1) i area by (subst ustream_write_buffered.simps) (simp add: rd_def Let_def)
      have "length (drop ?n data) < length data" using n(1) False by simp
      from less.hyps [OF this wf1, of "wr + int ?n"] obtain k s' where
        k: "ustream_write_buffered ops (drop ?n data) (wr + int ?n) ?s1 = Some (wr + int ?n + int k, s')"
        "k \<le> length (drop ?n data)" "us_wf s'" "content (us_w s') = content (us_w ?s1) @ take k (drop ?n data)" "us_r s' = us_r ?s1"
        "us_world s' = us_world ?s1" "write_error s' = write_error ?s1" "max_buffers (us_w s') = max_buffers (us_w ?s1)"
        "within_max (us_w ?s1) \<longrightarrow> within_max (us_w s')" "max_buffers (us_w ?s1) \<le> 0 \<longrightarrow> k = length (drop ?n data)"
        by blast
      have c: "content (us_w s') = content (us_w s) @ take (?n + k) data"
        using k(4) l1(2) by (simp add: take_add)
      have "within_max l \<longrightarrow> within_max ?l1" by (simp add: within_max_def)
      then show ?thesis using step k c l(4,5) n(2)
        by (intro exI [of _ "?n + k"] exI [of _ s']) (auto simp: same_limits_def)
    qed
  qed
qed

lemma write_error_ok: "us_wf s \<Longrightarrow> us_wf (ustream_write_error s)" "us_w (ustream_write_error s) = us_w s"
  "us_r (ustream_write_error s) = us_r s" "us_world (ustream_write_error s) = us_world s" "write_error (ustream_write_error s)"
  by (auto simp: ustream_write_error_def ustream_state_change_def us_wf_def Let_def)

lemma write_pending_loop_ok:
  assumes ops: "ops_ok ops sent"
  shows "us_wf s \<Longrightarrow> \<exists>n s'. write_pending_loop ops wr s = Some (wr + int n, s') \<and> us_wf s' \<and> us_r s' = us_r s \<and>
    written sent s' = written sent s \<and> sent (us_world s') = sent (us_world s) @ take n (content (us_w s)) \<and>
    n \<le> length (content (us_w s))"
proof (induction "length (content (us_w s))" arbitrary: s wr rule: less_induct)
  case less
  have r: "bl_ok (string_data s) (us_w s)" "data_bytes (us_w s) = int (length (content (us_w s)))"
    using less.prems by (auto simp: us_wf_def bl_wf_def)
  show ?case
  proof (cases "content (us_w s) = []")
    case True
    then have "write_pending_loop ops wr s = Some (wr, s)"
      using r(2) by (subst write_pending_loop.simps) (simp split: list.split)
    then show ?thesis using less.prems by (intro exI [of _ 0] exI [of _ s]) simp
  next
    case False
    then obtain b rest where l: "bl_bufs (us_w s) = b # rest" by (cases "bl_bufs (us_w s)") (auto simp: content_def)
    have b: "ub_ok (string_data s) b" using r(1) l by (simp add: bl_ok_def)
    have pos: "0 < ub_tail b - ub_data b" using content_head_empty [OF r(1) l] False by (cases "ub_tail b \<le> ub_data b") auto
    let ?bs = "ub_content b"
    have lb: "length ?bs = ub_tail b - ub_data b" by (rule length_ub_content [OF b])
    have c: "content (us_w s) = ?bs @ concat (map ub_content rest)" using l by (simp add: content_def)
    have rdb: "rdn (ub_head b) (ub_data b) (ub_tail b - ub_data b) = Some ?bs"
      using b by (auto simp: rdn_def ub_content_def ub_ok_def)
    obtain n w where w: "us_write ops ?bs (rest \<noteq> []) s = Some (n, s\<lparr>us_world := w\<rparr>)" "n \<le> int (length ?bs)"
      "sent w = sent (us_world s) @ take (nat n) ?bs" by (rule write_call [OF ops])
    let ?s = "s\<lparr>us_world := w\<rparr>"
    have db: "data_bytes (us_w s) \<noteq> 0" using r(2) False by simp
    note unf = write_pending_loop.simps [of ops wr s] l db rdb w(1)
    consider (err) "n < 0" | (zero) "n = 0" | (part) "0 < n" "n < int (length ?bs)" | (all) "n = int (length ?bs)" using w(2) by linarith
    then show ?thesis
    proof cases
      case err
      then have "write_pending_loop ops wr s = Some (wr, ustream_write_error ?s)" using unf by simp
      moreover have "us_wf ?s" using less.prems by (simp add: us_wf_def)
      ultimately show ?thesis using w(3) err write_error_ok [of ?s]
        by (intro exI [of _ 0] exI [of _ "ustream_write_error ?s"]) (simp add: written_def)
    next
      case zero
      then have "write_pending_loop ops wr s = Some (wr, ?s)" using unf by simp
      then show ?thesis using w(3) zero less.prems by (intro exI [of _ 0] exI [of _ ?s]) (simp add: written_def us_wf_def)
    next
      case part
      let ?k = "nat n"
      have k: "?k < ub_tail b - ub_data b" "n = int ?k" using part lb by auto
      let ?b = "b\<lparr>ub_data := ub_data b + ?k\<rparr>"
      let ?l = "(us_w s)\<lparr>data_bytes := data_bytes (us_w s) - n, bl_bufs := ?b # rest\<rparr>"
      have "layout (?b # rest) (bl_data_tail (us_w s))"
        using r(1) l k(1) by (auto simp: bl_ok_def layout_def take_Cons split: option.splits nat.splits)
      then have ok: "bl_ok (string_data s) ?l" using r(1) l k(1) by (auto simp: bl_ok_def ub_ok_def)
      have cl: "content ?l = drop ?k (content (us_w s))"
        unfolding c using drop_content [OF k(1)] k(1) lb by (simp add: content_def)
      have wf: "us_wf (?s\<lparr>us_w := ?l\<rparr>)" using less.prems ok cl r(2) k(2) part lb by (auto simp: us_wf_def bl_wf_def c)
      have sent': "sent w = sent (us_world s) @ take ?k (content (us_w s))" using w(3) k(1) lb by (simp add: c)
      have "write_pending_loop ops wr s = Some (wr + int ?k, ?s\<lparr>us_w := ?l\<rparr>)" using unf part by simp
      then show ?thesis using wf sent' cl k lb
        by (intro exI [of _ ?k] exI [of _ "?s\<lparr>us_w := ?l\<rparr>"]) (simp add: written_def c)
    next
      case all
      let ?k = "length ?bs"
      let ?l = "(us_w s)\<lparr>data_bytes := data_bytes (us_w s) - n\<rparr>"
      have ok: "bl_ok (string_data s) ?l" "bl_bufs ?l = b # rest" using r(1) l by (simp_all add: bl_ok_def)
      obtain l1 where l1: "ustream_free_buf ?l = Some l1" "bl_ok (string_data s) l1" "content l1 = concat (map ub_content rest)"
        "same_limits ?l l1" using free_buf_ok [OF ok] by blast
      let ?s1 = "?s\<lparr>us_w := l1\<rparr>"
      have wf: "us_wf ?s1" using less.prems l1 r(2) all by (simp add: us_wf_def bl_wf_def same_limits_def c)
      have sent': "sent w = sent (us_world s) @ ?bs" using w(3) all by simp
      have keep: "written sent ?s1 = written sent s" using sent' l1(3) by (simp add: written_def c)
      show ?thesis
      proof (cases "rest = []")
        case True
        then have "write_pending_loop ops wr s = Some (wr + int ?k, ?s1)" using unf all l1(1) pos lb by simp
        then show ?thesis using wf keep sent' by (intro exI [of _ ?k] exI [of _ ?s1]) (simp add: c)
      next
        case False
        have lt: "length (content (us_w ?s1)) < length (content (us_w s))" using l1(3) pos lb by (simp add: c)
        have "write_pending_loop ops wr s = write_pending_loop ops (wr + int ?k) ?s1" using unf all l1(1) pos lb False by simp
        moreover obtain m s' where "write_pending_loop ops (wr + int ?k) ?s1 = Some (wr + int ?k + int m, s')" "us_wf s'" "us_r s' = us_r s"
          "written sent s' = written sent ?s1" "sent (us_world s') = sent w @ take m (content l1)" "m \<le> length (content l1)"
          using less.hyps [OF lt wf, of "wr + int ?k"] by (elim exE conjE) (rule that, simp_all)
        ultimately show ?thesis using keep sent' l1(3)
          by (intro exI [of _ "?k + m"] exI [of _ s']) (simp add: c)
      qed
    qed
  qed
qed

section \<open>Properties\<close>


text \<open>What a call that writes \<open>data\<close> promises about its result.\<close>

definition appends :: "('w \<Rightarrow> bytes) \<Rightarrow> 'w ustream \<Rightarrow> bytes \<Rightarrow> (int \<times> 'w ustream) option \<Rightarrow> bool" where
  "appends sent s data res \<longleftrightarrow>
     (\<exists>wr s'. res = Some (wr, s') \<and> us_wf s' \<and> us_r s' = us_r s \<and>
       (if wr < 0 then write_error s' \<and> written sent s' = written sent s
        else wr \<le> int (length data) \<and> written sent s' = written sent s @ take (nat wr) data \<and>
          (max_buffers (us_w s) \<le> 0 \<and> \<not> write_error s \<longrightarrow> wr = int (length data))) \<and>
       (within_max (us_w s) \<longrightarrow> within_max (us_w s')))"

lemma direct_write_appends:
  assumes ops: "ops_ok ops sent" and wf: "us_wf s" and e: "data_bytes (us_w s) = 0"
  shows "appends sent s data (do { (wr, s) \<leftarrow> us_write ops data aggr s;
      if wr = int (length data) then Some (wr, s)
      else if wr < 0 then Some (wr, ustream_write_error s)
      else ustream_write_buffered ops (drop (nat wr) data) wr s })"
proof -
  have c: "content (us_w s) = []" using wf e by (simp add: us_wf_def bl_wf_def)
  obtain n w where w: "us_write ops data aggr s = Some (n, s\<lparr>us_world := w\<rparr>)" "n \<le> int (length data)"
    "sent w = sent (us_world s) @ take (nat n) data" by (rule write_call [OF ops])
  let ?s = "s\<lparr>us_world := w\<rparr>"
  have wf': "us_wf ?s" using wf by (simp add: us_wf_def)
  consider (all) "n = int (length data)" | (err) "n < 0" "n \<noteq> int (length data)" | (part) "0 \<le> n" "n < int (length data)"
    using w(2) by linarith
  then show ?thesis
  proof cases
    case all
    then show ?thesis using w wf' c by (simp add: appends_def written_def)
  next
    case err
    then show ?thesis using w write_error_ok [of ?s] wf' c by (simp add: appends_def written_def)
  next
    case part
    obtain k s' where k: "ustream_write_buffered ops (drop (nat n) data) n ?s = Some (n + int k, s')" "k \<le> length (drop (nat n) data)"
      "us_wf s'" "content (us_w s') = content (us_w ?s) @ take k (drop (nat n) data)" "us_r s' = us_r ?s" "us_world s' = us_world ?s"
      "within_max (us_w ?s) \<longrightarrow> within_max (us_w s')" "max_buffers (us_w ?s) \<le> 0 \<longrightarrow> k = length (drop (nat n) data)"
      using write_buffered_ok [OF ops wf', of "drop (nat n) data" n] by blast
    have "nat (n + int k) = nat n + k" using part by simp
    then have "written sent s' = written sent s @ take (nat (n + int k)) data"
      using k(4,6) w(3) c by (simp add: written_def take_add)
    then show ?thesis using w(1) k part unfolding appends_def
      by (intro exI [of _ "n + int k"] exI [of _ s']) auto
  qed
qed

lemma buffered_appends:
  assumes ops: "ops_ok ops sent" and wf: "us_wf s"
  shows "appends sent s data (ustream_write_buffered ops data 0 s)"
proof -
  obtain k s' where k: "ustream_write_buffered ops data 0 s = Some (0 + int k, s')" "k \<le> length data"
    "us_wf s'" "content (us_w s') = content (us_w s) @ take k data" "us_r s' = us_r s" "us_world s' = us_world s"
    "within_max (us_w s) \<longrightarrow> within_max (us_w s')" "max_buffers (us_w s) \<le> 0 \<longrightarrow> k = length data"
    using write_buffered_ok [OF ops wf, of data 0] by blast
  then show ?thesis unfolding appends_def by (intro exI [of _ "int k"] exI [of _ s']) (simp add: written_def)
qed

lemma write_appends:
  assumes "ops_ok ops sent" "us_wf s"
  shows "appends sent s data (ustream_write ops data aggr s)"
proof (cases "write_error s")
  case True
  then show ?thesis using assms by (simp add: ustream_write_def appends_def)
next
  case False
  then show ?thesis
    using direct_write_appends [OF assms, of data aggr] buffered_appends [OF assms, of data]
    by (cases "data_bytes (us_w s) = 0") (simp_all add: ustream_write_def)
qed

lemma vprintf_appends:
  assumes ops: "ops_ok ops sent" and wf: "us_wf s"
  shows "appends sent s txt (ustream_vprintf ops txt s)"
proof (cases "write_error s \<or> data_bytes (us_w s) = 0")
  case True
  have swap: "(if wr < 0 then a else if wr = int (length txt) then b else c) =
      (if wr = int (length txt) then b else if wr < 0 then a else c)" for wr :: int and a b c :: "(int \<times> 'a ustream) option"
    by auto
  show ?thesis
    using True write_appends [OF ops wf, of "txt" False] direct_write_appends [OF ops wf, of "txt" False] wf
    by (cases "write_error s") (auto simp: ustream_vprintf_def swap appends_def [of _ _ _ "Some (0, _)"])
next
  case False
  have r: "bl_ok (string_data s) (us_w s)" "data_bytes (us_w s) = int (length (content (us_w s)))"
    using wf by (auto simp: us_wf_def bl_wf_def)
  have m: "malloc_ok ops" using ops by (simp add: ops_ok_def)
  obtain ok l where l: "ustream_prepare_buf ops s False 1 (us_w s) = Some (ok, l)" "bl_ok (string_data s) l"
    "content l = content (us_w s)" "same_limits (us_w s) l" "within_max (us_w s) \<longrightarrow> within_max l"
    "ok \<longrightarrow> space_at_tail l" "\<not> ok \<longrightarrow> \<not> ustream_can_alloc (us_w s)"
    using prepare_buf_ok [OF r(1) m] by blast
  show ?thesis
  proof (cases ok)
    case nok: False
    have "us_wf (s\<lparr>us_w := l\<rparr>)" using wf l r(2) by (simp add: us_wf_def bl_wf_def same_limits_def)
    moreover have "0 < max_buffers (us_w s)" using nok l(7) by (simp add: ustream_can_alloc_def split: if_splits)
    ultimately show ?thesis using nok l(1,3-5) False
      by (simp add: ustream_vprintf_def appends_def written_def same_limits_def)
  next
    case True
    then obtain i where i: "bl_data_tail l = Some i" "i < length (bl_bufs l)" "ub_tail (bl_bufs l ! i) < ub_end (bl_bufs l ! i)"
      using l(6) by (auto simp: space_at_tail_def split: option.splits)
    let ?b = "bl_bufs l ! i"
    let ?buflen = "ub_end ?b - ub_tail ?b"
    let ?wr = "if length txt \<ge> ?buflen then ?buflen - 1 else length txt"
    have b: "ub_ok (string_data s) ?b" using l(2) i by (simp add: bl_ok_def)
    have n: "length (take ?wr txt) = ?wr" "ub_tail ?b + length (take ?wr txt) \<le> ub_end ?b" "ub_tail ?b + ?wr < ub_end ?b"
      using i(3) by auto
    obtain area where area: "wrn (ub_head ?b) (ub_tail ?b) (take ?wr txt @ [0]) = Some area"
      using n(1,3) b by (auto simp: wrn_def ub_ok_def)
    let ?b1 = "?b\<lparr>ub_head := area, ub_tail := ub_tail ?b + ?wr\<rparr>"
    note ext = extend_buf [OF b n(2) area, unfolded n(1)]
    let ?l1 = "l\<lparr>bl_bufs := (bl_bufs l)[i := ?b1], data_bytes := data_bytes l + int ?wr\<rparr>"
    have l1: "bl_ok (string_data s) ?l1" "content ?l1 = content (us_w s) @ take ?wr txt"
      using extend_list [OF l(2) i(1,2) ext] l(3) by (simp_all add: bl_ok_def content_def)
    let ?s1 = "s\<lparr>us_w := ?l1\<rparr>"
    have "data_bytes ?l1 = int (length (content ?l1))" unfolding l1(2) using r(2) l(4) n(1) by (simp add: same_limits_def)
    then have wf1: "us_wf ?s1" using wf l1(1) by (simp add: us_wf_def bl_wf_def)
    have lim: "max_buffers ?l1 = max_buffers (us_w s)" "within_max (us_w s) \<longrightarrow> within_max ?l1"
      using l(4,5) by (simp_all add: same_limits_def within_max_def)
    have step: "ustream_vprintf ops txt s = (if length txt < ?buflen then Some (int ?wr, ?s1)
        else ustream_write_buffered ops (drop ?wr txt) (int ?wr) ?s1)"
      using False True l(1) i(1,2) area by (simp add: ustream_vprintf_def rd_def Let_def)
    show ?thesis
    proof (cases "length txt < ?buflen")
      case True
      have "ustream_vprintf ops txt s = Some (int (length txt), ?s1)" using step True by simp
      moreover have "written sent ?s1 = written sent s @ txt" using l1(2) True by (simp add: written_def)
      ultimately show ?thesis using wf1 lim(2) unfolding appends_def
        by (intro exI [of _ "int (length txt)"] exI [of _ ?s1]) simp
    next
      case False
      obtain k s' where k: "ustream_write_buffered ops (drop ?wr txt) (int ?wr) ?s1 = Some (int ?wr + int k, s')" "k \<le> length (drop ?wr txt)"
        "us_wf s'" "content (us_w s') = content (us_w ?s1) @ take k (drop ?wr txt)" "us_r s' = us_r ?s1" "us_world s' = us_world ?s1"
        "within_max (us_w ?s1) \<longrightarrow> within_max (us_w s')" "max_buffers (us_w ?s1) \<le> 0 \<longrightarrow> k = length (drop ?wr txt)"
        using write_buffered_ok [OF ops wf1, of "drop ?wr txt" "int ?wr"] by blast
      have "written sent s' = written sent s @ take (?wr + k) txt"
        using k(4,6) l1(2) by (simp add: written_def take_add)
      moreover have "ustream_vprintf ops txt s = Some (int (?wr + k), s')" using step False k(1) by simp
      moreover have "?wr + k \<le> length txt" "max_buffers (us_w s) \<le> 0 \<longrightarrow> ?wr + k = length txt"
        using k(2,8) lim(1) False n(1) by auto
      ultimately show ?thesis using k(3,5,7) lim(2) unfolding appends_def
        by (intro exI [of _ "int (?wr + k)"] exI [of _ s']) (simp del: of_nat_add)
    qed
  qed
qed

lemma write_pending_ok:
  assumes ops: "ops_ok ops sent" and wf: "us_wf s"
  shows "\<exists>r s'. ustream_write_pending ops s = Some (r, s') \<and> us_wf s' \<and> us_r s' = us_r s \<and> written sent s' = written sent s \<and>
    (\<not> write_error s \<longrightarrow> r = (content (us_w s') = []))"
proof (cases "write_error s")
  case True
  then show ?thesis using wf by (intro exI [of _ False] exI [of _ s]) (simp add: ustream_write_pending_def)
next
  case False
  obtain n s1 where n: "write_pending_loop ops 0 s = Some (0 + int n, s1)" "us_wf s1" "us_r s1 = us_r s" "written sent s1 = written sent s"
    using write_pending_loop_ok [OF ops wf, of 0] by blast
  obtain w where w: "(case notify_write ops of None \<Rightarrow> Some s1 | Some f \<Rightarrow> f (int n) s1) = Some (s1\<lparr>us_world := w\<rparr>)" "sent w = sent (us_world s1)"
  proof (cases "notify_write ops")
    case None
    then show ?thesis by (intro that [of "us_world s1"]) simp_all
  next
    case (Some f)
    then obtain w where "f (int n) s1 = Some (s1\<lparr>us_world := w\<rparr>)" "sent w = sent (us_world s1)"
      using ops unfolding ops_ok_def by blast
    then show ?thesis using Some by (intro that [of w]) simp_all
  qed
  let ?s = "s1\<lparr>us_world := w\<rparr>"
  let ?s' = "if us_eof ?s \<and> int n \<noteq> 0 \<and> data_bytes (us_w ?s) = 0 then ustream_state_change ?s else ?s"
  have "ustream_write_pending ops s = Some (data_bytes (us_w ?s') = 0, ?s')"
    using False n(1) w(1) by (simp add: ustream_write_pending_def Let_def)
  moreover have "us_wf ?s'" "us_r ?s' = us_r s" "written sent ?s' = written sent s"
    using n w(2) by (simp_all add: us_wf_def ustream_state_change_def written_def)
  moreover have "data_bytes (us_w ?s') = 0 \<longleftrightarrow> content (us_w ?s') = []"
    using \<open>us_wf ?s'\<close> by (simp add: us_wf_def bl_wf_def)
  ultimately show ?thesis by blast
qed


section \<open>Example\<close>

text \<open>A stream whose \<^verbatim>\<open>write\<close> takes at most three bytes at a time.\<close>

definition slow_ops :: "bytes ustream_ops" where
  "slow_ops = \<lparr>malloc = \<lambda>n _. Some (replicate n 0), notify_read = None, notify_write = None, notify_state = None,
     us_write = \<lambda>bs _ s. Some (int (min 3 (length bs)), s\<lparr>us_world := us_world s @ take 3 bs\<rparr>),
     us_free = None, set_read_blocked = Some, us_poll = None\<rparr>"

definition fresh_stream :: "bytes ustream" where
  "fresh_stream = ustream_init_defaults
     (let l = \<lparr>bl_bufs = [], bl_data_tail = None, data_bytes = 0, min_buffers = 0, max_buffers = 0, buffer_len = 0, buffers = 0\<rparr>
      in \<lparr>us_r = l, us_w = l, us_state_change = False, string_data = True, write_error = False, us_eof = False,
          eof_write_done = False, read_blocked = 0, us_world = []\<rparr>)"

lemma slow_ops_ok: "ops_ok slow_ops id"
proof -
  have "\<exists>w. Some s = Some (s\<lparr>us_world := w\<rparr>)" for s :: "bytes ustream"
    by (intro exI [of _ "us_world s"]) simp
  then have "quiet (Some :: bytes ustream \<Rightarrow> bytes ustream option)" by (simp add: quiet_def)
  moreover have "malloc_ok slow_ops" by (simp add: malloc_ok_def slow_ops_def)
  moreover have "take (nat (int (min 3 (length bs)))) bs = take 3 bs" for bs :: bytes by (simp add: min_def)
  ultimately show ?thesis by (simp add: ops_ok_def slow_ops_def)
qed

lemma fresh_stream_fields:
  "bl_bufs (us_r fresh_stream) = []" "bl_bufs (us_w fresh_stream) = []" "us_world fresh_stream = []"
  "data_bytes (us_w fresh_stream) = 0" "max_buffers (us_w fresh_stream) = -1" "\<not> write_error fresh_stream"
  by (simp_all add: fresh_stream_def ustream_init_defaults_def default_set_def Let_def)

lemma fresh_stream_wf: "us_wf fresh_stream"
  by (simp add: fresh_stream_def ustream_init_defaults_def default_set_def us_wf_def bl_wf_def bl_ok_def layout_def content_def Let_def)



end
