(* ===== verification/CText.thy ===== *)
theory CText
  imports Base64
begin

text \<open>
  Text as C reads it, shared by the JSON, number and token parsers: characters, decimal numbers,
  and a \<^verbatim>\<open>char *\<close> that walks through a block as the bytes of the block from it on. Reading where no
  byte is left is \<^const>\<open>None\<close>.
\<close>

section \<open>Characters\<close>

abbreviation c_quote :: u8 where "c_quote \<equiv> 0x22"
abbreviation c_plus :: u8 where "c_plus \<equiv> 0x2b"
abbreviation c_comma :: u8 where "c_comma \<equiv> 0x2c"
abbreviation c_minus :: u8 where "c_minus \<equiv> 0x2d"
abbreviation c_dot :: u8 where "c_dot \<equiv> 0x2e"
abbreviation c_0 :: u8 where "c_0 \<equiv> 0x30"
abbreviation c_9 :: u8 where "c_9 \<equiv> 0x39"
abbreviation c_colon :: u8 where "c_colon \<equiv> 0x3a"
abbreviation c_lbrack :: u8 where "c_lbrack \<equiv> 0x5b"
abbreviation c_bslash :: u8 where "c_bslash \<equiv> 0x5c"
abbreviation c_rbrack :: u8 where "c_rbrack \<equiv> 0x5d"
abbreviation c_lbrace :: u8 where "c_lbrace \<equiv> 0x7b"
abbreviation c_rbrace :: u8 where "c_rbrace \<equiv> 0x7d"
abbreviation c_space :: u8 where "c_space \<equiv> 0x20"
abbreviation c_tab :: u8 where "c_tab \<equiv> 0x09"
abbreviation c_newline :: u8 where "c_newline \<equiv> 0x0a"

definition isdigit :: "u8 \<Rightarrow> bool" where
  "isdigit c \<longleftrightarrow> c_0 \<le> c \<and> c \<le> c_9"

definition tolower :: "u8 \<Rightarrow> u8" where
  "tolower c = (if 0x41 \<le> c \<and> c \<le> 0x5a then c + 0x20 else c)"

text \<open>The value of a digit in the bases up to 36, letters of either case.\<close>

definition digit_value :: "u8 \<Rightarrow> int option" where
  "digit_value c =
     (if isdigit c then Some (uint c - 0x30)
      else if 0x61 \<le> c \<and> c \<le> 0x7a then Some (uint c - 0x61 + 10)
      else if 0x41 \<le> c \<and> c \<le> 0x5a then Some (uint c - 0x41 + 10)
      else None)"

definition isxdigit :: "u8 \<Rightarrow> bool" where
  "isxdigit c \<longleftrightarrow> isdigit c \<or> 0x61 \<le> c \<and> c \<le> 0x66 \<or> 0x41 \<le> c \<and> c \<le> 0x46"

text \<open>Reading through a pointer, and a string up to its terminator.\<close>

fun peek :: "bytes \<Rightarrow> u8 option" where
  "peek [] = None"
| "peek (c # s) = Some c"

definition cstring :: "bytes \<Rightarrow> bytes" where
  "cstring s = takeWhile (\<lambda>c. c \<noteq> 0) s"

lemma cstring_is_cstr [simp]: "is_cstr (cstring s)"
  by (auto simp: cstring_def is_cstr_def dest: set_takeWhileD)

lemma cstring_id: "is_cstr s \<Longrightarrow> cstring s = s"
  by (auto simp: cstring_def is_cstr_def takeWhile_eq_all_conv)

lemma peek_Some: "peek s = Some c \<longleftrightarrow> (\<exists>t. s = c # t)"
  by (cases s) auto

section \<open>Decimal numbers\<close>

text \<open>The digits of a number, most significant first, as \<^verbatim>\<open>printf\<close> writes them.\<close>

fun num_digits :: "nat \<Rightarrow> nat \<Rightarrow> nat list" where
  "num_digits b n = (if b < 2 \<or> n < b then [n] else num_digits b (n div b) @ [n mod b])"

declare num_digits.simps [simp del]

definition digit_char :: "nat \<Rightarrow> u8" where
  "digit_char d = of_nat (if d < 10 then 0x30 + d else 0x61 + (d - 10))"

definition show_nat :: "nat \<Rightarrow> bytes" where
  "show_nat n = map digit_char (num_digits 10 n)"

definition show_int :: "int \<Rightarrow> bytes" where
  "show_int i = (if i < 0 then c_minus # show_nat (nat (- i)) else show_nat (nat i))"

lemma num_digits_nonempty [simp]: "num_digits b n \<noteq> []"
  by (subst num_digits.simps) simp

lemma num_digits_value: "foldl (\<lambda>a d. a * b + d) 0 (num_digits b n) = n"
proof (induction b n rule: num_digits.induct)
  case (1 b n)
  then show ?case by (subst num_digits.simps) auto
qed

lemma num_digits_less: "2 \<le> b \<Longrightarrow> d \<in> set (num_digits b n) \<Longrightarrow> d < b"
proof (induction b n arbitrary: d rule: num_digits.induct)
  case (1 b n)
  show ?case using 1(3) 1(1)[of d] 1(2) by (subst (asm) num_digits.simps) (auto split: if_splits)
qed

lemma num_digits_hd: "2 \<le> b \<Longrightarrow> 0 < n \<Longrightarrow> 0 < hd (num_digits b n)"
proof (induction b n rule: num_digits.induct)
  case (1 b n)
  show ?case
  proof (cases "n < b")
    case True
    then show ?thesis using 1 by (subst num_digits.simps) auto
  next
    case False
    then have "0 < n div b" using 1(2) by (simp add: div_greater_zero_iff)
    then show ?thesis using 1 False by (subst num_digits.simps) (simp add: hd_append)
  qed
qed

lemma num_digits_length: "2 \<le> b \<Longrightarrow> n < b ^ k \<Longrightarrow> 0 < k \<Longrightarrow> length (num_digits b n) \<le> k"
proof (induction b n arbitrary: k rule: num_digits.induct)
  case (1 b n)
  show ?case
  proof (cases "n < b")
    case True
    then show ?thesis using 1 by (subst num_digits.simps) auto
  next
    case False
    then obtain j where k: "k = Suc j" "0 < j" using 1(3,4)
      by (cases k; cases "k - 1") auto
    moreover have "n div b < b ^ j" using 1(3) k by (simp add: less_mult_imp_div_less mult.commute)
    ultimately have "length (num_digits b (n div b)) \<le> j" using 1 False by auto
    then show ?thesis using 1(2) False k by (subst num_digits.simps) auto
  qed
qed

lemma unat_digit_char: "d < 10 \<Longrightarrow> unat (digit_char d) = 48 + d"
  by (simp add: digit_char_def unat_of_nat del: of_nat_add)

lemma digit_char_digit:
  assumes "d < 10"
  shows "isdigit (digit_char d) \<and> uint (digit_char d) = 0x30 + int d"
proof -
  have "uint (digit_char d) = int (unat (digit_char d))" by simp
  then have "uint (digit_char d) = 0x30 + int d" using assms by (simp only: unat_digit_char)
  then show ?thesis using assms by (simp add: isdigit_def word_le_nat_alt unat_digit_char)
qed

lemma show_nat_digits: "c \<in> set (show_nat n) \<Longrightarrow> isdigit c"
  using num_digits_less[of 10] by (auto simp: show_nat_def digit_char_digit)

lemma show_nat_nonempty [simp]: "show_nat n \<noteq> []"
  by (simp add: show_nat_def)

text \<open>The hexadecimal digits of a byte, as \<^verbatim>\<open>%04x\<close> prints it.\<close>

definition show_x4 :: "u8 \<Rightarrow> bytes" where
  "show_x4 c = [c_0, c_0, digit_char (unat c div 16), digit_char (unat c mod 16)]"

section \<open>Postconditions\<close>

text \<open>
  What holds of the result of a fallible computation if it has one; the rules follow the shape of the
  code and leave the steps that were taken as hypotheses.
\<close>

definition post :: "'a option \<Rightarrow> ('a \<Rightarrow> bool) \<Rightarrow> bool" where
  "post m P \<longleftrightarrow> (\<forall>x. m = Some x \<longrightarrow> P x)"

named_theorems post_intros \<open>postconditions along the code\<close>

lemma postD: "post m P \<Longrightarrow> m = Some x \<Longrightarrow> P x"
  by (simp add: post_def)

lemma postI: "(\<And>x. m = Some x \<Longrightarrow> P x) \<Longrightarrow> post m P"
  by (simp add: post_def)

lemma post_bind [post_intros]: "(\<And>x. m = Some x \<Longrightarrow> post (f x) P) \<Longrightarrow> post (m \<bind> f) P"
  by (auto simp: post_def bind_eq_Some_conv)

lemma post_Some [post_intros]: "P x \<Longrightarrow> post (Some x) P"
  by (simp add: post_def)

lemma post_None [post_intros]: "post None P"
  by (simp add: post_def)

lemma post_if [post_intros]:
  "(b \<Longrightarrow> post m P) \<Longrightarrow> (\<not> b \<Longrightarrow> post n P) \<Longrightarrow> post (if b then m else n) P"
  by simp

lemma post_prod [post_intros]:
  "(\<And>a b. x = (a, b) \<Longrightarrow> post (f a b) P) \<Longrightarrow> post (case x of (a, b) \<Rightarrow> f a b) P"
  by (cases x) simp

lemma post_option [post_intros]:
  "(x = None \<Longrightarrow> post m P) \<Longrightarrow> (\<And>a. x = Some a \<Longrightarrow> post (f a) P) \<Longrightarrow>
   post (case x of None \<Rightarrow> m | Some a \<Rightarrow> f a) P"
  by (cases x) auto

end
