(* ===== verification/Json.thy ===== *)
theory Json
  imports CText
begin

text \<open>
  \<^verbatim>\<open>json.h\<close>, \<^verbatim>\<open>json.c\<close>: JSON values, the parser and the printer. A \<^verbatim>\<open>struct json\<close> is a record of its
  fields; the \<^verbatim>\<open>child\<close> pointer and the \<^verbatim>\<open>next\<close>/\<^verbatim>\<open>prev\<close> chain behind it are the list of the children
  (\<^verbatim>\<open>JsonHeap\<close> treats the chain itself). \<^const>\<open>None\<close> is undefined behaviour: a read outside
  the text, a write outside an allocation, a signed overflow; NULL is \<^const>\<open>None\<close> inside a
  \<^const>\<open>Some\<close>. The allocator is the function pointer \<^verbatim>\<open>json_malloc\<close>, of which the model knows
  for which sizes it succeeds; the floating-point unit and \<^verbatim>\<open>libm\<close> are a record of operations.
\<close>

section \<open>Values\<close>

abbreviation (input) JSON_T_FALSE :: int where "JSON_T_FALSE \<equiv> 0"
abbreviation (input) JSON_T_TRUE :: int where "JSON_T_TRUE \<equiv> 1"
abbreviation (input) JSON_T_NULL :: int where "JSON_T_NULL \<equiv> 2"
abbreviation (input) JSON_T_NUMBER :: int where "JSON_T_NUMBER \<equiv> 3"
abbreviation (input) JSON_T_STRING :: int where "JSON_T_STRING \<equiv> 4"
abbreviation (input) JSON_T_ARRAY :: int where "JSON_T_ARRAY \<equiv> 5"
abbreviation (input) JSON_T_OBJECT :: int where "JSON_T_OBJECT \<equiv> 6"

record 'd jnode =
  j_type :: int
  valuestring :: "bytes option"
  valueint :: int
  valuedouble :: 'd
  j_string :: "bytes option"
  print_out :: "bytes option"
  print_fmt :: int

datatype 'd json = Json (j_node: "'d jnode") (j_child: "'d json list")

text \<open>
  The operations on \<^verbatim>\<open>double\<close> that the code uses; \<open>fp_to_i64\<close> is the conversion to \<^verbatim>\<open>int64_t\<close>, undefined
  outside its range, and \<open>fp_show\<close> is \<^verbatim>\<open>sprintf\<close> with one of the three formats of \<^verbatim>\<open>print_number\<close>.
\<close>

datatype fp_format = Fmt_0f | Fmt_e | Fmt_f

record 'd fpu =
  fp_of_int :: "int \<Rightarrow> 'd"
  fp_add :: "'d \<Rightarrow> 'd \<Rightarrow> 'd"
  fp_sub :: "'d \<Rightarrow> 'd \<Rightarrow> 'd"
  fp_mul :: "'d \<Rightarrow> 'd \<Rightarrow> 'd"
  fp_pow :: "'d \<Rightarrow> 'd \<Rightarrow> 'd"
  fp_abs :: "'d \<Rightarrow> 'd"
  fp_floor :: "'d \<Rightarrow> 'd"
  fp_le :: "'d \<Rightarrow> 'd \<Rightarrow> bool"
  fp_eps :: 'd
  fp_tiny :: 'd
  fp_to_i64 :: "'d \<Rightarrow> int option"
  fp_show :: "fp_format \<Rightarrow> 'd \<Rightarrow> bytes"

type_synonym json_malloc = "nat \<Rightarrow> bool"

definition sizeof_json :: nat where
  "sizeof_json = 80"

definition json_zero :: "'d fpu \<Rightarrow> 'd jnode" where
  "json_zero F = \<lparr>j_type = 0, valuestring = None, valueint = 0, valuedouble = fp_of_int F 0,
     j_string = None, print_out = None, print_fmt = 0\<rparr>"

definition json_new_item :: "json_malloc \<Rightarrow> 'd fpu \<Rightarrow> 'd jnode option" where
  "json_new_item mal F = (if mal sizeof_json then Some (json_zero F) else None)"

definition json_strdup :: "json_malloc \<Rightarrow> bytes \<Rightarrow> bytes option" where
  "json_strdup mal str = (if mal (length str + 1) then Some str else None)"

text \<open>Strings without their terminators, so that the end of a list stands for a byte 0.\<close>

fun json_casecmp_loop :: "bytes \<Rightarrow> bytes \<Rightarrow> int" where
  "json_casecmp_loop [] [] = 0"
| "json_casecmp_loop [] (b # bs) = - uint (tolower b)"
| "json_casecmp_loop (a # as) [] = uint (tolower a)"
| "json_casecmp_loop (a # as) (b # bs) =
     (if tolower a = tolower b then json_casecmp_loop as bs else uint (tolower a) - uint (tolower b))"

fun json_strcasecmp :: "bytes option \<Rightarrow> bytes option \<Rightarrow> int" where
  "json_strcasecmp None s2 = (if s2 = None then 0 else 1)"
| "json_strcasecmp (Some s1) None = 1"
| "json_strcasecmp (Some s1) (Some s2) = json_casecmp_loop s1 s2"

text \<open>A write of bytes at the end of what has been written to a buffer of the given capacity.\<close>

definition emit :: "nat \<Rightarrow> bytes \<Rightarrow> bytes \<Rightarrow> bytes option" where
  "emit cap out bs = (if length out + length bs \<le> cap then Some (out @ bs) else None)"

text \<open>The growth of a \<^verbatim>\<open>len\<close> of type \<^verbatim>\<open>int\<close>.\<close>

definition int_len :: "nat \<Rightarrow> nat option" where
  "int_len n = (if n < 2 ^ 31 then Some n else None)"

section \<open>The parser\<close>

subsection \<open>Numbers\<close>

fun num_int :: "'d fpu \<Rightarrow> bytes \<Rightarrow> 'd \<Rightarrow> int \<Rightarrow> ('d \<times> int \<times> bytes) option" where
  "num_int F [] n n64 = None"
| "num_int F (c # s) n n64 =
     (if isdigit c
      then let n64' = n64 * 10 + (uint c - 0x30) in
           if n64' < 2 ^ 63
           then num_int F s (fp_add F (fp_mul F n (fp_of_int F 10)) (fp_of_int F (uint c - 0x30))) n64'
           else None
      else Some (n, n64, c # s))"

fun num_frac :: "'d fpu \<Rightarrow> bytes \<Rightarrow> 'd \<Rightarrow> 'd \<Rightarrow> ('d \<times> 'd \<times> bytes) option" where
  "num_frac F [] n scale = None"
| "num_frac F (c # s) n scale =
     (if isdigit c
      then num_frac F s (fp_add F (fp_mul F n (fp_of_int F 10)) (fp_of_int F (uint c - 0x30)))
             (fp_sub F scale (fp_of_int F 1))
      else Some (n, scale, c # s))"

fun num_exp :: "bytes \<Rightarrow> int \<Rightarrow> (int \<times> bytes) option" where
  "num_exp [] subscale = None"
| "num_exp (c # s) subscale =
     (if isdigit c
      then let sub = subscale * 10 + (uint c - 0x30) in if sub < 2 ^ 31 then num_exp s sub else None
      else Some (subscale, c # s))"

text \<open>The four parts of a number: sign and leading zero, digits, fraction, exponent.\<close>

definition num_sign :: "'d fpu \<Rightarrow> bytes \<Rightarrow> ('d \<times> bytes) option" where
  "num_sign F num =
     do { c \<leftarrow> peek num;
          let (sign, num) = (if c = c_minus then (fp_of_int F (- 1), tl num) else (fp_of_int F 1, num)) in
          do { c \<leftarrow> peek num; Some (sign, if c = c_0 then tl num else num) } }"

definition num_digit_part :: "'d fpu \<Rightarrow> bytes \<Rightarrow> ('d \<times> int \<times> bytes) option" where
  "num_digit_part F num =
     do { c \<leftarrow> peek num;
          if 0x31 \<le> c \<and> c \<le> c_9 then num_int F num (fp_of_int F 0) 0
          else Some (fp_of_int F 0, 0, num) }"

definition num_fraction :: "'d fpu \<Rightarrow> bytes \<Rightarrow> 'd \<Rightarrow> int \<Rightarrow> ('d \<times> int \<times> 'd \<times> bytes) option" where
  "num_fraction F num n n64 =
     do { c \<leftarrow> peek num;
          if c \<noteq> c_dot then Some (n, n64, fp_of_int F 0, num)
          else do { d \<leftarrow> peek (tl num);
                    if isdigit d
                    then do { (n, scale, num) \<leftarrow> num_frac F (tl num) n (fp_of_int F 0);
                              Some (n, 0, scale, num) }
                    else Some (n, n64, fp_of_int F 0, num) } }"

definition num_exponent :: "bytes \<Rightarrow> int \<Rightarrow> (int \<times> int \<times> int \<times> bytes) option" where
  "num_exponent num n64 =
     do { c \<leftarrow> peek num;
          if c \<noteq> 0x65 \<and> c \<noteq> 0x45 then Some (n64, 0, 1, num)
          else do { d \<leftarrow> peek (tl num);
                    let (signsubscale, num) = (if d = c_plus then (1, tl (tl num))
                       else if d = c_minus then (- 1, tl (tl num)) else (1, tl num)) in
                    do { (subscale, num) \<leftarrow> num_exp num 0; Some (0, subscale, signsubscale, num) } } }"

definition num_finish :: "'d fpu \<Rightarrow> 'd jnode \<Rightarrow> 'd \<Rightarrow> 'd \<Rightarrow> int \<Rightarrow> 'd \<Rightarrow> int \<Rightarrow> int \<Rightarrow> 'd jnode option" where
  "num_finish F item sign n n64 scale subscale signsubscale =
     (let n = fp_mul F (fp_mul F sign n)
         (fp_pow F (fp_of_int F 10) (fp_add F scale (fp_of_int F (subscale * signsubscale)))) in
      do { v \<leftarrow> (if n64 \<noteq> 0 then fp_to_i64 F (fp_mul F sign (fp_of_int F n64)) else fp_to_i64 F n);
           Some (item\<lparr>valueint := v, valuedouble := n, j_type := JSON_T_NUMBER\<rparr>) })"

definition parse_number :: "'d fpu \<Rightarrow> 'd jnode \<Rightarrow> bytes \<Rightarrow> ('d jnode \<times> bytes) option" where
  "parse_number F item num =
     do { (sign, num) \<leftarrow> num_sign F num;
          (n, n64, num) \<leftarrow> num_digit_part F num;
          (n, n64, scale, num) \<leftarrow> num_fraction F num n n64;
          (n64, subscale, signsubscale, num) \<leftarrow> num_exponent num n64;
          item \<leftarrow> num_finish F item sign n n64 scale subscale signsubscale;
          Some (item, num) }"

subsection \<open>Strings\<close>

text \<open>
  \<^verbatim>\<open>sscanf\<close> with \<^verbatim>\<open>%4x\<close>: leading white space, then at most four characters of a sign, a prefix
  \<^verbatim>\<open>0x\<close> and hexadecimal digits; the inner \<^const>\<open>None\<close> is a matching failure.
\<close>

fun json_skip :: "bytes \<Rightarrow> bytes option" where
  "json_skip [] = None"
| "json_skip (c # s) = (if isspace c then json_skip s else Some (c # s))"

fun hex_run :: "nat \<Rightarrow> bytes \<Rightarrow> bytes option" where
  "hex_run 0 s = Some []"
| "hex_run (Suc w) s =
     do { c \<leftarrow> peek s;
          if isxdigit c then do { ds \<leftarrow> hex_run w (tl s); Some (c # ds) } else Some [] }"

definition hex_value :: "bytes \<Rightarrow> int" where
  "hex_value ds = foldl (\<lambda>a c. a * 16 + the (digit_value c)) 0 ds"

definition scan_4x :: "bytes \<Rightarrow> u32 option option" where
  "scan_4x s =
     do { s \<leftarrow> json_skip s;
          c \<leftarrow> peek s;
          let (sg, w, s) = (if c = c_minus then (- 1, 3, tl s) else if c = c_plus then (1, 3, tl s)
             else (1, 4, s)) in
          do { c \<leftarrow> peek s;
               (w, s) \<leftarrow>
                 (if c = c_0
                  then do { x \<leftarrow> peek (tl s);
                            Some (if x = 0x78 \<or> x = 0x58 then (w - 2, tl (tl s)) else (w, s)) }
                  else Some (w, s));
               ds \<leftarrow> hex_run w s;
               Some (if ds = [] then None else Some (word_of_int (sg * hex_value ds))) } }"

definition firstByteMark :: "bytes" where
  "firstByteMark = [0x00, 0x00, 0xC0, 0xE0, 0xF0, 0xF8, 0xFC]"

definition utf8_len :: "u32 \<Rightarrow> nat" where
  "utf8_len uc = (if uc < 0x80 then 1 else if uc < 0x800 then 2 else if uc < 0x10000 then 3 else 4)"

text \<open>The switch that falls through from the last byte to the first; it leaves \<^verbatim>\<open>uc\<close> shifted.\<close>

fun utf8_tail :: "nat \<Rightarrow> u32 \<Rightarrow> bytes \<Rightarrow> bytes \<times> u32" where
  "utf8_tail 0 uc bs = (bs, uc)"
| "utf8_tail (Suc k) uc bs = utf8_tail k (drop_bit 6 uc) (ucast ((uc OR 0x80) AND 0xBF) # bs)"

definition utf8_encode :: "u32 \<Rightarrow> bytes \<times> u32" where
  "utf8_encode uc =
     (let len = utf8_len uc; (bs, uc) = utf8_tail (len - 1) uc []
      in (ucast (uc OR ucast (firstByteMark ! len)) # bs, uc))"

text \<open>
  The escape \<^verbatim>\<open>\u\<close>, \<open>ptr\<close> at its letter. The variables \<^verbatim>\<open>uc\<close> and \<^verbatim>\<open>uc2\<close> keep their value when
  \<^verbatim>\<open>sscanf\<close> converts nothing, and are indeterminate before.
\<close>

definition json_unicode :: "bytes \<Rightarrow> u32 option \<Rightarrow> u32 option \<Rightarrow>
    (bytes \<times> bytes \<times> u32 option \<times> u32 option) option" where
  "json_unicode ptr uc uc2 =
     do { r \<leftarrow> scan_4x (drop 1 ptr);
          u \<leftarrow> (if r = None then uc else r);
          let ptr = drop 4 ptr in
          if (0xDC00 \<le> u \<and> u \<le> 0xDFFF) \<or> u = 0 then Some ([], ptr, Some u, uc2)
          else if 0xD800 \<le> u \<and> u \<le> 0xDBFF
          then do { c1 \<leftarrow> peek (drop 1 ptr);
                    if c1 \<noteq> c_bslash then Some ([], ptr, Some u, uc2)
                    else do { c2 \<leftarrow> peek (drop 2 ptr);
                    if c2 \<noteq> 0x75 then Some ([], ptr, Some u, uc2)
                    else do { r \<leftarrow> scan_4x (drop 3 ptr);
                    u2 \<leftarrow> (if r = None then uc2 else r);
                    let ptr = drop 6 ptr in
                    if u2 < 0xDC00 \<or> u2 > 0xDFFF then Some ([], ptr, Some u, Some u2)
                    else let (bs, u) = utf8_encode (0x10000 OR push_bit 10 (u AND 0x3FF) OR (u2 AND 0x3FF))
                         in Some (bs, ptr, Some u, Some u2) } } }
          else let (bs, u) = utf8_encode u in Some (bs, ptr, Some u, uc2) }"

lemma json_unicode_length:
  "json_unicode ptr uc uc2 = Some (bs, ptr', uc', uc2') \<Longrightarrow> length ptr' \<le> length ptr"
  by (auto simp: json_unicode_def Let_def split: bind_splits if_splits prod.splits)

text \<open>The first pass counts the characters, an escape as one.\<close>

fun str_scan :: "bytes \<Rightarrow> nat \<Rightarrow> nat option" where
  "str_scan [] len = None"
| "str_scan (c # ptr) len =
     (if c = c_quote \<or> c = 0 then Some len
      else do { len \<leftarrow> int_len (len + 1);
                if c = c_bslash then (case ptr of [] \<Rightarrow> None | _ # ptr \<Rightarrow> str_scan ptr len)
                else str_scan ptr len })"

definition unescape :: "u8 \<Rightarrow> u8" where
  "unescape c = (if c = 0x62 then 0x08 else if c = 0x66 then 0x0c else if c = 0x6e then 0x0a
     else if c = 0x72 then 0x0d else if c = 0x74 then 0x09 else c)"

function str_copy :: "nat \<Rightarrow> bytes \<Rightarrow> bytes \<Rightarrow> u32 option \<Rightarrow> u32 option \<Rightarrow> (bytes \<times> bytes) option" where
  "str_copy cap [] out uc uc2 = None"
| "str_copy cap (c # ptr) out uc uc2 =
     (if c = c_quote \<or> c = 0 then Some (out, c # ptr)
      else if c \<noteq> c_bslash then do { out \<leftarrow> emit cap out [c]; str_copy cap ptr out uc uc2 }
      else do { e \<leftarrow> peek ptr;
                if e = 0x75
                then do { (bs, ptr, uc, uc2) \<leftarrow> json_unicode ptr uc uc2;
                          out \<leftarrow> emit cap out bs;
                          str_copy cap (drop 1 ptr) out uc uc2 }
                else do { out \<leftarrow> emit cap out [unescape e]; str_copy cap (drop 1 ptr) out uc uc2 } })"
  by pat_completeness auto
termination
  by (relation "measure (\<lambda>(cap, ptr, out, uc, uc2). length ptr)") (auto dest!: json_unicode_length)

definition parse_string :: "json_malloc \<Rightarrow> 'd jnode \<Rightarrow> bytes \<Rightarrow> ('d jnode option \<times> bytes) option" where
  "parse_string mal item str =
     do { c \<leftarrow> peek str;
          if c \<noteq> c_quote then Some (None, str)
          else do { len \<leftarrow> str_scan (tl str) 0;
                    if \<not> mal (len + 1) then Some (None, str)
                    else do { (out, ptr) \<leftarrow> str_copy (len + 1) (tl str) [] None None;
                              out \<leftarrow> emit (len + 1) out [0];
                              Some (Some (item\<lparr>valuestring := Some (cstring out), j_type := JSON_T_STRING\<rparr>),
                                    if hd ptr = c_quote then tl ptr else ptr) } } }"

subsection \<open>Values\<close>

text \<open>
  \<^verbatim>\<open>stream_cmp\<close> with a literal and its terminator: it advances the stream over what matches, also when
  the whole does not; \<^const>\<open>True\<close> is the result 0.
\<close>

fun stream_cmp :: "bytes \<Rightarrow> bytes \<Rightarrow> (bool \<times> bytes) option" where
  "stream_cmp (c # stream) (l # str) =
     (if c = l then stream_cmp stream str else Some (l = 0, c # stream))"
| "stream_cmp _ _ = None"

definition lit_null :: bytes where "lit_null = [0x6e, 0x75, 0x6c, 0x6c, 0]"
definition lit_false :: bytes where "lit_false = [0x66, 0x61, 0x6c, 0x73, 0x65, 0]"
definition lit_true :: bytes where "lit_true = [0x74, 0x72, 0x75, 0x65, 0]"

text \<open>The closing bracket, after which the value is complete; the result pairs NULL or the value with the position reached.\<close>

definition close_with :: "u8 \<Rightarrow> 'd json \<Rightarrow> bytes \<Rightarrow> ('d json option \<times> bytes) option" where
  "close_with bracket v value =
     do { c \<leftarrow> peek value;
          if c \<noteq> bracket then Some (None, value) else Some (Some v, tl value) }"

text \<open>The name of a member: a string, moved to the field \<^verbatim>\<open>string\<close>, and the colon.\<close>

definition parse_name :: "json_malloc \<Rightarrow> 'd jnode \<Rightarrow> bytes \<Rightarrow> ('d jnode option \<times> bytes) option" where
  "parse_name mal child value =
     do { (r, value) \<leftarrow> parse_string mal child value;
          case r of None \<Rightarrow> Some (None, value)
          | Some child \<Rightarrow>
              do { value \<leftarrow> json_skip value;
                   let child = child\<lparr>j_string := valuestring child, valuestring := None\<rparr> in
                   do { c \<leftarrow> peek value;
                        if c \<noteq> c_colon then Some (None, value)
                        else do { value \<leftarrow> json_skip (tl value); Some (Some child, value) } } } }"

text \<open>
  \<^verbatim>\<open>parse_value\<close>, \<^verbatim>\<open>parse_array\<close> and \<^verbatim>\<open>parse_object\<close> call each other, and the last two have a
  loop; their calls are values of a type, and the bodies take the parser that runs a call as argument.
\<close>

datatype 'd json_call =
    Call_value "'d jnode"
  | Call_array "'d jnode"
  | Call_elems "'d jnode" "'d json list"
  | Call_object "'d jnode"
  | Call_members "'d jnode" "'d json list"

type_synonym 'd parse_fun = "'d json_call \<Rightarrow> bytes \<Rightarrow> ('d json option \<times> bytes) option"

definition parse_value :: "json_malloc \<Rightarrow> 'd fpu \<Rightarrow> 'd parse_fun \<Rightarrow> 'd jnode \<Rightarrow> bytes \<Rightarrow>
    ('d json option \<times> bytes) option" where
  "parse_value mal F call item value =
     do { (m, value) \<leftarrow> stream_cmp value lit_null;
          if m then Some (Some (Json (item\<lparr>j_type := JSON_T_NULL\<rparr>) []), value) else
     do { (m, value) \<leftarrow> stream_cmp value lit_false;
          if m then Some (Some (Json (item\<lparr>j_type := JSON_T_FALSE\<rparr>) []), value) else
     do { (m, value) \<leftarrow> stream_cmp value lit_true;
          if m then Some (Some (Json (item\<lparr>j_type := JSON_T_TRUE, valueint := 1\<rparr>) []), value) else
     do { c \<leftarrow> peek value;
          if c = c_quote
          then do { (r, value) \<leftarrow> parse_string mal item value;
                    Some (map_option (\<lambda>item. Json item []) r, value) }
          else if c = c_minus \<or> isdigit c
          then do { (item, value) \<leftarrow> parse_number F item value; Some (Some (Json item []), value) }
          else if c = c_lbrack then call (Call_array item) value
          else if c = c_lbrace then call (Call_object item) value
          else Some (None, value) } } } }"

definition parse_array :: "json_malloc \<Rightarrow> 'd fpu \<Rightarrow> 'd parse_fun \<Rightarrow> 'd jnode \<Rightarrow> bytes \<Rightarrow>
    ('d json option \<times> bytes) option" where
  "parse_array mal F call item value =
     do { c \<leftarrow> peek value;
          if c \<noteq> c_lbrack then Some (None, value) else
          let item = item\<lparr>j_type := JSON_T_ARRAY\<rparr> in
     do { value \<leftarrow> json_skip (tl value);
          c \<leftarrow> peek value;
          if c = c_rbrack then Some (Some (Json item []), tl value) else
          case json_new_item mal F of None \<Rightarrow> Some (None, value)
          | Some child \<Rightarrow>
     do { (r, value) \<leftarrow> call (Call_value child) value;
          case r of None \<Rightarrow> Some (None, value)
          | Some v \<Rightarrow> do { value \<leftarrow> json_skip value; call (Call_elems item [v]) value } } } }"

definition parse_elems :: "json_malloc \<Rightarrow> 'd fpu \<Rightarrow> 'd parse_fun \<Rightarrow> 'd jnode \<Rightarrow> 'd json list \<Rightarrow> bytes \<Rightarrow>
    ('d json option \<times> bytes) option" where
  "parse_elems mal F call item cs value =
     do { c \<leftarrow> peek value;
          if c \<noteq> c_comma then close_with c_rbrack (Json item cs) value else
     do { value \<leftarrow> json_skip (tl value);
          c \<leftarrow> peek value;
          if c = c_rbrack then close_with c_rbrack (Json item cs) (tl value) else
          case json_new_item mal F of None \<Rightarrow> Some (None, value)
          | Some child \<Rightarrow>
     do { (r, value) \<leftarrow> call (Call_value child) value;
          case r of None \<Rightarrow> Some (None, value)
          | Some v \<Rightarrow> do { value \<leftarrow> json_skip value; call (Call_elems item (cs @ [v])) value } } } }"

definition parse_object :: "json_malloc \<Rightarrow> 'd fpu \<Rightarrow> 'd parse_fun \<Rightarrow> 'd jnode \<Rightarrow> bytes \<Rightarrow>
    ('d json option \<times> bytes) option" where
  "parse_object mal F call item value =
     do { c \<leftarrow> peek value;
          if c \<noteq> c_lbrace then Some (None, value) else
          let item = item\<lparr>j_type := JSON_T_OBJECT\<rparr> in
     do { value \<leftarrow> json_skip (tl value);
          c \<leftarrow> peek value;
          if c = c_rbrace then Some (Some (Json item []), tl value) else
          case json_new_item mal F of None \<Rightarrow> Some (None, value)
          | Some child \<Rightarrow>
     do { (n, value) \<leftarrow> parse_name mal child value;
          case n of None \<Rightarrow> Some (None, value)
          | Some child \<Rightarrow>
     do { (r, value) \<leftarrow> call (Call_value child) value;
          case r of None \<Rightarrow> Some (None, value)
          | Some v \<Rightarrow> do { value \<leftarrow> json_skip value; call (Call_members item [v]) value } } } } }"

definition parse_members :: "json_malloc \<Rightarrow> 'd fpu \<Rightarrow> 'd parse_fun \<Rightarrow> 'd jnode \<Rightarrow> 'd json list \<Rightarrow> bytes \<Rightarrow>
    ('d json option \<times> bytes) option" where
  "parse_members mal F call item cs value =
     do { c \<leftarrow> peek value;
          if c \<noteq> c_comma then close_with c_rbrace (Json item cs) value else
     do { value \<leftarrow> json_skip (tl value);
          c \<leftarrow> peek value;
          if c = c_rbrace then close_with c_rbrace (Json item cs) (tl value) else
          case json_new_item mal F of None \<Rightarrow> Some (None, value)
          | Some child \<Rightarrow>
     do { (n, value) \<leftarrow> parse_name mal child value;
          case n of None \<Rightarrow> Some (None, value)
          | Some child \<Rightarrow>
     do { (r, value) \<leftarrow> call (Call_value child) value;
          case r of None \<Rightarrow> Some (None, value)
          | Some v \<Rightarrow> do { value \<leftarrow> json_skip value; call (Call_members item (cs @ [v])) value } } } } }"

text \<open>Every call and every turn of a loop takes one unit of fuel.\<close>

primrec parse_call :: "json_malloc \<Rightarrow> 'd fpu \<Rightarrow> nat \<Rightarrow> 'd parse_fun" where
  "parse_call mal F 0 = (\<lambda>c value. None)"
| "parse_call mal F (Suc k) = (\<lambda>c value. case c of
     Call_value item \<Rightarrow> parse_value mal F (parse_call mal F k) item value
   | Call_array item \<Rightarrow> parse_array mal F (parse_call mal F k) item value
   | Call_elems item cs \<Rightarrow> parse_elems mal F (parse_call mal F k) item cs value
   | Call_object item \<Rightarrow> parse_object mal F (parse_call mal F k) item value
   | Call_members item cs \<Rightarrow> parse_members mal F (parse_call mal F k) item cs value)"

text \<open>
  The text is a block that starts with the string; \<^verbatim>\<open>json_parse_stream\<close> also returns where it stopped.
\<close>

definition json_fuel :: "bytes \<Rightarrow> nat" where
  "json_fuel value = 2 * length value + 2"

definition json_parse_stream :: "json_malloc \<Rightarrow> 'd fpu \<Rightarrow> bytes \<Rightarrow> ('d json option \<times> bytes) option" where
  "json_parse_stream mal F value =
     (case json_new_item mal F of None \<Rightarrow> Some (None, value)
      | Some c \<Rightarrow> do { value \<leftarrow> json_skip value; parse_call mal F (json_fuel value) (Call_value c) value })"

definition json_parse :: "json_malloc \<Rightarrow> 'd fpu \<Rightarrow> bytes \<Rightarrow> 'd json option option" where
  "json_parse mal F value = do { (r, _) \<leftarrow> json_parse_stream mal F value; Some r }"

section \<open>The printer\<close>

text \<open>\<^verbatim>\<open>print_string_ptr\<close>: the first loop counts, the second writes; \<^verbatim>\<open>strchr\<close> finds the escaped characters.\<close>

definition esc_chars :: bytes where
  "esc_chars = [c_quote, c_bslash, 0x08, 0x0c, 0x0a, 0x0d, 0x09]"

fun esc_count :: "bytes \<Rightarrow> nat \<Rightarrow> nat option" where
  "esc_count [] len = Some len"
| "esc_count (token # ptr) len =
     do { len \<leftarrow> int_len (len + 1);
          len \<leftarrow> int_len (if token \<in> set esc_chars then len + 1 else if token < 32 then len + 5 else len);
          esc_count ptr len }"

definition esc_byte :: "u8 \<Rightarrow> bytes" where
  "esc_byte c =
     (if c > 31 \<and> c \<noteq> c_quote \<and> c \<noteq> c_bslash then [c]
      else c_bslash #
        (if c = c_bslash then [c_bslash] else if c = c_quote then [c_quote]
         else if c = 0x08 then [0x62] else if c = 0x0c then [0x66] else if c = 0x0a then [0x6e]
         else if c = 0x0d then [0x72] else if c = 0x09 then [0x74]
         else 0x75 # show_x4 c))"

definition print_string_ptr :: "json_malloc \<Rightarrow> bytes option \<Rightarrow> bytes option option" where
  "print_string_ptr mal str =
     (case str of None \<Rightarrow> Some (json_strdup mal [])
      | Some s \<Rightarrow>
          do { len \<leftarrow> esc_count s 0;
               cap \<leftarrow> int_len (len + 3);
               if \<not> mal cap then Some None
               else do { out \<leftarrow> emit cap [] [c_quote];
                         out \<leftarrow> foldM (\<lambda>c out. emit cap out (esc_byte c)) s out;
                         out \<leftarrow> emit cap out [c_quote];
                         _ \<leftarrow> emit cap out [0];
                         Some (Some out) } })"

definition print_string :: "json_malloc \<Rightarrow> 'd jnode \<Rightarrow> bytes option option" where
  "print_string mal item = print_string_ptr mal (valuestring item)"

text \<open>The test that a number is the integer of its field \<^verbatim>\<open>valueint\<close>.\<close>

definition LLONG_MAX :: int where "LLONG_MAX = 2 ^ 63 - 1"
definition LLONG_MIN :: int where "LLONG_MIN = - (2 ^ 63)"

definition json_is_int :: "'d fpu \<Rightarrow> 'd jnode \<Rightarrow> bool" where
  "json_is_int F item \<longleftrightarrow>
     (let d = valuedouble item in
      fp_le F (fp_abs F (fp_sub F (fp_of_int F (valueint item)) d)) (fp_eps F) \<and>
      fp_le F d (fp_of_int F LLONG_MAX) \<and> fp_le F (fp_of_int F LLONG_MIN) d)"

definition json_type_is_double :: "'d fpu \<Rightarrow> 'd jnode \<Rightarrow> int" where
  "json_type_is_double F item =
     (if j_type item \<noteq> JSON_T_NUMBER then - 1 else if json_is_int F item then 0 else 1)"

definition print_number :: "json_malloc \<Rightarrow> 'd fpu \<Rightarrow> 'd jnode \<Rightarrow> bytes option option" where
  "print_number mal F item =
     (let d = valuedouble item in
      if json_is_int F item
      then (if \<not> mal 21 then Some None
            else do { out \<leftarrow> emit 21 [] (show_int (valueint item)); _ \<leftarrow> emit 21 out [0]; Some (Some out) })
      else (if \<not> mal 64 then Some None
            else do { out \<leftarrow> emit 64 []
                        (if fp_le F (fp_abs F (fp_sub F (fp_floor F d) d)) (fp_eps F) then fp_show F Fmt_0f d
                         else if \<not> fp_le F (fp_tiny F) (fp_abs F d) \<or>
                                 \<not> fp_le F (fp_abs F d) (fp_of_int F (10 ^ 9)) then fp_show F Fmt_e d
                         else fp_show F Fmt_f d);
                      _ \<leftarrow> emit 64 out [0];
                      Some (Some out) }))"

text \<open>
  The length computed for an array or an object, and the text composed; \<open>fmt\<close> is true for the
  formatted output. \<^verbatim>\<open>numentries * sizeof (char *)\<close> is the size of the array of the entries.
\<close>

fun array_len :: "bool \<Rightarrow> bytes list \<Rightarrow> nat \<Rightarrow> nat option" where
  "array_len fmt [] len = Some len"
| "array_len fmt (ret # rets) len =
     do { len \<leftarrow> int_len (len + (length ret + 2 + (if fmt then 1 else 0))); array_len fmt rets len }"

fun array_body :: "bool \<Rightarrow> bytes list \<Rightarrow> bytes" where
  "array_body fmt [] = []"
| "array_body fmt [e] = e"
| "array_body fmt (e # es) = e @ c_comma # (if fmt then [c_space] else []) @ array_body fmt es"

definition compose_array :: "json_malloc \<Rightarrow> bool \<Rightarrow> bytes list \<Rightarrow> bytes option option" where
  "compose_array mal fmt es =
     do { len \<leftarrow> array_len fmt es 5;
          if \<not> mal len then Some None
          else do { out \<leftarrow> emit len [] ([c_lbrack] @ array_body fmt es @ [c_rbrack]);
                    _ \<leftarrow> emit len out [0];
                    Some (Some out) } }"

fun object_len :: "bool \<Rightarrow> nat \<Rightarrow> (bytes \<times> bytes) list \<Rightarrow> nat \<Rightarrow> nat option" where
  "object_len fmt depth [] len = Some len"
| "object_len fmt depth ((str, ret) # es) len =
     do { len \<leftarrow> int_len (len + (length ret + length str + 2 + (if fmt then 2 + depth else 0)));
          object_len fmt depth es len }"

fun object_body :: "bool \<Rightarrow> nat \<Rightarrow> (bytes \<times> bytes) list \<Rightarrow> bytes" where
  "object_body fmt depth [] = []"
| "object_body fmt depth ((name, e) # es) =
     (if fmt then replicate depth c_tab else []) @ name @ c_colon # (if fmt then [c_tab] else []) @ e @
     (if es \<noteq> [] then [c_comma] else []) @ (if fmt then [c_newline] else []) @ object_body fmt depth es"

definition compose_object :: "json_malloc \<Rightarrow> bool \<Rightarrow> nat \<Rightarrow> (bytes \<times> bytes) list \<Rightarrow> bytes option option" where
  "compose_object mal fmt depth es =
     do { len \<leftarrow> int_len (7 + (if fmt then depth else 0));
          len \<leftarrow> object_len fmt depth es len;
          if \<not> mal len then Some None
          else do { out \<leftarrow> emit len [] ([c_lbrace] @ (if fmt then [c_newline] else []) @
                      object_body fmt depth es @
                      (if fmt then replicate (depth - 1) c_tab else []) @ [c_rbrace]);
                    _ \<leftarrow> emit len out [0];
                    Some (Some out) } }"

text \<open>
  The children of an array are printed until one fails, those of an object all; \<open>print_entries\<close> and
  \<open>print_members\<close> return the texts if none failed, and the children with what they cache.
\<close>

definition print_scalar :: "json_malloc \<Rightarrow> 'd fpu \<Rightarrow> 'd jnode \<Rightarrow> bytes option option" where
  "print_scalar mal F item =
     (let t = j_type item mod 256 in
      if t = JSON_T_NULL then Some (json_strdup mal (butlast lit_null))
      else if t = JSON_T_FALSE then Some (json_strdup mal (butlast lit_false))
      else if t = JSON_T_TRUE then Some (json_strdup mal (butlast lit_true))
      else if t = JSON_T_NUMBER then print_number mal F item
      else if t = JSON_T_STRING then print_string mal item
      else Some None)"

text \<open>The text of an array or an object from the texts of its children.\<close>

definition compose :: "('e list \<Rightarrow> bytes option option) \<Rightarrow> 'e list option \<times> 'd json list \<Rightarrow>
    (bytes option \<times> 'd json list) option" where
  "compose f = (\<lambda>(es, cs). case es of None \<Rightarrow> Some (None, cs)
                | Some es \<Rightarrow> map_option (\<lambda>out. (out, cs)) (f es))"

definition cache_out :: "'d jnode \<Rightarrow> int \<Rightarrow> bytes option \<times> 'd json list \<Rightarrow> bytes option \<times> 'd json" where
  "cache_out item fmt = (\<lambda>(out, cs). (out, Json (item\<lparr>print_out := out, print_fmt := fmt\<rparr>) cs))"

fun print_value :: "json_malloc \<Rightarrow> 'd fpu \<Rightarrow> 'd json \<Rightarrow> nat \<Rightarrow> int \<Rightarrow> (bytes option \<times> 'd json) option"
and print_entries :: "json_malloc \<Rightarrow> 'd fpu \<Rightarrow> 'd json list \<Rightarrow> nat \<Rightarrow> int \<Rightarrow>
      (bytes list option \<times> 'd json list) option"
and print_members :: "json_malloc \<Rightarrow> 'd fpu \<Rightarrow> 'd json list \<Rightarrow> nat \<Rightarrow> int \<Rightarrow>
      ((bytes \<times> bytes) list option \<times> 'd json list) option" where
  "print_value mal F (Json item cs) depth fmt =
     (if fmt = print_fmt item \<and> print_out item \<noteq> None then Some (print_out item, Json item cs)
      else map_option (cache_out item fmt)
        (if j_type item mod 256 = JSON_T_ARRAY
         then (if \<not> mal (length cs * 8) then Some (None, cs)
               else print_entries mal F cs (depth + 1) fmt \<bind> compose (compose_array mal (fmt \<noteq> 0)))
         else if j_type item mod 256 = JSON_T_OBJECT
         then (if \<not> mal (length cs * 8) then Some (None, cs)
               else print_members mal F cs (depth + 1) fmt \<bind> compose (compose_object mal (fmt \<noteq> 0) (depth + 1)))
         else map_option (\<lambda>out. (out, cs)) (print_scalar mal F item)))"
| "print_entries mal F [] depth fmt = Some (Some [], [])"
| "print_entries mal F (c # cs) depth fmt =
     do { (ret, c) \<leftarrow> print_value mal F c depth fmt;
          case ret of None \<Rightarrow> Some (None, c # cs)
          | Some ret \<Rightarrow> do { (rets, cs) \<leftarrow> print_entries mal F cs depth fmt;
                             Some (map_option (\<lambda>rets. ret # rets) rets, c # cs) } }"
| "print_members mal F [] depth fmt = Some (Some [], [])"
| "print_members mal F (c # cs) depth fmt =
     do { str \<leftarrow> print_string_ptr mal (j_string (j_node c));
          (ret, c) \<leftarrow> print_value mal F c depth fmt;
          (es, cs) \<leftarrow> print_members mal F cs depth fmt;
          Some (case (str, ret, es) of (Some str, Some ret, Some es) \<Rightarrow> Some ((str, ret) # es) | _ \<Rightarrow> None,
                c # cs) }"

definition json_to_string :: "json_malloc \<Rightarrow> 'd fpu \<Rightarrow> 'd json \<Rightarrow> (bytes option \<times> 'd json) option" where
  "json_to_string mal F item = print_value mal F item 0 1"

definition json_to_string_unformatted :: "json_malloc \<Rightarrow> 'd fpu \<Rightarrow> 'd json \<Rightarrow>
    (bytes option \<times> 'd json) option" where
  "json_to_string_unformatted mal F item = print_value mal F item 0 0"

end
