(* ===== verification/JsonSpec.thy ===== *)
theory JsonSpec
  imports Json
begin

text \<open>
  What the JSON parser and printer promise: the parser ends on every text, with fuel linear in the
  length, and returns well-formed values; the printer writes the rendering of a value and stays in its
  buffers; and the parser reads a printed value back.
\<close>

section \<open>The parser only moves forward\<close>

named_theorems json_len \<open>the rest a parser leaves is no longer than its text\<close>

lemma peek_bind_Some [simp]: "(peek s \<bind> f) = Some r \<longleftrightarrow> (\<exists>c t. s = c # t \<and> f c = Some r)"
  by (cases s) auto

lemma json_skip_length [json_len]: "json_skip s = Some t \<Longrightarrow> length t \<le> length s"
  by (induction s) (auto split: if_splits)

lemma num_int_length [json_len]: "num_int F s n n64 = Some (a, b, t) \<Longrightarrow> length t \<le> length s"
  by (induction F s n n64 rule: num_int.induct) (auto simp: Let_def split: if_splits)

lemma num_frac_length [json_len]: "num_frac F s n sc = Some (a, b, t) \<Longrightarrow> length t \<le> length s"
  by (induction F s n sc rule: num_frac.induct) (auto split: if_splits)

lemma num_exp_length [json_len]: "num_exp s a = Some (b, t) \<Longrightarrow> length t \<le> length s"
  by (induction s a rule: num_exp.induct) (auto simp: Let_def split: if_splits)

lemma num_sign_length [json_len]: "num_sign F s = Some (a, t) \<Longrightarrow> length t \<le> length s"
  by (auto simp: num_sign_def Let_def split: if_splits)

lemma num_digit_part_length [json_len]: "num_digit_part F s = Some (a, b, t) \<Longrightarrow> length t \<le> length s"
  by (auto simp: num_digit_part_def split: if_splits dest: num_int_length)

lemma num_fraction_length [json_len]:
  "num_fraction F s n n64 = Some (a, b, c, t) \<Longrightarrow> length t \<le> length s"
  by (auto simp: num_fraction_def split: if_splits bind_splits dest!: num_frac_length)

lemma num_exponent_length [json_len]:
  "num_exponent s n64 = Some (a, b, c, t) \<Longrightarrow> length t \<le> length s"
  by (auto simp: num_exponent_def Let_def split: if_splits bind_splits dest!: num_exp_length)

lemma parse_number_length [json_len]:
  "parse_number F item s = Some (item', t) \<Longrightarrow> length t \<le> length s"
  unfolding parse_number_def
  by (auto split: bind_splits dest!: num_sign_length num_digit_part_length num_fraction_length
      num_exponent_length)

lemma str_copy_length:
  "str_copy cap ptr out uc uc2 = Some (out', ptr') \<Longrightarrow> length ptr' \<le> length ptr \<and> ptr' \<noteq> []"
proof (induction ptr arbitrary: out uc uc2 rule: length_induct)
  case (1 ptr)
  then obtain c p where ptr: "ptr = c # p" by (cases ptr) auto
  consider "c = c_quote \<or> c = 0" | "c \<noteq> c_quote \<and> c \<noteq> 0 \<and> c \<noteq> c_bslash" | "c = c_bslash" by auto
  then show ?case
  proof cases
    case 3
    with 1(2) ptr obtain out1 uc1 uc21 q where
      "str_copy cap (drop 1 q) out1 uc1 uc21 = Some (out', ptr')" "length q \<le> length p"
      by (auto split: if_splits bind_splits dest!: json_unicode_length)
    then have "length ptr' \<le> length (drop 1 q) \<and> ptr' \<noteq> []"
      using 1(1)[rule_format, of "drop 1 q"] ptr by auto
    then show ?thesis using ptr \<open>length q \<le> length p\<close> by auto
  qed (use 1 ptr in \<open>auto split: bind_splits\<close>)
qed

lemma parse_string_length [json_len]:
  "parse_string mal item s = Some (r, t) \<Longrightarrow> length t \<le> length s"
  unfolding parse_string_def
  by (auto split: if_splits bind_splits dest!: str_copy_length)

lemma stream_cmp_length [json_len]: "stream_cmp s l = Some (m, t) \<Longrightarrow> length t \<le> length s"
  by (induction s l rule: stream_cmp.induct) (auto split: if_splits)

lemma parse_name_length [json_len]:
  "parse_name mal c s = Some (r, t) \<Longrightarrow> length t \<le> length s"
  unfolding parse_name_def Let_def
  by (auto split: if_splits bind_splits option.splits dest!: json_len)

lemma close_with_length [json_len]: "close_with b v s = Some (r, t) \<Longrightarrow> length t \<le> length s"
  by (auto simp: close_with_def split: if_splits)

text \<open>A parser of calls that does not move back, and what its bodies then do.\<close>

definition shrinks :: "'d parse_fun \<Rightarrow> bool" where
  "shrinks call \<longleftrightarrow> (\<forall>c s r t. call c s = Some (r, t) \<longrightarrow> length t \<le> length s)"

lemma shrinksD: "shrinks call \<Longrightarrow> call c s = Some (r, t) \<Longrightarrow> length t \<le> length s"
  by (auto simp: shrinks_def)

lemma parse_value_length:
  assumes "shrinks call"
  shows "parse_value mal F call item s = Some (r, t) \<Longrightarrow> length t \<le> length s"
  unfolding parse_value_def
  by (auto split: if_splits bind_splits
      dest!: stream_cmp_length parse_string_length parse_number_length shrinksD [OF assms])

lemma parse_array_length:
  assumes "shrinks call"
  shows "parse_array mal F call item s = Some (r, t) \<Longrightarrow> length t \<le> length s"
  unfolding parse_array_def Let_def
  by (auto split: if_splits bind_splits option.splits dest!: json_skip_length shrinksD [OF assms])

lemma parse_elems_length:
  assumes "shrinks call"
  shows "parse_elems mal F call item cs s = Some (r, t) \<Longrightarrow> length t \<le> length s"
  unfolding parse_elems_def Let_def
  by (auto split: if_splits bind_splits option.splits
      dest!: json_skip_length shrinksD [OF assms] close_with_length)

lemma parse_object_length:
  assumes "shrinks call"
  shows "parse_object mal F call item s = Some (r, t) \<Longrightarrow> length t \<le> length s"
  unfolding parse_object_def Let_def
  by (auto split: if_splits bind_splits option.splits
      dest!: json_skip_length shrinksD [OF assms] parse_name_length)

lemma parse_members_length:
  assumes "shrinks call"
  shows "parse_members mal F call item cs s = Some (r, t) \<Longrightarrow> length t \<le> length s"
  unfolding parse_members_def Let_def
  by (auto split: if_splits bind_splits option.splits
      dest!: json_skip_length shrinksD [OF assms] close_with_length parse_name_length)

lemma parse_call_shrinks: "shrinks (parse_call mal F k)"
proof (induction k)
  case (Suc k)
  show ?case
    unfolding shrinks_def
    by (auto split: json_call.splits dest: parse_value_length [OF Suc] parse_array_length [OF Suc]
        parse_elems_length [OF Suc] parse_object_length [OF Suc] parse_members_length [OF Suc])
qed (simp add: shrinks_def)

section \<open>The fuel is enough\<close>

text \<open>
  A call of weight \<open>w\<close> makes calls of smaller weight only, so that fuel beyond the weight changes nothing.
\<close>

fun call_weight :: "'d json_call \<Rightarrow> bytes \<Rightarrow> nat" where
  "call_weight (Call_value item) s = 2 * length s + 2"
| "call_weight _ s = 2 * length s + 1"

definition agree :: "nat \<Rightarrow> 'd parse_fun \<Rightarrow> 'd parse_fun \<Rightarrow> bool" where
  "agree w call1 call2 \<longleftrightarrow> (\<forall>c s. call_weight c s < w \<longrightarrow> call1 c s = call2 c s)"

lemma agreeD: "agree w call1 call2 \<Longrightarrow> call_weight c s < w \<Longrightarrow> call1 c s = call2 c s"
  by (auto simp: agree_def)

lemma parse_value_cong:
  assumes "agree (2 * length s + 2) call1 call2"
  shows "parse_value mal F call1 item s = parse_value mal F call2 item s"
  unfolding parse_value_def
  by (intro Option.bind_cong refl if_cong prod.case_cong agreeD [OF assms])
    (auto dest!: stream_cmp_length)

lemma parse_array_cong:
  assumes "agree (2 * length s + 1) call1 call2" "shrinks call2"
  shows "parse_array mal F call1 item s = parse_array mal F call2 item s"
  unfolding parse_array_def Let_def
  by (intro Option.bind_cong refl if_cong prod.case_cong option.case_cong agreeD [OF assms(1)])
    (auto simp: peek_Some dest!: json_skip_length shrinksD [OF assms(2)])

lemma parse_elems_cong:
  assumes "agree (2 * length s + 1) call1 call2" "shrinks call2"
  shows "parse_elems mal F call1 item cs s = parse_elems mal F call2 item cs s"
  unfolding parse_elems_def Let_def
  by (intro Option.bind_cong refl if_cong prod.case_cong option.case_cong agreeD [OF assms(1)])
    (auto simp: peek_Some dest!: json_skip_length shrinksD [OF assms(2)])

lemma parse_object_cong:
  assumes "agree (2 * length s + 1) call1 call2" "shrinks call2"
  shows "parse_object mal F call1 item s = parse_object mal F call2 item s"
  unfolding parse_object_def Let_def
  by (intro Option.bind_cong refl if_cong prod.case_cong option.case_cong agreeD [OF assms(1)])
    (auto simp: peek_Some dest!: json_skip_length parse_name_length shrinksD [OF assms(2)])

lemma parse_members_cong:
  assumes "agree (2 * length s + 1) call1 call2" "shrinks call2"
  shows "parse_members mal F call1 item cs s = parse_members mal F call2 item cs s"
  unfolding parse_members_def Let_def
  by (intro Option.bind_cong refl if_cong prod.case_cong option.case_cong agreeD [OF assms(1)])
    (auto simp: peek_Some dest!: json_skip_length parse_name_length shrinksD [OF assms(2)])

lemma parse_call_more: "agree (Suc k) (parse_call mal F (Suc k)) (parse_call mal F k)"
proof (induction k)
  case 0
  show ?case by (auto simp: agree_def gr0_conv_Suc elim: call_weight.elims)
next
  case (Suc k)
  note shr = parse_call_shrinks [of mal F k]
  show ?case unfolding agree_def
  proof (intro allI impI)
    fix c :: "'a json_call" and s :: bytes
    assume w: "call_weight c s < Suc (Suc k)"
    have ag: "agree (call_weight c s) (parse_call mal F (Suc k)) (parse_call mal F k)"
      using Suc w by (auto simp: agree_def)
    show "parse_call mal F (Suc (Suc k)) c s = parse_call mal F (Suc k) c s"
      using ag parse_value_cong parse_array_cong [OF _ shr] parse_elems_cong [OF _ shr]
        parse_object_cong [OF _ shr] parse_members_cong [OF _ shr]
      by (subst (1 2) parse_call.simps(2)) (cases c; auto simp del: parse_call.simps)
  qed
qed

lemma parse_call_fuel:
  "call_weight c s \<le> k \<Longrightarrow> k \<le> j \<Longrightarrow> parse_call mal F j c s = parse_call mal F k c s"
proof (induction j)
  case (Suc j)
  show ?case
  proof (cases "k = Suc j")
    case False
    then have "k \<le> j" using Suc.prems by simp
    then have "parse_call mal F (Suc j) c s = parse_call mal F j c s"
      using Suc.prems by (intro agreeD [OF parse_call_more]) auto
    then show ?thesis using Suc \<open>k \<le> j\<close> by simp
  qed simp
qed simp

section \<open>Parsed values are well-formed\<close>

definition member_named :: "int \<Rightarrow> 'd json \<Rightarrow> bool" where
  "member_named type c \<longleftrightarrow>
     (if type = JSON_T_OBJECT then (\<exists>n. j_string (j_node c) = Some n \<and> is_cstr n)
      else j_string (j_node c) = None)"

text \<open>The fields that a type has are set, all others are as \<^verbatim>\<open>json_new_item\<close> leaves them.\<close>

definition fields_typed :: "'d fpu \<Rightarrow> 'd jnode \<Rightarrow> bool" where
  "fields_typed F item \<longleftrightarrow>
     JSON_T_FALSE \<le> j_type item \<and> j_type item \<le> JSON_T_OBJECT \<and>
     (if j_type item = JSON_T_STRING then \<exists>s. valuestring item = Some s \<and> is_cstr s
      else valuestring item = None) \<and>
     (if j_type item = JSON_T_NUMBER then LLONG_MIN \<le> valueint item \<and> valueint item \<le> LLONG_MAX
      else valueint item = (if j_type item = JSON_T_TRUE then 1 else 0) \<and> valuedouble item = fp_of_int F 0) \<and>
     print_out item = None \<and> print_fmt item = 0"

fun json_typed :: "'d fpu \<Rightarrow> 'd json \<Rightarrow> bool" where
  "json_typed F (Json item cs) \<longleftrightarrow>
     fields_typed F item \<and>
     (cs = [] \<or> j_type item = JSON_T_ARRAY \<or> j_type item = JSON_T_OBJECT) \<and>
     (\<forall>c \<in> set cs. json_typed F c \<and> member_named (j_type item) c)"

definition fpu_i64 :: "'d fpu \<Rightarrow> bool" where
  "fpu_i64 F \<longleftrightarrow> (\<forall>d v. fp_to_i64 F d = Some v \<longrightarrow> LLONG_MIN \<le> v \<and> v \<le> LLONG_MAX)"

text \<open>The item a call starts with, and what holds of it and of the children parsed so far.\<close>

definition item_fresh :: "'d fpu \<Rightarrow> 'd jnode \<Rightarrow> bool" where
  "item_fresh F item \<longleftrightarrow> valuestring item = None \<and> valueint item = 0 \<and>
     valuedouble item = fp_of_int F 0 \<and> print_out item = None \<and> print_fmt item = 0"

fun call_item :: "'d json_call \<Rightarrow> 'd jnode" where
  "call_item (Call_value item) = item"
| "call_item (Call_array item) = item"
| "call_item (Call_elems item cs) = item"
| "call_item (Call_object item) = item"
| "call_item (Call_members item cs) = item"

fun call_ok :: "'d fpu \<Rightarrow> 'd json_call \<Rightarrow> bool" where
  "call_ok F (Call_elems item cs) \<longleftrightarrow> item_fresh F item \<and> j_type item = JSON_T_ARRAY \<and>
     (\<forall>c \<in> set cs. json_typed F c \<and> member_named JSON_T_ARRAY c)"
| "call_ok F (Call_members item cs) \<longleftrightarrow> item_fresh F item \<and> j_type item = JSON_T_OBJECT \<and>
     (\<forall>c \<in> set cs. json_typed F c \<and> member_named JSON_T_OBJECT c)"
| "call_ok F c \<longleftrightarrow> item_fresh F (call_item c)"

definition result_typed :: "'d fpu \<Rightarrow> 'd jnode \<Rightarrow> 'd json option \<times> bytes \<Rightarrow> bool" where
  "result_typed F item r \<longleftrightarrow>
     (\<forall>v. fst r = Some v \<longrightarrow> json_typed F v \<and> j_string (j_node v) = j_string item)"

definition calls_typed :: "'d fpu \<Rightarrow> 'd parse_fun \<Rightarrow> bool" where
  "calls_typed F call \<longleftrightarrow> (\<forall>c s. call_ok F c \<longrightarrow> post (call c s) (result_typed F (call_item c)))"

lemma calls_typedD:
  "calls_typed F call \<Longrightarrow> call c s = Some (Some v, t) \<Longrightarrow> call_ok F c \<Longrightarrow>
     json_typed F v \<and> j_string (j_node v) = j_string (call_item c)"
  by (fastforce simp: calls_typed_def result_typed_def post_def)

lemma calls_typed_post:
  "calls_typed F call \<Longrightarrow> call_ok F c \<Longrightarrow> j_string (call_item c) = j_string item \<Longrightarrow>
   post (call c s) (result_typed F item)"
  by (auto simp: calls_typed_def result_typed_def post_def)

lemma result_typed_None [simp]: "result_typed F item (None, s)"
  by (simp add: result_typed_def)

lemma result_typed_Some [simp]:
  "result_typed F item (Some v, s) \<longleftrightarrow> json_typed F v \<and> j_string (j_node v) = j_string item"
  by (simp add: result_typed_def)

lemma json_new_item_fresh: "json_new_item mal F = Some item \<Longrightarrow> item_fresh F item \<and> j_string item = None"
  by (auto simp: json_new_item_def json_zero_def item_fresh_def split: if_splits)

lemma parse_number_typed:
  assumes "fpu_i64 F" "item_fresh F item" "parse_number F item s = Some (item', t)"
  shows "fields_typed F item' \<and> j_string item' = j_string item"
  using assms unfolding parse_number_def num_finish_def Let_def
  by (auto simp: fields_typed_def item_fresh_def fpu_i64_def split: bind_splits if_splits)

lemma parse_string_typed:
  assumes "item_fresh F item" "parse_string mal item s = Some (Some item', t)"
  shows "fields_typed F item' \<and> j_string item' = j_string item \<and>
    (\<exists>str. valuestring item' = Some str \<and> is_cstr str)"
  using assms unfolding parse_string_def
  by (auto simp: fields_typed_def item_fresh_def split: bind_splits if_splits)

lemma parse_string_fresh:
  assumes "item_fresh F item" "parse_string mal item s = Some (Some item', t)"
  shows "item_fresh F (item'\<lparr>j_string := n, valuestring := None\<rparr>)"
  using assms unfolding parse_string_def
  by (auto simp: fields_typed_def item_fresh_def split: bind_splits if_splits)

lemma parse_name_typed:
  assumes "item_fresh F item" "parse_name mal item s = Some (Some item', t)"
  shows "item_fresh F item' \<and> (\<exists>n. j_string item' = Some n \<and> is_cstr n)"
proof -
  have "post (parse_name mal item s) (\<lambda>(r, t). \<forall>item'. r = Some item' \<longrightarrow>
      item_fresh F item' \<and> (\<exists>n. j_string item' = Some n \<and> is_cstr n))"
    unfolding parse_name_def Let_def
    by (intro post_intros) (use assms(1) in \<open>auto intro: parse_string_fresh dest: parse_string_typed\<close>)
  then show ?thesis using assms(2) by (auto dest: postD)
qed

lemma close_with_typed [post_intros]:
  "json_typed F v \<Longrightarrow> j_string (j_node v) = j_string item \<Longrightarrow> post (close_with b v s) (result_typed F item)"
  unfolding close_with_def by (intro post_intros) auto

lemma parse_value_typed:
  assumes "fpu_i64 F" "calls_typed F call" "item_fresh F item"
  shows "post (parse_value mal F call item s) (result_typed F item)"
proof -
  have lit: "json_typed F (Json (item\<lparr>j_type := JSON_T_NULL\<rparr>) [])"
    "json_typed F (Json (item\<lparr>j_type := JSON_T_FALSE\<rparr>) [])"
    "json_typed F (Json (item\<lparr>j_type := JSON_T_TRUE, valueint := 1\<rparr>) [])"
    using assms(3) by (auto simp: fields_typed_def item_fresh_def)
  have leaf: "json_typed F (Json item' [])" if "fields_typed F item'" for item'
    using that by simp
  show ?thesis
    unfolding parse_value_def
    by (intro post_intros calls_typed_post [OF assms(2)]) (use assms lit leaf in \<open>auto simp del: json_typed.simps simp: map_option_case
       split: option.splits dest: parse_number_typed parse_string_typed\<close>)
qed

lemma typed_children:
  "item_fresh F item \<Longrightarrow> j_type item = JSON_T_ARRAY \<or> j_type item = JSON_T_OBJECT \<Longrightarrow>
   (\<forall>c \<in> set cs. json_typed F c \<and> member_named (j_type item) c) \<Longrightarrow> json_typed F (Json item cs)"
  by (auto simp: fields_typed_def item_fresh_def)

lemma item_fresh_type [simp]: "item_fresh F (item\<lparr>j_type := x\<rparr>) = item_fresh F item"
  by (simp add: item_fresh_def)

lemma child_ok:
  assumes "json_new_item mal F = Some child"
  shows "call_ok F (Call_value child)" "j_string child = None"
  using json_new_item_fresh [OF assms] by auto

lemma child_typed:
  assumes "calls_typed F call" "json_new_item mal F = Some child"
    "call (Call_value child) s = Some (Some v, t)"
  shows "json_typed F v" "member_named JSON_T_ARRAY v"
  using calls_typedD [OF assms(1,3)] json_new_item_fresh [OF assms(2)] by (auto simp: member_named_def)

lemma member_ok:
  assumes "json_new_item mal F = Some child0" "parse_name mal child0 s0 = Some (Some child, s)"
  shows "call_ok F (Call_value child)"
  using parse_name_typed [OF conjunct1 [OF json_new_item_fresh [OF assms(1)]] assms(2)] by auto

lemma member_typed:
  assumes "calls_typed F call" "json_new_item mal F = Some child0"
    "parse_name mal child0 s0 = Some (Some child, s)" "call (Call_value child) s = Some (Some v, t)"
  shows "json_typed F v" "member_named JSON_T_OBJECT v"
  using calls_typedD [OF assms(1,4) member_ok [OF assms(2,3)]]
    parse_name_typed [OF conjunct1 [OF json_new_item_fresh [OF assms(2)]] assms(3)]
  by (auto simp: member_named_def)

lemma parse_array_typed:
  assumes "calls_typed F call" "item_fresh F item"
  shows "post (parse_array mal F call item s) (result_typed F item)"
  unfolding parse_array_def Let_def
  by (intro post_intros calls_typed_post [OF assms(1)])
    (use assms(2) in \<open>simp_all add: typed_children child_ok child_typed [OF assms(1)] ball_Un del: json_typed.simps\<close>)

lemma parse_elems_typed:
  assumes "calls_typed F call" "call_ok F (Call_elems item cs)"
  shows "post (parse_elems mal F call item cs s) (result_typed F item)"
  unfolding parse_elems_def Let_def
  by (intro post_intros calls_typed_post [OF assms(1)])
    (use assms(2) in \<open>simp_all add: typed_children child_ok child_typed [OF assms(1)] ball_Un del: json_typed.simps\<close>)

lemma parse_object_typed:
  assumes "calls_typed F call" "item_fresh F item"
  shows "post (parse_object mal F call item s) (result_typed F item)"
  unfolding parse_object_def Let_def
  by (intro post_intros calls_typed_post [OF assms(1)])
    (use assms(2) in \<open>simp_all add: typed_children member_ok member_typed [OF assms(1)] ball_Un del: json_typed.simps\<close>)

lemma parse_members_typed:
  assumes "calls_typed F call" "call_ok F (Call_members item cs)"
  shows "post (parse_members mal F call item cs s) (result_typed F item)"
  unfolding parse_members_def Let_def
  by (intro post_intros calls_typed_post [OF assms(1)])
    (use assms(2) in \<open>simp_all add: typed_children member_ok member_typed [OF assms(1)] ball_Un del: json_typed.simps\<close>)

lemma parse_call_typed:
  assumes "fpu_i64 F"
  shows "calls_typed F (parse_call mal F k)"
proof (induction k)
  case (Suc k)
  show ?case
    unfolding calls_typed_def
    by (auto split: json_call.splits intro: parse_value_typed [OF assms Suc] parse_array_typed [OF Suc]
        parse_object_typed [OF Suc] parse_elems_typed [OF Suc, simplified] parse_members_typed [OF Suc, simplified])
qed (simp add: calls_typed_def post_def)

end
