(* ===== verification/JsonRound.thy ===== *)
theory JsonRound
  imports JsonSpec
begin

text \<open>
  The rendering of a value as a function, the printer as its implementation in bounded buffers, and
  the parser as its inverse.
\<close>

section \<open>Rendering\<close>

definition render_string :: "bytes \<Rightarrow> bytes" where
  "render_string s = c_quote # concat (map esc_byte s) @ [c_quote]"

definition render_array :: "bool \<Rightarrow> bytes list \<Rightarrow> bytes" where
  "render_array fmt es = c_lbrack # array_body fmt es @ [c_rbrack]"

definition render_object :: "bool \<Rightarrow> nat \<Rightarrow> (bytes \<times> bytes) list \<Rightarrow> bytes" where
  "render_object fmt depth es = c_lbrace # (if fmt then [c_newline] else []) @ object_body fmt depth es @
     (if fmt then replicate (depth - 1) c_tab else []) @ [c_rbrace]"

definition render_scalar :: "'d jnode \<Rightarrow> bytes" where
  "render_scalar item =
     (if j_type item = JSON_T_NULL then butlast lit_null
      else if j_type item = JSON_T_FALSE then butlast lit_false
      else if j_type item = JSON_T_TRUE then butlast lit_true
      else if j_type item = JSON_T_NUMBER then show_int (valueint item)
      else render_string (the (valuestring item)))"

fun render :: "bool \<Rightarrow> nat \<Rightarrow> 'd json \<Rightarrow> bytes" where
  "render fmt depth (Json item cs) =
     (if j_type item = JSON_T_ARRAY then render_array fmt (map (render fmt (depth + 1)) cs)
      else if j_type item = JSON_T_OBJECT
      then render_object fmt (depth + 1)
             (map (\<lambda>c. (render_string (the (j_string (j_node c))), render fmt (depth + 1) c)) cs)
      else render_scalar item)"

fun json_uncache :: "'d json \<Rightarrow> 'd json" where
  "json_uncache (Json item cs) =
     Json (item\<lparr>print_out := None, print_fmt := 0\<rparr>) (map json_uncache cs)"

text \<open>Values whose numbers are integers that a \<^verbatim>\<open>double\<close> holds exactly, and the arithmetic on them.\<close>

definition exact_int :: "int \<Rightarrow> bool" where
  "exact_int i \<longleftrightarrow> \<bar>i\<bar> \<le> 2 ^ 53"

fun json_ints :: "'d fpu \<Rightarrow> 'd json \<Rightarrow> bool" where
  "json_ints F (Json item cs) \<longleftrightarrow>
     (j_type item = JSON_T_NUMBER \<longrightarrow>
        exact_int (valueint item) \<and> valuedouble item = fp_of_int F (valueint item)) \<and>
     (\<forall>c \<in> set cs. json_ints F c)"

definition fpu_exact :: "'d fpu \<Rightarrow> bool" where
  "fpu_exact F \<longleftrightarrow>
     (\<forall>a b. exact_int a \<and> exact_int b \<and> exact_int (a + b) \<longrightarrow>
        fp_add F (fp_of_int F a) (fp_of_int F b) = fp_of_int F (a + b)) \<and>
     (\<forall>a. exact_int a \<longrightarrow> fp_sub F (fp_of_int F a) (fp_of_int F a) = fp_of_int F 0) \<and>
     (\<forall>a b. exact_int a \<and> exact_int b \<and> exact_int (a * b) \<longrightarrow>
        fp_mul F (fp_of_int F a) (fp_of_int F b) = fp_of_int F (a * b)) \<and>
     fp_pow F (fp_of_int F 10) (fp_of_int F 0) = fp_of_int F 1 \<and>
     fp_le F (fp_abs F (fp_of_int F 0)) (fp_eps F) \<and>
     (\<forall>a. exact_int a \<longrightarrow> fp_le F (fp_of_int F a) (fp_of_int F LLONG_MAX) \<and>
        fp_le F (fp_of_int F LLONG_MIN) (fp_of_int F a) \<and> fp_to_i64 F (fp_of_int F a) = Some a)"

section \<open>The printer writes the rendering\<close>

definition mem_ok :: "json_malloc \<Rightarrow> bool" where
  "mem_ok mal \<longleftrightarrow> (\<forall>n. mal n)"

lemma mem_okD: "mem_ok mal \<Longrightarrow> mal n = True"
  by (simp add: mem_ok_def)

lemma json_strdup_ok: "mem_ok mal \<Longrightarrow> json_strdup mal s = Some s"
  by (simp add: json_strdup_def mem_ok_def)

lemma emit_ok [simp]: "length out + length bs \<le> cap \<Longrightarrow> emit cap out bs = Some (out @ bs)"
  by (simp add: emit_def)

lemma esc_chars_set: "c \<in> set esc_chars \<longleftrightarrow>
    c = c_quote \<or> c = c_bslash \<or> c = 0x08 \<or> c = 0x0c \<or> c = 0x0a \<or> c = 0x0d \<or> c = 0x09"
  by (auto simp: esc_chars_def)

lemma esc_byte_length: "length (esc_byte c) = (if c \<in> set esc_chars then 2 else if c < 32 then 6 else 1)"
proof -
  have "c > 31 \<longleftrightarrow> \<not> c < 32" for c :: u8 by (auto simp: word_less_nat_alt)
  then show ?thesis by (auto simp: esc_byte_def esc_chars_set show_x4_def)
qed

lemma esc_count_eq:
  "length (concat (map esc_byte s)) + len < 2 ^ 31 \<Longrightarrow>
     esc_count s len = Some (length (concat (map esc_byte s)) + len)"
  by (induction s len rule: esc_count.induct)
    (simp_all add: int_len_def esc_byte_length split: if_splits)

lemma foldM_emit:
  "length out + length (concat (map f s)) \<le> cap \<Longrightarrow>
     foldM (\<lambda>c out. emit cap out (f c)) s out = Some (out @ concat (map f s))"
  by (induction s arbitrary: out) auto

lemma print_string_ptr_render:
  assumes "mem_ok mal" "length (render_string s) + 1 < 2 ^ 31"
  shows "print_string_ptr mal (Some s) = Some (Some (render_string s))"
proof -
  let ?n = "length (concat (map esc_byte s))"
  have n: "?n + 3 < 2 ^ 31" using assms(2) by (simp add: render_string_def)
  then have "esc_count s 0 = Some ?n" by (subst esc_count_eq) auto
  moreover have "foldM (\<lambda>c out. emit (?n + 3) out (esc_byte c)) s [c_quote] = Some (c_quote # concat (map esc_byte s))"
    by (subst foldM_emit) auto
  ultimately show ?thesis using n
    by (simp add: mem_okD [OF assms(1)] print_string_ptr_def int_len_def render_string_def)
qed

lemma array_len_eq:
  "len + sum_list (map (\<lambda>e. length e + 3) es) < 2 ^ 31 \<Longrightarrow>
     \<exists>n. array_len fmt es len = Some n \<and> n < 2 ^ 31 \<and> len + length (array_body fmt es) \<le> n"
proof (induction es arbitrary: len)
  case (Cons e es)
  let ?l = "len + (length e + 2 + (if fmt then 1 else 0))"
  have "?l + sum_list (map (\<lambda>e. length e + 3) es) < 2 ^ 31" using Cons.prems by auto
  then obtain n where "array_len fmt es ?l = Some n" "n < 2 ^ 31" "?l + length (array_body fmt es) \<le> n"
    using Cons.IH by blast
  then show ?case using Cons.prems by (cases es) (auto simp: int_len_def)
qed simp

lemma array_body_length: "sum_list (map (\<lambda>e. length e + 3) es) \<le> length (array_body fmt es) + 2 * length es + 1"
  by (induction fmt es rule: array_body.induct) auto

lemma array_body_count: "length es \<le> length (array_body fmt es) + 1"
  by (induction fmt es rule: array_body.induct) auto

lemma compose_array_render:
  assumes "mem_ok mal" "4 * length (render_array fmt es) + 16 < 2 ^ 31"
  shows "compose_array mal fmt es = Some (Some (render_array fmt es))"
proof -
  have "5 + sum_list (map (\<lambda>e. length e + 3) es) < 2 ^ 31"
    using assms(2) array_body_length [of es fmt] array_body_count [of es fmt]
    by (simp add: render_array_def)
  then obtain n where "array_len fmt es 5 = Some n" "n < 2 ^ 31" "5 + length (array_body fmt es) \<le> n"
    using array_len_eq by blast
  then show ?thesis by (simp add: mem_okD [OF assms(1)] compose_array_def render_array_def)
qed

lemma object_len_eq:
  "len + sum_list (map (\<lambda>(s, e). length e + length s + (4 + (if fmt then depth else 0))) es) < 2 ^ 31 \<Longrightarrow>
     \<exists>n. object_len fmt depth es len = Some n \<and> n < 2 ^ 31 \<and> len + length (object_body fmt depth es) \<le> n"
proof (induction es arbitrary: len)
  case (Cons e es)
  obtain s r where e: "e = (s, r)" by force
  let ?l = "len + (length r + length s + 2 + (if fmt then 2 + depth else 0))"
  have "?l + sum_list (map (\<lambda>(s, e). length e + length s + (4 + (if fmt then depth else 0))) es) < 2 ^ 31"
    using Cons.prems e by auto
  then obtain n where "object_len fmt depth es ?l = Some n" "n < 2 ^ 31"
      "?l + length (object_body fmt depth es) \<le> n"
    using Cons.IH by blast
  then show ?case using Cons.prems e by (auto simp: int_len_def)
qed simp

lemma object_body_length:
  "sum_list (map (\<lambda>(s, e). length e + length s + (4 + (if fmt then depth else 0))) es)
     \<le> 4 * length (object_body fmt depth es)"
  by (induction es) auto

lemma compose_object_render:
  assumes "mem_ok mal" "4 * length (render_object fmt depth es) + 16 < 2 ^ 31"
  shows "compose_object mal fmt depth es = Some (Some (render_object fmt depth es))"
proof -
  let ?l = "7 + (if fmt then depth else 0)"
  have l: "?l + sum_list (map (\<lambda>(s, e). length e + length s + (4 + (if fmt then depth else 0))) es) < 2 ^ 31"
    using assms(2) object_body_length [of fmt depth es] by (auto simp: render_object_def split: if_splits)
  then obtain n where "object_len fmt depth es ?l = Some n" "n < 2 ^ 31"
      "?l + length (object_body fmt depth es) \<le> n"
    using object_len_eq by blast
  then show ?thesis using l
    by (auto simp: mem_okD [OF assms(1)] compose_object_def render_object_def int_len_def)
qed

text \<open>The parts of a rendering are no longer than the whole.\<close>

lemma array_body_part: "e \<in> set es \<Longrightarrow> length e \<le> length (array_body fmt es)"
  by (induction fmt es rule: array_body.induct) auto

lemma object_body_part:
  "(s, e) \<in> set es \<Longrightarrow> length s + length e \<le> length (object_body fmt depth es)"
  by (induction es) force+

lemma render_array_part: "e \<in> set es \<Longrightarrow> length e \<le> length (render_array fmt es)"
  using array_body_part [of e es fmt] by (simp add: render_array_def)

lemma render_object_part:
  "(s, e) \<in> set es \<Longrightarrow> length s + length e \<le> length (render_object fmt depth es)"
  using object_body_part [of s e es fmt depth] by (simp add: render_object_def)

lemma int_shown:
  assumes "fpu_exact F" "exact_int (valueint item)" "valuedouble item = fp_of_int F (valueint item)"
  shows "json_is_int F item"
  using assms by (simp add: json_is_int_def fpu_exact_def)

lemma show_int_length: "exact_int i \<Longrightarrow> length (show_int i) \<le> 20"
proof -
  assume "exact_int i"
  then have "nat \<bar>i\<bar> < 10 ^ 19" by (simp add: exact_int_def nat_less_iff)
  then have "length (num_digits 10 (nat \<bar>i\<bar>)) \<le> 19" by (intro num_digits_length) auto
  then show ?thesis by (auto simp: show_int_def show_nat_def)
qed

lemma print_number_render:
  assumes "fpu_exact F" "mem_ok mal" "exact_int (valueint item)"
    "valuedouble item = fp_of_int F (valueint item)"
  shows "print_number mal F item = Some (Some (show_int (valueint item)))"
  using assms int_shown [OF assms(1,3,4)] show_int_length [OF assms(3)]
  by (simp add: mem_okD [OF assms(2)] print_number_def)

lemma print_scalar_render:
  assumes "fpu_exact F" "mem_ok mal" "fields_typed F item" "json_ints F (Json item cs)"
    "j_type item \<noteq> JSON_T_ARRAY" "j_type item \<noteq> JSON_T_OBJECT"
    "length (render_scalar item) + 1 < 2 ^ 31"
  shows "print_scalar mal F item = Some (Some (render_scalar item))"
proof -
  have t: "j_type item mod 256 = j_type item" using assms(3) by (simp add: fields_typed_def)
  consider "j_type item = JSON_T_NUMBER" | "j_type item = JSON_T_STRING" | "j_type item \<le> JSON_T_NULL"
    using assms(3,5,6) by (fastforce simp: fields_typed_def)
  then show ?thesis
  proof cases
    case 1
    then show ?thesis using assms print_number_render [OF assms(1,2)]
      by (simp add: print_scalar_def render_scalar_def)
  next
    case 2
    then show ?thesis using assms(2,3,7) print_string_ptr_render
      by (auto simp: print_scalar_def print_string_def render_scalar_def fields_typed_def)
  next
    case 3
    then consider "j_type item = JSON_T_NULL" | "j_type item = JSON_T_FALSE" | "j_type item = JSON_T_TRUE"
      using assms(3) by (fastforce simp: fields_typed_def)
    then show ?thesis
      by cases (simp_all add: print_scalar_def render_scalar_def json_strdup_ok [OF assms(2)] lit_null_def
          lit_false_def lit_true_def)
  qed
qed

lemma uncache_typed: "json_typed F v \<Longrightarrow> json_uncache v = v"
proof (induction v)
  case (Json item cs)
  then have "map json_uncache cs = cs" by (intro map_idI) auto
  then show ?case using Json.prems by (simp add: fields_typed_def)
qed

abbreviation member_texts :: "bool \<Rightarrow> nat \<Rightarrow> 'd json list \<Rightarrow> (bytes \<times> bytes) list" where
  "member_texts fmt depth \<equiv>
     map (\<lambda>c. (render_string (the (j_string (j_node c))), render fmt depth c))"

lemma member_text_in:
  "c \<in> set cs \<Longrightarrow> (render_string (the (j_string (j_node c))), render fmt depth c) \<in> set (member_texts fmt depth cs)"
  by auto

definition printable :: "'d fpu \<Rightarrow> bool \<Rightarrow> nat \<Rightarrow> 'd json \<Rightarrow> bool" where
  "printable F fmt depth v \<longleftrightarrow>
     json_typed F v \<and> json_ints F v \<and> 4 * length (render fmt depth v) + 16 < 2 ^ 31"

lemma printable_child:
  assumes "printable F fmt depth (Json item cs)" "c \<in> set cs"
  shows "printable F fmt (depth + 1) c"
proof -
  have "length (render fmt (depth + 1) c) \<le> length (render fmt depth (Json item cs))"
  proof (cases "j_type item = JSON_T_ARRAY")
    case True
    then show ?thesis using assms(2) by (simp add: render_array_part)
  next
    case False
    then have "j_type item = JSON_T_OBJECT" using assms by (auto simp: printable_def)
    then show ?thesis
      using render_object_part [OF member_text_in [OF assms(2)], of fmt "depth + 1" fmt "depth + 1"] by auto
  qed
  then show ?thesis using assms by (auto simp: printable_def)
qed

definition prints :: "json_malloc \<Rightarrow> 'd fpu \<Rightarrow> int \<Rightarrow> nat \<Rightarrow> 'd json \<Rightarrow> bool" where
  "prints mal F fmt depth v \<longleftrightarrow>
     (\<exists>v'. print_value mal F v depth fmt = Some (Some (render (fmt \<noteq> 0) depth v), v') \<and> json_uncache v' = v)"

lemma print_entries_render:
  assumes "\<forall>c \<in> set cs. prints mal F fmt depth c"
  shows "\<exists>cs'. print_entries mal F cs depth fmt = Some (Some (map (render (fmt \<noteq> 0) depth) cs), cs') \<and>
    map json_uncache cs' = cs"
  using assms
proof (induction cs)
  case (Cons c cs)
  then obtain cs' where cs': "print_entries mal F cs depth fmt = Some (Some (map (render (fmt \<noteq> 0) depth) cs), cs')"
    "map json_uncache cs' = cs" by auto
  obtain c' where c': "print_value mal F c depth fmt = Some (Some (render (fmt \<noteq> 0) depth c), c')"
    "json_uncache c' = c" using Cons.prems by (auto simp: prints_def)
  show ?case using cs' c' by (intro exI [of _ "c' # cs'"]) simp
qed simp

lemma print_members_render:
  assumes "mem_ok mal"
    "\<forall>c \<in> set cs. prints mal F fmt depth c \<and> (\<exists>n. j_string (j_node c) = Some n \<and>
        length (render_string n) + 1 < 2 ^ 31)"
  shows "\<exists>cs'. print_members mal F cs depth fmt = Some (Some (member_texts (fmt \<noteq> 0) depth cs), cs') \<and>
    map json_uncache cs' = cs"
  using assms(2)
proof (induction cs)
  case (Cons c cs)
  then obtain cs' where cs': "print_members mal F cs depth fmt = Some (Some (member_texts (fmt \<noteq> 0) depth cs), cs')"
    "map json_uncache cs' = cs" by auto
  obtain c' n where c': "print_value mal F c depth fmt = Some (Some (render (fmt \<noteq> 0) depth c), c')"
    "json_uncache c' = c" "j_string (j_node c) = Some n" "length (render_string n) + 1 < 2 ^ 31"
    using Cons.prems by (auto simp: prints_def)
  show ?case using cs' c' print_string_ptr_render [OF assms(1) c'(4)]
    by (intro exI [of _ "c' # cs'"]) simp
qed simp

lemma printable_names:
  assumes "printable F fmt depth (Json item cs)" "j_type item = JSON_T_OBJECT" "c \<in> set cs"
  shows "\<exists>n. j_string (j_node c) = Some n \<and> length (render_string n) + 1 < 2 ^ 31"
proof -
  obtain n where n: "j_string (j_node c) = Some n" using assms by (auto simp: printable_def member_named_def)
  from render_object_part [OF member_text_in [OF assms(3)], of fmt "depth + 1" fmt "depth + 1"] show ?thesis
    using n assms(1,2) by (simp add: printable_def)
qed

lemma print_renders:
  assumes "fpu_exact F" "mem_ok mal"
  shows "printable F (fmt \<noteq> 0) depth v \<Longrightarrow> prints mal F fmt depth v"
proof (induction v arbitrary: depth)
  case (Json item cs)
  let ?f = "fmt \<noteq> 0"
  have ty: "json_typed F (Json item cs)" and ints: "json_ints F (Json item cs)"
    and len: "4 * length (render ?f depth (Json item cs)) + 16 < 2 ^ 31"
    using Json.prems by (auto simp: printable_def)
  have t: "j_type item mod 256 = j_type item" using ty by (auto simp: fields_typed_def)
  have out: "print_out item = None" "item\<lparr>print_out := None, print_fmt := 0\<rparr> = item"
    using ty by (auto simp: fields_typed_def)
  have ch: "\<forall>c \<in> set cs. prints mal F fmt (depth + 1) c"
    using Json.IH printable_child [OF Json.prems] by blast
  consider "j_type item = JSON_T_ARRAY" | "j_type item = JSON_T_OBJECT"
    | "j_type item \<noteq> JSON_T_ARRAY" "j_type item \<noteq> JSON_T_OBJECT" by blast
  then show ?case
  proof cases
    case 1
    obtain cs' where "print_entries mal F cs (depth + 1) fmt = Some (Some (map (render ?f (depth + 1)) cs), cs')"
      "map json_uncache cs' = cs" using print_entries_render [OF ch] by blast
    then show ?thesis using 1 t out len compose_array_render [OF assms(2)]
      by (simp add: prints_def mem_okD [OF assms(2), of "length cs * 8"] compose_def cache_out_def)
  next
    case 2
    obtain cs' where "print_members mal F cs (depth + 1) fmt = Some (Some (member_texts ?f (depth + 1) cs), cs')"
      "map json_uncache cs' = cs"
      using print_members_render [OF assms(2), of cs F fmt "depth + 1"] ch printable_names [OF Json.prems 2] by blast
    then show ?thesis using 2 t out len compose_object_render [OF assms(2)]
      by (simp add: prints_def mem_okD [OF assms(2), of "length cs * 8"] compose_def cache_out_def)
  next
    case 3
    then have "cs = []" "length (render_scalar item) + 1 < 2 ^ 31" using ty len by auto
    then show ?thesis
      using 3 t out print_scalar_render [OF assms _ ints 3] ty by (simp add: prints_def cache_out_def)
  qed
qed

section \<open>Strings are read back\<close>

lemma hex_digit_char:
  assumes "d < 16"
  shows "isxdigit (digit_char d) \<and> digit_value (digit_char d) = Some (int d) \<and>
    digit_char d \<noteq> 0x78 \<and> digit_char d \<noteq> 0x58 \<and>
    digit_char d \<noteq> c_quote \<and> digit_char d \<noteq> 0 \<and> digit_char d \<noteq> c_bslash"
proof -
  have "d = 0 \<or> d = 1 \<or> d = 2 \<or> d = 3 \<or> d = 4 \<or> d = 5 \<or> d = 6 \<or> d = 7 \<or>
    d = 8 \<or> d = 9 \<or> d = 10 \<or> d = 11 \<or> d = 12 \<or> d = 13 \<or> d = 14 \<or> d = 15"
    using assms by presburger
  then show ?thesis by (elim disjE) (simp_all add: digit_char_def isxdigit_def isdigit_def digit_value_def)
qed

lemma hex_run_Suc: "hex_run (Suc w) (c # s) = (if isxdigit c then map_option (Cons c) (hex_run w s) else Some [])"
  by (simp add: map_option_case split: option.split)

lemma hex_run_numeral:
  "hex_run (numeral k) (c # s) =
     (if isxdigit c then map_option (Cons c) (hex_run (pred_numeral k) s) else Some [])"
  by (simp only: numeral_eq_Suc hex_run_Suc)

lemma ucast_u8_u32: "ucast (ucast c :: u32) = (c :: u8)"
  by (rule bit_word_eqI) (simp add: bit_simps)

lemma scan_4x_show:
  "scan_4x (show_x4 c @ r) = Some (Some (word_of_int (uint c)))"
proof -
  let ?h = "digit_char (unat c div 16)" and ?l = "digit_char (unat c mod 16)"
  have d: "unat c div 16 < 16" "unat c mod 16 < 16"
    using unsigned_less [of c, where 'a = nat] by auto
  have z: "\<not> isspace c_0" "isxdigit c_0" "digit_value c_0 = Some 0"
    by (simp_all add: isspace_def isxdigit_def isdigit_def digit_value_def)
  have "int (unat c div 16 * 16 + unat c mod 16) = int (unat c)" by simp
  then have v: "int (unat c div 16) * 16 + int (unat c mod 16) = uint c"
    by (simp only: of_nat_add of_nat_mult of_nat_numeral of_nat_unat)
  have "hex_run 4 (show_x4 c @ r) = Some (show_x4 c)"
    using z hex_digit_char [OF d(1)] hex_digit_char [OF d(2)]
    by (simp add: show_x4_def hex_run_numeral hex_run_Suc)
  moreover have "hex_value (show_x4 c) = uint c"
    using z hex_digit_char [OF d(1)] hex_digit_char [OF d(2)] v by (simp add: hex_value_def show_x4_def)
  moreover have "json_skip (show_x4 c @ r) = Some (show_x4 c @ r)" using z by (simp add: show_x4_def)
  moreover obtain t where "show_x4 c @ r = c_0 # c_0 # t" by (simp add: show_x4_def)
  moreover have "show_x4 c \<noteq> []" by (simp add: show_x4_def)
  ultimately show ?thesis by (simp add: scan_4x_def)
qed

lemma json_unicode_show:
  assumes "c \<noteq> 0" "c < 32"
  shows "\<exists>uc'. json_unicode (0x75 # show_x4 c @ r) uc uc2 =
    Some ([c], digit_char (unat c mod 16) # r, uc', uc2)"
proof -
  let ?u = "word_of_int (uint c) :: u32"
  have u: "?u = ucast c" by (rule word_uint_eqI) simp
  have n: "unat ?u = unat c" unfolding u by (simp add: unsigned_ucast_eq take_bit_nat_eq_self order_less_le_trans [OF unsigned_less])
  have c: "0 < unat c" "unat c < 32" using assms by (simp_all add: word_less_nat_alt unat_gt_0)
  have "utf8_encode ?u = ([c], ?u)"
    using c n by (simp add: utf8_encode_def utf8_len_def word_less_nat_alt firstByteMark_def u ucast_u8_u32)
  then show ?thesis
    using c n by (simp add: json_unicode_def scan_4x_show word_le_nat_alt word_less_nat_alt Let_def)
      (simp add: show_x4_def word_unat_eq_iff)
qed

lemma unescape_esc:
  "c \<in> set esc_chars \<Longrightarrow> \<exists>e. esc_byte c = [c_bslash, e] \<and> e \<noteq> 0x75 \<and> unescape e = c"
  by (auto simp: esc_chars_set esc_byte_def unescape_def)

lemma esc_byte_cases [consumes 1, case_names esc uni plain]:
  assumes "c \<noteq> 0"
  obtains e where "esc_byte c = [c_bslash, e]" "e \<noteq> 0x75" "unescape e = c"
  | "esc_byte c = c_bslash # 0x75 # show_x4 c" "c < 32"
  | "esc_byte c = [c]" "c \<noteq> c_quote" "c \<noteq> c_bslash"
proof (cases "c \<in> set esc_chars")
  case True
  then show ?thesis using unescape_esc that(1) by blast
next
  case False
  then show ?thesis
  proof (cases "c < 32")
    case True
    then have "\<not> c > 31" by (auto simp: word_less_nat_alt)
    then show ?thesis using False True by (intro that(2)) (simp_all add: esc_byte_def esc_chars_set)
  next
    case False
    then have "c > 31" by (auto simp: word_less_nat_alt)
    then show ?thesis using \<open>c \<notin> set esc_chars\<close> by (intro that(3)) (simp_all add: esc_byte_def esc_chars_set)
  qed
qed

lemma str_copy_read:
  assumes "is_cstr s" "length out + length s \<le> cap"
  shows "str_copy cap (concat (map esc_byte s) @ c_quote # r) out uc uc2 = Some (out @ s, c_quote # r)"
  using assms
proof (induction s arbitrary: out uc uc2)
  case (Cons c s)
  have c: "c \<noteq> 0" and s: "is_cstr s" using Cons.prems(1) by (auto simp: is_cstr_def)
  have IH: "str_copy cap (concat (map esc_byte s) @ c_quote # r) (out @ [c]) uc uc2 =
      Some (out @ c # s, c_quote # r)" for uc uc2
    using Cons.IH [OF s, of "out @ [c]"] Cons.prems(2) by simp
  from c show ?case
  proof (cases rule: esc_byte_cases)
    case (esc e)
    then show ?thesis using Cons.prems(2) IH by simp
  next
    case uni
    obtain uc' where "json_unicode (0x75 # show_x4 c @ concat (map esc_byte s) @ c_quote # r) uc uc2 =
        Some ([c], digit_char (unat c mod 16) # concat (map esc_byte s) @ c_quote # r, uc', uc2)"
      using json_unicode_show [OF c uni(2)] by blast
    then show ?thesis using uni Cons.prems(2) IH by simp
  next
    case plain
    then show ?thesis using Cons.prems(2) IH c by simp
  qed
qed simp

lemma str_scan_plain:
  "x \<noteq> c_quote \<Longrightarrow> x \<noteq> 0 \<Longrightarrow> x \<noteq> c_bslash \<Longrightarrow> len + 1 < 2 ^ 31 \<Longrightarrow>
     str_scan (x # p) len = str_scan p (len + 1)"
  by (simp add: int_len_def)

lemma str_scan_escape: "len + 1 < 2 ^ 31 \<Longrightarrow> str_scan (c_bslash # e # p) len = str_scan p (len + 1)"
  by (simp add: int_len_def)

lemma str_scan_read:
  "is_cstr s \<Longrightarrow> len + length (concat (map esc_byte s)) < 2 ^ 31 \<Longrightarrow>
     \<exists>n. str_scan (concat (map esc_byte s) @ c_quote # r) len = Some n \<and> len + length s \<le> n"
proof (induction s arbitrary: len)
  case (Cons c s)
  have c: "c \<noteq> 0" and s: "is_cstr s" using Cons.prems(1) by (auto simp: is_cstr_def)
  from c show ?case
  proof (cases rule: esc_byte_cases)
    case (esc e)
    then show ?thesis using Cons.IH [OF s, of "len + 1"] Cons.prems(2) by (auto simp: int_len_def)
  next
    case uni
    let ?len = "Suc (Suc (Suc (Suc (Suc len))))"
    obtain n where "str_scan (concat (map esc_byte s) @ c_quote # r) ?len = Some n" "?len + length s \<le> n"
      using Cons.IH [OF s, of "?len"] Cons.prems(2) uni(1) by (auto simp: show_x4_def)
    moreover have "unat c div 16 < 16" "unat c mod 16 < 16"
      using less_mult_imp_div_less [of "unat c" 16 16] unsigned_less [of c, where 'a = nat] by auto
    note this [THEN hex_digit_char]
    ultimately show ?thesis using uni Cons.prems(2)
      by (simp add: show_x4_def str_scan_plain str_scan_escape int_len_def)
  next
    case plain
    then show ?thesis using Cons.IH [OF s, of "len + 1"] Cons.prems(2) c by (auto simp: int_len_def)
  qed
qed simp

lemma parse_string_read:
  assumes "mem_ok mal" "is_cstr s" "length (render_string s) < 2 ^ 31"
  shows "parse_string mal item (render_string s @ r) =
    Some (Some (item\<lparr>valuestring := Some s, j_type := JSON_T_STRING\<rparr>), r)"
proof -
  obtain n where n: "str_scan (concat (map esc_byte s) @ c_quote # r) 0 = Some n" "length s \<le> n"
    using str_scan_read [OF assms(2), of 0 r] assms(3) by (auto simp: render_string_def)
  then have "str_copy (n + 1) (concat (map esc_byte s) @ c_quote # r) [] None None = Some (s, c_quote # r)"
    using str_copy_read [OF assms(2), of "[]" "n + 1"] by simp
  moreover have "cstring (s @ [0]) = s" using assms(2) by (simp add: cstring_def is_cstr_def takeWhile_nonzero)
  ultimately show ?thesis using n
    by (simp add: parse_string_def render_string_def mem_okD [OF assms(1)])
qed

section \<open>Numbers are read back\<close>

definition num_ends :: "bytes \<Rightarrow> bool" where
  "num_ends r \<longleftrightarrow> (\<exists>c t. r = c # t \<and> \<not> isdigit c \<and> c \<noteq> c_dot \<and> c \<noteq> 0x65 \<and> c \<noteq> 0x45)"

lemma fpu_exact_digit:
  assumes "fpu_exact F" "0 \<le> a" "0 \<le> d" "a * 10 + d \<le> 2 ^ 53"
  shows "fp_add F (fp_mul F (fp_of_int F a) (fp_of_int F 10)) (fp_of_int F d) = fp_of_int F (a * 10 + d)"
proof -
  have "exact_int a" "exact_int 10" "exact_int d" "exact_int (a * 10)" "exact_int (a * 10 + d)"
    using assms(2-4) by (auto simp: exact_int_def)
  then show ?thesis using assms(1) by (simp add: fpu_exact_def)
qed

lemma num_int_read:
  assumes "fpu_exact F" "num_ends r" "\<forall>d \<in> set ds. d < 10"
    "foldl (\<lambda>a d. a * 10 + d) a ds \<le> 2 ^ 53"
  shows "num_int F (map digit_char ds @ r) (fp_of_int F (int a)) (int a) =
    Some (fp_of_int F (int (foldl (\<lambda>a d. a * 10 + d) a ds)), int (foldl (\<lambda>a d. a * 10 + d) a ds), r)"
  using assms(3,4)
proof (induction ds arbitrary: a)
  case Nil
  then show ?case using assms(2) by (auto simp: num_ends_def)
next
  case (Cons d ds)
  have ge: "a \<le> foldl (\<lambda>a d. a * 10 + d) a ds" for a :: nat and ds
  proof (induction ds arbitrary: a)
    case (Cons d ds)
    show ?case using Cons [of "a * 10 + d"] by simp
  qed simp
  have "a * 10 + d \<le> 2 ^ 53" using ge [of "a * 10 + d" ds] Cons.prems(2) by simp
  then have le: "int a * 10 + int d \<le> 2 ^ 53" by (simp add: zle_int flip: of_nat_mult of_nat_add)
  have d: "isdigit (digit_char d)" "uint (digit_char d) = 0x30 + int d"
    using digit_char_digit Cons.prems(1) by auto
  show ?case
    using Cons.IH [of "a * 10 + d"] Cons.prems d fpu_exact_digit [OF assms(1) _ _ le] le
    by (simp add: Let_def)
qed

lemma show_nat_hd:
  assumes "0 < n"
  shows "\<exists>c t. show_nat n = c # t \<and> 0x31 \<le> c \<and> c \<le> c_9"
proof -
  obtain d ds where ds: "num_digits 10 n = d # ds" by (cases "num_digits 10 n") auto
  have "0 < d" "d < 10"
    using num_digits_hd [of 10 n] num_digits_less [of 10 d n] assms ds by auto
  then show ?thesis
    using ds by (simp add: show_nat_def word_le_nat_alt unat_digit_char)
qed

lemma num_digit_part_read:
  assumes "fpu_exact F" "num_ends r" "0 < n" "n \<le> 2 ^ 53"
  shows "num_digit_part F (show_nat n @ r) = Some (fp_of_int F (int n), int n, r)"
proof -
  obtain c t where c: "show_nat n = c # t" "0x31 \<le> c" "c \<le> c_9" using show_nat_hd [OF assms(3)] by blast
  have "num_int F (show_nat n @ r) (fp_of_int F 0) 0 = Some (fp_of_int F (int n), int n, r)"
    using num_int_read [OF assms(1,2), of "num_digits 10 n" 0] num_digits_less [of 10] num_digits_value [of 10 n] assms(4)
    by (simp add: show_nat_def)
  then show ?thesis using c by (simp add: num_digit_part_def)
qed

lemma num_sign_read:
  assumes "i \<noteq> 0"
  shows "num_sign F (show_int i @ r) = Some (fp_of_int F (sgn i), show_nat (nat \<bar>i\<bar>) @ r)"
proof -
  obtain c t where c: "show_nat (nat \<bar>i\<bar>) = c # t" "0x31 \<le> c" "c \<le> c_9"
    using show_nat_hd [of "nat \<bar>i\<bar>"] assms by auto
  then have "c \<noteq> c_minus" "c \<noteq> c_0" by (auto simp: word_le_nat_alt)
  then show ?thesis using c assms by (cases "i < 0") (simp_all add: num_sign_def show_int_def)
qed

lemma num_tail_read:
  assumes "num_ends r"
  shows "num_fraction F r n n64 = Some (n, n64, fp_of_int F 0, r)" "num_exponent r n64 = Some (n64, 0, 1, r)"
  using assms by (auto simp: num_ends_def num_fraction_def num_exponent_def)

lemma num_finish_read:
  assumes "fpu_exact F" "exact_int s" "exact_int n" "exact_int (s * n)" "n = 0 \<longrightarrow> s = 1"
  shows "num_finish F item (fp_of_int F s) (fp_of_int F n) n (fp_of_int F 0) 0 1 =
    Some (item\<lparr>valueint := s * n, valuedouble := fp_of_int F (s * n), j_type := JSON_T_NUMBER\<rparr>)"
proof -
  have "exact_int 0" "exact_int 1" by (auto simp: exact_int_def)
  then have "fp_add F (fp_of_int F 0) (fp_of_int F 0) = fp_of_int F 0"
    "fp_mul F (fp_of_int F (s * n)) (fp_of_int F 1) = fp_of_int F (s * n)"
    "fp_mul F (fp_of_int F s) (fp_of_int F n) = fp_of_int F (s * n)"
    using assms by (simp_all add: fpu_exact_def)
  then show ?thesis using assms by (auto simp: num_finish_def fpu_exact_def Let_def)
qed

lemma parse_number_read:
  assumes "fpu_exact F" "num_ends r" "exact_int i"
  shows "parse_number F item (show_int i @ r) =
    Some (item\<lparr>valueint := i, valuedouble := fp_of_int F i, j_type := JSON_T_NUMBER\<rparr>, r)"
proof (cases "i = 0")
  case True
  obtain c t where r: "r = c # t" "\<not> isdigit c" using assms(2) by (auto simp: num_ends_def)
  then have c: "\<not> (0x31 \<le> c \<and> c \<le> c_9)" by (auto simp: isdigit_def word_le_nat_alt)
  have "show_int i = [c_0]" using True by (simp add: show_int_def show_nat_def num_digits.simps digit_char_def)
  then have "num_sign F (show_int i @ r) = Some (fp_of_int F 1, r)" by (simp add: num_sign_def)
  moreover have "num_digit_part F r = Some (fp_of_int F 0, 0, r)" using c r by (simp add: num_digit_part_def)
  moreover have "exact_int 1" "exact_int 0" by (auto simp: exact_int_def)
  ultimately show ?thesis
    using True num_finish_read [OF assms(1), of 1 0] num_tail_read(1) [OF assms(2), of F] num_tail_read(2) [OF assms(2)] by (simp add: parse_number_def)
next
  case False
  have n: "0 < nat \<bar>i\<bar>" "nat \<bar>i\<bar> \<le> 2 ^ 53" using False assms(3) by (auto simp: exact_int_def nat_le_iff)
  have e: "exact_int (sgn i)" "exact_int \<bar>i\<bar>" "sgn i * \<bar>i\<bar> = i"
    using assms(3) by (auto simp: exact_int_def sgn_if)
  show ?thesis
    using num_sign_read [OF False, of F r] num_digit_part_read [OF assms(1,2) n] num_tail_read(1) [OF assms(2), of F] num_tail_read(2) [OF assms(2)]
      num_finish_read [OF assms(1) e(1,2)] e(3) assms(3) False
    by (simp add: parse_number_def)
qed

section \<open>Values are read back\<close>

text \<open>What may follow a value, and what it starts with.\<close>

definition value_ends :: "'d json \<Rightarrow> bytes \<Rightarrow> bool" where
  "value_ends v r \<longleftrightarrow> (j_type (j_node v) = JSON_T_NUMBER \<longrightarrow> num_ends r) \<and>
     (j_type (j_node v) \<le> JSON_T_NULL \<longrightarrow> (\<exists>c t. r = c # t \<and> c \<noteq> 0))"

lemma value_ends_sep:
  "c \<in> {c_comma, c_rbrack, c_rbrace, c_newline} \<Longrightarrow> value_ends v (c # t)"
  by (auto simp: value_ends_def num_ends_def isdigit_def word_le_nat_alt)

definition value_starts :: "bytes \<Rightarrow> bool" where
  "value_starts s \<longleftrightarrow> (\<exists>c t. s = c # t \<and> \<not> isspace c \<and> c \<noteq> c_rbrack \<and> c \<noteq> c_rbrace)"

lemma value_starts_append [simp]: "value_starts s \<Longrightarrow> value_starts (s @ t)"
  by (auto simp: value_starts_def)

lemma show_int_hd:
  "\<exists>c t. show_int i = c # t \<and> (c = c_minus \<or> isdigit c)"
proof (cases "i < 0")
  case False
  obtain c t where "show_nat (nat i) = c # t" by (cases "show_nat (nat i)") auto
  then show ?thesis using False show_nat_digits [of c "nat i"] by (simp add: show_int_def)
qed (simp add: show_int_def)

lemma render_starts:
  assumes "json_typed F v"
  shows "value_starts (render fmt depth v)"
proof -
  obtain item cs where v: "v = Json item cs" by (cases v)
  obtain c t where n: "show_int (valueint item) = c # t" "c = c_minus \<or> isdigit c" using show_int_hd by blast
  have "\<not> isspace c \<and> c \<noteq> c_rbrack \<and> c \<noteq> c_rbrace"
    using n(2) by (auto simp: isspace_def isdigit_def word_le_nat_alt)
  then show ?thesis
    using n(1) assms v
    by (auto simp: value_starts_def render_scalar_def render_string_def render_array_def render_object_def
        lit_null_def lit_false_def lit_true_def isspace_def)
qed

lemma json_skip_spaces:
  "\<forall>c \<in> set ws. isspace c \<Longrightarrow> \<not> isspace c \<Longrightarrow> json_skip (ws @ c # t) = Some (c # t)"
  by (induction ws) auto

lemma json_skip_starts:
  "\<forall>c \<in> set ws. isspace c \<Longrightarrow> value_starts s \<Longrightarrow> json_skip (ws @ s) = Some s"
  by (auto simp: value_starts_def json_skip_spaces)

lemma isspace_chars [simp]:
  "isspace c_space" "isspace c_tab" "isspace c_newline" "\<not> isspace c_comma" "\<not> isspace c_rbrack"
  "\<not> isspace c_rbrace" "\<not> isspace c_quote" "\<not> isspace c_colon" "\<not> isspace c_lbrack" "\<not> isspace c_lbrace"
  by (simp_all add: isspace_def)

lemma stream_cmp_lit:
  "0 \<notin> set l \<Longrightarrow> c \<noteq> 0 \<Longrightarrow> stream_cmp (l @ c # t) (l @ [0]) = Some (True, c # t)"
  by (induction l) auto

lemma parse_value_dispatch:
  assumes "c \<noteq> 0x6e" "c \<noteq> 0x66" "c \<noteq> 0x74"
  shows "parse_value mal F call item (c # s) =
    (if c = c_quote
     then do { (r, value) \<leftarrow> parse_string mal item (c # s);
               Some (map_option (\<lambda>item. Json item []) r, value) }
     else if c = c_minus \<or> isdigit c
     then do { (item, value) \<leftarrow> parse_number F item (c # s); Some (Some (Json item []), value) }
     else if c = c_lbrack then call (Call_array item) (c # s)
     else if c = c_lbrace then call (Call_object item) (c # s)
     else Some (None, c # s))"
  using assms by (simp add: parse_value_def lit_null_def lit_false_def lit_true_def)

lemma parse_value_literal:
  assumes "c \<noteq> 0"
  shows "parse_value mal F call item (butlast lit_null @ c # t) =
      Some (Some (Json (item\<lparr>j_type := JSON_T_NULL\<rparr>) []), c # t)"
    "parse_value mal F call item (butlast lit_false @ c # t) =
      Some (Some (Json (item\<lparr>j_type := JSON_T_FALSE\<rparr>) []), c # t)"
    "parse_value mal F call item (butlast lit_true @ c # t) =
      Some (Some (Json (item\<lparr>j_type := JSON_T_TRUE, valueint := 1\<rparr>) []), c # t)"
  using assms by (simp_all add: parse_value_def lit_null_def lit_false_def lit_true_def)

text \<open>A value that the parser reads back, from any item that is fresh and has its name.\<close>

definition reads :: "json_malloc \<Rightarrow> 'd fpu \<Rightarrow> bool \<Rightarrow> nat \<Rightarrow> 'd json \<Rightarrow> bool" where
  "reads mal F fmt depth v \<longleftrightarrow>
     (\<forall>item r k. item_fresh F item \<longrightarrow> j_string item = j_string (j_node v) \<longrightarrow> value_ends v r \<longrightarrow>
        2 * length (render fmt depth v @ r) + 2 \<le> k \<longrightarrow>
        parse_call mal F k (Call_value item) (render fmt depth v @ r) = Some (Some v, r))"

lemma readsD:
  "reads mal F fmt depth v \<Longrightarrow> item_fresh F item \<Longrightarrow> j_string item = j_string (j_node v) \<Longrightarrow>
   value_ends v r \<Longrightarrow> 2 * length (render fmt depth v @ r) + 2 \<le> k \<Longrightarrow>
   parse_call mal F k (Call_value item) (render fmt depth v @ r) = Some (Some v, r)"
  unfolding reads_def by blast

lemma json_zero_fresh [simp]: "item_fresh F (json_zero F)" "j_string (json_zero F) = None"
  by (simp_all add: item_fresh_def json_zero_def)

lemma new_item_ok: "mem_ok mal \<Longrightarrow> json_new_item mal F = Some (json_zero F)"
  by (simp add: json_new_item_def mem_ok_def)

text \<open>Scalars.\<close>

lemma fields_eqI:
  "item_fresh F item \<Longrightarrow> fields_typed F n \<Longrightarrow> j_string item = j_string n \<Longrightarrow>
     (j_type n \<noteq> JSON_T_NUMBER \<longrightarrow>
        item\<lparr>j_type := j_type n, valueint := valueint n, valuestring := valuestring n\<rparr> = n) \<and>
     item\<lparr>valueint := valueint n, valuedouble := valuedouble n, j_type := j_type n, valuestring := valuestring n\<rparr> = n"
  by (cases item; cases n) (auto simp: item_fresh_def fields_typed_def)

lemma render_scalar_read:
  assumes F: "fpu_exact F" and mal: "mem_ok mal" and ty: "fields_typed F n" and ints: "json_ints F (Json n [])"
    and sc: "j_type n \<noteq> JSON_T_ARRAY" "j_type n \<noteq> JSON_T_OBJECT"
    and len: "length (render_scalar n) < 2 ^ 31"
    and fresh: "item_fresh F item" "j_string item = j_string n" and ends: "value_ends (Json n []) r"
  shows "parse_value mal F call item (render_scalar n @ r) = Some (Some (Json n []), r)"
proof -
  note eq = fields_eqI [OF fresh(1) ty fresh(2)]
  consider "j_type n = JSON_T_NUMBER" | "j_type n = JSON_T_STRING" | "j_type n \<le> JSON_T_NULL"
    using ty sc by (fastforce simp: fields_typed_def)
  then show ?thesis
  proof cases
    case 1
    obtain c t where c: "show_int (valueint n) = c # t" "c = c_minus \<or> isdigit c" using show_int_hd by blast
    have "valuestring n = None" "valuestring item = None" "exact_int (valueint n)"
      "valuedouble n = fp_of_int F (valueint n)" "num_ends r"
      using ty fresh(1) 1 ints ends by (simp_all add: fields_typed_def item_fresh_def value_ends_def)
    moreover have "item\<lparr>valueint := valueint n, valuedouble := valuedouble n, j_type := j_type n\<rparr> = n"
      using eq \<open>valuestring n = None\<close> \<open>valuestring item = None\<close> by (cases item; cases n) auto
    moreover have "c \<noteq> 0x6e" "c \<noteq> 0x66" "c \<noteq> 0x74" "c \<noteq> c_quote"
      using c(2) by (auto simp: isdigit_def word_le_nat_alt)
    ultimately show ?thesis
      using 1 c parse_number_read [OF F, of r "valueint n" item]
      by (simp add: render_scalar_def parse_value_dispatch)
  next
    case 2
    then obtain s where s: "valuestring n = Some s" "is_cstr s" using ty by (auto simp: fields_typed_def)
    have "valueint item = valueint n" using ty fresh(1) 2 by (simp add: fields_typed_def item_fresh_def)
    then have "item\<lparr>valuestring := Some s, j_type := JSON_T_STRING\<rparr> = n"
      using eq 2 s by (cases item; cases n) auto
    moreover obtain t where "render_string s = c_quote # t" by (simp add: render_string_def)
    ultimately show ?thesis
      using 2 s parse_string_read [OF mal s(2), of item r] len
      by (simp add: render_scalar_def parse_value_dispatch)
  next
    case 3
    then obtain c t where r: "r = c # t" "c \<noteq> 0" using ends by (auto simp: value_ends_def)
    have vs: "valuestring n = None" "valuestring item = None" "valueint item = 0"
      using ty fresh(1) 3 by (simp_all add: fields_typed_def item_fresh_def)
    consider "j_type n = JSON_T_NULL" | "j_type n = JSON_T_FALSE" | "j_type n = JSON_T_TRUE"
      using ty 3 by (fastforce simp: fields_typed_def)
    then show ?thesis
      using parse_value_literal [OF r(2), of mal F call item t] eq vs ty
      by cases (cases item; cases n; auto simp: render_scalar_def r(1) fields_typed_def)+
  qed
qed

lemma parse_call_Suc:
  "parse_call mal F (Suc k) (Call_value item) s = parse_value mal F (parse_call mal F k) item s"
  "parse_call mal F (Suc k) (Call_array item) s = parse_array mal F (parse_call mal F k) item s"
  "parse_call mal F (Suc k) (Call_elems item cs) s = parse_elems mal F (parse_call mal F k) item cs s"
  "parse_call mal F (Suc k) (Call_object item) s = parse_object mal F (parse_call mal F k) item s"
  "parse_call mal F (Suc k) (Call_members item cs) s = parse_members mal F (parse_call mal F k) item cs s"
  by simp_all

text \<open>The elements of an array after the first, with the closing bracket.\<close>

definition elems_rest :: "bool \<Rightarrow> bytes list \<Rightarrow> bytes" where
  "elems_rest fmt es =
     (if es = [] then [] else c_comma # (if fmt then [c_space] else []) @ array_body fmt es) @ [c_rbrack]"

lemma array_body_rest: "array_body fmt (e # es) @ c_rbrack # r = e @ elems_rest fmt es @ r"
  by (cases es) (simp_all add: elems_rest_def)

lemma elems_rest_hd: "\<exists>c t. elems_rest fmt es @ r = c # t \<and> c \<in> {c_comma, c_rbrack}"
  by (auto simp: elems_rest_def)

lemma parse_elems_read:
  assumes mal: "mem_ok mal"
  shows "\<forall>c \<in> set cs. json_typed F c \<and> reads mal F fmt depth c \<and> j_string (j_node c) = None \<Longrightarrow>
    2 * length (elems_rest fmt (map (render fmt depth) cs) @ r) + 1 \<le> k \<Longrightarrow>
    parse_call mal F k (Call_elems item acc) (elems_rest fmt (map (render fmt depth) cs) @ r) =
      Some (Some (Json item (acc @ cs)), r)"
proof (induction cs arbitrary: acc k)
  case Nil
  then obtain k' where "k = Suc k'" by (cases k) auto
  then show ?case by (simp add: parse_call_Suc parse_elems_def elems_rest_def close_with_def del: parse_call.simps)
next
  case (Cons c cs)
  let ?e = "render fmt depth c" and ?rest = "elems_rest fmt (map (render fmt depth) cs) @ r"
  let ?sp = "if fmt then [c_space] else []"
  obtain k' where k: "k = Suc k'" using Cons.prems(2) by (cases k) auto
  have tx: "elems_rest fmt (map (render fmt depth) (c # cs)) @ r = c_comma # ?sp @ ?e @ ?rest"
    using array_body_rest [of fmt "?e" "map (render fmt depth) cs" r] by (simp add: elems_rest_def)
  have st: "value_starts (?e @ ?rest)" using render_starts [of F c fmt depth] Cons.prems(1) by simp
  then have sk: "json_skip (?sp @ ?e @ ?rest) = Some (?e @ ?rest)" by (intro json_skip_starts) auto
  obtain b t where b: "?e @ ?rest = b # t" "b \<noteq> c_rbrack" using st by (auto simp: value_starts_def)
  obtain b' t' where b': "?rest = b' # t'" "b' \<in> {c_comma, c_rbrack}" using elems_rest_hd by blast
  have len: "2 * length (?e @ ?rest) + 2 \<le> k'" using Cons.prems(2) k tx by auto
  have val: "parse_call mal F k' (Call_value (json_zero F)) (?e @ ?rest) = Some (Some c, ?rest)"
    using Cons.prems(1) b' len by (intro readsD) (auto intro: value_ends_sep)
  have sk': "json_skip ?rest = Some ?rest" using b' by auto
  have "parse_call mal F k' (Call_elems item (acc @ [c])) ?rest = Some (Some (Json item (acc @ c # cs)), r)"
    using Cons.IH [of k' "acc @ [c]"] Cons.prems(1) len by simp
  then show ?case
    unfolding tx k parse_call_Suc parse_elems_def
    using sk b val sk' new_item_ok [OF mal, of F] by simp
qed

lemma parse_array_read:
  assumes mal: "mem_ok mal" and ch: "\<forall>c \<in> set cs. json_typed F c \<and> reads mal F fmt depth c \<and> j_string (j_node c) = None"
    and len: "2 * length (render_array fmt (map (render fmt depth) cs) @ r) + 1 \<le> k"
  shows "parse_call mal F k (Call_array item) (render_array fmt (map (render fmt depth) cs) @ r) =
    Some (Some (Json (item\<lparr>j_type := JSON_T_ARRAY\<rparr>) cs), r)"
proof -
  obtain k' where k: "k = Suc k'" using len by (cases k) auto
  show ?thesis
  proof (cases cs)
    case Nil
    then show ?thesis unfolding k parse_call_Suc parse_array_def by (simp add: render_array_def Let_def)
  next
    case (Cons c cs')
    let ?e = "render fmt depth c" and ?rest = "elems_rest fmt (map (render fmt depth) cs') @ r"
    have tx: "render_array fmt (map (render fmt depth) cs) @ r = c_lbrack # ?e @ ?rest"
      using array_body_rest [of fmt "?e" "map (render fmt depth) cs'" r] Cons by (simp add: render_array_def)
    have st: "value_starts (?e @ ?rest)" using render_starts [of F c fmt depth] ch Cons by simp
    then have sk: "json_skip (?e @ ?rest) = Some (?e @ ?rest)" using json_skip_starts [of "[]"] by simp
    obtain b t where b: "?e @ ?rest = b # t" "b \<noteq> c_rbrack" using st by (auto simp: value_starts_def)
    obtain b' t' where b': "?rest = b' # t'" "b' \<in> {c_comma, c_rbrack}" using elems_rest_hd by blast
    have l: "2 * length (?e @ ?rest) + 2 \<le> k'" using len k tx by auto
    have val: "parse_call mal F k' (Call_value (json_zero F)) (?e @ ?rest) = Some (Some c, ?rest)"
      using ch Cons b' l by (intro readsD) (auto intro: value_ends_sep)
    have sk': "json_skip ?rest = Some ?rest" using b' by auto
    have "parse_call mal F k' (Call_elems (item\<lparr>j_type := JSON_T_ARRAY\<rparr>) [c]) ?rest =
        Some (Some (Json (item\<lparr>j_type := JSON_T_ARRAY\<rparr>) ([c] @ cs')), r)"
      using ch Cons l by (intro parse_elems_read [OF mal]) auto
    then show ?thesis
      unfolding tx k parse_call_Suc parse_array_def
      using sk b val sk' new_item_ok [OF mal, of F] Cons by (simp add: Let_def)
  qed
qed

text \<open>The members of an object after a value, with the closing brace.\<close>

definition members_rest :: "bool \<Rightarrow> nat \<Rightarrow> (bytes \<times> bytes) list \<Rightarrow> bytes" where
  "members_rest fmt depth es =
     (if fmt then [c_newline] else []) @ object_body fmt depth es @
     (if fmt then replicate (depth - 1) c_tab else []) @ [c_rbrace]"

definition after_value :: "bool \<Rightarrow> nat \<Rightarrow> (bytes \<times> bytes) list \<Rightarrow> bytes" where
  "after_value fmt depth es = (if es = [] then [] else [c_comma]) @ members_rest fmt depth es"

lemma members_rest_Cons:
  "members_rest fmt depth ((n, e) # es) =
     ((if fmt then [c_newline] else []) @ (if fmt then replicate depth c_tab else [])) @ n @ c_colon #
     (if fmt then [c_tab] else []) @ e @ after_value fmt depth es"
  by (simp add: members_rest_def after_value_def)

lemma members_rest_Nil:
  "\<exists>ws. members_rest fmt depth [] = ws @ [c_rbrace] \<and> (\<forall>c \<in> set ws. isspace c)"
  by (auto simp: members_rest_def intro: exI [of _ "c_newline # replicate (depth - 1) c_tab"])

lemma render_object_rest: "render_object fmt depth es = c_lbrace # members_rest fmt depth es"
  by (simp add: render_object_def members_rest_def)

lemma after_value_ends: "value_ends v (after_value fmt depth es @ r)"
  by (auto simp: after_value_def members_rest_def intro: value_ends_sep)

text \<open>One member: name, colon and value, up to what follows the value.\<close>

definition member_ready :: "json_malloc \<Rightarrow> 'd fpu \<Rightarrow> bool \<Rightarrow> nat \<Rightarrow> 'd json \<Rightarrow> bool" where
  "member_ready mal F fmt depth c \<longleftrightarrow> json_typed F c \<and> reads mal F fmt depth c \<and>
     (\<exists>n. j_string (j_node c) = Some n \<and> is_cstr n \<and> length (render_string n) < 2 ^ 31)"

lemma parse_member_read:
  assumes mal: "mem_ok mal" and c: "member_ready mal F fmt depth c"
    and len: "2 * length (render fmt depth c @ after_value fmt depth es @ r) + 2 \<le> k"
  shows "\<exists>child. parse_name mal (json_zero F) (render_string (the (j_string (j_node c))) @ c_colon #
      (if fmt then [c_tab] else []) @ render fmt depth c @ after_value fmt depth es @ r) =
        Some (Some child, render fmt depth c @ after_value fmt depth es @ r) \<and>
    parse_call mal F k (Call_value child) (render fmt depth c @ after_value fmt depth es @ r) =
        Some (Some c, after_value fmt depth es @ r)"
proof -
  let ?s = "render fmt depth c @ after_value fmt depth es @ r"
  obtain n where n: "j_string (j_node c) = Some n" "is_cstr n" "length (render_string n) < 2 ^ 31"
    using c by (auto simp: member_ready_def)
  let ?child = "(json_zero F)\<lparr>valuestring := Some n, j_type := JSON_T_STRING, j_string := Some n, valuestring := None\<rparr>"
  have "value_starts ?s" using render_starts [of F c fmt depth] c by (simp add: member_ready_def)
  then have sk: "json_skip ((if fmt then [c_tab] else []) @ ?s) = Some ?s" by (intro json_skip_starts) auto
  have "parse_name mal (json_zero F) (render_string n @ c_colon # (if fmt then [c_tab] else []) @ ?s) =
      Some (Some ?child, ?s)"
    using parse_string_read [OF mal n(2,3), of "json_zero F"] sk by (simp add: parse_name_def Let_def)
  moreover have "parse_call mal F k (Call_value ?child) ?s = Some (Some c, after_value fmt depth es @ r)"
    using c n len after_value_ends
    by (intro readsD [of mal F fmt depth]) (auto simp: member_ready_def item_fresh_def json_zero_def)
  ultimately show ?thesis using n by auto
qed

lemma members_skip:
  "json_skip (members_rest fmt depth ((render_string n, render fmt depth c) # es) @ r) =
    Some (render_string n @ c_colon # (if fmt then [c_tab] else []) @ render fmt depth c @
      after_value fmt depth es @ r)"
  by (cases fmt) (simp_all add: members_rest_Cons render_string_def json_skip_spaces)

lemma parse_members_read:
  assumes mal: "mem_ok mal"
  shows "\<forall>c \<in> set cs. member_ready mal F fmt depth c \<Longrightarrow>
    2 * length (after_value fmt depth (member_texts fmt depth cs) @ r) + 1 \<le> k \<Longrightarrow>
    \<exists>s. json_skip (after_value fmt depth (member_texts fmt depth cs) @ r) = Some s \<and>
      parse_call mal F k (Call_members item acc) s = Some (Some (Json item (acc @ cs)), r)"
proof (induction cs arbitrary: acc k)
  case Nil
  then obtain k' where "k = Suc k'" by (cases k) auto
  moreover obtain ws where "members_rest fmt depth [] = ws @ [c_rbrace]" "\<forall>c \<in> set ws. isspace c"
    using members_rest_Nil by blast
  ultimately show ?case
    by (simp add: parse_call_Suc parse_members_def after_value_def close_with_def json_skip_spaces
        del: parse_call.simps)
next
  case (Cons c cs)
  let ?es = "member_texts fmt depth cs" and ?n = "render_string (the (j_string (j_node c)))"
  let ?rest = "after_value fmt depth ?es @ r"
  obtain k' where k: "k = Suc k'" using Cons.prems(2) by (cases k) auto
  have tx: "after_value fmt depth (member_texts fmt depth (c # cs)) @ r =
      c_comma # members_rest fmt depth ((?n, render fmt depth c) # ?es) @ r"
    by (simp add: after_value_def)
  have c: "member_ready mal F fmt depth c" using Cons.prems(1) by auto
  note sk = members_skip [of fmt depth "the (j_string (j_node c))" c "?es" r]
  have len: "2 * length (render fmt depth c @ ?rest) + 2 \<le> k'"
    using Cons.prems(2) k unfolding tx members_rest_Cons by auto
  obtain child where child: "parse_name mal (json_zero F) (?n @ c_colon #
      (if fmt then [c_tab] else []) @ render fmt depth c @ ?rest) = Some (Some child, render fmt depth c @ ?rest)"
    "parse_call mal F k' (Call_value child) (render fmt depth c @ ?rest) = Some (Some c, ?rest)"
    using parse_member_read [OF mal c len] by blast
  obtain s where s: "json_skip ?rest = Some s"
    "parse_call mal F k' (Call_members item (acc @ [c])) s = Some (Some (Json item ((acc @ [c]) @ cs)), r)"
    using Cons.IH [of k' "acc @ [c]"] Cons.prems(1) len by auto
  obtain b where b: "?n = c_quote # b" by (simp add: render_string_def)
  have "parse_call mal F k (Call_members item acc) (c_comma # members_rest fmt depth ((?n, render fmt depth c) # ?es) @ r) =
      Some (Some (Json item (acc @ c # cs)), r)"
    unfolding k parse_call_Suc parse_members_def
    using sk child s new_item_ok [OF mal, of F] b by simp
  then show ?case unfolding tx by simp
qed

lemma parse_object_read:
  assumes mal: "mem_ok mal" and ch: "\<forall>c \<in> set cs. member_ready mal F fmt depth c"
    and len: "2 * length (render_object fmt depth (member_texts fmt depth cs) @ r) + 1 \<le> k"
  shows "parse_call mal F k (Call_object item) (render_object fmt depth (member_texts fmt depth cs) @ r) =
    Some (Some (Json (item\<lparr>j_type := JSON_T_OBJECT\<rparr>) cs), r)"
proof -
  obtain k' where k: "k = Suc k'" using len by (cases k) auto
  show ?thesis
  proof (cases cs)
    case Nil
    obtain ws where "members_rest fmt depth [] = ws @ [c_rbrace]" "\<forall>c \<in> set ws. isspace c"
      using members_rest_Nil by blast
    then show ?thesis using Nil unfolding k parse_call_Suc parse_object_def render_object_rest
      by (simp add: json_skip_spaces Let_def)
  next
    case (Cons c cs')
    let ?item = "item\<lparr>j_type := JSON_T_OBJECT\<rparr>"
    let ?es = "member_texts fmt depth cs'" and ?n = "render_string (the (j_string (j_node c)))"
    let ?rest = "after_value fmt depth ?es @ r"
    have c: "member_ready mal F fmt depth c" using ch Cons by auto
    note sk = members_skip [of fmt depth "the (j_string (j_node c))" c "?es" r]
    have l: "2 * length (render fmt depth c @ ?rest) + 2 \<le> k'"
      using len k Cons by (auto simp: render_object_rest members_rest_Cons)
    obtain child where child: "parse_name mal (json_zero F) (?n @ c_colon #
        (if fmt then [c_tab] else []) @ render fmt depth c @ ?rest) = Some (Some child, render fmt depth c @ ?rest)"
      "parse_call mal F k' (Call_value child) (render fmt depth c @ ?rest) = Some (Some c, ?rest)"
      using parse_member_read [OF mal c l] by blast
    obtain s where s: "json_skip ?rest = Some s"
      "parse_call mal F k' (Call_members ?item [c]) s = Some (Some (Json ?item ([c] @ cs')), r)"
      using parse_members_read [OF mal, of cs' F fmt depth r k' "?item" "[c]"] ch Cons l by auto
    obtain b where b: "?n = c_quote # b" by (simp add: render_string_def)
    show ?thesis
      unfolding k parse_call_Suc parse_object_def render_object_rest
      using sk child s new_item_ok [OF mal, of F] b Cons by (simp add: Let_def)
  qed
qed

lemma render_reads:
  assumes F: "fpu_exact F" and mal: "mem_ok mal"
  shows "printable F fmt depth v \<Longrightarrow> reads mal F fmt depth v"
proof (induction v arbitrary: depth)
  case (Json n cs)
  have ty: "json_typed F (Json n cs)" and ints: "json_ints F (Json n cs)"
    and len: "length (render fmt depth (Json n cs)) < 2 ^ 31"
    using Json.prems by (auto simp: printable_def)
  have ch: "\<forall>c \<in> set cs. json_typed F c \<and> reads mal F fmt (depth + 1) c"
    using Json.IH printable_child [OF Json.prems] ty by fastforce
  show ?case unfolding reads_def
  proof (intro allI impI)
    fix item :: "'a jnode" and r k
    assume fresh: "item_fresh F item" and name: "j_string item = j_string (j_node (Json n cs))"
      and ends: "value_ends (Json n cs) r" and k: "2 * length (render fmt depth (Json n cs) @ r) + 2 \<le> k"
    obtain k' where k': "k = Suc k'" using k by (cases k) auto
    have eq: "item\<lparr>j_type := j_type n\<rparr> = n" if "j_type n = JSON_T_ARRAY \<or> j_type n = JSON_T_OBJECT"
      using fresh name ty that by (cases item; cases n) (auto simp: item_fresh_def fields_typed_def)
    consider "j_type n = JSON_T_ARRAY" | "j_type n = JSON_T_OBJECT"
      | "j_type n \<noteq> JSON_T_ARRAY" "j_type n \<noteq> JSON_T_OBJECT" by blast
    then show "parse_call mal F k (Call_value item) (render fmt depth (Json n cs) @ r) = Some (Some (Json n cs), r)"
    proof cases
      case 1
      have "\<forall>c \<in> set cs. json_typed F c \<and> reads mal F fmt (depth + 1) c \<and> j_string (j_node c) = None"
        using ch ty 1 by (auto simp: member_named_def)
      from parse_array_read [OF mal this, of r k' item] show ?thesis
        using 1 k k' eq unfolding k' parse_call_Suc
        by (simp add: render_array_def parse_value_dispatch isdigit_def word_le_nat_alt)
    next
      case 2
      have "\<forall>c \<in> set cs. member_ready mal F fmt (depth + 1) c"
        using ch ty 2 printable_names [OF Json.prems 2] by (fastforce simp: member_ready_def member_named_def)
      from parse_object_read [OF mal this, of r k' item] show ?thesis
        using 2 k k' eq unfolding k' parse_call_Suc
        by (simp add: render_object_def parse_value_dispatch isdigit_def word_le_nat_alt)
    next
      case 3
      then have cs: "cs = []" using ty by auto
      then show ?thesis
        using 3 render_scalar_read [OF F mal, of n item r] ty ints len fresh name ends
        unfolding k' parse_call_Suc by simp
    qed
  qed
qed

section \<open>Properties\<close>

lemma parse_value_fuel:
  "json_fuel value \<le> k \<Longrightarrow>
     parse_call mal F k (Call_value c) value = parse_call mal F (json_fuel value) (Call_value c) value"
  by (rule parse_call_fuel) (simp_all add: json_fuel_def)

lemma print_value_cached:
  assumes "print_value mal F v depth fmt = Some (Some s, v')"
  shows "print_value mal F v' depth fmt = Some (Some s, v')"
proof (cases v)
  case (Json item cs)
  show ?thesis
  proof (cases "fmt = print_fmt item \<and> print_out item \<noteq> None")
    case True
    then show ?thesis using assms Json by auto
  next
    case False
    then obtain cs' where "v' = Json (item\<lparr>print_out := Some s, print_fmt := fmt\<rparr>) cs'"
      using assms Json by (auto simp: cache_out_def split: prod.splits)
    then show ?thesis by simp
  qed
qed


text \<open>Integers in place of the floating-point numbers, for the witnesses.\<close>

definition fpu_int :: "int fpu" where
  "fpu_int = \<lparr>fp_of_int = (\<lambda>i. i), fp_add = (+), fp_sub = (-), fp_mul = (*),
     fp_pow = (\<lambda>a b. a ^ nat b), fp_abs = abs, fp_floor = (\<lambda>i. i), fp_le = (\<le>), fp_eps = 0, fp_tiny = 1,
     fp_to_i64 = (\<lambda>i. if LLONG_MIN \<le> i \<and> i \<le> LLONG_MAX then Some i else None),
     fp_show = (\<lambda>f i. show_int i)\<rparr>"

definition json_int :: "bytes option \<Rightarrow> int \<Rightarrow> int json" where
  "json_int name i = Json ((json_zero fpu_int)\<lparr>j_type := JSON_T_NUMBER, valueint := i, valuedouble := i,
     j_string := name\<rparr>) []"

definition json_sample :: "int json" where
  "json_sample = Json ((json_zero fpu_int)\<lparr>j_type := JSON_T_OBJECT\<rparr>)
     [json_int (Some [0x61]) (- 42),
      Json ((json_zero fpu_int)\<lparr>j_type := JSON_T_ARRAY, j_string := Some [0x62, 0x0a]\<rparr>)
        [Json ((json_zero fpu_int)\<lparr>j_type := JSON_T_TRUE, valueint := 1\<rparr>) [],
         Json ((json_zero fpu_int)\<lparr>j_type := JSON_T_STRING, valuestring := Some [0x22, 0x01, 0x7a]\<rparr>) []]]"

lemma fpu_int_laws: "fpu_i64 fpu_int" "fpu_exact fpu_int"
  by (auto simp: fpu_i64_def fpu_exact_def exact_int_def fpu_int_def LLONG_MAX_def LLONG_MIN_def)

lemma mem_ok_True: "mem_ok (\<lambda>n. True)"
  by (simp add: mem_ok_def)


lemma json_sample_ok:
  "json_typed fpu_int json_sample" "json_ints fpu_int json_sample"
  "JSON_T_NUMBER \<le> j_type (j_node json_sample)" "j_string (j_node json_sample) = None"
  by (simp_all add: json_sample_def json_int_def json_zero_def fields_typed_def member_named_def
      is_cstr_def fpu_int_def exact_int_def LLONG_MIN_def LLONG_MAX_def)

lemma json_sample_length: "length (render True 0 json_sample) < 100"
  by code_simp


lemma json_parse_sample:
  "json_parse_stream (\<lambda>n. True) fpu_int [0x5b, 0x31, 0x5d, 0] =
    Some (Some (Json ((json_zero fpu_int)\<lparr>j_type := JSON_T_ARRAY\<rparr>) [json_int None 1]), [0])"
  by code_simp


end
