(* ===== verification/JsonHeap.thy ===== *)
theory JsonHeap
  imports JsonRound
begin

text \<open>
  \<^verbatim>\<open>json.c\<close>: the editing operations on JSON values as they are in memory, nodes linked through \<^verbatim>\<open>next\<close>,
  \<^verbatim>\<open>prev\<close> and \<^verbatim>\<open>child\<close>, with their strings as allocations of their own. Freed nodes and strings
  are not in the heap, so that an access to one, or freeing it again, is \<^const>\<open>None\<close>.
\<close>

section \<open>The heap\<close>

record 'd hnode =
  h_next :: nat
  h_prev :: nat
  h_child :: nat
  h_type :: int
  h_valuestring :: nat
  h_valueint :: int
  h_valuedouble :: 'd
  h_string :: nat
  h_print_out :: nat
  h_print_fmt :: int

record 'd jheap =
  nodes :: "nat \<Rightarrow> 'd hnode option"
  strs :: "nat \<Rightarrow> bytes option"

definition upd_node :: "'d jheap \<Rightarrow> nat \<Rightarrow> ('d hnode \<Rightarrow> 'd hnode) \<Rightarrow> 'd jheap option" where
  "upd_node h a f = do { n \<leftarrow> nodes h a; Some (h\<lparr>nodes := (nodes h)(a \<mapsto> f n)\<rparr>) }"

definition str_of :: "'d jheap \<Rightarrow> nat \<Rightarrow> bytes option option" where
  "str_of h a = (if a = 0 then Some None else map_option Some (strs h a))"

text \<open>\<^verbatim>\<open>json_free\<close> of a string or of a node; NULL is not freed by the callers.\<close>

definition free_str :: "'d jheap \<Rightarrow> nat \<Rightarrow> 'd jheap option" where
  "free_str h a = (if strs h a = None then None else Some (h\<lparr>strs := (strs h)(a := None)\<rparr>))"

definition free_node :: "'d jheap \<Rightarrow> nat \<Rightarrow> 'd jheap option" where
  "free_node h a = (if nodes h a = None then None else Some (h\<lparr>nodes := (nodes h)(a := None)\<rparr>))"

text \<open>The allocations of the callers: \<open>a\<close> is the address \<^verbatim>\<open>json_malloc\<close> returns, 0 when it fails.\<close>

definition h_zero :: "'d fpu \<Rightarrow> 'd hnode" where
  "h_zero F = \<lparr>h_next = 0, h_prev = 0, h_child = 0, h_type = 0, h_valuestring = 0, h_valueint = 0,
     h_valuedouble = fp_of_int F 0, h_string = 0, h_print_out = 0, h_print_fmt = 0\<rparr>"

definition h_new_item :: "'d fpu \<Rightarrow> nat \<Rightarrow> 'd jheap \<Rightarrow> 'd jheap" where
  "h_new_item F a h = (if a = 0 then h else h\<lparr>nodes := (nodes h)(a \<mapsto> h_zero F)\<rparr>)"

definition h_strdup :: "nat \<Rightarrow> bytes \<Rightarrow> 'd jheap \<Rightarrow> 'd jheap" where
  "h_strdup a str h = (if a = 0 then h else h\<lparr>strs := (strs h)(a \<mapsto> str)\<rparr>)"

abbreviation (input) JSON_T_IS_REFERENCE :: int where "JSON_T_IS_REFERENCE \<equiv> 256"

definition is_reference :: "'d hnode \<Rightarrow> bool" where
  "is_reference n \<longleftrightarrow> h_type n AND JSON_T_IS_REFERENCE \<noteq> 0"

section \<open>Operations\<close>

text \<open>\<^verbatim>\<open>json_delete\<close>: the fields are read at the time the code reads them.\<close>

definition free_field :: "'d jheap \<Rightarrow> nat \<Rightarrow> 'd jheap option" where
  "free_field h a = (if a = 0 then Some h else free_str h a)"

partial_function (option) json_delete :: "'d jheap \<Rightarrow> nat \<Rightarrow> 'd jheap option" where
  "json_delete h c =
     (if c = 0 then Some h
      else do { n \<leftarrow> nodes h c;
                let nxt = h_next n in
                do { h \<leftarrow> (if \<not> is_reference n \<and> h_child n \<noteq> 0 then json_delete h (h_child n) else Some h);
                n \<leftarrow> nodes h c;
                h \<leftarrow> (if \<not> is_reference n then free_field h (h_valuestring n) else Some h);
                h \<leftarrow> free_field h (h_string n);
                h \<leftarrow> free_field h (h_print_out n);
                h \<leftarrow> free_node h c;
                json_delete h nxt } })"

partial_function (option) h_count :: "'d jheap \<Rightarrow> nat \<Rightarrow> int \<Rightarrow> int option" where
  "h_count h c i = (if c = 0 then Some i else do { n \<leftarrow> nodes h c; h_count h (h_next n) (i + 1) })"

definition json_get_array_size :: "'d jheap \<Rightarrow> nat \<Rightarrow> int option" where
  "json_get_array_size h array = do { a \<leftarrow> nodes h array; h_count h (h_child a) 0 }"

text \<open>The loop that counts an index down to 0.\<close>

partial_function (option) h_nth :: "'d jheap \<Rightarrow> nat \<Rightarrow> int \<Rightarrow> nat option" where
  "h_nth h c which =
     (if c = 0 \<or> which \<le> 0 then Some c else do { n \<leftarrow> nodes h c; h_nth h (h_next n) (which - 1) })"

definition json_get_array_item :: "'d jheap \<Rightarrow> nat \<Rightarrow> int \<Rightarrow> nat option" where
  "json_get_array_item h array item = do { a \<leftarrow> nodes h array; h_nth h (h_child a) item }"

text \<open>The loop that looks a name up, with the number of the items before.\<close>

partial_function (option) h_find :: "'d jheap \<Rightarrow> nat \<Rightarrow> bytes option \<Rightarrow> int \<Rightarrow> (nat \<times> int) option" where
  "h_find h c string i =
     (if c = 0 then Some (c, i)
      else do { n \<leftarrow> nodes h c;
                name \<leftarrow> str_of h (h_string n);
                if json_strcasecmp name string = 0 then Some (c, i)
                else h_find h (h_next n) string (i + 1) })"

definition json_get_object_item :: "'d jheap \<Rightarrow> nat \<Rightarrow> bytes option \<Rightarrow> nat option" where
  "json_get_object_item h object string =
     do { a \<leftarrow> nodes h object; (c, _) \<leftarrow> h_find h (h_child a) string 0; Some c }"

definition suffix_object :: "'d jheap \<Rightarrow> nat \<Rightarrow> nat \<Rightarrow> 'd jheap option" where
  "suffix_object h prev item =
     do { h \<leftarrow> upd_node h prev (\<lambda>n. n\<lparr>h_next := item\<rparr>);
          upd_node h item (\<lambda>n. n\<lparr>h_prev := prev\<rparr>) }"

definition create_reference :: "nat \<Rightarrow> 'd jheap \<Rightarrow> nat \<Rightarrow> 'd jheap option" where
  "create_reference a h item =
     (if a = 0 then Some h
      else do { n \<leftarrow> nodes h item;
                Some (h\<lparr>nodes := (nodes h)(a \<mapsto>
                  n\<lparr>h_string := 0, h_type := h_type n OR JSON_T_IS_REFERENCE, h_next := 0, h_prev := 0\<rparr>)\<rparr>) })"

partial_function (option) h_last :: "'d jheap \<Rightarrow> nat \<Rightarrow> nat option" where
  "h_last h c = do { n \<leftarrow> nodes h c; if h_next n = 0 then Some c else h_last h (h_next n) }"

definition json_add_item_to_array :: "'d jheap \<Rightarrow> nat \<Rightarrow> nat \<Rightarrow> 'd jheap option" where
  "json_add_item_to_array h array item =
     do { a \<leftarrow> nodes h array;
          if item = 0 then Some h
          else if h_child a = 0 then upd_node h array (\<lambda>n. n\<lparr>h_child := item\<rparr>)
          else do { c \<leftarrow> h_last h (h_child a); suffix_object h c item } }"

definition json_add_item_to_object :: "nat \<Rightarrow> 'd jheap \<Rightarrow> nat \<Rightarrow> bytes \<Rightarrow> nat \<Rightarrow> 'd jheap option" where
  "json_add_item_to_object a h object string item =
     (if item = 0 then Some h
      else do { n \<leftarrow> nodes h item;
                h \<leftarrow> free_field h (h_string n);
                h \<leftarrow> upd_node (h_strdup a string h) item (\<lambda>n. n\<lparr>h_string := a\<rparr>);
                json_add_item_to_array h object item })"

definition json_add_item_reference_to_array :: "nat \<Rightarrow> 'd jheap \<Rightarrow> nat \<Rightarrow> nat \<Rightarrow> 'd jheap option" where
  "json_add_item_reference_to_array a h array item =
     do { h \<leftarrow> create_reference a h item; json_add_item_to_array h array a }"

definition json_add_item_reference_to_object ::
    "nat \<Rightarrow> nat \<Rightarrow> 'd jheap \<Rightarrow> nat \<Rightarrow> bytes \<Rightarrow> nat \<Rightarrow> 'd jheap option" where
  "json_add_item_reference_to_object a s h object string item =
     do { h \<leftarrow> create_reference a h item; json_add_item_to_object s h object string a }"

definition json_detach_item_from_array :: "'d jheap \<Rightarrow> nat \<Rightarrow> int \<Rightarrow> ('d jheap \<times> nat) option" where
  "json_detach_item_from_array h array which =
     do { a \<leftarrow> nodes h array;
          c \<leftarrow> h_nth h (h_child a) which;
          if c = 0 then Some (h, 0)
          else do { n \<leftarrow> nodes h c;
                    h \<leftarrow> (if h_prev n \<noteq> 0 then upd_node h (h_prev n) (\<lambda>p. p\<lparr>h_next := h_next n\<rparr>) else Some h);
                    h \<leftarrow> (if h_next n \<noteq> 0 then upd_node h (h_next n) (\<lambda>p. p\<lparr>h_prev := h_prev n\<rparr>) else Some h);
                    a \<leftarrow> nodes h array;
                    h \<leftarrow> (if c = h_child a then upd_node h array (\<lambda>p. p\<lparr>h_child := h_next n\<rparr>) else Some h);
                    h \<leftarrow> upd_node h c (\<lambda>p. p\<lparr>h_prev := 0, h_next := 0\<rparr>);
                    Some (h, c) } }"

definition json_delete_item_from_array :: "'d jheap \<Rightarrow> nat \<Rightarrow> int \<Rightarrow> 'd jheap option" where
  "json_delete_item_from_array h array which =
     do { (h, c) \<leftarrow> json_detach_item_from_array h array which; json_delete h c }"

definition json_detach_item_from_object :: "'d jheap \<Rightarrow> nat \<Rightarrow> bytes option \<Rightarrow> ('d jheap \<times> nat) option" where
  "json_detach_item_from_object h object string =
     do { a \<leftarrow> nodes h object;
          (c, i) \<leftarrow> h_find h (h_child a) string 0;
          if c \<noteq> 0 then json_detach_item_from_array h object i else Some (h, 0) }"

definition json_delete_item_from_object :: "'d jheap \<Rightarrow> nat \<Rightarrow> bytes option \<Rightarrow> 'd jheap option" where
  "json_delete_item_from_object h object string =
     do { (h, c) \<leftarrow> json_detach_item_from_object h object string; json_delete h c }"

definition json_replace_item_in_array :: "'d jheap \<Rightarrow> nat \<Rightarrow> int \<Rightarrow> nat \<Rightarrow> 'd jheap option" where
  "json_replace_item_in_array h array which newitem =
     do { a \<leftarrow> nodes h array;
          c \<leftarrow> h_nth h (h_child a) which;
          if c = 0 then Some h
          else do { n \<leftarrow> nodes h c;
                    h \<leftarrow> upd_node h newitem (\<lambda>p. p\<lparr>h_next := h_next n, h_prev := h_prev n\<rparr>);
                    h \<leftarrow> (if h_next n \<noteq> 0 then upd_node h (h_next n) (\<lambda>p. p\<lparr>h_prev := newitem\<rparr>) else Some h);
                    a \<leftarrow> nodes h array;
                    h \<leftarrow> (if c = h_child a then upd_node h array (\<lambda>p. p\<lparr>h_child := newitem\<rparr>)
                         else upd_node h (h_prev n) (\<lambda>p. p\<lparr>h_next := newitem\<rparr>));
                    h \<leftarrow> upd_node h c (\<lambda>p. p\<lparr>h_next := 0, h_prev := 0\<rparr>);
                    json_delete h c } }"

definition json_replace_item_in_object :: "nat \<Rightarrow> 'd jheap \<Rightarrow> nat \<Rightarrow> bytes \<Rightarrow> nat \<Rightarrow> 'd jheap option" where
  "json_replace_item_in_object a h object string newitem =
     do { p \<leftarrow> nodes h object;
          (c, i) \<leftarrow> h_find h (h_child p) (Some string) 0;
          if c \<noteq> 0
          then do { h \<leftarrow> upd_node (h_strdup a string h) newitem (\<lambda>n. n\<lparr>h_string := a\<rparr>);
                    json_replace_item_in_array h object i newitem }
          else Some h }"

text \<open>The constructors; \<open>a\<close> is the address of the node, \<open>s\<close> that of the string.\<close>

definition h_create :: "'d fpu \<Rightarrow> nat \<Rightarrow> ('d hnode \<Rightarrow> 'd hnode) \<Rightarrow> 'd jheap \<Rightarrow> 'd jheap" where
  "h_create F a f h = (if a = 0 then h else h\<lparr>nodes := (nodes h)(a \<mapsto> f (h_zero F))\<rparr>)"

definition json_create_null :: "'d fpu \<Rightarrow> nat \<Rightarrow> 'd jheap \<Rightarrow> 'd jheap" where
  "json_create_null F a = h_create F a (\<lambda>n. n\<lparr>h_type := JSON_T_NULL\<rparr>)"

definition json_create_true :: "'d fpu \<Rightarrow> nat \<Rightarrow> 'd jheap \<Rightarrow> 'd jheap" where
  "json_create_true F a = h_create F a (\<lambda>n. n\<lparr>h_type := JSON_T_TRUE\<rparr>)"

definition json_create_false :: "'d fpu \<Rightarrow> nat \<Rightarrow> 'd jheap \<Rightarrow> 'd jheap" where
  "json_create_false F a = h_create F a (\<lambda>n. n\<lparr>h_type := JSON_T_FALSE\<rparr>)"

definition json_create_bool :: "'d fpu \<Rightarrow> nat \<Rightarrow> int \<Rightarrow> 'd jheap \<Rightarrow> 'd jheap" where
  "json_create_bool F a b = h_create F a (\<lambda>n. n\<lparr>h_type := (if b \<noteq> 0 then JSON_T_TRUE else JSON_T_FALSE)\<rparr>)"

definition json_create_number64 :: "'d fpu \<Rightarrow> nat \<Rightarrow> int \<Rightarrow> 'd jheap \<Rightarrow> 'd jheap" where
  "json_create_number64 F a num = h_create F a
     (\<lambda>n. n\<lparr>h_type := JSON_T_NUMBER, h_valuedouble := fp_of_int F num, h_valueint := num\<rparr>)"

definition json_create_number :: "'d fpu \<Rightarrow> nat \<Rightarrow> 'd \<Rightarrow> 'd jheap \<Rightarrow> 'd jheap option" where
  "json_create_number F a num h =
     (if a = 0 then Some h
      else do { i \<leftarrow> fp_to_i64 F num;
                Some (h_create F a
                  (\<lambda>n. n\<lparr>h_type := JSON_T_NUMBER, h_valuedouble := num, h_valueint := i\<rparr>) h) })"

definition json_create_string :: "'d fpu \<Rightarrow> nat \<Rightarrow> nat \<Rightarrow> bytes \<Rightarrow> 'd jheap \<Rightarrow> 'd jheap" where
  "json_create_string F a s string h =
     (if a = 0 then h
      else h_create F a (\<lambda>n. n\<lparr>h_type := JSON_T_STRING, h_valuestring := s\<rparr>) (h_strdup s string h))"

definition json_create_array :: "'d fpu \<Rightarrow> nat \<Rightarrow> 'd jheap \<Rightarrow> 'd jheap" where
  "json_create_array F a = h_create F a (\<lambda>n. n\<lparr>h_type := JSON_T_ARRAY\<rparr>)"

definition json_create_object :: "'d fpu \<Rightarrow> nat \<Rightarrow> 'd jheap \<Rightarrow> 'd jheap" where
  "json_create_object F a = h_create F a (\<lambda>n. n\<lparr>h_type := JSON_T_OBJECT\<rparr>)"

text \<open>
  The five constructors of arrays have the same loop: it creates an item, which \<open>mk\<close> does, and links
  it behind the last, or makes it the first child; a NULL item is dereferenced from the second on.
\<close>

fun array_loop :: "nat \<Rightarrow> ('d jheap \<Rightarrow> 'd jheap option) list \<Rightarrow> nat list \<Rightarrow> nat option \<Rightarrow> 'd jheap \<Rightarrow>
    'd jheap option" where
  "array_loop a (mk # mks) (n # ns) p h =
     do { h \<leftarrow> mk h;
          h \<leftarrow> (case p of None \<Rightarrow> upd_node h a (\<lambda>m. m\<lparr>h_child := n\<rparr>) | Some p \<Rightarrow> suffix_object h p n);
          array_loop a mks ns (Some n) h }"
| "array_loop a _ _ p h = Some h"

definition create_array :: "'d fpu \<Rightarrow> nat \<Rightarrow> ('d jheap \<Rightarrow> 'd jheap option) list \<Rightarrow> nat list \<Rightarrow> 'd jheap \<Rightarrow>
    'd jheap option" where
  "create_array F a mks ns h = (if a = 0 then Some h else array_loop a mks ns None (json_create_array F a h))"

definition json_create_int64_array :: "'d fpu \<Rightarrow> nat \<Rightarrow> nat list \<Rightarrow> int list \<Rightarrow> 'd jheap \<Rightarrow> 'd jheap option" where
  "json_create_int64_array F a ns numbers =
     create_array F a (map2 (\<lambda>n num h. Some (json_create_number64 F n num h)) ns numbers) ns"

definition json_create_int_array :: "'d fpu \<Rightarrow> nat \<Rightarrow> nat list \<Rightarrow> int list \<Rightarrow> 'd jheap \<Rightarrow> 'd jheap option" where
  "json_create_int_array F a ns numbers =
     create_array F a (map2 (\<lambda>n num. json_create_number F n (fp_of_int F num)) ns numbers) ns"

definition json_create_double_array :: "'d fpu \<Rightarrow> nat \<Rightarrow> nat list \<Rightarrow> 'd list \<Rightarrow> 'd jheap \<Rightarrow> 'd jheap option" where
  "json_create_double_array F a ns numbers =
     create_array F a (map2 (\<lambda>n num. json_create_number F n num) ns numbers) ns"

text \<open>Every \<^verbatim>\<open>float\<close> is a \<^verbatim>\<open>double\<close>.\<close>

definition json_create_float_array :: "'d fpu \<Rightarrow> nat \<Rightarrow> nat list \<Rightarrow> 'd list \<Rightarrow> 'd jheap \<Rightarrow> 'd jheap option" where
  "json_create_float_array F a ns numbers =
     create_array F a (map2 (\<lambda>n num. json_create_number F n num) ns numbers) ns"

definition json_create_string_array ::
    "'d fpu \<Rightarrow> nat \<Rightarrow> nat list \<Rightarrow> nat list \<Rightarrow> bytes list \<Rightarrow> 'd jheap \<Rightarrow> 'd jheap option" where
  "json_create_string_array F a ns ss strings =
     create_array F a (map2 (\<lambda>n (s, string) h. Some (json_create_string F n s string h)) ns (zip ss strings)) ns"

section \<open>Chains of nodes\<close>

text \<open>
  \<open>seg m prev p xs q\<close>: the nodes \<open>xs\<close> are linked in both directions from the pointer \<open>p\<close> on, the first with
  the predecessor \<open>prev\<close>, and the last points to \<open>q\<close>.
\<close>

fun seg :: "(nat \<Rightarrow> 'd hnode option) \<Rightarrow> nat \<Rightarrow> nat \<Rightarrow> nat list \<Rightarrow> nat \<Rightarrow> bool" where
  "seg m prev p [] q \<longleftrightarrow> p = q"
| "seg m prev p (a # as) q \<longleftrightarrow>
     p = a \<and> a \<noteq> 0 \<and> (\<exists>n. m a = Some n \<and> h_prev n = prev \<and> seg m a (h_next n) as q)"

lemma seg_append [simp]:
  "seg m prev p (xs @ ys) q \<longleftrightarrow> (\<exists>r. seg m prev p xs r \<and> seg m (last (prev # xs)) r ys q)"
  by (induction xs arbitrary: prev p) auto

lemma seg_cong: "(\<And>a. a \<in> set xs \<Longrightarrow> m' a = m a) \<Longrightarrow> seg m' prev p xs q = seg m prev p xs q"
  by (induction xs arbitrary: prev p) auto

lemma seg_upd_other [simp]: "a \<notin> set xs \<Longrightarrow> seg (m(a := n)) prev p xs q = seg m prev p xs q"
  by (rule seg_cong) auto

lemma seg_nonzero: "seg m prev p xs q \<Longrightarrow> 0 \<notin> set xs"
  by (induction xs arbitrary: prev p) auto

lemma seg_node: "seg m prev p xs q \<Longrightarrow> a \<in> set xs \<Longrightarrow> \<exists>n. m a = Some n"
  by (induction xs arbitrary: prev p) auto

lemma h_count_seg: "seg (nodes h) prev p xs 0 \<Longrightarrow> h_count h p i = Some (i + int (length xs))"
proof (induction xs arbitrary: prev p i)
  case (Cons a xs)
  then show ?case by (subst h_count.simps) auto
qed (simp add: h_count.simps)

lemma h_nth_seg:
  "seg (nodes h) prev p xs 0 \<Longrightarrow> h_nth h p (int i) = Some (if i < length xs then xs ! i else 0)"
proof (induction xs arbitrary: prev p i)
  case (Cons a xs)
  then show ?case by (cases i; subst h_nth.simps) auto
qed (simp add: h_nth.simps)

lemma h_last_seg: "seg (nodes h) prev p (xs @ [a]) 0 \<Longrightarrow> h_last h p = Some a"
proof (induction xs arbitrary: prev p)
  case Nil
  then show ?case by (subst h_last.simps) auto
next
  case (Cons b xs)
  then obtain n where n: "nodes h b = Some n" "p = b" "seg (nodes h) b (h_next n) (xs @ [a]) 0" by auto
  then have "h_next n \<noteq> 0" by (cases xs) auto
  then show ?case using n Cons.IH by (subst h_last.simps) auto
qed

section \<open>Trees and what they own\<close>

text \<open>A node with the strings it owns and its children.\<close>

datatype jtree = JT (jt_root: nat) (jt_strs: "nat list") (jt_children: "jtree list")

definition owned_strs :: "'d hnode \<Rightarrow> nat list" where
  "owned_strs n = filter (\<lambda>x. x \<noteq> 0) [h_valuestring n, h_string n, h_print_out n]"

fun tree_at :: "'d jheap \<Rightarrow> jtree \<Rightarrow> bool" where
  "tree_at h (JT a ss cs) \<longleftrightarrow> a \<noteq> 0 \<and>
     (\<exists>n. nodes h a = Some n \<and> \<not> is_reference n \<and> ss = owned_strs n \<and>
        (\<forall>x \<in> set ss. strs h x \<noteq> None) \<and> seg (nodes h) 0 (h_child n) (map jt_root cs) 0) \<and>
     (\<forall>c \<in> set cs. tree_at h c)"

fun tree_nodes :: "jtree \<Rightarrow> nat list" where
  "tree_nodes (JT a ss cs) = a # concat (map tree_nodes cs)"

fun tree_strs :: "jtree \<Rightarrow> nat list" where
  "tree_strs (JT a ss cs) = ss @ concat (map tree_strs cs)"

definition forest_nodes :: "jtree list \<Rightarrow> nat list" where
  "forest_nodes ts = concat (map tree_nodes ts)"

definition forest_strs :: "jtree list \<Rightarrow> nat list" where
  "forest_strs ts = concat (map tree_strs ts)"

lemma forest_simps [simp]:
  "forest_nodes [] = []" "forest_nodes (t # ts) = tree_nodes t @ forest_nodes ts"
  "forest_nodes (ts @ us) = forest_nodes ts @ forest_nodes us"
  "forest_strs [] = []" "forest_strs (t # ts) = tree_strs t @ forest_strs ts"
  "forest_strs (ts @ us) = forest_strs ts @ forest_strs us"
  by (simp_all add: forest_nodes_def forest_strs_def)

lemma tree_fp [simp]: "tree_nodes (JT a ss cs) = a # forest_nodes cs" "tree_strs (JT a ss cs) = ss @ forest_strs cs"
  by (simp_all add: forest_nodes_def forest_strs_def)

declare tree_nodes.simps [simp del] tree_strs.simps [simp del]

lemma root_in_tree [simp]: "jt_root t \<in> set (tree_nodes t)"
  by (cases t) simp

lemma roots_in_forest: "set (map jt_root ts) \<subseteq> set (forest_nodes ts)"
  by (induction ts) (auto intro: root_in_tree)

lemma roots_distinct: "distinct (forest_nodes ts) \<Longrightarrow> distinct (map jt_root ts)"
proof (induction ts)
  case (Cons t ts)
  then have "jt_root t \<notin> set (forest_nodes ts)" by (auto simp: disjoint_iff dest: spec [of _ "jt_root t"])
  then show ?case using Cons roots_in_forest [of ts] by auto
qed simp

lemma roots_distinct': "distinct (a # forest_nodes ts) \<Longrightarrow> distinct (a # map jt_root ts)"
  using roots_distinct [of ts] roots_in_forest [of ts] by auto

lemma tree_in_forest:
  "t \<in> set ts \<Longrightarrow> set (tree_nodes t) \<subseteq> set (forest_nodes ts) \<and> set (tree_strs t) \<subseteq> set (forest_strs ts)"
  by (induction ts) auto

lemma tree_in_forestD:
  "a \<in> set (tree_nodes t) \<Longrightarrow> t \<in> set ts \<Longrightarrow> a \<in> set (forest_nodes ts)"
  "x \<in> set (tree_strs t) \<Longrightarrow> t \<in> set ts \<Longrightarrow> x \<in> set (forest_strs ts)"
  using tree_in_forest by blast+

lemma tree_at_cong:
  "(\<And>a. a \<in> set (tree_nodes t) \<Longrightarrow> nodes h' a = nodes h a) \<Longrightarrow>
   (\<And>x. x \<in> set (tree_strs t) \<Longrightarrow> strs h' x = strs h x) \<Longrightarrow> tree_at h' t = tree_at h t"
proof (induction t)
  case (JT a ss cs)
  have "\<forall>c \<in> set cs. tree_at h' c = tree_at h c"
    using JT.prems by (intro ballI JT.IH) (auto dest: tree_in_forestD)
  moreover have "set (map jt_root cs) \<subseteq> set (tree_nodes (JT a ss cs))"
    using roots_in_forest [of cs] by auto
  then have "seg (nodes h') 0 p (map jt_root cs) 0 = seg (nodes h) 0 p (map jt_root cs) 0" for p
    using JT.prems(1) by (intro seg_cong) blast
  ultimately show ?case using JT.prems by auto
qed

text \<open>Only the links of the root may change.\<close>

definition same_but_links :: "'d hnode \<Rightarrow> 'd hnode \<Rightarrow> bool" where
  "same_but_links n n' \<longleftrightarrow> n'\<lparr>h_next := h_next n, h_prev := h_prev n\<rparr> = n"

lemma same_but_links_fields:
  "same_but_links n n' \<Longrightarrow> h_child n' = h_child n \<and> is_reference n' = is_reference n \<and>
     owned_strs n' = owned_strs n"
  by (cases n; cases n') (simp add: same_but_links_def is_reference_def owned_strs_def)

lemma tree_at_relink:
  assumes "tree_at h t" "nodes h (jt_root t) = Some n" "nodes h' (jt_root t) = Some n'" "same_but_links n n'"
    "distinct (tree_nodes t)"
    "\<And>a. a \<in> set (tree_nodes t) \<Longrightarrow> a \<noteq> jt_root t \<Longrightarrow> nodes h' a = nodes h a"
    "\<And>x. x \<in> set (tree_strs t) \<Longrightarrow> strs h' x = strs h x"
  shows "tree_at h' t"
proof (cases t)
  case (JT a ss cs)
  have "\<forall>c \<in> set cs. tree_at h' c = tree_at h c"
    using assms(5-7) JT by (intro ballI tree_at_cong) (auto dest: tree_in_forestD)
  moreover have "set (map jt_root cs) \<subseteq> set (tree_nodes t) - {jt_root t}"
    using roots_in_forest [of cs] assms(5) unfolding JT by auto
  then have "seg (nodes h') 0 p (map jt_root cs) 0 = seg (nodes h) 0 p (map jt_root cs) 0" for p
    using assms(6) by (intro seg_cong) blast
  ultimately show ?thesis
    using assms same_but_links_fields [OF assms(4)] JT by auto
qed

section \<open>Deletion frees what a tree owns\<close>

definition freed :: "'d jheap \<Rightarrow> nat list \<Rightarrow> nat list \<Rightarrow> 'd jheap" where
  "freed h ns ss = h\<lparr>nodes := (nodes h) |` (- set ns), strs := (strs h) |` (- set ss)\<rparr>"

lemma freed_sel [simp]:
  "nodes (freed h ns ss) a = (if a \<in> set ns then None else nodes h a)"
  "strs (freed h ns ss) x = (if x \<in> set ss then None else strs h x)"
  by (simp_all add: freed_def restrict_map_def)

lemma freed_freed [simp]: "freed (freed h ns ss) ns' ss' = freed h (ns @ ns') (ss @ ss')"
  by (cases h) (auto simp: freed_def restrict_map_def fun_eq_iff)

lemma freed_nothing [simp]: "freed h [] [] = h"
  by (cases h) (simp add: freed_def restrict_map_def)

lemma freed_set: "set ns = set ns' \<Longrightarrow> set ss = set ss' \<Longrightarrow> freed h ns ss = freed h ns' ss'"
  by (simp add: freed_def)

lemma free_node_eq: "nodes h a \<noteq> None \<Longrightarrow> free_node h a = Some (freed h [a] [])"
  by (cases h) (auto simp: free_node_def freed_def restrict_map_def fun_eq_iff)

lemma free_field_eq:
  "x = 0 \<or> strs h x \<noteq> None \<Longrightarrow> free_field h x = Some (freed h [] (filter (\<lambda>x. x \<noteq> 0) [x]))"
  by (cases h) (auto simp: free_field_def free_str_def freed_def restrict_map_def fun_eq_iff)

lemma json_delete_forest:
  "seg (nodes h) prev c (map jt_root ts) 0 \<Longrightarrow> \<forall>t \<in> set ts. tree_at h t \<Longrightarrow>
   distinct (forest_nodes ts) \<Longrightarrow> distinct (forest_strs ts) \<Longrightarrow>
   json_delete h c = Some (freed h (forest_nodes ts) (forest_strs ts))"
proof (induction ts arbitrary: h prev c rule: measure_induct_rule [where f = "size_list size"])
  case (less ts)
  show ?case
  proof (cases ts)
    case Nil
    then show ?thesis using less.prems by (simp add: json_delete.simps)
  next
    case (Cons t us)
    obtain a ss cs where t: "t = JT a ss cs" by (cases t)
    obtain n where n: "nodes h a = Some n" "c = a" "a \<noteq> 0" "\<not> is_reference n" "ss = owned_strs n"
      "\<forall>x \<in> set ss. strs h x \<noteq> None" "seg (nodes h) 0 (h_child n) (map jt_root cs) 0"
      "seg (nodes h) a (h_next n) (map jt_root us) 0" "\<forall>c \<in> set cs. tree_at h c"
      using less.prems(1,2) Cons t by auto
    have dn: "distinct (a # forest_nodes cs @ forest_nodes us)"
      and ds: "distinct (ss @ forest_strs cs @ forest_strs us)"
      using less.prems(3,4) unfolding Cons t by simp_all
    let ?h1 = "freed h (forest_nodes cs) (forest_strs cs)"
    let ?h2 = "freed ?h1 [a] ss"
    have del: "(if h_child n \<noteq> 0 then json_delete h (h_child n) else Some h) = Some ?h1"
    proof (cases "h_child n = 0")
      case True
      then have "cs = []" using n(7) by (cases cs) auto
      then show ?thesis using True by simp
    next
      case False
      have "json_delete h (h_child n) = Some ?h1"
        using n(7,9) dn ds by (intro less.IH) (auto simp: Cons t)
      then show ?thesis using False by simp
    qed
    have strs: "do { h \<leftarrow> free_field ?h1 (h_valuestring n); h \<leftarrow> free_field h (h_string n); free_field h (h_print_out n) } =
        Some (freed ?h1 [] ss)"
      using n(5,6) ds by (auto simp: free_field_eq owned_strs_def)
    have "json_delete ?h2 (h_next n) = Some (freed ?h2 (forest_nodes us) (forest_strs us))"
    proof (rule less.IH)
      show "size_list size us < size_list size ts" by (simp add: Cons)
      have "set (map jt_root us) \<subseteq> set (forest_nodes us)" by (rule roots_in_forest)
      then show "seg (nodes ?h2) a (h_next n) (map jt_root us) 0"
        using n(8) dn by (subst seg_cong [of _ _ "nodes h"]) auto
      show "\<forall>t \<in> set us. tree_at ?h2 t"
      proof
        fix u assume u: "u \<in> set us"
        then have "tree_at ?h2 u = tree_at h u" using tree_in_forest [OF u] dn ds by (intro tree_at_cong) auto
        then show "tree_at ?h2 u" using u less.prems(2) Cons by simp
      qed
    qed (use dn ds in auto)
    moreover have "freed ?h2 (forest_nodes us) (forest_strs us) = freed h (forest_nodes ts) (forest_strs ts)"
      unfolding freed_freed Cons t by (rule freed_set) auto
    moreover have "nodes ?h1 a = Some n" "nodes (freed ?h1 [] ss) a \<noteq> None" using n(1) dn by auto
    moreover obtain h3 h4 where "free_field ?h1 (h_valuestring n) = Some h3" "free_field h3 (h_string n) = Some h4"
      "free_field h4 (h_print_out n) = Some (freed ?h1 [] ss)"
      using strs unfolding bind_eq_Some_conv by blast
    moreover have "free_node (freed ?h1 [] ss) a = Some ?h2"
      using n(1) dn by (subst free_node_eq) (auto intro: freed_set)
    ultimately show ?thesis
      using n(1-4) del by (subst json_delete.simps) (simp add: Let_def del: freed_freed freed_sel)
  qed
qed

section \<open>Changes of links\<close>

text \<open>Only links of the nodes in \<open>R\<close> differ.\<close>

definition relinked :: "'d jheap \<Rightarrow> 'd jheap \<Rightarrow> nat set \<Rightarrow> bool" where
  "relinked h h' R \<longleftrightarrow> strs h' = strs h \<and> (\<forall>a. a \<notin> R \<longrightarrow> nodes h' a = nodes h a) \<and>
     (\<forall>a n. nodes h a = Some n \<longrightarrow> (\<exists>n'. nodes h' a = Some n' \<and> same_but_links n n'))"

lemma same_but_links_refl [simp]: "same_but_links n n"
  by (simp add: same_but_links_def)

lemma same_but_links_trans: "same_but_links a b \<Longrightarrow> same_but_links b c \<Longrightarrow> same_but_links a c"
  by (cases a; cases b; cases c) (simp add: same_but_links_def)

lemma same_but_links_upd [simp]:
  "same_but_links n (n\<lparr>h_next := x\<rparr>)" "same_but_links n (n\<lparr>h_prev := y\<rparr>)"
  "same_but_links n (n\<lparr>h_next := x, h_prev := y\<rparr>)" "same_but_links n (n\<lparr>h_prev := y, h_next := x\<rparr>)"
  by (cases n; simp add: same_but_links_def)+

lemma relinked_refl [simp]: "relinked h h R"
  by (simp add: relinked_def)

lemma relinked_trans: "relinked h h1 R \<Longrightarrow> relinked h1 h2 S \<Longrightarrow> relinked h h2 (R \<union> S)"
  unfolding relinked_def by (metis Un_iff same_but_links_trans)

lemma relinked_mono: "relinked h h' R \<Longrightarrow> R \<subseteq> S \<Longrightarrow> relinked h h' S"
  unfolding relinked_def by blast

lemma upd_node_relinked:
  "upd_node h a f = Some h' \<Longrightarrow> (\<And>n. same_but_links n (f n)) \<Longrightarrow> relinked h h' {a}"
  by (auto simp: upd_node_def relinked_def bind_eq_Some_conv)

lemma tree_relinked:
  assumes "relinked h h' R" "tree_at h t" "distinct (tree_nodes t)" "set (tree_nodes t) \<inter> R \<subseteq> {jt_root t}"
  shows "tree_at h' t"
proof -
  obtain n where "nodes h (jt_root t) = Some n" using assms(2) by (cases t) auto
  moreover from this obtain n' where "nodes h' (jt_root t) = Some n'" "same_but_links n n'"
    using assms(1) unfolding relinked_def by blast
  ultimately show ?thesis
    using assms by (intro tree_at_relink [of h t n h' n']) (auto simp: relinked_def)
qed

lemma forest_root_only:
  assumes "distinct (forest_nodes ts)" "t \<in> set ts"
  shows "distinct (tree_nodes t) \<and> set (tree_nodes t) \<inter> set (map jt_root ts) \<subseteq> {jt_root t}"
  using assms
proof (induction ts)
  case (Cons u us)
  have roots: "set (map jt_root us) \<subseteq> set (forest_nodes us)" by (rule roots_in_forest)
  show ?case
  proof (cases "t = u")
    case True
    then show ?thesis using Cons.prems(1) roots by auto
  next
    case False
    then have t: "t \<in> set us" using Cons.prems(2) by simp
    then have "jt_root u \<notin> set (tree_nodes t)"
      using Cons.prems(1) tree_in_forest [OF t] by (auto simp: disjoint_iff dest: spec [of _ "jt_root u"])
    then show ?thesis using Cons.IH Cons.prems(1) t by auto
  qed
qed simp

lemma forest_relinked:
  assumes "relinked h h' R" "\<forall>t \<in> set ts. tree_at h t" "distinct (forest_nodes ts)"
    "set (forest_nodes ts) \<inter> R \<subseteq> set (map jt_root ts)"
  shows "\<forall>t \<in> set ts. tree_at h' t"
proof
  fix t assume t: "t \<in> set ts"
  then have "set (tree_nodes t) \<inter> R \<subseteq> {jt_root t}"
    using forest_root_only [OF assms(3) t] tree_in_forest [OF t] assms(4) by blast
  then show "tree_at h' t" using tree_relinked [OF assms(1)] assms(2) t forest_root_only [OF assms(3) t] by blast
qed

lemma seg_set_next:
  "seg m prev p (xs @ [a]) q \<Longrightarrow> a \<notin> set xs \<Longrightarrow> m a = Some n \<Longrightarrow>
     seg (m(a \<mapsto> n\<lparr>h_next := r\<rparr>)) prev p (xs @ [a]) r"
  by auto

lemma seg_set_prev:
  "seg m prev p (a # xs) q \<Longrightarrow> a \<notin> set xs \<Longrightarrow> m a = Some n \<Longrightarrow>
     seg (m(a \<mapsto> n\<lparr>h_prev := b\<rparr>)) b p (a # xs) q"
  by auto

section \<open>The children of a value\<close>

definition children :: "'d jheap \<Rightarrow> nat \<Rightarrow> jtree list \<Rightarrow> bool" where
  "children h array ts \<longleftrightarrow>
     (\<exists>n. nodes h array = Some n \<and> seg (nodes h) 0 (h_child n) (map jt_root ts) 0) \<and>
     (\<forall>t \<in> set ts. tree_at h t) \<and> distinct (array # forest_nodes ts) \<and> distinct (forest_strs ts)"

definition detached :: "'d jheap \<Rightarrow> jtree \<Rightarrow> bool" where
  "detached h t \<longleftrightarrow> tree_at h t \<and> distinct (tree_nodes t) \<and> distinct (tree_strs t) \<and>
     (\<exists>n. nodes h (jt_root t) = Some n \<and> h_next n = 0 \<and> h_prev n = 0)"

definition apart :: "nat \<Rightarrow> jtree list \<Rightarrow> jtree \<Rightarrow> bool" where
  "apart array ts t \<longleftrightarrow> set (tree_nodes t) \<inter> set (array # forest_nodes ts) = {} \<and>
     set (tree_strs t) \<inter> set (forest_strs ts) = {}"

lemma childrenE:
  assumes "children h array ts"
  obtains n where "nodes h array = Some n" "seg (nodes h) 0 (h_child n) (map jt_root ts) 0"
    "\<forall>t \<in> set ts. tree_at h t" "array \<notin> set (forest_nodes ts)" "distinct (forest_nodes ts)"
    "distinct (forest_strs ts)"
  using assms unfolding children_def by auto

lemma tree_root_alive: "tree_at h t \<Longrightarrow> jt_root t \<noteq> 0 \<and> (\<exists>n. nodes h (jt_root t) = Some n)"
  by (cases t) auto

text \<open>A change of the links and of one \<^verbatim>\<open>child\<close> field that leaves a chain leaves children.\<close>

lemma children_relinked:
  assumes "relinked h h1 R" "\<forall>t \<in> set ts. tree_at h t" "distinct (array # forest_nodes ts)" "distinct (forest_strs ts)"
    "set (forest_nodes ts) \<inter> R \<subseteq> set (map jt_root ts)"
    "nodes h1 array = Some n" "seg (nodes h1) 0 p (map jt_root ts) 0"
    "h' = h1\<lparr>nodes := (nodes h1)(array \<mapsto> n\<lparr>h_child := p\<rparr>)\<rparr>"
  shows "children h' array ts"
proof -
  have "\<forall>t \<in> set ts. tree_at h1 t" using forest_relinked [OF assms(1,2) _ assms(5)] assms(3) by simp
  moreover have "tree_at h' t = tree_at h1 t" if "t \<in> set ts" for t
    using tree_in_forest [OF that] assms(3) unfolding assms(8) by (intro tree_at_cong) auto
  moreover have "set (map jt_root ts) \<subseteq> set (forest_nodes ts)" by (rule roots_in_forest)
  then have "array \<notin> set (map jt_root ts)" using assms(3) by auto
  ultimately show ?thesis using assms(3,4,7) unfolding children_def assms(8) by simp
qed

lemma children_relinked':
  assumes "relinked h h' R" "\<forall>t \<in> set ts. tree_at h t" "distinct (array # forest_nodes ts)" "distinct (forest_strs ts)"
    "set (forest_nodes ts) \<inter> R \<subseteq> set (map jt_root ts)"
    "nodes h' array = Some n" "seg (nodes h') 0 (h_child n) (map jt_root ts) 0"
  shows "children h' array ts"
proof -
  have "\<forall>t \<in> set ts. tree_at h' t" using forest_relinked [OF assms(1,2) _ assms(5)] assms(3) by simp
  then show ?thesis using assms(3,4,6,7) unfolding children_def by simp
qed

lemma json_add_children:
  assumes ch: "children h array ts" and t: "detached h t" and ap: "apart array ts t"
  shows "\<exists>h'. json_add_item_to_array h array (jt_root t) = Some h' \<and> children h' array (ts @ [t]) \<and> strs h' = strs h"
proof -
  obtain n where n: "nodes h array = Some n" "seg (nodes h) 0 (h_child n) (map jt_root ts) 0"
    "\<forall>t \<in> set ts. tree_at h t" "array \<notin> set (forest_nodes ts)" "distinct (forest_nodes ts)"
    "distinct (forest_strs ts)" using ch by (rule childrenE)
  obtain m where m: "nodes h (jt_root t) = Some m" "h_next m = 0" "h_prev m = 0" "tree_at h t"
    "distinct (tree_nodes t)" "distinct (tree_strs t)" using t by (auto simp: detached_def)
  have root: "jt_root t \<noteq> 0" "jt_root t \<noteq> array" "jt_root t \<notin> set (forest_nodes ts)"
    using tree_root_alive [OF m(4)] ap by (auto simp: apart_def disjoint_iff dest: spec [of _ "jt_root t"])
  have all: "\<forall>u \<in> set (ts @ [t]). tree_at h u" "distinct (array # forest_nodes (ts @ [t]))" "distinct (forest_strs (ts @ [t]))"
    using n m ap by (auto simp: apart_def)
  show ?thesis
  proof (cases ts rule: rev_cases)
    case Nil
    then have "h_child n = 0" using n(2) by simp
    moreover let ?h = "h\<lparr>nodes := (nodes h)(array \<mapsto> n\<lparr>h_child := jt_root t\<rparr>)\<rparr>"
    have "children ?h array (ts @ [t])"
      using all n(1) m root Nil by (intro children_relinked [of h h "{}"]) auto
    ultimately show ?thesis using n(1) root(1) by (simp add: json_add_item_to_array_def upd_node_def)
  next
    case (snoc us u)
    let ?l = "jt_root u" and ?r = "jt_root t"
    have "seg (nodes h) 0 (h_child n) (map jt_root us @ [?l]) 0" using n(2) snoc by simp
    then have l: "h_last h (h_child n) = Some ?l" by (rule h_last_seg)
    obtain k where k: "nodes h ?l = Some k" using n(3) snoc tree_root_alive [of h u] by auto
    have d: "?l \<notin> set (map jt_root us)" "?l \<noteq> array" "?l \<noteq> ?r" "?r \<notin> set (map jt_root us)" "array \<notin> set (map jt_root us)"
      using roots_distinct' [OF all(2)] snoc by auto
    let ?m1 = "(nodes h)(?l \<mapsto> k\<lparr>h_next := ?r\<rparr>)"
    let ?h = "h\<lparr>nodes := ?m1(?r \<mapsto> m\<lparr>h_prev := ?l\<rparr>)\<rparr>"
    have op: "suffix_object h ?l ?r = Some ?h" using k m(1) d by (simp add: suffix_object_def upd_node_def)
    have "seg ?m1 0 (h_child n) (map jt_root us @ [?l]) ?r"
      using n(2) snoc k d by (intro seg_set_next) auto
    then have "seg (nodes ?h) 0 (h_child n) (map jt_root (ts @ [t])) 0" using snoc d m(2) root by auto
    moreover have "relinked h ?h ({?l} \<union> {?r})"
      using k m(1) d by (auto simp: relinked_def)
    ultimately have "children ?h array (ts @ [t])"
      using all n(1) d root snoc by (intro children_relinked' [of h ?h "{?l} \<union> {?r}"]) auto
    moreover have "h_child n \<noteq> 0" using n(2) snoc by (cases us) auto
    ultimately show ?thesis using op l n(1) root(1) by (simp add: json_add_item_to_array_def)
  qed
qed

text \<open>The node at one place of a chain, with its neighbours.\<close>

lemma seg_at:
  assumes "seg m 0 p (map jt_root (us @ t # vs)) 0"
  obtains n where "seg m 0 p (map jt_root us) (jt_root t)" "m (jt_root t) = Some n"
    "h_prev n = last (0 # map jt_root us)" "seg m (jt_root t) (h_next n) (map jt_root vs) 0"
  using assms that by auto

lemma h_nth_at:
  assumes "seg (nodes h) 0 p (map jt_root (us @ t # vs)) 0"
  shows "h_nth h p (int (length us)) = Some (jt_root t)"
  using h_nth_seg [OF assms, of "length us"] by (simp add: nth_append)

definition set_next :: "(nat \<Rightarrow> 'd hnode option) \<Rightarrow> nat \<Rightarrow> nat \<Rightarrow> nat \<Rightarrow> 'd hnode option" where
  "set_next m a r = (if a = 0 then m else m(a := map_option (h_next_update (\<lambda>_. r)) (m a)))"

definition set_prev :: "(nat \<Rightarrow> 'd hnode option) \<Rightarrow> nat \<Rightarrow> nat \<Rightarrow> nat \<Rightarrow> 'd hnode option" where
  "set_prev m a r = (if a = 0 then m else m(a := map_option (h_prev_update (\<lambda>_. r)) (m a)))"

lemma set_other [simp]: "x \<noteq> a \<Longrightarrow> set_next m a r x = m x" "x \<noteq> a \<Longrightarrow> set_prev m a r x = m x"
  by (simp_all add: set_next_def set_prev_def)

lemma set_None [simp]: "set_next m a r x = None \<longleftrightarrow> m x = None" "set_prev m a r x = None \<longleftrightarrow> m x = None"
  by (simp_all add: set_next_def set_prev_def)

lemma set_next_links: "m x = Some n \<Longrightarrow> \<exists>n'. set_next m a r x = Some n' \<and> same_but_links n n' \<and> h_prev n' = h_prev n"
  by (cases "x = a") (auto simp: set_next_def)

lemma set_prev_links: "m x = Some n \<Longrightarrow> \<exists>n'. set_prev m a r x = Some n' \<and> same_but_links n n' \<and> h_next n' = h_next n"
  by (cases "x = a") (auto simp: set_prev_def)

lemma seg_set_prev': "seg m b q xs r \<Longrightarrow> distinct xs \<Longrightarrow> q \<notin> set xs \<or> xs \<noteq> [] \<Longrightarrow> xs = [] \<longrightarrow> q = 0 \<Longrightarrow> seg (set_prev m q c) c q xs r"
  by (cases xs) (auto simp: set_prev_def)

lemma seg_set_next': "seg m 0 p xs q \<Longrightarrow> distinct xs \<Longrightarrow>
    seg (set_next m (last (0 # xs)) r) 0 (if xs = [] then r else p) xs r"
  by (cases xs rule: rev_cases) (auto simp: set_next_def)

lemma seg_set_frame [simp]:
  "a \<notin> set xs \<Longrightarrow> seg (set_next m a r) b p xs q = seg m b p xs q"
  "a \<notin> set xs \<Longrightarrow> seg (set_prev m a r) b p xs q = seg m b p xs q"
  by (rule seg_cong; auto simp: set_next_def set_prev_def)+

text \<open>Unlinking the node at one place, as \<^verbatim>\<open>json_detach_item_from_array\<close> does it.\<close>

lemma upd_links:
  "nodes h a \<noteq> None \<or> a = 0 \<Longrightarrow>
     (if a \<noteq> 0 then upd_node h a (\<lambda>p. p\<lparr>h_next := r\<rparr>) else Some h) = Some (h\<lparr>nodes := set_next (nodes h) a r\<rparr>)"
  "nodes h a \<noteq> None \<or> a = 0 \<Longrightarrow>
     (if a \<noteq> 0 then upd_node h a (\<lambda>p. p\<lparr>h_prev := r\<rparr>) else Some h) = Some (h\<lparr>nodes := set_prev (nodes h) a r\<rparr>)"
  by (auto simp: upd_node_def set_next_def set_prev_def)

lemma seg_end_alive: "seg m 0 p xs q \<Longrightarrow> last (0 # xs) = 0 \<or> m (last (0 # xs)) \<noteq> None"
  by (cases xs rule: rev_cases) auto

lemma seg_start_alive: "seg m b q xs 0 \<Longrightarrow> m q \<noteq> None \<or> q = 0"
  by (cases xs) auto

lemma json_detach_children:
  assumes ch: "children h array (us @ t # vs)"
  shows "\<exists>h'. json_detach_item_from_array h array (int (length us)) = Some (h', jt_root t) \<and>
    children h' array (us @ vs) \<and> detached h' t \<and> apart array (us @ vs) t \<and> strs h' = strs h \<and>
    (\<forall>a. nodes h' a = None \<longleftrightarrow> nodes h a = None)"
proof -
  obtain an where an: "nodes h array = Some an" "seg (nodes h) 0 (h_child an) (map jt_root (us @ t # vs)) 0"
    "\<forall>t \<in> set (us @ t # vs). tree_at h t" "array \<notin> set (forest_nodes (us @ t # vs))"
    "distinct (forest_nodes (us @ t # vs))" "distinct (forest_strs (us @ t # vs))" using ch by (rule childrenE)
  let ?c = "jt_root t"
  obtain b where bd: "last (0 # map jt_root us) = b" by simp
  obtain n where n: "seg (nodes h) 0 (h_child an) (map jt_root us) ?c" "nodes h ?c = Some n" "h_prev n = b"
    "seg (nodes h) ?c (h_next n) (map jt_root vs) 0" using seg_at [OF an(2)] unfolding bd by metis
  let ?q = "h_next n"
  have dist: "distinct (array # map jt_root (us @ t # vs))" using an(4,5) by (intro roots_distinct') simp
  have c0: "?c \<noteq> 0" using an(3) tree_root_alive [of h t] by auto
  have b: "b = 0 \<or> b \<in> set (map jt_root us)" using last_in_set [of "map jt_root us"] bd by auto
  have q: "?q = 0 \<or> ?q \<in> set (map jt_root vs)" using n(4) by (cases vs) auto
  have child: "?c = h_child an \<longleftrightarrow> us = []" using n(1) dist by (cases us) auto
  obtain p where p: "p = (if us = [] then ?q else h_child an)" by simp
  let ?m1 = "set_next (nodes h) b ?q"
  let ?m2 = "set_prev ?m1 ?q b"
  let ?m4 = "?m2(array \<mapsto> an\<lparr>h_child := p\<rparr>, ?c \<mapsto> n\<lparr>h_prev := 0, h_next := 0\<rparr>)"
  have dj: "array \<notin> set (map jt_root us)" "array \<notin> set (map jt_root vs)" "?c \<notin> set (map jt_root us)"
    "?c \<notin> set (map jt_root vs)" "set (map jt_root us) \<inter> set (map jt_root vs) = {}"
    "distinct (map jt_root us)" "distinct (map jt_root vs)" "array \<noteq> ?c"
    using dist by auto
  have qb: "array \<noteq> ?c" "array \<noteq> b \<or> b = 0" "array \<noteq> ?q \<or> ?q = 0" "?c \<noteq> b" "?c \<noteq> ?q"
    using b q dist c0 by auto
  have keep: "?m2 array = Some an" "?m2 ?c = Some n"
    using an(1) n(2) qb by (auto simp: set_next_def set_prev_def)
  have op: "json_detach_item_from_array h array (int (length us)) = Some (h\<lparr>nodes := ?m4\<rparr>, ?c)"
  proof -
    have "nodes h b \<noteq> None \<or> b = 0" using seg_end_alive [OF n(1)] unfolding bd by auto
    then have s1: "(if h_prev n \<noteq> 0 then upd_node h (h_prev n) (\<lambda>p. p\<lparr>h_next := ?q\<rparr>) else Some h) =
        Some (h\<lparr>nodes := ?m1\<rparr>)" unfolding n(3) by (rule upd_links(1))
    have "nodes (h\<lparr>nodes := ?m1\<rparr>) ?q \<noteq> None \<or> ?q = 0" using seg_start_alive [OF n(4)] by simp
    from upd_links(2) [OF this, of b] have s2: "(if ?q \<noteq> 0 then upd_node (h\<lparr>nodes := ?m1\<rparr>) ?q (\<lambda>p. p\<lparr>h_prev := h_prev n\<rparr>)
        else Some (h\<lparr>nodes := ?m1\<rparr>)) = Some (h\<lparr>nodes := ?m2\<rparr>)" unfolding n(3) by simp
    have "?m2(array \<mapsto> an) = ?m2" using keep(1) by auto
    then have s3: "(if ?c = h_child an then upd_node (h\<lparr>nodes := ?m2\<rparr>) array (\<lambda>p. p\<lparr>h_child := ?q\<rparr>)
        else Some (h\<lparr>nodes := ?m2\<rparr>)) =
        Some (h\<lparr>nodes := ?m2(array \<mapsto> an\<lparr>h_child := p\<rparr>)\<rparr>)"
      using keep(1) child p by (auto simp: upd_node_def)
    have s4: "upd_node (h\<lparr>nodes := ?m2(array \<mapsto> an\<lparr>h_child := p\<rparr>)\<rparr>) ?c
        (\<lambda>p. p\<lparr>h_prev := 0, h_next := 0\<rparr>) = Some (h\<lparr>nodes := ?m4\<rparr>)"
      using keep(2) qb(1) by (simp add: upd_node_def)
    show ?thesis
      unfolding json_detach_item_from_array_def
      using an(1) h_nth_at [OF an(2)] n(2) c0 keep(1) s1 s2 s3 s4 by simp
  qed
  let ?h1 = "h\<lparr>nodes := ?m2(?c \<mapsto> n\<lparr>h_prev := 0, h_next := 0\<rparr>)\<rparr>"
  let ?R = "set (map jt_root us) \<union> set (map jt_root vs) \<union> {?c}"
  have h': "h\<lparr>nodes := ?m4\<rparr> = ?h1\<lparr>nodes := (nodes ?h1)(array \<mapsto> an\<lparr>h_child := p\<rparr>)\<rparr>"
    using dj(8) by (simp add: fun_upd_twist)
  have rel: "relinked h ?h1 ?R"
    unfolding relinked_def
  proof (intro conjI allI impI)
    fix a assume "a \<notin> ?R"
    then have "(a \<noteq> b \<or> b = 0) \<and> (a \<noteq> ?q \<or> ?q = 0) \<and> a \<noteq> ?c" using b q by auto
    then show "nodes ?h1 a = nodes h a" by (auto simp: set_next_def set_prev_def)
  next
    fix a k assume k: "nodes h a = Some k"
    obtain k1 where k1: "?m1 a = Some k1" "same_but_links k k1"
      using set_next_links [where m = "nodes h", OF k] by blast
    obtain k2 where "?m2 a = Some k2" "same_but_links k1 k2"
      using set_prev_links [where m = "?m1", OF k1(1)] by blast
    then show "\<exists>n'. nodes ?h1 a = Some n' \<and> same_but_links k n'"
      using k k1(2) n(2) same_but_links_trans by auto
  qed simp
  have "seg ?m1 0 p (map jt_root us) ?q" using seg_set_next' [OF n(1) dj(6), of "?q"] unfolding bd p by simp
  moreover have "?q \<notin> set (map jt_root us)" using q dj(5) seg_nonzero [OF n(1)] by auto
  moreover have "seg ?m1 ?c ?q (map jt_root vs) 0"
    using n(4) b dj(5) seg_nonzero [OF n(4)] by (subst seg_set_frame) auto
  then have "seg ?m2 b ?q (map jt_root vs) 0"
    using dj(7) by (intro seg_set_prev') auto
  ultimately have sg: "seg (nodes ?h1) 0 p (map jt_root (us @ vs)) 0"
    using dj(3,4) bd by (auto simp del: last.simps)
  have fp: "distinct (array # forest_nodes (us @ vs))" "distinct (forest_strs (us @ vs))"
    "?c \<notin> set (forest_nodes (us @ vs))" "apart array (us @ vs) t" "distinct (tree_nodes t)" "distinct (tree_strs t)"
    using an(4-6) by (auto simp: apart_def disjoint_iff dest: spec [of _ "jt_root t"])
  have ch': "children (h\<lparr>nodes := ?m4\<rparr>) array (us @ vs)"
  proof (rule children_relinked [OF rel _ fp(1,2) _ _ sg h'])
    show "set (forest_nodes (us @ vs)) \<inter> ?R \<subseteq> set (map jt_root (us @ vs))" using fp(3) by auto
  qed (use an(3) keep(1) dj(8) in auto)
  have "set (tree_nodes t) \<inter> ?R \<subseteq> {?c}"
    using fp(4) roots_in_forest [of us] roots_in_forest [of vs] by (auto simp: apart_def)
  then have "tree_at ?h1 t" using tree_relinked [OF rel _ fp(5)] an(3) by simp
  moreover have "tree_at (h\<lparr>nodes := ?m4\<rparr>) t = tree_at ?h1 t"
    using fp(4) unfolding h' by (intro tree_at_cong) (auto simp: apart_def)
  ultimately have "detached (h\<lparr>nodes := ?m4\<rparr>) t" using fp(5,6) by (simp add: detached_def)
  moreover have "\<forall>a. ?m4 a = None \<longleftrightarrow> nodes h a = None" using an(1) n(2) by simp
  ultimately show ?thesis using op ch' fp(4) by auto
qed

lemma detached_delete:
  assumes "detached h t"
  shows "json_delete h (jt_root t) = Some (freed h (tree_nodes t) (tree_strs t))"
proof -
  obtain n where "tree_at h t" "distinct (tree_nodes t)" "distinct (tree_strs t)" "nodes h (jt_root t) = Some n"
    "h_next n = 0" "h_prev n = 0" using assms by (auto simp: detached_def)
  then show ?thesis
    using json_delete_forest [of h 0 "jt_root t" "[t]"] tree_root_alive [of h t] by simp
qed

lemma children_freed:
  assumes "children h array ts" "set ns \<inter> set (array # forest_nodes ts) = {}" "set ss \<inter> set (forest_strs ts) = {}"
  shows "children (freed h ns ss) array ts"
proof -
  have "tree_at (freed h ns ss) t = tree_at h t" if "t \<in> set ts" for t
    using tree_in_forest [OF that] assms(2,3) by (intro tree_at_cong) auto
  moreover have "seg (nodes (freed h ns ss)) 0 p (map jt_root ts) 0 = seg (nodes h) 0 p (map jt_root ts) 0" for p
    using roots_in_forest [of ts] assms(2) by (intro seg_cong) auto
  ultimately show ?thesis using assms(1,2) by (auto simp: children_def)
qed

lemma json_delete_item_children:
  assumes ch: "children h array (us @ t # vs)"
  shows "\<exists>h'. json_delete_item_from_array h array (int (length us)) = Some h' \<and> children h' array (us @ vs) \<and>
    (\<forall>a. nodes h' a = None \<longleftrightarrow> nodes h a = None \<or> a \<in> set (tree_nodes t)) \<and>
    (\<forall>x. strs h' x = (if x \<in> set (tree_strs t) then None else strs h x))"
proof -
  obtain h1 where h1: "json_detach_item_from_array h array (int (length us)) = Some (h1, jt_root t)"
    "children h1 array (us @ vs)" "detached h1 t" "apart array (us @ vs) t" "strs h1 = strs h"
    "\<forall>a. nodes h1 a = None \<longleftrightarrow> nodes h a = None" using json_detach_children [OF ch] by blast
  have "children (freed h1 (tree_nodes t) (tree_strs t)) array (us @ vs)"
    using h1(2,4) by (intro children_freed) (auto simp: apart_def)
  then show ?thesis
    using h1 detached_delete [OF h1(3)] by (auto simp: json_delete_item_from_array_def)
qed

lemma json_replace_children:
  assumes ch: "children h array (us @ t # vs)" and det: "detached h t'" and ap: "apart array (us @ t # vs) t'"
  shows "\<exists>h'. json_replace_item_in_array h array (int (length us)) (jt_root t') = Some h' \<and>
    children h' array (us @ t' # vs) \<and>
    (\<forall>a. nodes h' a = None \<longleftrightarrow> nodes h a = None \<or> a \<in> set (tree_nodes t)) \<and>
    (\<forall>x. strs h' x = (if x \<in> set (tree_strs t) then None else strs h x))"
proof -
  obtain an where an: "nodes h array = Some an" "seg (nodes h) 0 (h_child an) (map jt_root (us @ t # vs)) 0"
    "\<forall>t \<in> set (us @ t # vs). tree_at h t" "array \<notin> set (forest_nodes (us @ t # vs))"
    "distinct (forest_nodes (us @ t # vs))" "distinct (forest_strs (us @ t # vs))" using ch by (rule childrenE)
  obtain nr where nr: "nodes h (jt_root t') = Some nr" "tree_at h t'" "distinct (tree_nodes t')" "distinct (tree_strs t')"
    using det by (auto simp: detached_def)
  let ?c = "jt_root t" and ?r = "jt_root t'"
  obtain b where bd: "last (0 # map jt_root us) = b" by simp
  obtain n where n: "seg (nodes h) 0 (h_child an) (map jt_root us) ?c" "nodes h ?c = Some n" "h_prev n = b"
    "seg (nodes h) ?c (h_next n) (map jt_root vs) 0" using seg_at [OF an(2)] unfolding bd by metis
  let ?q = "h_next n"
  have fp: "distinct (array # forest_nodes (us @ t' # vs))" "distinct (forest_strs (us @ t' # vs))"
    "distinct (array # forest_nodes (us @ t # vs))" "?c \<notin> set (forest_nodes (us @ t' # vs))"
    "?r \<notin> set (array # forest_nodes (us @ t # vs))"
    "set (tree_nodes t) \<inter> set (array # forest_nodes (us @ t' # vs)) = {}"
    "set (tree_strs t) \<inter> set (forest_strs (us @ t' # vs)) = {}"
    using an(4-6) nr(3,4) ap by (auto simp: apart_def disjoint_iff dest: spec [of _ "jt_root t"] spec [of _ "jt_root t'"])
  note dist = roots_distinct' [OF fp(1)] roots_distinct' [OF fp(3)]
  have c0: "?c \<noteq> 0" "?r \<noteq> 0" using an(3) tree_root_alive [of h t] tree_root_alive [OF nr(2)] by auto
  have rc: "?r \<noteq> ?c" using fp(5) by auto
  have b: "b = 0 \<or> b \<in> set (map jt_root us)" using last_in_set [of "map jt_root us"] bd by auto
  have q: "?q = 0 \<or> ?q \<in> set (map jt_root vs)" using n(4) by (cases vs) auto
  have child: "?c = h_child an \<longleftrightarrow> us = []" using n(1) dist by (cases us) auto
  have b0: "b = 0 \<longleftrightarrow> us = []" using bd seg_nonzero [OF n(1)] last_in_set [of "map jt_root us"] by (cases us) auto
  have dj: "array \<notin> set (map jt_root us)" "array \<notin> set (map jt_root vs)" "?c \<notin> set (map jt_root us)"
    "?c \<notin> set (map jt_root vs)" "set (map jt_root us) \<inter> set (map jt_root vs) = {}"
    "distinct (map jt_root us)" "distinct (map jt_root vs)" "array \<noteq> ?c" "array \<noteq> ?r"
    "?r \<notin> set (map jt_root us)" "?r \<notin> set (map jt_root vs)"
    using dist by auto
  have ne: "array \<noteq> b \<or> b = 0" "array \<noteq> ?q \<or> ?q = 0" "?c \<noteq> b" "?c \<noteq> ?q" "?r \<noteq> b" "?r \<noteq> ?q"
    using b q dist c0 by auto
  obtain p where p: "p = (if us = [] then ?r else h_child an)" by simp
  let ?m1 = "(nodes h)(?r \<mapsto> nr\<lparr>h_next := ?q, h_prev := b\<rparr>)"
  let ?m2 = "set_prev ?m1 ?q ?r"
  let ?m3 = "set_next ?m2 b ?r"
  let ?m4 = "?m3(array \<mapsto> an\<lparr>h_child := p\<rparr>, ?c \<mapsto> n\<lparr>h_next := 0, h_prev := 0\<rparr>)"
  have keep: "?m2 array = Some an" "?m3 array = Some an" "?m3 ?c = Some n" "?m3 ?r = Some (nr\<lparr>h_next := ?q, h_prev := b\<rparr>)"
    using an(1) n(2) ne dj(8,9) rc by (auto simp: set_next_def set_prev_def)
  have sv: "seg ?m1 ?c ?q (map jt_root vs) 0" using n(4) dj(11) by simp
  have op: "(do { h \<leftarrow> upd_node h ?r (\<lambda>p. p\<lparr>h_next := ?q, h_prev := b\<rparr>);
       h \<leftarrow> (if ?q \<noteq> 0 then upd_node h ?q (\<lambda>p. p\<lparr>h_prev := ?r\<rparr>) else Some h);
       a \<leftarrow> nodes h array;
       h \<leftarrow> (if ?c = h_child a then upd_node h array (\<lambda>p. p\<lparr>h_child := ?r\<rparr>)
            else upd_node h b (\<lambda>p. p\<lparr>h_next := ?r\<rparr>));
       upd_node h ?c (\<lambda>p. p\<lparr>h_next := 0, h_prev := 0\<rparr>) }) = Some (h\<lparr>nodes := ?m4\<rparr>)"
  proof -
    have s1: "upd_node h ?r (\<lambda>p. p\<lparr>h_next := ?q, h_prev := b\<rparr>) = Some (h\<lparr>nodes := ?m1\<rparr>)"
      using nr(1) by (simp add: upd_node_def)
    have "nodes (h\<lparr>nodes := ?m1\<rparr>) ?q \<noteq> None \<or> ?q = 0" using seg_start_alive [OF sv] by simp
    from upd_links(2) [OF this, of "?r"] have s2: "(if ?q \<noteq> 0 then upd_node (h\<lparr>nodes := ?m1\<rparr>) ?q (\<lambda>p. p\<lparr>h_prev := ?r\<rparr>)
        else Some (h\<lparr>nodes := ?m1\<rparr>)) = Some (h\<lparr>nodes := ?m2\<rparr>)" by simp
    have "nodes h b \<noteq> None \<or> b = 0" using seg_end_alive [OF n(1)] unfolding bd by auto
    then have "nodes (h\<lparr>nodes := ?m2\<rparr>) b \<noteq> None \<or> b = 0" by auto
    from upd_links(1) [OF this, of "?r"]
    have "(if b \<noteq> 0 then upd_node (h\<lparr>nodes := ?m2\<rparr>) b (\<lambda>p. p\<lparr>h_next := ?r\<rparr>) else Some (h\<lparr>nodes := ?m2\<rparr>)) =
        Some (h\<lparr>nodes := ?m3\<rparr>)" by simp
    moreover have "?m3(array \<mapsto> an) = ?m3" using keep(2) by auto
    moreover have "us = [] \<Longrightarrow> ?m3 = ?m2" using b0 by (simp add: set_next_def)
    ultimately have s3: "(if ?c = h_child an then upd_node (h\<lparr>nodes := ?m2\<rparr>) array (\<lambda>p. p\<lparr>h_child := ?r\<rparr>)
        else upd_node (h\<lparr>nodes := ?m2\<rparr>) b (\<lambda>p. p\<lparr>h_next := ?r\<rparr>)) = Some (h\<lparr>nodes := ?m3(array \<mapsto> an\<lparr>h_child := p\<rparr>)\<rparr>)"
      using keep(1) child b0 p by (cases "us = []") (simp_all add: upd_node_def)
    have s4: "upd_node (h\<lparr>nodes := ?m3(array \<mapsto> an\<lparr>h_child := p\<rparr>)\<rparr>) ?c
        (\<lambda>p. p\<lparr>h_next := 0, h_prev := 0\<rparr>) = Some (h\<lparr>nodes := ?m4\<rparr>)"
      using keep(3) dj(8) by (simp add: upd_node_def)
    show ?thesis using s1 s2 s3 s4 keep(1) by simp
  qed
  let ?h1 = "h\<lparr>nodes := ?m3(?c \<mapsto> n\<lparr>h_next := 0, h_prev := 0\<rparr>)\<rparr>" and ?h4 = "h\<lparr>nodes := ?m4\<rparr>"
  let ?R = "set (map jt_root us) \<union> set (map jt_root vs) \<union> {?c, ?r}"
  have h': "?h4 = ?h1\<lparr>nodes := (nodes ?h1)(array \<mapsto> an\<lparr>h_child := p\<rparr>)\<rparr>"
    using dj(8) by (simp add: fun_upd_twist)
  have rel: "relinked h ?h1 ?R"
    unfolding relinked_def
  proof (intro conjI allI impI)
    fix a assume "a \<notin> ?R"
    then have "(a \<noteq> b \<or> b = 0) \<and> (a \<noteq> ?q \<or> ?q = 0) \<and> a \<noteq> ?c \<and> a \<noteq> ?r" using b q by auto
    then show "nodes ?h1 a = nodes h a" by (auto simp: set_next_def set_prev_def)
  next
    fix a k assume k: "nodes h a = Some k"
    then obtain k0 where k0: "?m1 a = Some k0" "same_but_links k k0" using nr(1) by (cases "a = ?r") auto
    obtain k1 where k1: "?m2 a = Some k1" "same_but_links k0 k1"
      using set_prev_links [where m = "?m1", OF k0(1)] by blast
    obtain k2 where k2: "?m3 a = Some k2" "same_but_links k1 k2"
      using set_next_links [where m = "?m2", OF k1(1)] by blast
    have "same_but_links k k2" using k0(2) k1(2) k2(2) same_but_links_trans by blast
    then show "\<exists>n'. nodes ?h1 a = Some n' \<and> same_but_links k n'" using k k2(1) n(2) by auto
  qed simp
  have "?q \<notin> set (map jt_root us)" using q dj(5) seg_nonzero [OF n(1)] by auto
  then have "seg ?m2 0 (h_child an) (map jt_root us) ?c" using n(1) dj(10) by simp
  from seg_set_next' [OF this dj(6), of "?r"] have s1: "seg ?m3 0 p (map jt_root us) ?r" unfolding bd p by simp
  have "seg ?m2 ?r ?q (map jt_root vs) 0" using sv dj(7) by (intro seg_set_prev') auto
  moreover have "b \<notin> set (map jt_root vs)" using b dj(5) seg_nonzero [OF n(4)] by auto
  ultimately have "seg ?m3 ?r ?q (map jt_root vs) 0" by simp
  with s1 have sg: "seg (nodes ?h1) 0 p (map jt_root (us @ t' # vs)) 0"
    using dj(3,4) bd keep(4) c0 rc by (auto simp del: last.simps)
  have all: "\<forall>u \<in> set (us @ t' # vs). tree_at h u" using an(3) nr(2) by auto
  have ch': "children ?h4 array (us @ t' # vs)"
  proof (rule children_relinked [OF rel all fp(1,2) _ _ sg h'])
    show "set (forest_nodes (us @ t' # vs)) \<inter> ?R \<subseteq> set (map jt_root (us @ t' # vs))" using fp(4) by auto
  qed (use keep(2) dj(8) in auto)
  have "set (tree_nodes t) \<inter> ?R \<subseteq> {?c}"
    using fp(6) roots_in_forest [of us] roots_in_forest [of vs] roots_in_forest [of "us @ t' # vs"] by auto
  then have "tree_at ?h1 t" using tree_relinked [OF rel _ forest_root_only [THEN conjunct1], of t "us @ t # vs"] an(3) fp(3) by simp
  moreover have "tree_at ?h4 t = tree_at ?h1 t"
    using fp(6) unfolding h' by (intro tree_at_cong) auto
  ultimately have "detached ?h4 t" using fp(3) an(6) by (simp add: detached_def)
  from detached_delete [OF this]
  have del: "json_delete ?h4 ?c = Some (freed ?h4 (tree_nodes t) (tree_strs t))" .
  have "children (freed ?h4 (tree_nodes t) (tree_strs t)) array (us @ t' # vs)"
    using ch' fp(6,7) by (intro children_freed) auto
  moreover have "\<forall>a. ?m4 a = None \<longleftrightarrow> nodes h a = None" using an(1) n(2) nr(1) by simp
  moreover have "json_replace_item_in_array h array (int (length us)) ?r = Some (freed ?h4 (tree_nodes t) (tree_strs t))"
    using arg_cong [OF op, of "\<lambda>x. Option.bind x (\<lambda>h. json_delete h ?c)"] c0
    by (simp add: json_replace_item_in_array_def an(1) h_nth_at [OF an(2)] n(2,3) del Option.bind_assoc cong: if_cong)
  ultimately show ?thesis by auto
qed

section \<open>The operations are the operations on lists\<close>

text \<open>C36: json_edit_refines. For an array whose children are the trees \<open>ts\<close> in memory (a chain with the links of
  both directions, every node and every owned string allocated once), the operations of \<^verbatim>\<open>json.c\<close> do not touch
  memory that is not allocated and do on the list of children what their names say: the size, the item at an
  index, a detached tree added at the end, an item detached (and then standing alone, with its links cleared),
  deleted or replaced, where the nodes and the strings of the removed item, and nothing else, are freed.\<close>

theorem json_edit_refines:
  assumes "children h array ts" "i < length ts" "detached h t" "apart array ts t"
  shows "json_get_array_size h array = Some (int (length ts)) \<and>
    json_get_array_item h array (int i) = Some (jt_root (ts ! i)) \<and>
    (\<exists>h'. json_add_item_to_array h array (jt_root t) = Some h' \<and> children h' array (ts @ [t]) \<and> strs h' = strs h) \<and>
    (\<exists>h'. json_detach_item_from_array h array (int i) = Some (h', jt_root (ts ! i)) \<and>
       children h' array (take i ts @ drop (Suc i) ts) \<and> detached h' (ts ! i) \<and>
       apart array (take i ts @ drop (Suc i) ts) (ts ! i) \<and> strs h' = strs h) \<and>
    (\<exists>h'. json_delete_item_from_array h array (int i) = Some h' \<and>
       children h' array (take i ts @ drop (Suc i) ts) \<and>
       (\<forall>a. nodes h' a = None \<longleftrightarrow> nodes h a = None \<or> a \<in> set (tree_nodes (ts ! i))) \<and>
       (\<forall>x. strs h' x = (if x \<in> set (tree_strs (ts ! i)) then None else strs h x))) \<and>
    (\<exists>h'. json_replace_item_in_array h array (int i) (jt_root t) = Some h' \<and>
       children h' array (ts[i := t]) \<and>
       (\<forall>a. nodes h' a = None \<longleftrightarrow> nodes h a = None \<or> a \<in> set (tree_nodes (ts ! i))) \<and>
       (\<forall>x. strs h' x = (if x \<in> set (tree_strs (ts ! i)) then None else strs h x)))"
proof -
  have len: "length (take i ts) = i" using assms(2) by simp
  have ch: "children h array (take i ts @ ts ! i # drop (Suc i) ts)"
    using assms(1) by (simp add: id_take_nth_drop [OF assms(2), symmetric])
  have ap: "apart array (take i ts @ ts ! i # drop (Suc i) ts) t"
    using assms(4) by (simp add: id_take_nth_drop [OF assms(2), symmetric])
  obtain n where n: "nodes h array = Some n" "seg (nodes h) 0 (h_child n) (map jt_root ts) 0"
    using assms(1) by (rule childrenE)
  have "json_get_array_size h array = Some (int (length ts))"
    using n(1) h_count_seg [OF n(2)] by (simp add: json_get_array_size_def)
  moreover have "json_get_array_item h array (int i) = Some (jt_root (ts ! i))"
    using n(1) h_nth_seg [OF n(2)] assms(2) by (simp add: json_get_array_item_def)
  moreover note json_add_children [OF assms(1,3,4)]
  moreover note json_detach_children [OF ch, unfolded len]
  moreover note json_delete_item_children [OF ch, unfolded len]
  moreover note json_replace_children [OF ch assms(3) ap, unfolded len upd_conv_take_nth_drop [OF assms(2), symmetric]]
  ultimately show ?thesis by blast
qed

text \<open>An array of two numbers, the second with a name, and a number that stands alone.\<close>

definition node_sample :: "nat \<Rightarrow> nat \<Rightarrow> nat \<Rightarrow> int hnode" where
  "node_sample nxt prv ch = \<lparr>h_next = nxt, h_prev = prv, h_child = ch, h_type = 3, h_valuestring = 0, h_valueint = 7,
     h_valuedouble = 7, h_string = 0, h_print_out = 0, h_print_fmt = 0\<rparr>"

definition heap_sample :: "int jheap" where
  "heap_sample = \<lparr>nodes = [1 \<mapsto> node_sample 0 0 2, 2 \<mapsto> node_sample 3 0 0, 3 \<mapsto> (node_sample 0 2 0)\<lparr>h_string := 10\<rparr>,
     4 \<mapsto> node_sample 0 0 0], strs = [10 \<mapsto> [97]]\<rparr>"

lemma json_edit_refines_witness:
  "\<exists>h'. json_replace_item_in_array heap_sample 1 1 4 = Some h' \<and> children h' 1 [JT 2 [] [], JT 4 [] []]"
proof -
  note defs = heap_sample_def node_sample_def owned_strs_def is_reference_def forest_nodes_def forest_strs_def
  have "children heap_sample 1 [JT 2 [] [], JT 3 [10] []]" by (simp add: children_def defs)
  moreover have "detached heap_sample (JT 4 [] [])" by (simp add: detached_def defs)
  moreover have "apart 1 [JT 2 [] [], JT 3 [10] []] (JT 4 [] [])" by (simp add: apart_def defs)
  ultimately show ?thesis
    using json_edit_refines [of heap_sample 1 "[JT 2 [] [], JT 3 [10] []]" 1 "JT 4 [] []"] by auto
qed

end
