(* ===== verification/JsonScript.thy ===== *)
theory JsonScript
  imports CText Blobmsg
begin

text \<open>
  \<^verbatim>\<open>json_script.c\<close>: the interpreter of scripts that are blobmsg values. A value is the tree of its
  attributes, as the loops and the table parsers of \<^verbatim>\<open>blobmsg.c\<close> walk it; a string is what stands
  before its terminator, and the values have passed \<^verbatim>\<open>blobmsg_check_attr\<close>. The context (\<^verbatim>\<open>struct json_script_ctx\<close>) with the loaded files and what the
  callbacks keep is passed through; the callbacks are parameters that may change any part of it, call
  \<^verbatim>\<open>json_script_abort\<close>, or load files. A result \<^const>\<open>None\<close> means that the code reads what is not there
  (the first element of an empty array, a file that was freed), or that the fuel is used up.
\<close>

section \<open>Values\<close>

datatype attr =
    Str (attr_name: bytes) bytes
  | Arr (attr_name: bytes) "attr list"
  | Tab (attr_name: bytes) "attr list"
  | Scalar (attr_name: bytes) int bytes

fun attr_type :: "attr \<Rightarrow> int" where
  "attr_type (Str _ _) = BLOBMSG_TYPE_STRING"
| "attr_type (Arr _ _) = BLOBMSG_TYPE_ARRAY"
| "attr_type (Tab _ _) = BLOBMSG_TYPE_TABLE"
| "attr_type (Scalar _ ty _) = ty"

text \<open>What \<^verbatim>\<open>blobmsg_for_each_attr\<close> runs through, and \<^verbatim>\<open>blobmsg_data\<close> of a string.\<close>

fun elements :: "attr \<Rightarrow> attr list" where
  "elements (Arr _ as) = as"
| "elements (Tab _ as) = as"
| "elements _ = []"

fun str_data :: "attr \<Rightarrow> bytes" where
  "str_data (Str _ s) = s"
| "str_data _ = []"

text \<open>\<^verbatim>\<open>blobmsg_parse_array\<close>: an element of another type than the next entry of the policy is skipped.\<close>

fun parse_tuple :: "int list \<Rightarrow> attr list \<Rightarrow> attr option list" where
  "parse_tuple [] as = []"
| "parse_tuple (ty # tys) [] = None # parse_tuple tys []"
| "parse_tuple (ty # tys) (a # as) =
     (if ty \<noteq> BLOBMSG_TYPE_UNSPEC \<and> attr_type a \<noteq> ty then parse_tuple (ty # tys) as
      else Some a # parse_tuple tys as)"

definition ascii :: "string \<Rightarrow> bytes" where
  "ascii s = map of_char s"

section \<open>The context\<close>

record jfile =
  f_key :: "bytes option"
  f_next :: nat
  f_seq :: u32
  f_data :: attr

text \<open>\<open>last_seq\<close> is the static counter of \<^verbatim>\<open>json_script_run_file\<close>.\<close>

record 'w jctx =
  files :: "bytes option \<Rightarrow> nat option"
  store :: "nat \<Rightarrow> jfile option"
  last_seq :: u32
  aborted :: bool
  world :: 'w

record 'w handlers =
  handle_command :: "bytes \<Rightarrow> attr \<Rightarrow> attr \<Rightarrow> 'w jctx \<Rightarrow> 'w jctx"
  handle_error :: "string \<Rightarrow> attr \<Rightarrow> 'w jctx \<Rightarrow> 'w jctx"
  handle_var :: "bytes \<Rightarrow> attr \<Rightarrow> 'w jctx \<Rightarrow> 'w jctx \<times> bytes option"
  handle_file :: "bytes \<Rightarrow> 'w jctx \<Rightarrow> 'w jctx \<times> nat"
  regcomp :: "bytes \<Rightarrow> (bytes \<Rightarrow> bool) option"

record jcall =
  call_vars :: attr
  call_seq :: u32

text \<open>\<^verbatim>\<open>json_script_abort\<close>, for the callbacks.\<close>

definition json_script_abort :: "'w jctx \<Rightarrow> 'w jctx" where
  "json_script_abort ctx = ctx\<lparr>aborted := True\<rparr>"

definition json_script_file_from_blobmsg :: "bytes option \<Rightarrow> attr \<Rightarrow> jfile" where
  "json_script_file_from_blobmsg name data = \<lparr>f_key = name, f_next = 0, f_seq = 0, f_data = data\<rparr>"

text \<open>A lookup compares the name with the keys; a file without a name has the key NULL.\<close>

definition json_script_get_file :: "'w handlers \<Rightarrow> bytes \<Rightarrow> 'w jctx \<Rightarrow> ('w jctx \<times> nat) option" where
  "json_script_get_file H filename ctx =
     (if files ctx None \<noteq> None then None
      else case files ctx (Some filename) of Some f \<Rightarrow> Some (ctx, f)
      | None \<Rightarrow>
        (case handle_file H filename ctx of (ctx, f) \<Rightarrow>
           if f = 0 then Some (ctx, 0)
           else do { r \<leftarrow> store ctx f;
                     if files ctx \<noteq> Map.empty \<and> (f_key r = None \<or> files ctx None \<noteq> None) then None
                     else if files ctx (f_key r) \<noteq> None then Some (ctx, f)
                     else Some (ctx\<lparr>files := (files ctx)(f_key r \<mapsto> f)\<rparr>, f) }))"

text \<open>\<^verbatim>\<open>__json_script_run\<close> without the test and the mark: a file and those chained behind it.\<close>

primrec run_chain :: "nat \<Rightarrow> (attr \<Rightarrow> 'w jctx \<Rightarrow> ('w jctx \<times> int) option) \<Rightarrow> nat \<Rightarrow> 'w jctx \<Rightarrow> 'w jctx option" where
  "run_chain 0 P file ctx = None"
| "run_chain (Suc k) P file ctx =
     (if file = 0 then Some ctx
      else do { r \<leftarrow> store ctx file;
                (ctx, _) \<leftarrow> P (f_data r) ctx;
                r \<leftarrow> store ctx file;
                run_chain k P (f_next r) ctx })"

definition script_run :: "nat \<Rightarrow> (attr \<Rightarrow> 'w jctx \<Rightarrow> ('w jctx \<times> int) option) \<Rightarrow> 'w handlers \<Rightarrow> jcall \<Rightarrow> nat \<Rightarrow>
    attr option \<Rightarrow> 'w jctx \<Rightarrow> 'w jctx option" where
  "script_run n P H call file context ctx =
     do { r \<leftarrow> store ctx file;
          if f_seq r = call_seq call
          then Some (case context of None \<Rightarrow> ctx | Some c \<Rightarrow> handle_error H ''Recursive include'' c ctx)
          else run_chain n P file (ctx\<lparr>store := (store ctx)(file \<mapsto> r\<lparr>f_seq := call_seq call\<rparr>)\<rparr>) }"

section \<open>Variables\<close>

definition json_script_find_var :: "'w handlers \<Rightarrow> attr \<Rightarrow> bytes \<Rightarrow> 'w jctx \<Rightarrow> 'w jctx \<times> bytes option" where
  "json_script_find_var H vars name ctx =
     (case find (\<lambda>cur. attr_type cur = BLOBMSG_TYPE_STRING \<and> attr_name cur = name) (elements vars) of
        Some cur \<Rightarrow> (ctx, Some (str_data cur))
      | None \<Rightarrow> handle_var H name vars ctx)"

definition msg_find_var :: "'w handlers \<Rightarrow> jcall \<Rightarrow> bytes \<Rightarrow> 'w jctx \<Rightarrow> 'w jctx \<times> bytes option" where
  "msg_find_var H call name ctx = json_script_find_var H (call_vars call) name ctx"

definition json_get_tuple :: "attr \<Rightarrow> int \<Rightarrow> int \<Rightarrow> attr option list" where
  "json_get_tuple cur t1 t2 = parse_tuple [BLOBMSG_TYPE_STRING, t1, t2] (elements cur)"

section \<open>Expressions\<close>

definition eq_regex_cmp :: "'w handlers \<Rightarrow> bytes \<Rightarrow> bytes \<Rightarrow> bool \<Rightarrow> bool" where
  "eq_regex_cmp H str pattern regex =
     (if \<not> regex then str = pattern
      else case regcomp H pattern of None \<Rightarrow> False | Some reg \<Rightarrow> reg str)"

fun eq_loop :: "'w handlers \<Rightarrow> bytes \<Rightarrow> bool \<Rightarrow> attr list \<Rightarrow> 'w jctx \<Rightarrow> 'w jctx \<times> int" where
  "eq_loop H var regex [] ctx = (ctx, 0)"
| "eq_loop H var regex (cur # as) ctx =
     (if attr_type cur \<noteq> BLOBMSG_TYPE_STRING then (handle_error H ''Unexpected element type'' cur ctx, -1)
      else if eq_regex_cmp H var (str_data cur) regex then (ctx, 1)
      else eq_loop H var regex as ctx)"

definition expr_eq_regex :: "bool \<Rightarrow> 'w handlers \<Rightarrow> jcall \<Rightarrow> attr \<Rightarrow> 'w jctx \<Rightarrow> 'w jctx \<times> int" where
  "expr_eq_regex regex H call expr ctx =
     (let tb = json_get_tuple expr BLOBMSG_TYPE_STRING 0 in
      case (tb ! 1, tb ! 2) of
        (Some a, Some b) \<Rightarrow>
          (case msg_find_var H call (str_data a) ctx of
             (ctx, None) \<Rightarrow> (ctx, 0)
           | (ctx, Some var) \<Rightarrow>
              if attr_type b = BLOBMSG_TYPE_STRING then (ctx, of_bool (eq_regex_cmp H var (str_data b) regex))
              else if attr_type b = BLOBMSG_TYPE_ARRAY then eq_loop H var regex (elements b) ctx
              else (handle_error H ''Unexpected element type'' b ctx, -1))
      | _ \<Rightarrow> (ctx, -1))"

definition handle_expr_eq :: "'w handlers \<Rightarrow> jcall \<Rightarrow> attr \<Rightarrow> 'w jctx \<Rightarrow> 'w jctx \<times> int" where
  "handle_expr_eq = expr_eq_regex False"

definition handle_expr_regex :: "'w handlers \<Rightarrow> jcall \<Rightarrow> attr \<Rightarrow> 'w jctx \<Rightarrow> 'w jctx \<times> int" where
  "handle_expr_regex = expr_eq_regex True"

fun has_loop :: "'w handlers \<Rightarrow> jcall \<Rightarrow> attr list \<Rightarrow> 'w jctx \<Rightarrow> 'w jctx \<times> int" where
  "has_loop H call [] ctx = (ctx, 0)"
| "has_loop H call (cur # as) ctx =
     (if attr_type cur \<noteq> BLOBMSG_TYPE_STRING then (handle_error H ''Unexpected element type'' cur ctx, -1)
      else case msg_find_var H call (str_data cur) ctx of
        (ctx, Some _) \<Rightarrow> (ctx, 1)
      | (ctx, None) \<Rightarrow> has_loop H call as ctx)"

definition handle_expr_has :: "'w handlers \<Rightarrow> jcall \<Rightarrow> attr \<Rightarrow> 'w jctx \<Rightarrow> 'w jctx \<times> int" where
  "handle_expr_has H call expr ctx =
     (case json_get_tuple expr 0 0 ! 1 of
        None \<Rightarrow> (ctx, -1)
      | Some a \<Rightarrow>
         if attr_type a = BLOBMSG_TYPE_STRING
         then (case msg_find_var H call (str_data a) ctx of (ctx, v) \<Rightarrow> (ctx, of_bool (v \<noteq> None)))
         else if attr_type a = BLOBMSG_TYPE_ARRAY then has_loop H call (elements a) ctx
         else (handle_error H ''Unexpected element type'' a ctx, -1))"

text \<open>The loop of \<^verbatim>\<open>expr_and_or\<close> after the first element, with \<^verbatim>\<open>json_process_expr\<close> as \<open>E\<close>.\<close>

fun and_or_loop :: "(attr \<Rightarrow> 'w jctx \<Rightarrow> ('w jctx \<times> int) option) \<Rightarrow> int \<Rightarrow> attr list \<Rightarrow> 'w jctx \<Rightarrow> ('w jctx \<times> int) option" where
  "and_or_loop E want [] ctx = Some (ctx, want)"
| "and_or_loop E want (cur # as) ctx =
     do { (ctx, ret) \<leftarrow> E cur ctx;
          if ret < 0 then Some (ctx, ret)
          else if ret \<noteq> want then Some (ctx, ret)
          else and_or_loop E want as ctx }"

definition expr_and_or :: "(attr \<Rightarrow> 'w jctx \<Rightarrow> ('w jctx \<times> int) option) \<Rightarrow> int \<Rightarrow> attr \<Rightarrow> 'w jctx \<Rightarrow> ('w jctx \<times> int) option" where
  "expr_and_or E want expr ctx = and_or_loop E want (tl (elements expr)) ctx"

definition handle_expr_not :: "(attr \<Rightarrow> 'w jctx \<Rightarrow> ('w jctx \<times> int) option) \<Rightarrow> attr \<Rightarrow> 'w jctx \<Rightarrow> ('w jctx \<times> int) option" where
  "handle_expr_not E expr ctx =
     (case json_get_tuple expr BLOBMSG_TYPE_ARRAY 0 ! 1 of
        None \<Rightarrow> Some (ctx, -1)
      | Some a \<Rightarrow> do { (ctx, ret) \<leftarrow> E a ctx;
                       if ret < 0 then Some (ctx, ret) else Some (ctx, of_bool (ret = 0)) })"

text \<open>The tables of handlers; \<^verbatim>\<open>__json_process_type\<close> takes the first one of the name.\<close>

definition expr_handlers ::
  "(attr \<Rightarrow> 'w jctx \<Rightarrow> ('w jctx \<times> int) option) \<Rightarrow> 'w handlers \<Rightarrow> jcall \<Rightarrow>
     (bytes \<times> (attr \<Rightarrow> 'w jctx \<Rightarrow> ('w jctx \<times> int) option)) list" where
  "expr_handlers E H call =
     [(ascii ''eq'', \<lambda>cur ctx. Some (handle_expr_eq H call cur ctx)),
      (ascii ''regex'', \<lambda>cur ctx. Some (handle_expr_regex H call cur ctx)),
      (ascii ''has'', \<lambda>cur ctx. Some (handle_expr_has H call cur ctx)),
      (ascii ''and'', expr_and_or E 1),
      (ascii ''or'', expr_and_or E 0),
      (ascii ''not'', handle_expr_not E)]"

text \<open>The name is the first element of the array, which the code takes without asking whether there is one.\<close>

definition head_of :: "attr \<Rightarrow> attr option" where
  "head_of cur = (case elements cur of [] \<Rightarrow> None | a # _ \<Rightarrow> Some a)"

definition process_expr_with ::
  "(attr \<Rightarrow> 'w jctx \<Rightarrow> ('w jctx \<times> int) option) \<Rightarrow> 'w handlers \<Rightarrow> jcall \<Rightarrow> attr \<Rightarrow> 'w jctx \<Rightarrow> ('w jctx \<times> int) option" where
  "process_expr_with E H call cur ctx =
     (if attr_type cur \<noteq> BLOBMSG_TYPE_ARRAY then Some (handle_error H ''Unexpected element type'' cur ctx, -1)
      else do { hd \<leftarrow> head_of cur;
                if attr_type hd \<noteq> BLOBMSG_TYPE_STRING
                then Some (handle_error H ''Unexpected element type'' cur ctx, -1)
                else case map_of (expr_handlers E H call) (str_data hd) of
                  Some h \<Rightarrow> h cur ctx
                | None \<Rightarrow> Some (handle_error H ''Unknown expression type'' cur ctx, -1) })"

primrec json_process_expr :: "nat \<Rightarrow> 'w handlers \<Rightarrow> jcall \<Rightarrow> attr \<Rightarrow> 'w jctx \<Rightarrow> ('w jctx \<times> int) option" where
  "json_process_expr 0 H call cur ctx = None"
| "json_process_expr (Suc n) H call cur ctx = process_expr_with (json_process_expr n H call) H call cur ctx"

section \<open>Strings with variables\<close>

abbreviation c_percent :: u8 where "c_percent \<equiv> 0x25"

text \<open>One round of the loop of \<^verbatim>\<open>eval_string\<close>: what is appended for the piece up to the next \<open>%\<close>.\<close>

definition eval_piece :: "'w handlers \<Rightarrow> jcall \<Rightarrow> bool \<Rightarrow> bytes \<Rightarrow> 'w jctx \<Rightarrow> 'w jctx \<times> bytes" where
  "eval_piece H call cur_var str ctx =
     (if cur_var
      then if str \<noteq> []
           then (case msg_find_var H call str ctx of (ctx, None) \<Rightarrow> (ctx, []) | (ctx, Some cur) \<Rightarrow> (ctx, cur))
           else (ctx, [c_percent])
      else (ctx, str))"

lemma shorter_rest: "dropWhile p s \<noteq> [] \<Longrightarrow> length (tl (dropWhile p s)) < length s"
  using length_dropWhile_le [of p s] by (cases "dropWhile p s") auto

function eval_loop :: "'w handlers \<Rightarrow> jcall \<Rightarrow> bytes \<Rightarrow> bool \<Rightarrow> bytes \<Rightarrow> 'w jctx \<Rightarrow> 'w jctx \<times> bytes \<times> bool" where
  "eval_loop H call str var dest ctx =
     (let piece = takeWhile (\<lambda>c. c \<noteq> c_percent) str; rest = dropWhile (\<lambda>c. c \<noteq> c_percent) str in
      case eval_piece H call var piece ctx of (ctx, cur) \<Rightarrow>
        if rest = [] then (ctx, dest @ cur, var)
        else eval_loop H call (tl rest) (\<not> var) (dest @ cur) ctx)"
  by auto
termination
  by (relation "measure (\<lambda>(_, _, str, _). length str)") (simp_all del: length_tl add: shorter_rest)

definition eval_string :: "'w handlers \<Rightarrow> jcall \<Rightarrow> bytes \<Rightarrow> 'w jctx \<Rightarrow> 'w jctx \<times> bytes \<times> int" where
  "eval_string H call pattern ctx =
     (case eval_loop H call pattern False [] ctx of (ctx, dest, var) \<Rightarrow> (ctx, dest, if var then -1 else 0))"

definition json_script_eval_string :: "'w handlers \<Rightarrow> attr \<Rightarrow> bytes \<Rightarrow> 'w jctx \<Rightarrow> 'w jctx \<times> bytes \<times> int" where
  "json_script_eval_string H vars pattern ctx =
     eval_string H \<lparr>call_vars = vars, call_seq = 0\<rparr> pattern ctx"

text \<open>\<^verbatim>\<open>cmd_process_strings\<close>: the arguments of a command, its strings evaluated.\<close>

fun args_loop :: "'w handlers \<Rightarrow> jcall \<Rightarrow> attr \<Rightarrow> attr list \<Rightarrow> attr list \<Rightarrow> 'w jctx \<Rightarrow> 'w jctx \<times> attr list \<times> int" where
  "args_loop H call attr [] out ctx = (ctx, out, 0)"
| "args_loop H call attr (cur # as) out ctx =
     (if attr_type cur \<noteq> BLOBMSG_TYPE_STRING then args_loop H call attr as (out @ [cur]) ctx
      else case eval_string H call (str_data cur) ctx of (ctx, s, ret) \<Rightarrow>
        if ret \<noteq> 0 then (handle_error H ''Unterminated variable reference in string'' attr ctx, out @ [Str [] s], ret)
        else args_loop H call attr as (out @ [Str [] s]) ctx)"

definition cmd_process_strings :: "'w handlers \<Rightarrow> jcall \<Rightarrow> attr \<Rightarrow> 'w jctx \<Rightarrow> 'w jctx \<times> attr list \<times> int" where
  "cmd_process_strings H call attr ctx = args_loop H call attr (tl (elements attr)) [] ctx"

section \<open>Commands\<close>

definition handle_if ::
  "(attr \<Rightarrow> 'w jctx \<Rightarrow> ('w jctx \<times> int) option) \<Rightarrow> (attr \<Rightarrow> 'w jctx \<Rightarrow> ('w jctx \<times> int) option) \<Rightarrow> attr \<Rightarrow> 'w jctx \<Rightarrow>
     ('w jctx \<times> int) option" where
  "handle_if E P expr ctx =
     (let tb = parse_tuple [BLOBMSG_TYPE_STRING, BLOBMSG_TYPE_ARRAY, BLOBMSG_TYPE_ARRAY, BLOBMSG_TYPE_ARRAY] (elements expr) in
      case (tb ! 1, tb ! 2) of
        (Some a, Some b) \<Rightarrow>
          do { (ctx, ret) \<leftarrow> E a ctx;
               if ret < 0 then Some (ctx, 0)
               else if ret \<noteq> 0 then P b ctx
               else case tb ! 3 of None \<Rightarrow> Some (ctx, 0) | Some c \<Rightarrow> P c ctx }
      | _ \<Rightarrow> Some (ctx, 0))"

definition handle_case ::
  "(attr \<Rightarrow> 'w jctx \<Rightarrow> ('w jctx \<times> int) option) \<Rightarrow> 'w handlers \<Rightarrow> jcall \<Rightarrow> attr \<Rightarrow> 'w jctx \<Rightarrow> ('w jctx \<times> int) option" where
  "handle_case P H call expr ctx =
     (let tb = json_get_tuple expr BLOBMSG_TYPE_STRING BLOBMSG_TYPE_TABLE in
      case (tb ! 1, tb ! 2) of
        (Some a, Some b) \<Rightarrow>
          (case msg_find_var H call (str_data a) ctx of
             (ctx, None) \<Rightarrow> Some (ctx, 0)
           | (ctx, Some var) \<Rightarrow>
              (case find (\<lambda>cur. var = attr_name cur) (elements b) of
                 Some cur \<Rightarrow> P cur ctx
               | None \<Rightarrow> Some (ctx, 0)))
      | _ \<Rightarrow> Some (ctx, 0))"

definition handle_return :: "attr \<Rightarrow> 'w jctx \<Rightarrow> ('w jctx \<times> int) option" where
  "handle_return expr ctx = Some (ctx, -2)"

definition handle_include ::
  "nat \<Rightarrow> (attr \<Rightarrow> 'w jctx \<Rightarrow> ('w jctx \<times> int) option) \<Rightarrow> 'w handlers \<Rightarrow> jcall \<Rightarrow> attr \<Rightarrow> 'w jctx \<Rightarrow> ('w jctx \<times> int) option" where
  "handle_include n P H call expr ctx =
     (case json_get_tuple expr BLOBMSG_TYPE_STRING 0 ! 1 of
        None \<Rightarrow> Some (ctx, 0)
      | Some a \<Rightarrow>
         do { (ctx, f) \<leftarrow> json_script_get_file H (str_data a) ctx;
              if f = 0 then Some (ctx, 0)
              else do { ctx \<leftarrow> script_run n P H call f (Some expr) ctx; Some (ctx, 0) } })"

definition cmd_handlers ::
  "nat \<Rightarrow> (attr \<Rightarrow> 'w jctx \<Rightarrow> ('w jctx \<times> int) option) \<Rightarrow> (attr \<Rightarrow> 'w jctx \<Rightarrow> ('w jctx \<times> int) option) \<Rightarrow>
     'w handlers \<Rightarrow> jcall \<Rightarrow> (bytes \<times> (attr \<Rightarrow> 'w jctx \<Rightarrow> ('w jctx \<times> int) option)) list" where
  "cmd_handlers n E P H call =
     [(ascii ''if'', handle_if E P), (ascii ''case'', handle_case P H call), (ascii ''return'', handle_return),
      (ascii ''include'', handle_include n P H call)]"

text \<open>\<^verbatim>\<open>__json_process_cmd\<close>: a command that is not known is handed to \<^verbatim>\<open>handle_command\<close>.\<close>

definition process_command ::
  "nat \<Rightarrow> (attr \<Rightarrow> 'w jctx \<Rightarrow> ('w jctx \<times> int) option) \<Rightarrow> (attr \<Rightarrow> 'w jctx \<Rightarrow> ('w jctx \<times> int) option) \<Rightarrow>
     'w handlers \<Rightarrow> jcall \<Rightarrow> attr \<Rightarrow> 'w jctx \<Rightarrow> ('w jctx \<times> int) option" where
  "process_command n E P H call cur ctx =
     (if attr_type cur \<noteq> BLOBMSG_TYPE_ARRAY then Some (handle_error H ''Unexpected element type'' cur ctx, -1)
      else do { hd \<leftarrow> head_of cur;
                if attr_type hd \<noteq> BLOBMSG_TYPE_STRING
                then Some (handle_error H ''Unexpected element type'' cur ctx, -1)
                else case map_of (cmd_handlers n E P H call) (str_data hd) of
                  Some h \<Rightarrow> h cur ctx
                | None \<Rightarrow>
                   (case cmd_process_strings H call cur ctx of (ctx, args, ret) \<Rightarrow>
                      if ret \<noteq> 0 then Some (ctx, ret)
                      else Some (handle_command H (str_data hd) (Arr [] args) (call_vars call) ctx, 0)) })"

text \<open>\<^verbatim>\<open>json_process_cmd\<close>: a command, or the commands of a block; \<open>C\<close> runs the block itself as a command.\<close>

fun block_loop ::
  "(attr \<Rightarrow> 'w jctx \<Rightarrow> ('w jctx \<times> int) option) \<Rightarrow> ('w jctx \<Rightarrow> ('w jctx \<times> int) option) \<Rightarrow> attr list \<Rightarrow> int \<Rightarrow>
     'w jctx \<Rightarrow> ('w jctx \<times> int) option" where
  "block_loop P C [] i ctx = Some (ctx, 0)"
| "block_loop P C (cur # as) i ctx =
     (if aborted ctx then Some (ctx, 0)
      else if attr_type cur = BLOBMSG_TYPE_STRING \<and> i = 0 then C ctx
      else do { (ctx, ret) \<leftarrow> P cur ctx;
                if ret < -1 then Some (ctx, ret) else block_loop P C as (i + 1) ctx })"

definition process_cmd_with ::
  "nat \<Rightarrow> (attr \<Rightarrow> 'w jctx \<Rightarrow> ('w jctx \<times> int) option) \<Rightarrow> (attr \<Rightarrow> 'w jctx \<Rightarrow> ('w jctx \<times> int) option) \<Rightarrow>
     'w handlers \<Rightarrow> jcall \<Rightarrow> attr \<Rightarrow> 'w jctx \<Rightarrow> ('w jctx \<times> int) option" where
  "process_cmd_with n E P H call block ctx =
     (if attr_type block \<noteq> BLOBMSG_TYPE_ARRAY then Some (handle_error H ''Unexpected element type'' block ctx, -1)
      else block_loop P (process_command n E P H call block) (elements block) 0 ctx)"

primrec json_process_cmd :: "nat \<Rightarrow> 'w handlers \<Rightarrow> jcall \<Rightarrow> attr \<Rightarrow> 'w jctx \<Rightarrow> ('w jctx \<times> int) option" where
  "json_process_cmd 0 H call block ctx = None"
| "json_process_cmd (Suc n) H call block ctx =
     process_cmd_with n (json_process_expr n H call) (json_process_cmd n H call) H call block ctx"

section \<open>Runs\<close>

definition json_script_run_file :: "nat \<Rightarrow> 'w handlers \<Rightarrow> nat \<Rightarrow> attr \<Rightarrow> 'w jctx \<Rightarrow> 'w jctx option" where
  "json_script_run_file n H file vars ctx =
     (let s = last_seq ctx + 1; s = (if s = 0 then s + 1 else s); call = \<lparr>call_vars = vars, call_seq = s\<rparr> in
      script_run n (json_process_cmd n H call) H call file None (ctx\<lparr>last_seq := s, aborted := False\<rparr>))"

definition json_script_run :: "nat \<Rightarrow> 'w handlers \<Rightarrow> bytes \<Rightarrow> attr \<Rightarrow> 'w jctx \<Rightarrow> 'w jctx option" where
  "json_script_run n H name vars ctx =
     do { (ctx, file) \<leftarrow> json_script_get_file H name ctx;
          if file = 0 then Some ctx else json_script_run_file n H file vars ctx }"

primrec json_script_file_free :: "nat \<Rightarrow> nat \<Rightarrow> (nat \<Rightarrow> jfile option) \<Rightarrow> (nat \<Rightarrow> jfile option) option" where
  "json_script_file_free 0 f st = None"
| "json_script_file_free (Suc k) f st =
     (if f = 0 then Some st
      else do { r \<leftarrow> st f; json_script_file_free k (f_next r) (st(f := None)) })"

text \<open>\<open>fs\<close> are the files of the tree in its order; \<^verbatim>\<open>avl_remove_all_elements\<close> takes them all out.\<close>

fun free_files :: "nat \<Rightarrow> nat list \<Rightarrow> (nat \<Rightarrow> jfile option) \<Rightarrow> (nat \<Rightarrow> jfile option) option" where
  "free_files k [] st = Some st"
| "free_files k (f # fs) st = do { st \<leftarrow> json_script_file_free k f st; free_files k fs st }"

definition json_script_free :: "nat \<Rightarrow> nat list \<Rightarrow> 'w jctx \<Rightarrow> 'w jctx option" where
  "json_script_free k fs ctx =
     do { st \<leftarrow> free_files k fs (store ctx); Some (ctx\<lparr>files := Map.empty, store := st\<rparr>) }"

text \<open>\<^verbatim>\<open>json_script_init\<close> puts the default in the place of a callback that is not set.\<close>

definition default_handle_error :: "string \<Rightarrow> attr \<Rightarrow> 'w jctx \<Rightarrow> 'w jctx" where
  "default_handle_error msg context ctx = ctx"

definition default_handle_var :: "bytes \<Rightarrow> attr \<Rightarrow> 'w jctx \<Rightarrow> 'w jctx \<times> bytes option" where
  "default_handle_var name vars ctx = (ctx, None)"

definition default_handle_file :: "bytes \<Rightarrow> 'w jctx \<Rightarrow> 'w jctx \<times> nat" where
  "default_handle_file name ctx = (ctx, 0)"

definition or_default :: "'a option \<Rightarrow> 'a \<Rightarrow> 'a" where
  "or_default h d = (case h of None \<Rightarrow> d | Some x \<Rightarrow> x)"

definition json_script_init ::
  "(bytes \<Rightarrow> attr \<Rightarrow> attr \<Rightarrow> 'w jctx \<Rightarrow> 'w jctx) \<Rightarrow> (string \<Rightarrow> attr \<Rightarrow> 'w jctx \<Rightarrow> 'w jctx) option \<Rightarrow>
   (bytes \<Rightarrow> attr \<Rightarrow> 'w jctx \<Rightarrow> 'w jctx \<times> bytes option) option \<Rightarrow> (bytes \<Rightarrow> 'w jctx \<Rightarrow> 'w jctx \<times> nat) option \<Rightarrow>
   (bytes \<Rightarrow> (bytes \<Rightarrow> bool) option) \<Rightarrow> 'w jctx \<Rightarrow> 'w jctx \<times> 'w handlers" where
  "json_script_init command error var file rc ctx =
     (ctx\<lparr>files := Map.empty\<rparr>,
      \<lparr>handle_command = command, handle_error = or_default error default_handle_error,
       handle_var = or_default var default_handle_var, handle_file = or_default file default_handle_file,
       regcomp = rc\<rparr>)"

end
