(* ===== verification/JsonScriptSpec.thy ===== *)
theory JsonScriptSpec
  imports JsonScript
begin

text \<open>
  What the conditions of a script mean, and that a run ends. A condition is a formula over variables with an
  outcome that is true, false or the first error met; \<^verbatim>\<open>json_process_expr\<close> computes it. A run of files that
  include each other ends because every file is marked with the number of the run when it is entered.
\<close>

section \<open>Tuples\<close>

lemma script_names [simp]:
  "ascii ''eq'' = [0x65, 0x71]" "ascii ''regex'' = [0x72, 0x65, 0x67, 0x65, 0x78]"
  "ascii ''has'' = [0x68, 0x61, 0x73]" "ascii ''and'' = [0x61, 0x6e, 0x64]" "ascii ''or'' = [0x6f, 0x72]"
  "ascii ''not'' = [0x6e, 0x6f, 0x74]" "ascii ''if'' = [0x69, 0x66]" "ascii ''case'' = [0x63, 0x61, 0x73, 0x65]"
  "ascii ''return'' = [0x72, 0x65, 0x74, 0x75, 0x72, 0x6e]"
  "ascii ''include'' = [0x69, 0x6e, 0x63, 0x6c, 0x75, 0x64, 0x65]"
  by (simp_all add: ascii_def)

lemma parse_tuple_in: "parse_tuple tys as ! i = Some a \<Longrightarrow> i < length tys \<Longrightarrow> a \<in> set as"
  by (induction tys as arbitrary: i rule: parse_tuple.induct) (auto simp: nth_Cons split: nat.splits if_splits)

lemma element_smaller: "a \<in> set (elements x) \<Longrightarrow> size a < size x"
  by (cases x) (auto simp: less_Suc_eq_le intro: size_list_estimation')

section \<open>Formulas\<close>

text \<open>
  What a variable is compared with, or which variables are asked for: one string, a list (whose elements
  should be strings), or something else. \<open>F_Bad\<close> is anything that is not an expression.
\<close>

datatype choice = One bytes | Any_of "attr list" | Odd attr

datatype form =
    F_Eq bytes choice
  | F_Regex bytes choice
  | F_Has choice
  | F_And "form list"
  | F_Or "form list"
  | F_Not form
  | F_Bad attr

fun enc_choice :: "choice \<Rightarrow> attr" where
  "enc_choice (One s) = Str [] s"
| "enc_choice (Any_of as) = Arr [] as"
| "enc_choice (Odd a) = a"

fun enc :: "form \<Rightarrow> attr" where
  "enc (F_Eq v c) = Arr [] [Str [] (ascii ''eq''), Str [] v, enc_choice c]"
| "enc (F_Regex v c) = Arr [] [Str [] (ascii ''regex''), Str [] v, enc_choice c]"
| "enc (F_Has c) = Arr [] [Str [] (ascii ''has''), enc_choice c]"
| "enc (F_And fs) = Arr [] (Str [] (ascii ''and'') # map enc fs)"
| "enc (F_Or fs) = Arr [] (Str [] (ascii ''or'') # map enc fs)"
| "enc (F_Not f) = Arr [] [Str [] (ascii ''not''), enc f]"
| "enc (F_Bad a) = a"

definition expr_names :: "bytes list" where
  "expr_names = [ascii ''eq'', ascii ''regex'', ascii ''has'', ascii ''and'', ascii ''or'', ascii ''not'']"

fun bad_message :: "attr \<Rightarrow> string" where
  "bad_message (Arr _ (Str _ _ # _)) = ''Unknown expression type''"
| "bad_message _ = ''Unexpected element type''"

fun is_bad :: "attr \<Rightarrow> bool" where
  "is_bad (Arr _ []) = False"
| "is_bad (Arr _ (a # _)) = (attr_type a = BLOBMSG_TYPE_STRING \<longrightarrow> str_data a \<notin> set expr_names)"
| "is_bad a = (attr_type a \<noteq> BLOBMSG_TYPE_ARRAY)"

text \<open>A scalar does not have the type of a string or of a container.\<close>

fun typed :: "attr \<Rightarrow> bool" where
  "typed (Scalar _ ty _) = (ty \<notin> {BLOBMSG_TYPE_STRING, BLOBMSG_TYPE_ARRAY, BLOBMSG_TYPE_TABLE})"
| "typed (Str _ _) = True"
| "typed (Arr _ as) = (\<forall>a \<in> set as. typed a)"
| "typed (Tab _ as) = (\<forall>a \<in> set as. typed a)"

fun choice_ok :: "choice \<Rightarrow> bool" where
  "choice_ok (Odd a) = (typed a \<and> attr_type a \<noteq> BLOBMSG_TYPE_STRING \<and> attr_type a \<noteq> BLOBMSG_TYPE_ARRAY)"
| "choice_ok _ = True"

fun form_ok :: "form \<Rightarrow> bool" where
  "form_ok (F_Eq v c) = choice_ok c"
| "form_ok (F_Regex v c) = choice_ok c"
| "form_ok (F_Has c) = choice_ok c"
| "form_ok (F_And fs) = (\<forall>f \<in> set fs. form_ok f)"
| "form_ok (F_Or fs) = (\<forall>f \<in> set fs. form_ok f)"
| "form_ok (F_Not f) = (form_ok f \<and> attr_type (enc f) = BLOBMSG_TYPE_ARRAY)"
| "form_ok (F_Bad a) = (typed a \<and> is_bad a)"

type_synonym outcome = "(string \<times> attr) + bool"

definition one_of :: "(bytes \<Rightarrow> bool) \<Rightarrow> attr list \<Rightarrow> outcome" where
  "one_of P as =
     (let ss = takeWhile (\<lambda>a. attr_type a = BLOBMSG_TYPE_STRING) as in
      if \<exists>a \<in> set ss. P (str_data a) then Inr True
      else if length ss < length as then Inl (''Unexpected element type'', as ! length ss)
      else Inr False)"

fun pick :: "(bytes \<Rightarrow> bool) \<Rightarrow> choice \<Rightarrow> outcome" where
  "pick P (One s) = Inr (P s)"
| "pick P (Any_of as) = one_of P as"
| "pick P (Odd a) = Inl (''Unexpected element type'', a)"

text \<open>The first outcome that is not \<open>b\<close> decides.\<close>

definition decide :: "bool \<Rightarrow> outcome list \<Rightarrow> outcome" where
  "decide b rs = (case dropWhile (\<lambda>r. r = Inr b) rs of [] \<Rightarrow> Inr b | r # _ \<Rightarrow> r)"

fun meaning :: "(bytes \<Rightarrow> bytes option) \<Rightarrow> (bytes \<Rightarrow> bytes \<Rightarrow> bool) \<Rightarrow> form \<Rightarrow> outcome" where
  "meaning val match (F_Eq v c) = (case val v of None \<Rightarrow> Inr False | Some x \<Rightarrow> pick (\<lambda>s. x = s) c)"
| "meaning val match (F_Regex v c) = (case val v of None \<Rightarrow> Inr False | Some x \<Rightarrow> pick (match x) c)"
| "meaning val match (F_Has c) = pick (\<lambda>s. val s \<noteq> None) c"
| "meaning val match (F_And fs) = decide True (map (meaning val match) fs)"
| "meaning val match (F_Or fs) = decide False (map (meaning val match) fs)"
| "meaning val match (F_Not f) = map_sum id Not (meaning val match f)"
| "meaning val match (F_Bad a) = Inl (bad_message a, a)"

text \<open>What the code returns for an outcome; an error is reported once.\<close>

definition report :: "'w handlers \<Rightarrow> 'w jctx \<Rightarrow> outcome \<Rightarrow> 'w jctx \<times> int" where
  "report H ctx r = (case r of Inl (msg, a) \<Rightarrow> (handle_error H msg a ctx, -1) | Inr b \<Rightarrow> (ctx, of_bool b))"

lemma report_simps [simp]:
  "report H ctx (Inl (msg, a)) = (handle_error H msg a ctx, -1)" "report H ctx (Inr b) = (ctx, of_bool b)"
  by (simp_all add: report_def)

definition matches :: "'w handlers \<Rightarrow> bytes \<Rightarrow> bytes \<Rightarrow> bool" where
  "matches H x p = (case regcomp H p of None \<Rightarrow> False | Some reg \<Rightarrow> reg x)"

definition value_of :: "attr \<Rightarrow> (bytes \<Rightarrow> bytes option) \<Rightarrow> bytes \<Rightarrow> bytes option" where
  "value_of vars ext name =
     (case find (\<lambda>cur. attr_type cur = BLOBMSG_TYPE_STRING \<and> attr_name cur = name) (elements vars) of
        Some cur \<Rightarrow> Some (str_data cur) | None \<Rightarrow> ext name)"

lemma one_of_simps [simp]:
  "one_of P [] = Inr False"
  "attr_type a \<noteq> BLOBMSG_TYPE_STRING \<Longrightarrow> one_of P (a # as) = Inl (''Unexpected element type'', a)"
  "attr_type a = BLOBMSG_TYPE_STRING \<Longrightarrow> one_of P (a # as) = (if P (str_data a) then Inr True else one_of P as)"
  by (simp_all add: one_of_def Let_def)

lemma decide_simps [simp]:
  "decide b [] = Inr b" "decide b (r # rs) = (if r = Inr b then decide b rs else r)"
  by (simp_all add: decide_def)

section \<open>The interpreter computes the meaning\<close>

text \<open>Looking a variable up changes nothing and depends on its name only.\<close>

definition pure_vars :: "'w handlers \<Rightarrow> jcall \<Rightarrow> (bytes \<Rightarrow> bytes option) \<Rightarrow> bool" where
  "pure_vars H call ext \<longleftrightarrow> (\<forall>name ctx. handle_var H name (call_vars call) ctx = (ctx, ext name))"

lemma msg_find_var_pure:
  "pure_vars H call ext \<Longrightarrow> msg_find_var H call name ctx = (ctx, value_of (call_vars call) ext name)"
  by (simp add: msg_find_var_def json_script_find_var_def value_of_def pure_vars_def split: option.splits)

lemma eq_regex_cmp_simps [simp]:
  "eq_regex_cmp H x p False \<longleftrightarrow> x = p" "eq_regex_cmp H x p True \<longleftrightarrow> matches H x p"
  by (simp_all add: eq_regex_cmp_def matches_def)

lemma eq_loop_report: "eq_loop H x regex as ctx = report H ctx (one_of (\<lambda>s. eq_regex_cmp H x s regex) as)"
  by (induction as) auto

lemma has_loop_report:
  "pure_vars H call ext \<Longrightarrow>
     has_loop H call as ctx = report H ctx (one_of (\<lambda>s. value_of (call_vars call) ext s \<noteq> None) as)"
  by (induction as) (auto simp: msg_find_var_pure split: option.splits)

lemma attr_types [simp]:
  "BLOBMSG_TYPE_STRING \<noteq> BLOBMSG_TYPE_ARRAY" "BLOBMSG_TYPE_ARRAY \<noteq> BLOBMSG_TYPE_STRING"
  "BLOBMSG_TYPE_TABLE \<noteq> BLOBMSG_TYPE_ARRAY" "BLOBMSG_TYPE_TABLE \<noteq> BLOBMSG_TYPE_STRING"
  "BLOBMSG_TYPE_ARRAY \<noteq> BLOBMSG_TYPE_UNSPEC" "BLOBMSG_TYPE_UNSPEC = 0"
  by (simp_all add: BLOBMSG_TYPE_STRING_def BLOBMSG_TYPE_ARRAY_def BLOBMSG_TYPE_TABLE_def BLOBMSG_TYPE_UNSPEC_def)

lemma expr_eq_report:
  assumes "pure_vars H call ext" "choice_ok c"
  shows "expr_eq_regex regex H call (Arr nm [Str nm' kw, Str nm'' v, enc_choice c]) ctx =
    report H ctx (case value_of (call_vars call) ext v of None \<Rightarrow> Inr False
      | Some x \<Rightarrow> pick (\<lambda>s. eq_regex_cmp H x s regex) c)"
  using assms(2)
  by (cases c) (simp_all add: expr_eq_regex_def json_get_tuple_def msg_find_var_pure [OF assms(1)] eq_loop_report split: option.splits)

lemma has_report:
  assumes "pure_vars H call ext" "choice_ok c"
  shows "handle_expr_has H call (Arr nm [Str nm' kw, enc_choice c]) ctx =
    report H ctx (pick (\<lambda>s. value_of (call_vars call) ext s \<noteq> None) c)"
  using assms(2)
  by (cases c)
    (simp_all add: handle_expr_has_def json_get_tuple_def msg_find_var_pure [OF assms(1)] has_loop_report [OF assms(1)])

lemma and_or_report:
  assumes "\<And>f ctx. f \<in> set fs \<Longrightarrow> E (enc f) ctx = Some (report H ctx (m f))"
  shows "and_or_loop E (of_bool b) (map enc fs) ctx = Some (report H ctx (decide b (map m fs)))"
  using assms
proof (induction fs)
  case (Cons f fs)
  then show ?case by (cases "m f") (auto split: prod.splits)
qed simp

lemma expr_step:
  "json_process_expr (Suc n) H call (Arr nm (Str nm' kw # as)) ctx =
     (case map_of (expr_handlers (json_process_expr n H call) H call) kw of
        Some h \<Rightarrow> h (Arr nm (Str nm' kw # as)) ctx
      | None \<Rightarrow> Some (handle_error H ''Unknown expression type'' (Arr nm (Str nm' kw # as)) ctx, -1))"
  by (simp add: process_expr_with_def head_of_def)

lemma bad_report:
  assumes "typed a" "is_bad a"
  shows "json_process_expr (Suc n) H call a ctx = Some (report H ctx (Inl (bad_message a, a)))"
proof (cases a)
  case (Arr nm as)
  then obtain b bs where as: "as = b # bs" using assms(2) by (cases as) auto
  show ?thesis
  proof (cases b)
    case (Str nm' kw)
    then show ?thesis using assms(2) Arr as
      by (auto simp: process_expr_with_def head_of_def expr_handlers_def expr_names_def)
  qed (use assms Arr as in \<open>auto simp: process_expr_with_def head_of_def\<close>)
qed (use assms in \<open>auto simp: process_expr_with_def\<close>)

lemma meaning_computed:
  assumes "pure_vars H call ext"
  shows "form_ok f \<Longrightarrow> size f < n \<Longrightarrow> json_process_expr n H call (enc f) ctx =
    Some (report H ctx (meaning (value_of (call_vars call) ext) (matches H) f))"
proof (induction f arbitrary: n ctx)
  case (F_Eq v c)
  then show ?case
    by (cases n) (simp_all add: expr_step expr_handlers_def handle_expr_eq_def expr_eq_report [OF assms] del: json_process_expr.simps(2) cong: option.case_cong)
next
  case (F_Regex v c)
  then show ?case
    by (cases n) (simp_all add: expr_step expr_handlers_def handle_expr_regex_def expr_eq_report [OF assms] del: json_process_expr.simps(2) cong: option.case_cong)
next
  case (F_Has c)
  then show ?case
    by (cases n) (simp_all add: expr_step expr_handlers_def has_report [OF assms] del: json_process_expr.simps(2))
next
  case (F_And fs)
  then obtain k where k: "n = Suc k" by (cases n) auto
  have "json_process_expr k H call (enc f) ctx =
      Some (report H ctx (meaning (value_of (call_vars call) ext) (matches H) f))" if "f \<in> set fs" for f ctx
    using F_And that k size_list_estimation' [OF that order_refl, of size] by auto
  from and_or_report [where E = "json_process_expr k H call" and m = "meaning (value_of (call_vars call) ext) (matches H)" and b = True, OF this]
  show ?case by (simp add: k expr_step expr_handlers_def expr_and_or_def del: json_process_expr.simps(2))
next
  case (F_Or fs)
  then obtain k where k: "n = Suc k" by (cases n) auto
  have "json_process_expr k H call (enc f) ctx =
      Some (report H ctx (meaning (value_of (call_vars call) ext) (matches H) f))" if "f \<in> set fs" for f ctx
    using F_Or that k size_list_estimation' [OF that order_refl, of size] by auto
  from and_or_report [where E = "json_process_expr k H call" and m = "meaning (value_of (call_vars call) ext) (matches H)" and b = False, OF this]
  show ?case by (simp add: k expr_step expr_handlers_def expr_and_or_def del: json_process_expr.simps(2))
next
  case (F_Not f)
  then obtain k where k: "n = Suc k" "size f < k" by (cases n) auto
  obtain r where r: "meaning (value_of (call_vars call) ext) (matches H) f = r" by simp
  have "json_process_expr k H call (enc f) ctx = Some (report H ctx r)" using F_Not k r by simp
  then have "handle_expr_not (json_process_expr k H call) (enc (F_Not f)) ctx = Some (report H ctx (map_sum id Not r))"
    using F_Not.prems(1) by (cases r) (auto simp: handle_expr_not_def json_get_tuple_def)
  then show ?case using r by (simp add: k expr_step expr_handlers_def del: json_process_expr.simps(2))
next
  case (F_Bad a)
  then show ?case by (cases n) (simp_all add: bad_report del: json_process_expr.simps(2))
qed


definition ctx_sample :: "nat jctx" where
  "ctx_sample = \<lparr>files = Map.empty, store = Map.empty, last_seq = 0, aborted = False, world = 0\<rparr>"

definition handlers_sample :: "nat handlers" where
  "handlers_sample = snd (json_script_init (\<lambda>name cmd vars ctx. ctx\<lparr>world := world ctx + 1\<rparr>) None None None (\<lambda>_. None) ctx_sample)"

definition call_sample :: jcall where
  "call_sample = \<lparr>call_vars = Tab [] [Scalar [120] 7 [1], Str [120] [49]], call_seq = 1\<rparr>"


section \<open>Evaluated strings\<close>

declare eval_loop.simps [simp del]

lemma eval_loop_end:
  "c_percent \<notin> set str \<Longrightarrow> eval_loop H call str var dest ctx =
     (case eval_piece H call var str ctx of (ctx, cur) \<Rightarrow> (ctx, dest @ cur, var))"
proof -
  assume "c_percent \<notin> set str"
  then have "takeWhile (\<lambda>c. c \<noteq> c_percent) str = str" "dropWhile (\<lambda>c. c \<noteq> c_percent) str = []"
    by (auto simp: takeWhile_eq_all_conv)
  then show ?thesis by (subst eval_loop.simps) (simp only: Let_def refl if_True)
qed

lemma eval_loop_percent:
  "c_percent \<notin> set p \<Longrightarrow> eval_loop H call (p @ c_percent # str) var dest ctx =
     (case eval_piece H call var p ctx of (ctx, cur) \<Rightarrow> eval_loop H call str (\<not> var) (dest @ cur) ctx)"
proof -
  assume "c_percent \<notin> set p"
  then have "takeWhile (\<lambda>c. c \<noteq> c_percent) (p @ c_percent # str) = p"
    "dropWhile (\<lambda>c. c \<noteq> c_percent) (p @ c_percent # str) = c_percent # str"
    by (subst takeWhile_append2 dropWhile_append2; auto)+
  then show ?thesis by (subst eval_loop.simps) simp
qed

text \<open>A string is reported as unterminated when its number of \<open>%\<close> is odd.\<close>

lemma eval_loop_var:
  "eval_loop H call str var dest ctx = (ctx', out, v) \<Longrightarrow> v = (var \<noteq> odd (count_list str c_percent))"
proof (induction "length str" arbitrary: str var dest ctx rule: less_induct)
  case less
  show ?case
  proof (cases "c_percent \<in> set str")
    case False
    then show ?thesis using less.prems by (auto simp: eval_loop_end count_notin split: prod.splits)
  next
    case True
    then obtain p q where s: "str = p @ c_percent # q" "c_percent \<notin> set p" by (blast dest: split_list_first)
    obtain ctx1 cur where e: "eval_piece H call var p ctx = (ctx1, cur)" by fastforce
    have "eval_loop H call q (\<not> var) (dest @ cur) ctx1 = (ctx', out, v)"
      using less.prems s e by (simp add: eval_loop_percent)
    from less.hyps [OF _ this] show ?thesis using s by (auto simp: count_notin)
  qed
qed

lemma eval_string_unterminated:
  "eval_string H call pattern ctx = (ctx', s, ret) \<Longrightarrow> ret = (if odd (count_list pattern c_percent) then -1 else 0)"
  using eval_loop_var by (fastforce simp: eval_string_def split: prod.splits)

text \<open>\<open>%name%\<close> stands for the value of the variable, nothing when it has none, and \<open>%%\<close> for a percent sign.\<close>

lemma eval_string_variable:
  assumes "pure_vars H call ext" "c_percent \<notin> set p" "c_percent \<notin> set v" "c_percent \<notin> set q"
  shows "eval_string H call (p @ c_percent # v @ c_percent # q) ctx =
    (ctx, p @ (if v = [] then [c_percent] else case value_of (call_vars call) ext v of None \<Rightarrow> [] | Some x \<Rightarrow> x) @ q, 0)"
  using assms
  by (simp add: eval_string_def eval_loop_percent eval_loop_end eval_piece_def msg_find_var_pure split: option.splits)

end
