(* ===== verification/JsonScriptRun.thy ===== *)
theory JsonScriptRun
  imports JsonScriptSpec
begin

text \<open>
  Runs of scripts end. Files may include each other in any way: a run marks every file it enters with its
  number, and enters no file twice, so that a recursion bounded by the files and the depth of their values is
  enough. The lemmas say of every function of the interpreter that it returns and keeps what the run relies on.
\<close>

section \<open>What a run keeps\<close>

text \<open>Arrays are not empty: the code takes the first element of an expression without asking for it.\<close>

fun no_empty :: "attr \<Rightarrow> bool" where
  "no_empty (Arr _ as) = (as \<noteq> [] \<and> (\<forall>a \<in> set as. no_empty a))"
| "no_empty (Tab _ as) = (\<forall>a \<in> set as. no_empty a)"
| "no_empty _ = True"

lemma no_empty_element: "no_empty x \<Longrightarrow> a \<in> set (elements x) \<Longrightarrow> no_empty a"
  by (cases x) auto

lemma head_of_array: "no_empty x \<Longrightarrow> attr_type x = BLOBMSG_TYPE_ARRAY \<Longrightarrow> typed x \<Longrightarrow> \<exists>a. head_of x = Some a"
  by (cases x) (auto simp: head_of_def split: list.splits)

lemma typed_element: "typed x \<Longrightarrow> a \<in> set (elements x) \<Longrightarrow> typed a"
  by (cases x) auto

text \<open>The values the interpreter is called with.\<close>

definition script_ok :: "attr \<Rightarrow> bool" where
  "script_ok a \<longleftrightarrow> no_empty a \<and> typed a"

lemma script_ok_element: "script_ok x \<Longrightarrow> a \<in> set (elements x) \<Longrightarrow> script_ok a"
  by (auto simp: script_ok_def no_empty_element typed_element)

text \<open>The chain behind a file ends within \<open>k\<close> files.\<close>

primrec chain_ends :: "(nat \<Rightarrow> jfile option) \<Rightarrow> nat \<Rightarrow> nat \<Rightarrow> bool" where
  "chain_ends st 0 f = False"
| "chain_ends st (Suc k) f = (f = 0 \<or> (\<exists>r. st f = Some r \<and> chain_ends st k (f_next r)))"

text \<open>Files whose values are not larger than \<open>m\<close>, in chains shorter than \<open>m\<close>, all with a name.\<close>

definition files_ok :: "nat \<Rightarrow> (nat \<Rightarrow> jfile option) \<Rightarrow> bool" where
  "files_ok m st \<longleftrightarrow> finite (dom st) \<and> (\<forall>f r. st f = Some r \<longrightarrow>
     script_ok (f_data r) \<and> size (f_data r) < m \<and> f_key r \<noteq> None \<and> chain_ends st m f)"

definition same_files :: "(nat \<Rightarrow> jfile option) \<Rightarrow> (nat \<Rightarrow> jfile option) \<Rightarrow> bool" where
  "same_files st st' \<longleftrightarrow> (\<forall>f. map_option (\<lambda>r. r\<lparr>f_seq := 0\<rparr>) (st' f) = map_option (\<lambda>r. r\<lparr>f_seq := 0\<rparr>) (st f))"

definition unseen :: "u32 \<Rightarrow> (nat \<Rightarrow> jfile option) \<Rightarrow> nat set" where
  "unseen s st = {f. \<exists>r. st f = Some r \<and> f_seq r \<noteq> s}"

text \<open>The state of a run with at most \<open>u\<close> files that are not marked.\<close>

definition running :: "(nat \<Rightarrow> jfile option) \<Rightarrow> u32 \<Rightarrow> nat \<Rightarrow> 'w jctx \<Rightarrow> bool" where
  "running st s u ctx \<longleftrightarrow> same_files st (store ctx) \<and> card (unseen s (store ctx)) \<le> u \<and>
     files ctx None = None \<and> (\<forall>n f. files ctx n = Some f \<longrightarrow> f \<noteq> 0 \<and> store ctx f \<noteq> None)"

text \<open>Callbacks that leave the files alone; \<^verbatim>\<open>handle_file\<close> hands out files that are in memory.\<close>

definition quiet :: "'w handlers \<Rightarrow> bool" where
  "quiet H \<longleftrightarrow>
     (\<forall>name cmd vars ctx. store (handle_command H name cmd vars ctx) = store ctx \<and> files (handle_command H name cmd vars ctx) = files ctx) \<and>
     (\<forall>msg a ctx. store (handle_error H msg a ctx) = store ctx \<and> files (handle_error H msg a ctx) = files ctx) \<and>
     (\<forall>name vars ctx. store (fst (handle_var H name vars ctx)) = store ctx \<and> files (fst (handle_var H name vars ctx)) = files ctx) \<and>
     (\<forall>name ctx. store (fst (handle_file H name ctx)) = store ctx \<and> files (fst (handle_file H name ctx)) = files ctx \<and>
        (snd (handle_file H name ctx) \<noteq> 0 \<longrightarrow> store ctx (snd (handle_file H name ctx)) \<noteq> None))"

lemma running_keep: "running st s u ctx \<Longrightarrow> store ctx' = store ctx \<Longrightarrow> files ctx' = files ctx \<Longrightarrow> running st s u ctx'"
  by (simp add: running_def)

lemma running_mono: "running st s u ctx \<Longrightarrow> u \<le> v \<Longrightarrow> running st s v ctx"
  by (auto simp: running_def)

lemma running_eq: "store ctx' = store ctx \<Longrightarrow> files ctx' = files ctx \<Longrightarrow> running st s u ctx' = running st s u ctx"
  by (simp add: running_def)

lemma quiet_running [simp]:
  assumes "quiet H"
  shows "running st s u (handle_command H name cmd vars ctx) = running st s u ctx"
    "running st s u (handle_error H msg a ctx) = running st s u ctx"
    "running st s u (fst (handle_var H name vars ctx)) = running st s u ctx"
  by (rule running_eq; use assms in \<open>simp add: quiet_def\<close>)+

lemma same_file:
  assumes "same_files st st'" "st' f = Some r"
  obtains r0 where "st f = Some r0" "f_data r0 = f_data r" "f_next r0 = f_next r" "f_key r0 = f_key r"
proof -
  from assms have "map_option (\<lambda>r. r\<lparr>f_seq := 0\<rparr>) (st f) = Some (r\<lparr>f_seq := 0\<rparr>)" by (metis option.map(2) same_files_def)
  then obtain r0 where "st f = Some r0" "r0\<lparr>f_seq := 0\<rparr> = r\<lparr>f_seq := 0\<rparr>" by auto
  then show ?thesis by (intro that [of r0]) (cases r0; cases r; simp)+
qed

lemma same_files_None: "same_files st st' \<Longrightarrow> st' f = None \<longleftrightarrow> st f = None"
  by (metis map_option_is_None same_files_def)

text \<open>An operation returns, and what it leaves has the property.\<close>

definition returns :: "('w jctx \<Rightarrow> bool) \<Rightarrow> ('w jctx \<times> 'a) option \<Rightarrow> bool" where
  "returns Q x \<longleftrightarrow> (\<exists>ctx r. x = Some (ctx, r) \<and> Q ctx)"

lemma returnsI [intro]: "Q ctx \<Longrightarrow> returns Q (Some (ctx, r))"
  by (simp add: returns_def)

lemma returnsE: "returns Q x \<Longrightarrow> (\<And>ctx r. x = Some (ctx, r) \<Longrightarrow> Q ctx \<Longrightarrow> R) \<Longrightarrow> R"
  by (auto simp: returns_def)

lemma returns_bind: "returns Q x \<Longrightarrow> (\<And>ctx r. Q ctx \<Longrightarrow> returns R (f (ctx, r))) \<Longrightarrow> returns R (Option.bind x f)"
  by (auto simp: returns_def)

section \<open>Expressions\<close>

lemma msg_find_var_running [simp]:
  "quiet H \<Longrightarrow> running st s u (fst (msg_find_var H call name ctx)) = running st s u ctx"
  by (simp add: msg_find_var_def json_script_find_var_def split: option.split)

lemma eq_loop_running [simp]:
  "quiet H \<Longrightarrow> running st s u (fst (eq_loop H var regex as ctx)) = running st s u ctx"
  by (induction as) simp_all

lemma has_loop_running [simp]:
  "quiet H \<Longrightarrow> running st s u (fst (has_loop H call as ctx)) = running st s u ctx"
  by (induction as arbitrary: ctx) (simp_all add: case_prod_beta split: option.split)

lemma expr_eq_running [simp]:
  "quiet H \<Longrightarrow> running st s u (fst (expr_eq_regex regex H call expr ctx)) = running st s u ctx"
  by (simp add: expr_eq_regex_def Let_def case_prod_beta split: option.split)

lemma has_running [simp]:
  "quiet H \<Longrightarrow> running st s u (fst (handle_expr_has H call expr ctx)) = running st s u ctx"
  by (simp add: handle_expr_has_def case_prod_beta split: option.split)

lemma returns_fst: "Q (fst x) \<Longrightarrow> returns Q (Some x)"
  by (cases x) auto

lemma and_or_loop_running:
  assumes "\<And>a ctx. a \<in> set as \<Longrightarrow> running st s u ctx \<Longrightarrow> returns (running st s u) (E a ctx)"
  shows "running st s u ctx \<Longrightarrow> returns (running st s u) (and_or_loop E want as ctx)"
  using assms
proof (induction as arbitrary: ctx)
  case (Cons a as)
  show ?case using Cons by (auto intro!: returns_bind [where Q = "running st s u"])
qed auto

lemma in_tl: "a \<in> set (tl as) \<Longrightarrow> a \<in> set as"
  by (cases as) auto

lemma tuple_in: "json_get_tuple x t1 t2 ! i = Some a \<Longrightarrow> i < 3 \<Longrightarrow> a \<in> set (elements x)"
  using parse_tuple_in [of "[BLOBMSG_TYPE_STRING, t1, t2]"] by (simp add: json_get_tuple_def)

lemma expr_handlers_running:
  assumes q: "quiet H" and run: "running st s u ctx"
    and E: "\<And>a ctx. a \<in> set (elements cur) \<Longrightarrow> running st s u ctx \<Longrightarrow> returns (running st s u) (E a ctx)"
    and h: "map_of (expr_handlers E H call) k = Some h"
  shows "returns (running st s u) (h cur ctx)"
proof -
  have "returns (running st s u) (expr_and_or E want cur ctx)" for want
    unfolding expr_and_or_def using E run by (intro and_or_loop_running) (auto dest: in_tl)
  moreover have "returns (running st s u) (handle_expr_not E cur ctx)"
    using run tuple_in [of cur BLOBMSG_TYPE_ARRAY 0 1]
    by (auto simp: handle_expr_not_def intro!: returns_bind [OF E] split: option.split)
  ultimately show ?thesis
    using h q run by (auto simp: expr_handlers_def handle_expr_eq_def handle_expr_regex_def returns_fst split: if_splits)
qed

lemma json_process_expr_running:
  assumes q: "quiet H"
  shows "script_ok cur \<Longrightarrow> size cur < n \<Longrightarrow> running st s u ctx \<Longrightarrow>
    returns (running st s u) (json_process_expr n H call cur ctx)"
proof (induction n arbitrary: cur ctx)
  case (Suc n)
  have E: "returns (running st s u) (json_process_expr n H call a ctx)"
    if "a \<in> set (elements cur)" "running st s u ctx" for a ctx
    using that Suc element_smaller [OF that(1)] script_ok_element by (intro Suc.IH) auto
  show ?case
  proof (cases "attr_type cur = BLOBMSG_TYPE_ARRAY")
    case True
    then obtain hd where "head_of cur = Some hd" using head_of_array Suc.prems(1) unfolding script_ok_def by blast
    then show ?thesis
      using True expr_handlers_running [OF q Suc.prems(3) E] q Suc.prems(3)
      by (auto simp: process_expr_with_def split: option.split)
  qed (use q Suc.prems(3) in \<open>auto simp: process_expr_with_def\<close>)
qed simp

section \<open>Arguments of commands\<close>

lemma eval_piece_running [simp]:
  "quiet H \<Longrightarrow> running st s u (fst (eval_piece H call var str ctx)) = running st s u ctx"
  by (simp add: eval_piece_def case_prod_beta split: option.split)

lemma eval_loop_running:
  "quiet H \<Longrightarrow> running st s u (fst (eval_loop H call str var dest ctx)) = running st s u ctx"
proof (induction "length str" arbitrary: str var dest ctx rule: less_induct)
  case less
  show ?case
  proof (cases "c_percent \<in> set str")
    case False
    then show ?thesis using less.prems by (simp add: eval_loop_end case_prod_beta)
  next
    case True
    then obtain p q where s: "str = p @ c_percent # q" "c_percent \<notin> set p" by (blast dest: split_list_first)
    then show ?thesis using less by (simp add: eval_loop_percent case_prod_beta)
  qed
qed

lemma eval_string_running [simp]:
  "quiet H \<Longrightarrow> running st s u (fst (eval_string H call pattern ctx)) = running st s u ctx"
  using eval_loop_running by (simp add: eval_string_def case_prod_beta)

lemma args_loop_running [simp]:
  "quiet H \<Longrightarrow> running st s u (fst (args_loop H call a as out ctx)) = running st s u ctx"
  by (induction as arbitrary: out ctx) (simp_all add: case_prod_beta)

section \<open>Files\<close>

lemma running_store:
  assumes "running st s u ctx" "files_ok m st" "store ctx f = Some r"
  shows "script_ok (f_data r)" "size (f_data r) < m" "f_key r \<noteq> None"
proof -
  obtain r0 where "st f = Some r0" "f_data r0 = f_data r" "f_key r0 = f_key r"
    using assms(1,3) unfolding running_def by (metis same_file)
  then show "script_ok (f_data r)" "size (f_data r) < m" "f_key r \<noteq> None"
    using assms(2) unfolding files_ok_def by metis+
qed

lemma get_file_running:
  assumes q: "quiet H" and run: "running st s u ctx" and ok: "files_ok m st"
  shows "\<exists>ctx' f. json_script_get_file H name ctx = Some (ctx', f) \<and> running st s u ctx' \<and> (f \<noteq> 0 \<longrightarrow> store ctx' f \<noteq> None)"
proof (cases "files ctx (Some name)")
  case (Some f)
  then show ?thesis using run by (auto simp: json_script_get_file_def running_def)
next
  case None
  obtain ctx1 f where h: "handle_file H name ctx = (ctx1, f)" by fastforce
  have s: "store ctx1 = store ctx" "files ctx1 = files ctx" "f \<noteq> 0 \<longrightarrow> store ctx f \<noteq> None"
    using q h unfolding quiet_def by (metis fst_conv snd_conv)+
  have run1: "running st s u ctx1" using run s by (simp add: running_def)
  show ?thesis
  proof (cases "f = 0")
    case True
    then show ?thesis using None h run run1 by (simp add: json_script_get_file_def running_def)
  next
    case False
    then obtain r where r: "store ctx f = Some r" using s(3) by auto
    have key: "f_key r \<noteq> None" by (rule running_store(3) [OF run ok r])
    have "running st s u (ctx1\<lparr>files := (files ctx1)(f_key r \<mapsto> f)\<rparr>)"
      using run1 key r s False by (auto simp: running_def)
    then show ?thesis using None h run run1 r s key False by (auto simp: json_script_get_file_def running_def)
  qed
qed

lemma running_mark:
  assumes run: "running st s u ctx" and ok: "files_ok m st" and f: "store ctx f = Some r" "f_seq r \<noteq> s"
  shows "0 < u \<and> running st s (u - 1) (ctx\<lparr>store := (store ctx)(f \<mapsto> r\<lparr>f_seq := s\<rparr>)\<rparr>)"
proof -
  have same: "same_files st (store ctx)" and c: "card (unseen s (store ctx)) \<le> u" using run by (auto simp: running_def)
  have "unseen s (store ctx) \<subseteq> dom st" using same_files_None [OF same] by (force simp: unseen_def)
  then have fin: "finite (unseen s (store ctx))" using ok by (auto simp: files_ok_def intro: finite_subset)
  have f_in: "f \<in> unseen s (store ctx)" using f by (simp add: unseen_def)
  have u: "0 < u" using c card_gt_0_iff fin f_in by fastforce
  have "unseen s ((store ctx)(f \<mapsto> r\<lparr>f_seq := s\<rparr>)) = unseen s (store ctx) - {f}" by (auto simp: unseen_def)
  then have "card (unseen s ((store ctx)(f \<mapsto> r\<lparr>f_seq := s\<rparr>))) \<le> u - 1" using c fin f_in by simp
  moreover have "Some (r\<lparr>f_seq := 0\<rparr>) = map_option (\<lambda>r. r\<lparr>f_seq := 0\<rparr>) (st f)"
    using same f(1) unfolding same_files_def by (metis option.map(2))
  then have "same_files st ((store ctx)(f \<mapsto> r\<lparr>f_seq := s\<rparr>))" using same by (simp add: same_files_def)
  ultimately show ?thesis using u run by (auto simp: running_def)
qed

lemma run_chain_running:
  assumes P: "\<And>a ctx. script_ok a \<Longrightarrow> size a < m \<Longrightarrow> running st s u ctx \<Longrightarrow> returns (running st s u) (P a ctx)"
    and ok: "files_ok m st"
  shows "chain_ends st k f \<Longrightarrow> k \<le> n \<Longrightarrow> running st s u ctx \<Longrightarrow>
    \<exists>ctx'. run_chain n P f ctx = Some ctx' \<and> running st s u ctx'"
proof (induction k arbitrary: f n ctx)
  case (Suc k)
  then obtain n' where n: "n = Suc n'" "k \<le> n'" by (cases n) auto
  show ?case
  proof (cases "f = 0")
    case False
    then obtain r0 where r0: "st f = Some r0" "chain_ends st k (f_next r0)" using Suc.prems(1) by auto
    then obtain r where r: "store ctx f = Some r"
      using Suc.prems(3) by (metis not_Some_eq running_def same_files_None)
    obtain ctx1 x where 1: "P (f_data r) ctx = Some (ctx1, x)" "running st s u ctx1"
      using P [OF running_store(1,2) [OF Suc.prems(3) ok r] Suc.prems(3)] by (auto simp: returns_def)
    obtain r1 where r1: "store ctx1 f = Some r1"
      using 1(2) r0(1) by (metis not_Some_eq running_def same_files_None)
    have "f_next r1 = f_next r0" using 1(2) r0(1) r1 unfolding running_def by (metis option.inject same_file)
    then show ?thesis using Suc.IH [OF r0(2) n(2) 1(2)] False r 1(1) r1 n(1) by simp
  qed (use n Suc.prems in simp)
qed simp

text \<open>Entering a file costs one of the files that are left.\<close>

lemma script_run_running:
  assumes P: "\<And>a ctx. script_ok a \<Longrightarrow> size a < m \<Longrightarrow> 0 < u \<Longrightarrow> running st s (u - 1) ctx \<Longrightarrow>
      returns (running st s (u - 1)) (P a ctx)"
    and q: "quiet H" and ok: "files_ok m st" and run: "running st s u ctx" and f: "store ctx f \<noteq> None"
    and s: "call_seq call = s" and n: "0 < u \<Longrightarrow> m \<le> n"
  shows "\<exists>ctx'. script_run n P H call f c0 ctx = Some ctx' \<and> running st s u ctx'"
proof -
  obtain r where r: "store ctx f = Some r" using f by auto
  show ?thesis
  proof (cases "f_seq r = s")
    case True
    then show ?thesis using r s q run by (simp add: script_run_def split: option.split)
  next
    case False
    obtain r0 where "st f = Some r0" using run r unfolding running_def by (metis same_file)
    then have c: "chain_ends st m f" using ok by (auto simp: files_ok_def)
    note u = running_mark [OF run ok r False]
    obtain ctx' where "run_chain n P f (ctx\<lparr>store := (store ctx)(f \<mapsto> r\<lparr>f_seq := s\<rparr>)\<rparr>) = Some ctx'" "running st s (u - 1) ctx'"
      using run_chain_running [where P = P, OF _ ok c] P u n by blast
    then show ?thesis using r s False running_mono [of st s "u - 1" ctx' u] by (auto simp: script_run_def)
  qed
qed

section \<open>Commands\<close>

lemma process_command_running:
  assumes q: "quiet H" and ok: "files_ok m st" and run: "running st s u ctx" and s: "call_seq call = s"
    and cur: "script_ok cur" and n: "0 < u \<Longrightarrow> m \<le> n"
    and E: "\<And>a ctx. script_ok a \<Longrightarrow> size a < size cur \<Longrightarrow> running st s u ctx \<Longrightarrow> returns (running st s u) (E a ctx)"
    and P: "\<And>a ctx. script_ok a \<Longrightarrow> size a < size cur \<Longrightarrow> running st s u ctx \<Longrightarrow> returns (running st s u) (P a ctx)"
    and F: "\<And>a ctx. script_ok a \<Longrightarrow> size a < m \<Longrightarrow> 0 < u \<Longrightarrow> running st s (u - 1) ctx \<Longrightarrow>
      returns (running st s (u - 1)) (P a ctx)"
  shows "returns (running st s u) (process_command n E P H call cur ctx)"
proof -
  note sub = script_ok_element [OF cur] element_smaller
  have "returns (running st s u) (handle_if E P cur ctx)"
    using run parse_tuple_in [of "[BLOBMSG_TYPE_STRING, BLOBMSG_TYPE_ARRAY, BLOBMSG_TYPE_ARRAY, BLOBMSG_TYPE_ARRAY]" "elements cur"]
    by (auto simp: handle_if_def Let_def sub intro!: returns_bind [OF E] P split: option.split)
  moreover have "returns (running st s u) (handle_case P H call cur ctx)"
  proof -
    have "returns (running st s u) (P c ctx)"
      if "b \<in> set (elements cur)" "find p (elements b) = Some c" "running st s u ctx" for b c p ctx
    proof -
      have "c \<in> set (elements b)" using that(2) by (auto simp: find_Some_iff)
      then show ?thesis using P sub(1) [OF that(1)] script_ok_element sub(2) [of b cur] sub(2) [of c b] that by force
    qed
    moreover have "running st s u (fst (msg_find_var H call v ctx))" for v using q run by simp
    ultimately show ?thesis using run tuple_in [of cur BLOBMSG_TYPE_STRING BLOBMSG_TYPE_TABLE 2]
      by (fastforce simp: handle_case_def Let_def case_prod_beta split: option.split)
  qed
  moreover have "returns (running st s u) (handle_return cur ctx)" using run by (auto simp: handle_return_def)
  moreover have "returns (running st s u) (handle_include n P H call cur ctx)"
  proof -
    have "returns (running st s u) (do { (ctx, f) \<leftarrow> json_script_get_file H name ctx;
        if f = 0 then Some (ctx, 0) else do { ctx \<leftarrow> script_run n P H call f c ctx; Some (ctx, 0) } })" for name c
    proof -
      obtain ctx1 f where g: "json_script_get_file H name ctx = Some (ctx1, f)" "running st s u ctx1"
        "f \<noteq> 0 \<longrightarrow> store ctx1 f \<noteq> None" using get_file_running [OF q run ok] by blast
      show ?thesis
      proof (cases "f = 0")
        case False
        then obtain ctx2 where "script_run n P H call f c ctx1 = Some ctx2" "running st s u ctx2"
          using script_run_running [where P = P and u = u, OF F q ok g(2) _ s n] g(3) by blast
        then show ?thesis using g False by auto
      qed (use g in auto)
    qed
    then show ?thesis using run by (auto simp: handle_include_def split: option.split)
  qed
  ultimately have h: "returns (running st s u) (h cur ctx)" if "map_of (cmd_handlers n E P H call) k = Some h" for k h
    using that by (auto simp: cmd_handlers_def split: if_splits)
  show ?thesis
  proof (cases "attr_type cur = BLOBMSG_TYPE_ARRAY")
    case True
    then obtain hd where "head_of cur = Some hd" using head_of_array cur unfolding script_ok_def by blast
    then show ?thesis using True h q run
      by (auto simp: process_command_def cmd_process_strings_def case_prod_beta intro!: returns_fst split: option.split)
  qed (use q run in \<open>auto simp: process_command_def\<close>)
qed

lemma block_loop_running:
  assumes "\<And>a ctx. a \<in> set as \<Longrightarrow> running st s u ctx \<Longrightarrow> returns (running st s u) (P a ctx)"
    and "\<And>ctx. running st s u ctx \<Longrightarrow> returns (running st s u) (C ctx)"
  shows "running st s u ctx \<Longrightarrow> returns (running st s u) (block_loop P C as i ctx)"
  using assms(1)
proof (induction as arbitrary: i ctx)
  case (Cons a as)
  show ?case using Cons assms(2) by (auto intro!: returns_bind [where Q = "running st s u"])
qed auto

lemma json_process_cmd_running:
  fixes H :: "'w handlers"
  assumes q: "quiet H" and ok: "files_ok m st" and s: "call_seq call = s"
  shows "script_ok block \<Longrightarrow> size block + u * m < n \<Longrightarrow> running st s u ctx \<Longrightarrow>
    returns (running st s u) (json_process_cmd n H call block ctx)"
proof (induction n arbitrary: block u ctx)
  case (Suc n)
  have um: "0 < u \<Longrightarrow> (u - 1) * m + m = u * m" by (cases u) auto
  have E: "returns (running st s u) (json_process_expr n H call a ctx)"
    if "script_ok a" "size a < size block" "running st s u ctx" for a ctx
    using that Suc.prems(2) by (intro json_process_expr_running [OF q]) auto
  have P: "returns (running st s u) (json_process_cmd n H call a ctx)"
    if "script_ok a" "size a < size block" "running st s u ctx" for a ctx
    using that Suc.prems(2) by (intro Suc.IH) auto
  have F: "returns (running st s (u - 1)) (json_process_cmd n H call a ctx)"
    if "script_ok a" "size a < m" "0 < u" "running st s (u - 1) ctx" for a ctx
    using that um Suc.prems(2) by (intro Suc.IH) auto
  have n: "0 < u \<Longrightarrow> m \<le> n" using um Suc.prems(2) by linarith
  have "returns (running st s u) (block_loop (json_process_cmd n H call)
      (process_command n (json_process_expr n H call) (json_process_cmd n H call) H call block) (elements block) 0 ctx)"
  proof (rule block_loop_running [OF _ _ Suc.prems(3)])
    fix a and ctx :: "'w jctx" assume "a \<in> set (elements block)" "running st s u ctx"
    then show "returns (running st s u) (json_process_cmd n H call a ctx)"
      using Suc.prems(1) by (intro P) (auto intro: script_ok_element element_smaller)
  next
    fix ctx :: "'w jctx" assume r: "running st s u ctx"
    show "returns (running st s u)
        (process_command n (json_process_expr n H call) (json_process_cmd n H call) H call block ctx)"
      by (rule process_command_running [OF q ok r s Suc.prems(1) n E P F])
  qed
  then show ?case using q Suc.prems(3) by (auto simp: process_cmd_with_def)
qed simp

section \<open>A run ends\<close>

text \<open>The tree of files holds files that are in memory, by their names.\<close>

definition tree_ok :: "'w jctx \<Rightarrow> bool" where
  "tree_ok ctx \<longleftrightarrow> files ctx None = None \<and> (\<forall>n f. files ctx n = Some f \<longrightarrow> f \<noteq> 0 \<and> store ctx f \<noteq> None)"

lemma running_start:
  assumes "files_ok m st" "same_files st (store ctx)" "tree_ok ctx"
  shows "running st s (card (dom st)) ctx"
proof -
  have "unseen s (store ctx) \<subseteq> dom st" using same_files_None [OF assms(2)] by (force simp: unseen_def)
  then have "card (unseen s (store ctx)) \<le> card (dom st)"
    using assms(1) by (intro card_mono) (auto simp: files_ok_def)
  then show ?thesis using assms(2,3) by (auto simp: running_def tree_ok_def)
qed

lemma running_end: "running st s u ctx \<Longrightarrow> same_files st (store ctx) \<and> tree_ok ctx"
  by (simp add: running_def tree_ok_def)


text \<open>Two files that include each other, and then run a command.\<close>

definition file_sample :: "bytes \<Rightarrow> bytes \<Rightarrow> jfile" where
  "file_sample name other = json_script_file_from_blobmsg (Some name)
     (Arr [] [Arr [] [Str [] (ascii ''include''), Str [] other], Arr [] [Str [] [120]]])"

definition script_sample :: "nat jctx" where
  "script_sample = ctx_sample\<lparr>files := [Some [97] \<mapsto> 1, Some [98] \<mapsto> 2],
     store := [1 \<mapsto> file_sample [97] [98], 2 \<mapsto> file_sample [98] [97]]\<rparr>"


end
