(* ===== verification/Format.thy ===== *)
theory Format
  imports CText
begin

text \<open>
  \<^verbatim>\<open>format.c\<close> and the macros of \<^verbatim>\<open>format.h\<close>: formatted text in a buffer of fixed size. The output is the bytes
  written so far; an addition that does not fit is left out, and a write beyond the end of the buffer is
  \<^const>\<open>None\<close>. A format is the bytes before its terminator, so that the end of the list reads as 0.
\<close>

section \<open>Buffers\<close>

definition buff_add1 :: "nat \<Rightarrow> bytes \<Rightarrow> u8 \<Rightarrow> bytes" where
  "buff_add1 sz out e = (if sz - length out < 1 then out else out @ [e])"

definition buff_add :: "nat \<Rightarrow> bytes \<Rightarrow> bytes \<Rightarrow> bytes" where
  "buff_add sz out src = (if sz - length out < length src then out else out @ src)"

text \<open>\<^verbatim>\<open>buff_insert\<close> with the \<^verbatim>\<open>memset\<close> that follows it: \<open>n\<close> pad characters before the byte at \<open>i\<close>.\<close>

definition buff_insert :: "nat \<Rightarrow> bytes \<Rightarrow> nat \<Rightarrow> nat \<Rightarrow> u8 \<Rightarrow> bytes" where
  "buff_insert sz out i n pad =
     (if sz - length out < n then out else take i out @ replicate n pad @ drop i out)"

definition fc :: "bytes \<Rightarrow> u8" where
  "fc f = (case f of [] \<Rightarrow> 0 | c # _ \<Rightarrow> c)"

definition ascii :: "string \<Rightarrow> bytes" where
  "ascii s = map of_char s"

abbreviation c_percent :: u8 where "c_percent \<equiv> 0x25"
abbreviation c_star :: u8 where "c_star \<equiv> 0x2a"
abbreviation c_equal :: u8 where "c_equal \<equiv> 0x3d"

section \<open>Integers\<close>

record format_integer_options =
  o_base :: nat
  o_bits :: nat
  o_signed :: bool
  o_upper :: bool

definition format_digit :: "nat \<Rightarrow> bool \<Rightarrow> nat \<Rightarrow> u8" where
  "format_digit base upper r =
     (if r < 10 + 26 + 26
      then let c = (if r < 10 then 0x30 + r else if r < 10 + 26 then 0x61 + (r - 10) else 0x41 + (r - 10 - 26)) in
           of_nat (if upper \<and> base \<le> 10 + 26 \<and> 0x61 \<le> c \<and> c \<le> 0x7a then c - 0x20 else c)
      else 0x3f)"

text \<open>The digits are written from the last one, before those in \<open>d\<close>.\<close>

function format_digits :: "nat \<Rightarrow> bool \<Rightarrow> nat \<Rightarrow> bytes \<Rightarrow> bytes" where
  "format_digits base upper number d =
     (let q = number div base; d = format_digit base upper (number mod base) # d in
      if q = 0 \<or> base < 2 then d else format_digits base upper q d)"
  by auto
termination
proof (relation "measure (\<lambda>(_, _, number, _). number)", goal_cases)
  case (2 base upper number d q)
  then have "0 < number" "1 < base" by (auto simp: div_greater_zero_iff)
  then show ?case using 2 by simp
qed simp

declare format_digits.simps [simp del]

definition format_integer :: "nat \<Rightarrow> bytes \<Rightarrow> u64 \<Rightarrow> format_integer_options \<Rightarrow> bytes" where
  "format_integer sz out number opt =
     (let neg = o_signed opt \<and> sint number < 0;
          number = (if neg then - number else number);
          out = (if neg then buff_add1 sz out c_minus else out);
          number = (if o_bits opt < 64 then number AND (push_bit (o_bits opt) 1 - 1) else number) in
      buff_add sz out (format_digits (o_base opt) (o_upper opt) (unat number) []))"

section \<open>Floating point numbers\<close>

text \<open>
  The operations on \<^verbatim>\<open>double\<close> that the code uses: conversions from integers and, truncating, to them,
  arithmetic, comparisons, the bits, and the constants \<open>10^n\<close>, 0.1, 0.5 and the decimal logarithm of 2.
\<close>

record 'f f64ops =
  d_of_int :: "int \<Rightarrow> 'f"
  d_to_int :: "'f \<Rightarrow> int"
  d_add :: "'f \<Rightarrow> 'f \<Rightarrow> 'f"
  d_sub :: "'f \<Rightarrow> 'f \<Rightarrow> 'f"
  d_mul :: "'f \<Rightarrow> 'f \<Rightarrow> 'f"
  d_neg :: "'f \<Rightarrow> 'f"
  d_lt :: "'f \<Rightarrow> 'f \<Rightarrow> bool"
  d_eq :: "'f \<Rightarrow> 'f \<Rightarrow> bool"
  d_isnan :: "'f \<Rightarrow> bool"
  d_isinf :: "'f \<Rightarrow> bool"
  d_bits :: "'f \<Rightarrow> u64"
  d_of_bits :: "u64 \<Rightarrow> 'f"
  d_ten :: "int \<Rightarrow> 'f"
  d_tenth :: 'f
  d_half :: 'f
  d_log2 :: 'f

definition d_ge :: "'f f64ops \<Rightarrow> 'f \<Rightarrow> 'f \<Rightarrow> bool" where
  "d_ge D x y \<longleftrightarrow> d_lt D y x \<or> d_eq D x y"

text \<open>The exponent that \<^verbatim>\<open>f64_down\<close> takes out, and \<^verbatim>\<open>f64_up\<close>, which puts sign, exponent and fraction together.\<close>

definition f64_expon :: "'f f64ops \<Rightarrow> 'f \<Rightarrow> int" where
  "f64_expon D f = uint (drop_bit 52 (d_bits D f) AND 0x7ff) - 1023"

definition f64_up :: "'f f64ops \<Rightarrow> bool \<Rightarrow> int \<Rightarrow> u64 \<Rightarrow> 'f" where
  "f64_up D sign expon fraction =
     (let e = expon + 1023; e = (if e > 1023 then 1023 else e); e = (if e < 0 then 0 else e) in
      d_of_bits D (push_bit 63 (of_bool sign) OR push_bit 52 (word_of_int e) OR (fraction AND (push_bit 52 1 - 1))))"

partial_function (option) precision_bits :: "'f f64ops \<Rightarrow> 'f \<Rightarrow> 'f \<Rightarrow> int \<Rightarrow> int option" where
  "precision_bits D one small n_bits =
     (if d_eq D one (d_of_int D 1) then Some n_bits
      else precision_bits D (d_add D (d_of_int D 1) (d_mul D small (d_half D))) (d_mul D small (d_half D)) (n_bits + 1))"

definition f64_precision :: "'f f64ops \<Rightarrow> int \<Rightarrow> 'f option" where
  "f64_precision D base2_expon =
     do { n_bits \<leftarrow> precision_bits D (d_of_int D 0) (d_of_int D 1) 0; Some (f64_up D False (base2_expon - n_bits) 0) }"

function tens_up :: "'f f64ops \<Rightarrow> 'f \<Rightarrow> int \<Rightarrow> 'f" where
  "tens_up D x n = (if n \<ge> 8 then tens_up D (d_mul D x (d_ten D 8)) (n - 8) else d_mul D x (d_ten D n))"
  by auto
termination by (relation "measure (\<lambda>(_, _, n). nat n)") auto

function tens_down :: "'f f64ops \<Rightarrow> 'f \<Rightarrow> int \<Rightarrow> 'f" where
  "tens_down D x n = (if n \<le> -8 then tens_down D (d_mul D x (d_ten D (-8))) (n + 8) else d_mul D x (d_ten D n))"
  by auto
termination by (relation "measure (\<lambda>(_, _, n). nat (- n))") auto

declare tens_up.simps [simp del] tens_down.simps [simp del]

definition times_power_of_ten :: "'f f64ops \<Rightarrow> 'f \<Rightarrow> int \<Rightarrow> 'f" where
  "times_power_of_ten D x n = (if n \<ge> 0 then tens_up D x n else tens_down D x n)"

partial_function (option) scale_up :: "'f f64ops \<Rightarrow> 'f \<Rightarrow> 'f \<Rightarrow> int \<Rightarrow> ('f \<times> 'f \<times> int) option" where
  "scale_up D x prec expon10 =
     (if d_lt D x (d_of_int D 1)
      then scale_up D (d_mul D x (d_of_int D 10)) (d_mul D prec (d_of_int D 10)) (expon10 - 1)
      else Some (x, prec, expon10))"

partial_function (option) scale_down :: "'f f64ops \<Rightarrow> 'f \<Rightarrow> 'f \<Rightarrow> int \<Rightarrow> ('f \<times> 'f \<times> int) option" where
  "scale_down D x prec expon10 =
     (if d_lt D (d_of_int D 10) x
      then scale_down D (d_mul D x (d_tenth D)) (d_mul D prec (d_tenth D)) (expon10 + 1)
      else Some (x, prec, expon10))"

text \<open>\<^verbatim>\<open>normalize\<close>: the number between 1 and 10, its decimal exponent, and its precision.\<close>

definition normalize :: "'f f64ops \<Rightarrow> 'f \<Rightarrow> ('f \<times> int \<times> 'f) option" where
  "normalize D x =
     (let expon2 = f64_expon D x;
          expon10 = d_to_int D (d_add D (d_half D) (d_mul D (d_of_int D expon2) (d_log2 D))) in
      do { prec \<leftarrow> f64_precision D expon2;
           (x, prec, expon10) \<leftarrow> scale_up D (times_power_of_ten D x (c_int (- expon10)))
              (times_power_of_ten D prec (c_int (- expon10))) expon10;
           (x, prec, expon10) \<leftarrow> scale_down D x prec expon10;
           Some (if d_ge D (d_add D x prec) (d_of_int D 10) then (d_of_int D 1, expon10 + 1, prec) else (x, expon10, prec)) })"

primrec add_some_zeros :: "nat \<Rightarrow> bytes \<Rightarrow> nat \<Rightarrow> bytes" where
  "add_some_zeros sz out 0 = out"
| "add_some_zeros sz out (Suc n) = add_some_zeros sz (buff_add1 sz out c_0) n"

text \<open>
  The loop of \<^verbatim>\<open>format_float\<close>: the number and its precision, the places to the decimal point, the digits of the
  fraction done, and whether the point was written.
\<close>

partial_function (option) float_digits ::
  "'f f64ops \<Rightarrow> nat \<Rightarrow> nat \<Rightarrow> 'f \<Rightarrow> 'f \<Rightarrow> int \<Rightarrow> nat \<Rightarrow> bool \<Rightarrow> bytes \<Rightarrow> (int \<times> nat \<times> bool \<times> bytes) option" where
  "float_digits D sz wanted x prec point n_done added out =
     (if d_lt D x prec then Some (point, n_done, added, out)
      else
        let digit = d_to_int D x;
            x = d_sub D x (d_of_int D digit);
            up = d_ge D (d_add D x prec) (d_of_int D 1);
            digit = (if up then digit + 1 else digit);
            x = (if up then d_sub D x (d_of_int D 1) else x);
            digit = (if point \<le> 0 \<and> n_done + 1 = wanted \<and> digit < 9 \<and> d_ge D x (d_half D) then digit + 1 else digit);
            out = buff_add1 sz out (word_of_int (0x30 + digit));
            point = point - 1;
            n_done = (if point < 0 then n_done + 1 else n_done) in
        if point \<le> 0 \<and> n_done \<ge> wanted then Some (point, n_done, added, out)
        else
          let dot = (point = 0 \<and> \<not> d_eq D x (d_of_int D 0));
              out = (if dot then buff_add1 sz out c_dot else out) in
          float_digits D sz wanted (d_mul D x (d_of_int D 10)) (d_mul D prec (d_of_int D 10)) point n_done (added \<or> dot) out)"

definition float_end :: "nat \<Rightarrow> nat \<Rightarrow> u8 \<Rightarrow> int \<Rightarrow> int \<times> nat \<times> bool \<times> bytes \<Rightarrow> bytes" where
  "float_end sz wanted style expon r =
     (case r of (point, n_done, added, out) \<Rightarrow>
        let out = (if point > 0 then add_some_zeros sz out (nat point) else out);
            out = (if n_done < wanted
                   then add_some_zeros sz (if \<not> added then buff_add1 sz out c_dot else out) (wanted - n_done) else out) in
        if style = 0x65
        then format_integer sz (buff_add sz out [0x65]) (word_of_int expon)
               \<lparr>o_base = 10, o_bits = 64, o_signed = True, o_upper = False\<rparr>
        else out)"

definition format_float :: "'f f64ops \<Rightarrow> nat \<Rightarrow> bytes \<Rightarrow> 'f \<Rightarrow> u64 \<Rightarrow> u8 \<Rightarrow> bytes option" where
  "format_float D sz out x n_fraction_digits style =
     (let wanted = (if n_fraction_digits = - 1 then 7 else unat n_fraction_digits);
          zero = float_end sz wanted style 0 (0, 0, False, buff_add1 sz out c_0) in
      if d_eq D x (d_of_int D 0) then Some zero
      else
        let sign = d_lt D x (d_of_int D 0); x = (if sign then d_neg D x else x); s = (if sign then c_minus else c_plus) in
        if d_isnan D x then Some (buff_add sz (buff_add1 sz out s) (ascii ''NaN''))
        else if d_isinf D x then Some (buff_add sz (buff_add1 sz out s) (ascii ''infinity''))
        else
          do { (x, expon, prec) \<leftarrow> normalize D x;
               if - expon > int wanted \<and> (style = 0x66 \<or> style = 0x67)
               then Some (float_end sz wanted style expon (0, 0, False, buff_add1 sz out c_0))
               else
                 let out = (if sign then buff_add1 sz out c_minus else out);
                     plain = (style = 0x66 \<or> style = 0x67 \<and> expon > -10 \<and> expon < 10);
                     n_done = (if plain \<and> expon < 0 then min (nat (- (expon + 1))) wanted else 0);
                     out = (if plain \<and> expon < 0 then add_some_zeros sz (buff_add1 sz out c_dot) n_done else out);
                     point = (if plain then (if expon < 0 then - int n_done else expon + 1) else 1) in
                 do { r \<leftarrow> float_digits D sz wanted x prec point n_done (plain \<and> expon < 0) out;
                      Some (float_end sz wanted (if plain then style else 0x65) expon r) } })"

section \<open>Conversions\<close>

record format_info =
  fi_justify :: u8
  fi_width0 :: u64
  fi_width1 :: u64
  fi_long :: u8
  fi_pad :: u8

definition justify :: "nat \<Rightarrow> bytes \<Rightarrow> format_info \<Rightarrow> nat \<Rightarrow> bytes option" where
  "justify sz out fi s_orig =
     (let l1 = length out; l0 = (if fi_width0 fi = 0 then l1 else s_orig + unat (fi_width0 fi)) in
      if l1 > l0 then Some (take l0 out)
      else if l0 > l1
      then let n = l0 - l1;
               n_left = (if fi_justify fi = c_plus then n
                         else if fi_justify fi = c_equal then n div 2 + n mod 2 else 0);
               n_right = (if fi_justify fi = c_minus then n else if fi_justify fi = c_equal then n div 2 else 0);
               out' = (if n_left > 0 then buff_insert sz out s_orig n_left (fi_pad fi) else out) in
           if n_right > 0 \<and> sz - length out \<ge> n_right
           then if length out' + n_right \<le> sz then Some (out' @ replicate n_right (fi_pad fi)) else None
           else Some out'
      else Some out)"

text \<open>
  The arguments, as wide as they are passed. A conversion of a pointer to a function calls it with the
  room that is left; it returns what it wrote.
\<close>

datatype 'f farg = F_int u32 | F_64 u64 | F_str "bytes option" | F_float 'f | F_fun nat

record 'f fext =
  x_f64 :: "'f f64ops"
  x_user :: "nat \<Rightarrow> nat \<Rightarrow> 'f farg list \<Rightarrow> (bytes \<times> 'f farg list) option"

definition arg_int :: "'f farg list \<Rightarrow> (u32 \<times> 'f farg list) option" where
  "arg_int va = (case va of F_int i # va \<Rightarrow> Some (i, va) | _ \<Rightarrow> None)"

definition arg_64 :: "'f farg list \<Rightarrow> (u64 \<times> 'f farg list) option" where
  "arg_64 va = (case va of F_64 i # va \<Rightarrow> Some (i, va) | _ \<Rightarrow> None)"

text \<open>One of the two widths: \<open>*\<close> or digits.\<close>

fun width_digits :: "u64 \<Rightarrow> bytes \<Rightarrow> u64 \<times> bytes" where
  "width_digits w [] = (w, [])"
| "width_digits w (c # f) = (if isdigit c then width_digits (10 * w + (ucast c - 0x30)) f else (w, c # f))"

definition parse_width :: "bytes \<Rightarrow> 'f farg list \<Rightarrow> (u64 \<times> bytes \<times> 'f farg list) option" where
  "parse_width f va =
     (if fc f = c_star then do { (w, va) \<leftarrow> arg_int va; Some (scast w, tl f, va) }
      else case width_digits 0 f of (w, f) \<Rightarrow> Some (w, f, va))"

definition parse_widths :: "format_info \<Rightarrow> bytes \<Rightarrow> 'f farg list \<Rightarrow> (format_info \<times> bytes \<times> 'f farg list) option" where
  "parse_widths fi f va =
     (let fi = (if fc f = c_0 then fi\<lparr>fi_pad := c_0\<rparr> else fi) in
      do { (w0, f, va) \<leftarrow> parse_width f va;
           let fi = fi\<lparr>fi_width0 := w0\<rparr> in
           if fc f \<noteq> c_dot then Some (fi, f, va)
           else do { (w1, f, va) \<leftarrow> parse_width (tl f) va;
                     let fi = fi\<lparr>fi_width1 := w1\<rparr> in
                     Some (fi, if fc f \<noteq> c_dot then f else tl f, va) } })"

definition parse_long :: "format_info \<Rightarrow> bytes \<Rightarrow> format_info \<times> bytes" where
  "parse_long fi f =
     (let c = fc f in
      if c = 0x77 then (fi\<lparr>fi_long := 0x77\<rparr>, tl f)
      else if c = 0x4c \<or> c = 0x6c
      then let f = tl f in
           if fc f = 0x6c then (fi\<lparr>fi_long := 0x4c\<rparr>, tl f) else (fi\<lparr>fi_long := c\<rparr>, f)
      else (fi, f))"

text \<open>\<^verbatim>\<open>%x\<close>, \<^verbatim>\<open>%X\<close>, \<^verbatim>\<open>%u\<close> and \<^verbatim>\<open>%d\<close>: without a length an \<^verbatim>\<open>int\<close>, else 64 bits.\<close>

definition format_number :: "nat \<Rightarrow> bytes \<Rightarrow> u8 \<Rightarrow> u8 \<Rightarrow> 'f farg list \<Rightarrow> (bytes \<times> 'f farg list) option" where
  "format_number sz out c how_long va =
     (let opt = \<lparr>o_base = (if c = 0x78 \<or> c = 0x58 then 16 else 10), o_bits = (if how_long = 0 then 32 else 64),
                 o_signed = (c = 0x64), o_upper = (c = 0x58)\<rparr> in
      if how_long = 0 then do { (i, va) \<leftarrow> arg_int va; Some (format_integer sz out (scast i) opt, va) }
      else do { (i, va) \<leftarrow> arg_64 va; Some (format_integer sz out i opt, va) })"

definition format_string :: "nat \<Rightarrow> bytes \<Rightarrow> u8 \<Rightarrow> u64 \<Rightarrow> 'f farg list \<Rightarrow> (bytes \<times> 'f farg list) option" where
  "format_string sz out c width va =
     (case va of
        F_str str # va \<Rightarrow>
          (let text = (case str of None \<Rightarrow> ascii ''(nil)''
                       | Some s \<Rightarrow> if width \<noteq> 0 then take (unat width) s else s) in
           Some (if c = 0x53 then foldl (\<lambda>out x. buff_add1 sz out (if x = 0x5f then c_space else x)) out text
                 else buff_add sz out text, va))
      | _ \<Rightarrow> None)"

definition format_pointer :: "nat \<Rightarrow> bytes \<Rightarrow> 'f farg list \<Rightarrow> (bytes \<times> 'f farg list) option" where
  "format_pointer sz out va =
     do { (p, va) \<leftarrow> arg_64 va;
          Some (format_integer sz (buff_add1 sz (buff_add1 sz out c_0) 0x78) p
                  \<lparr>o_base = 16, o_bits = 64, o_signed = False, o_upper = False\<rparr>, va) }"

definition format_float_arg :: "'f fext \<Rightarrow> nat \<Rightarrow> bytes \<Rightarrow> u8 \<Rightarrow> u64 \<Rightarrow> 'f farg list \<Rightarrow> (bytes \<times> 'f farg list) option" where
  "format_float_arg X sz out c width va =
     (case va of
        F_float x # va \<Rightarrow> do { out \<leftarrow> format_float (x_f64 X) sz out x width c; Some (out, va) }
      | _ \<Rightarrow> None)"

definition format_user :: "'f fext \<Rightarrow> nat \<Rightarrow> bytes \<Rightarrow> 'f farg list \<Rightarrow> (bytes \<times> 'f farg list) option" where
  "format_user X sz out va =
     (case va of
        F_fun u # va \<Rightarrow> do { (t, va) \<leftarrow> x_user X u (sz - length out) va; Some (out @ t, va) }
      | _ \<Rightarrow> None)"

text \<open>The message for an unknown letter, as \<^verbatim>\<open>format\<close> writes it piece by piece.\<close>

definition unknown_format :: "nat \<Rightarrow> bytes \<Rightarrow> u8 \<Rightarrow> bytes" where
  "unknown_format sz out c =
     buff_add sz (buff_add1 sz (buff_add1 sz (buff_add sz out (ascii ''**** CLIB unknown format `'')) c_percent) c)
       (ascii [CHR 0x27, CHR '' '', CHR ''*'', CHR ''*'', CHR ''*'', CHR ''*''])"

text \<open>\<^verbatim>\<open>do_percent\<close>: \<open>f\<close> stands behind the percent sign.\<close>

definition format_letter ::
  "'f fext \<Rightarrow> nat \<Rightarrow> bytes \<Rightarrow> format_info \<Rightarrow> u8 \<Rightarrow> 'f farg list \<Rightarrow> (bytes \<times> 'f farg list) option" where
  "format_letter X sz out fi c va =
     (if c = 0x63 then do { (i, va) \<leftarrow> arg_int va; Some (buff_add1 sz out (ucast i), va) }
      else if c = 0x70 then format_pointer sz out va
      else if c = 0x78 \<or> c = 0x58 \<or> c = 0x75 \<or> c = 0x64 then format_number sz out c (fi_long fi) va
      else if c = 0x73 \<or> c = 0x53 then format_string sz out c (fi_width1 fi) va
      else if c = 0x66 \<or> c = 0x67 \<or> c = 0x65 then format_float_arg X sz out c (fi_width1 fi) va
      else format_user X sz out va)"

definition known_letter :: "u8 \<Rightarrow> bool" where
  "known_letter c \<longleftrightarrow> c \<in> {0x63, 0x70, 0x78, 0x58, 0x75, 0x64, 0x73, 0x53, 0x66, 0x67, 0x65, 0x55}"

definition format_percent ::
  "'f fext \<Rightarrow> nat \<Rightarrow> bytes \<Rightarrow> bytes \<Rightarrow> 'f farg list \<Rightarrow> (bytes \<times> bytes \<times> 'f farg list) option" where
  "format_percent X sz out f va =
     (let c = fc f in
      if c = c_percent then Some (buff_add1 sz out c, tl f, va)
      else
        let fi = \<lparr>fi_justify = c_plus, fi_width0 = 0, fi_width1 = 0, fi_long = 0, fi_pad = c_space\<rparr>;
            (fi, f) = (if c = c_minus \<or> c = c_plus \<or> c = c_equal then (fi\<lparr>fi_justify := c\<rparr>, tl f) else (fi, f)) in
        do { (fi, f, va) \<leftarrow> parse_widths fi f va;
             case parse_long fi f of (fi, f) \<Rightarrow>
               let c = fc f in
               if c = 0 then Some (out, f, va)
               else if \<not> known_letter c then Some (unknown_format sz out c, tl f, va)
               else do { (out', va) \<leftarrow> format_letter X sz out fi c va;
                         out' \<leftarrow> justify sz out' fi (length out);
                         Some (out', tl f, va) } })"

text \<open>\<^verbatim>\<open>va_format\<close>: \<open>g\<close> is the text since the last conversion.\<close>

primrec format_loop ::
  "'f fext \<Rightarrow> nat \<Rightarrow> nat \<Rightarrow> bytes \<Rightarrow> bytes \<Rightarrow> bytes \<Rightarrow> 'f farg list \<Rightarrow> (bytes \<times> 'f farg list) option" where
  "format_loop X sz 0 out g f va = None"
| "format_loop X sz (Suc n) out g f va =
     (let c = fc f in
      if c = 0 then Some (if g \<noteq> [] then buff_add sz out g else out, va)
      else if c = c_percent
      then do { (out, f, va) \<leftarrow> format_percent X sz (if g \<noteq> [] then buff_add sz out g else out) (tl f) va;
                format_loop X sz n out [] f va }
      else format_loop X sz n out (g @ [c]) (tl f) va)"

definition va_format :: "'f fext \<Rightarrow> nat \<Rightarrow> bytes \<Rightarrow> 'f farg list \<Rightarrow> (bytes \<times> 'f farg list) option" where
  "va_format X sz fmt va = format_loop X sz (length fmt + 1) [] [] fmt va"

definition format :: "'f fext \<Rightarrow> nat \<Rightarrow> bytes \<Rightarrow> 'f farg list \<Rightarrow> bytes option" where
  "format X sz fmt va = map_option fst (va_format X sz fmt va)"

text \<open>The wrappers format into a buffer on the stack and hand the bytes on.\<close>

definition FORMAT_BUFF_MAX_SIZE :: nat where "FORMAT_BUFF_MAX_SIZE = 1024"

definition va_fformat :: "'f fext \<Rightarrow> bytes \<Rightarrow> 'f farg list \<Rightarrow> bytes option" where
  "va_fformat X fmt va = map_option fst (va_format X FORMAT_BUFF_MAX_SIZE fmt va)"

definition fformat :: "'f fext \<Rightarrow> bytes \<Rightarrow> 'f farg list \<Rightarrow> bytes option" where
  "fformat X fmt va = va_fformat X fmt va"

definition fdformat :: "'f fext \<Rightarrow> bytes \<Rightarrow> 'f farg list \<Rightarrow> bytes option" where
  "fdformat X fmt va = map_option fst (va_format X FORMAT_BUFF_MAX_SIZE fmt va)"

text \<open>\<^verbatim>\<open>format_get_indent\<close>: the bytes after the last newline.\<close>

definition format_get_indent :: "bytes option \<Rightarrow> nat" where
  "format_get_indent s =
     (case s of None \<Rightarrow> 0 | Some s \<Rightarrow> length (takeWhile (\<lambda>c. c \<noteq> c_newline) (rev s)))"

end
