(* ===== verification/Unformat.thy ===== *)
theory Unformat
  imports Format
begin

text \<open>
  \<^verbatim>\<open>unformat.c\<close> and the inline functions of \<^verbatim>\<open>format.h\<close>: an input buffer that is read character by character,
  parsers for numbers and words on top of it, and \<^verbatim>\<open>va_unformat\<close>, which matches it with a format and backs
  up when it does not match. The state holds the input, the arguments that are left and the variables
  behind their pointers. \<^const>\<open>None\<close> is a fault: a read beyond the buffer, a pointer of the wrong kind, an
  array index out of range.
\<close>

section \<open>State\<close>

datatype 'f stored = St_int u64 u64 | St_str bytes | St_vec bytes | St_float 'f

datatype uarg = A_ptr nat | A_int u32 | A_fun nat | A_chars "bytes option"

text \<open>\<open>u_source\<close> is what the next calls of \<^verbatim>\<open>read\<close> deliver; \<^const>\<open>None\<close> is a failed call.\<close>

record 'f input =
  u_buffer :: bytes
  u_len :: u64
  u_index :: u64
  u_marks :: "u64 list"
  u_source :: "bytes option list"
  u_args :: "uarg list"
  u_mem :: "nat \<Rightarrow> 'f stored option"

record 'f uext =
  u_fill :: "('f input \<Rightarrow> 'f input \<times> u64) option"
  u_user :: "nat \<Rightarrow> 'f input \<Rightarrow> (bool \<times> 'f input) option"
  u_malloc :: "nat \<Rightarrow> bool"
  u_f64 :: "'f f64ops"

abbreviation UNFORMAT_END_OF_INPUT :: u64 where "UNFORMAT_END_OF_INPUT \<equiv> - 1"

definition buffer_size :: nat where "buffer_size = 1024"
definition max_marks :: nat where "max_marks = 256"

definition unformat_init :: "'f input \<Rightarrow> 'f input" where
  "unformat_init i = i\<lparr>u_buffer := replicate buffer_size 0, u_len := 0, u_index := 0, u_marks := []\<rparr>"

section \<open>Reading\<close>

definition unformat_fill_input :: "'f uext \<Rightarrow> 'f input \<Rightarrow> u64 \<times> 'f input" where
  "unformat_fill_input X i =
     (if u_index i = UNFORMAT_END_OF_INPUT then (u_index i, i)
      else
        let first_mark = (case u_marks i of [] \<Rightarrow> u_len i | m # _ \<Rightarrow> m);
            i = (if first_mark > 0 then i\<lparr>u_len := u_len i - first_mark\<rparr> else i);
            i = i\<lparr>u_index := u_len i, u_marks := map (\<lambda>m. m - first_mark) (u_marks i)\<rparr>;
            i = (case u_fill X of None \<Rightarrow> i | Some f \<Rightarrow> (case f i of (i, n) \<Rightarrow> i\<lparr>u_index := n\<rparr>));
            i = (if u_index i \<ge> u_len i then i\<lparr>u_index := UNFORMAT_END_OF_INPUT\<rparr> else i) in
        (u_index i, i))"

definition unformat_check_input :: "'f uext \<Rightarrow> 'f input \<Rightarrow> u64 \<times> 'f input" where
  "unformat_check_input X i =
     (let i = (if u_index i \<ge> u_len i \<and> u_index i \<noteq> UNFORMAT_END_OF_INPUT then snd (unformat_fill_input X i) else i) in
      (u_index i, i))"

definition unformat_is_eof :: "'f uext \<Rightarrow> 'f input \<Rightarrow> bool \<times> 'f input" where
  "unformat_is_eof X i = (case unformat_check_input X i of (n, i) \<Rightarrow> (n = UNFORMAT_END_OF_INPUT, i))"

definition unformat_get_input :: "'f uext \<Rightarrow> 'f input \<Rightarrow> (u64 \<times> 'f input) option" where
  "unformat_get_input X i =
     (case unformat_check_input X i of (n, i) \<Rightarrow>
        if n < u_len i
        then do { c \<leftarrow> rd (u_buffer i) (unat n); Some (ucast c, i\<lparr>u_index := n + 1\<rparr>) }
        else Some (n, i))"

definition unformat_put_input :: "'f input \<Rightarrow> 'f input" where
  "unformat_put_input i = i\<lparr>u_index := u_index i - 1\<rparr>"

definition unformat_peek_input :: "'f uext \<Rightarrow> 'f input \<Rightarrow> (u64 \<times> 'f input) option" where
  "unformat_peek_input X i =
     do { (c, i) \<leftarrow> unformat_get_input X i;
          Some (c, if c \<noteq> UNFORMAT_END_OF_INPUT then unformat_put_input i else i) }"

partial_function (option) unformat_skip_line :: "'f uext \<Rightarrow> 'f input \<Rightarrow> 'f input option" where
  "unformat_skip_line X i =
     do { (c, i) \<leftarrow> unformat_get_input X i;
          if c \<noteq> UNFORMAT_END_OF_INPUT \<and> c \<noteq> 0x0a then unformat_skip_line X i else Some i }"

definition is_white_space :: "u64 \<Rightarrow> bool" where
  "is_white_space c \<longleftrightarrow> c = 0x20 \<or> c = 0x09 \<or> c = 0x0a \<or> c = 0x0d"

partial_function (option) unformat_skip_white_space :: "'f uext \<Rightarrow> u64 \<Rightarrow> 'f input \<Rightarrow> (u64 \<times> 'f input) option" where
  "unformat_skip_white_space X n i =
     do { (c, i) \<leftarrow> unformat_get_input X i;
          if c = UNFORMAT_END_OF_INPUT then Some (n, i)
          else if \<not> is_white_space c then Some (n, unformat_put_input i)
          else unformat_skip_white_space X (n + 1) i }"

text \<open>Taking the next argument, and writing through a pointer.\<close>

definition arg_ptr :: "'f input \<Rightarrow> (nat \<times> 'f input) option" where
  "arg_ptr i = (case u_args i of A_ptr a # va \<Rightarrow> Some (a, i\<lparr>u_args := va\<rparr>) | _ \<Rightarrow> None)"

definition arg_uint :: "'f input \<Rightarrow> (u32 \<times> 'f input) option" where
  "arg_uint i = (case u_args i of A_int n # va \<Rightarrow> Some (n, i\<lparr>u_args := va\<rparr>) | _ \<Rightarrow> None)"

definition put_var :: "nat \<Rightarrow> 'f stored \<Rightarrow> 'f input \<Rightarrow> 'f input option" where
  "put_var a v i = (if a = 0 then None else Some (i\<lparr>u_mem := (u_mem i)(a \<mapsto> v)\<rparr>))"

section \<open>Integers\<close>

definition int_digit :: "u64 \<Rightarrow> u64 \<Rightarrow> u64 option" where
  "int_digit base c =
     (if 0x30 \<le> c \<and> c \<le> 0x39 then Some (c - 0x30)
      else if 0x61 \<le> c \<and> c \<le> 0x7a then Some (10 + (c - 0x61))
      else if 0x41 \<le> c \<and> c \<le> 0x5a then Some (10 + (if base \<ge> 36 then 26 else 0) + (c - 0x41))
      else if c = 0x2f then Some 62
      else if c = 0x3f then Some 63
      else None)"

text \<open>
  The loop of \<^verbatim>\<open>unformat_integer\<close> with what it keeps: the value, the digits and characters read and the sign;
  the outcome \<^const>\<open>None\<close> is the label \<^verbatim>\<open>error\<close>.
\<close>

partial_function (option) int_loop ::
  "'f uext \<Rightarrow> u64 \<Rightarrow> bool \<Rightarrow> u64 \<Rightarrow> u64 \<Rightarrow> u64 \<Rightarrow> bool \<Rightarrow> 'f input \<Rightarrow> ((u64 \<times> u64 \<times> bool) option \<times> 'f input) option" where
  "int_loop X base is_signed value n_digits n_input sign i =
     do { (c, i) \<leftarrow> unformat_get_input X i;
          if c = UNFORMAT_END_OF_INPUT then Some (Some (value, n_digits, sign), i)
          else if c = 0x2d
          then (if n_input = 0
                then (if is_signed then int_loop X base is_signed value n_digits (n_input + 1) True i
                      else Some (None, i))
                else Some (Some (value, n_digits, sign), unformat_put_input i))
          else if c = 0x2b
          then (if n_input > 0 then Some (Some (value, n_digits, sign), unformat_put_input i)
                else int_loop X base is_signed value n_digits (n_input + 1) False i)
          else case int_digit base c of
            None \<Rightarrow> Some (Some (value, n_digits, sign), unformat_put_input i)
          | Some digit \<Rightarrow>
              (if digit \<ge> base then Some (Some (value, n_digits, sign), unformat_put_input i)
               else let new_value = base * value + digit in
                    if new_value < value then Some (None, i)
                    else int_loop X base is_signed new_value (n_digits + 1) (n_input + 1) sign i) }"

definition unformat_integer :: "'f uext \<Rightarrow> u64 \<Rightarrow> bool \<Rightarrow> u64 \<Rightarrow> 'f input \<Rightarrow> (bool \<times> 'f input) option" where
  "unformat_integer X base is_signed data_bytes i =
     (if base < 2 \<or> base > 64 then Some (False, i)
      else do { (r, i) \<leftarrow> int_loop X base is_signed 0 0 0 False i;
                case r of None \<Rightarrow> Some (False, i)
                | Some (value, n_digits, sign) \<Rightarrow>
                   let value = (if sign then - value else value) in
                   if n_digits > 0
                   then do { (v, i) \<leftarrow> arg_ptr i;
                             let data_bytes = (if data_bytes = - 1 then 4 else data_bytes) in
                             if data_bytes \<in> {1, 2, 4, 8}
                             then do { i \<leftarrow> put_var v (St_int data_bytes (take_bit (8 * unat data_bytes) value)) i; Some (True, i) }
                             else Some (False, i) }
                   else Some (False, i) })"

section \<open>Strings and tokens\<close>

definition add_char :: "bytes \<Rightarrow> u8 \<Rightarrow> bytes" where
  "add_char s c = buff_add1 FORMAT_BUFF_MAX_SIZE s c"

text \<open>
  The loop of \<^verbatim>\<open>unformat_string\<close>: the open braces, whether the string is in braces, whether a backslash was
  read, and the string; it ends with the last character read.
\<close>

partial_function (option) string_loop ::
  "'f uext \<Rightarrow> u64 \<Rightarrow> bool \<Rightarrow> int \<Rightarrow> bool \<Rightarrow> bool \<Rightarrow> bytes \<Rightarrow> 'f input \<Rightarrow> (u64 \<times> int \<times> bytes \<times> 'f input) option" where
  "string_loop X delim want paren is_paren backslash s i =
     do { (c, i) \<leftarrow> unformat_get_input X i;
          if c = UNFORMAT_END_OF_INPUT then Some (c, paren, s, i)
          else if backslash then string_loop X delim want paren is_paren False (if want then add_char s (ucast c) else s) i
            else if c = 0x5c then string_loop X delim want paren is_paren True s i
            else if c = 0x7b
            then (if paren = 0 \<and> s = [] then string_loop X delim want (paren + 1) True False s i
                  else string_loop X delim want (paren + 1) is_paren False (if want then add_char s (ucast c) else s) i)
            else if c = 0x7d
            then (if is_paren \<and> paren - 1 = 0 then Some (c, paren - 1, s, i)
                  else string_loop X delim want (paren - 1) is_paren False (if want then add_char s (ucast c) else s) i)
            else if is_white_space c
            then (if \<not> is_paren then Some (c, paren, s, unformat_put_input i)
                  else string_loop X delim want paren is_paren False (if want then add_char s (ucast c) else s) i)
            else if \<not> is_paren \<and> c = delim then Some (c, paren, s, unformat_put_input i)
            else string_loop X delim want paren is_paren False (if want then add_char s (ucast c) else s) i }"

text \<open>A \<^verbatim>\<open>char\<close> of the format is signed.\<close>

definition unformat_string :: "'f uext \<Rightarrow> u8 \<Rightarrow> u8 \<Rightarrow> 'f input \<Rightarrow> (bool \<times> 'f input) option" where
  "unformat_string X delimiter format_character i =
     (let delim = (if delimiter \<in> {c_percent, c_space, c_tab} then 0 else scast delimiter) in
      do { (p, i) \<leftarrow> arg_ptr i;
           (c, paren, s, i) \<leftarrow> string_loop X delim (p \<noteq> 0) 0 False False [] i;
           if p = 0 then Some (True, i)
           else
             let s = (if c = UNFORMAT_END_OF_INPUT \<and> s = [] \<and> paren = 1 then add_char s 0x7b else s) in
             if c = UNFORMAT_END_OF_INPUT \<and> s = [] then Some (False, i)
             else
               let s = (if format_character = 0x73 then add_char s 0 else s) in
               if \<not> u_malloc X (length s + 1) then Some (False, i)
               else do { i \<leftarrow> put_var p (St_str (s @ [0])) i; Some (True, i) } })"

definition hex_digit :: "u64 \<Rightarrow> u64 option" where
  "hex_digit c =
     (if 0x30 \<le> c \<and> c \<le> 0x39 then Some (c - 0x30)
      else if 0x61 \<le> c \<and> c \<le> 0x66 then Some (10 + c - 0x61)
      else if 0x41 \<le> c \<and> c \<le> 0x46 then Some (10 + c - 0x41)
      else None)"

partial_function (option) hex_loop :: "'f uext \<Rightarrow> u64 \<Rightarrow> u64 \<Rightarrow> bytes \<Rightarrow> 'f input \<Rightarrow> (u64 \<times> bytes \<times> 'f input) option" where
  "hex_loop X n d s i =
     do { (c, i) \<leftarrow> unformat_get_input X i;
          if c = UNFORMAT_END_OF_INPUT then Some (n, s, i)
          else case hex_digit c of
            None \<Rightarrow> Some (n, s, unformat_put_input i)
          | Some x \<Rightarrow>
              (let d = 16 * d + x; n = n + 1 in
               if n = 2 then hex_loop X 0 0 (add_char s (ucast d)) i else hex_loop X n d s i) }"

definition unformat_hex_string :: "'f uext \<Rightarrow> 'f input \<Rightarrow> (bool \<times> 'f input) option" where
  "unformat_hex_string X i =
     do { (p, i) \<leftarrow> arg_ptr i;
          (n, s, i) \<leftarrow> hex_loop X 0 0 [] i;
          if n mod 2 \<noteq> 0 then Some (False, i)
          else if s = [] then Some (False, i)
          else if \<not> u_malloc X (8 + length s) then Some (False, i)
          else do { i \<leftarrow> put_var p (St_vec s) i; Some (True, i) } }"

definition unformat_eof :: "'f uext \<Rightarrow> 'f input \<Rightarrow> (bool \<times> 'f input) option" where
  "unformat_eof X i = (case unformat_check_input X i of (n, i) \<Rightarrow> Some (n = UNFORMAT_END_OF_INPUT, i))"

text \<open>The characters of a token: single ones and ranges. The code also reads the byte behind the terminator.\<close>

fun in_token :: "bytes \<Rightarrow> u8 \<Rightarrow> bool" where
  "in_token [] x = False"
| "in_token [a] x = (x = a)"
| "in_token [a, b] x = (x = a \<or> in_token [b] x)"
| "in_token (a # b # c # s) x =
     (if a < c \<and> b = c_minus then a \<le> x \<and> x \<le> c \<or> in_token s x else x = a \<or> in_token (b # c # s) x)"

partial_function (option) token_loop :: "'f uext \<Rightarrow> bytes \<Rightarrow> bytes \<Rightarrow> 'f input \<Rightarrow> (bytes \<times> 'f input) option" where
  "token_loop X token_chars s i =
     do { (c, i) \<leftarrow> unformat_get_input X i;
          if c = UNFORMAT_END_OF_INPUT then Some (s, i)
          else if \<not> in_token token_chars (ucast c) then Some (s, unformat_put_input i)
          else token_loop X token_chars (add_char s (ucast c)) i }"

definition unformat_token :: "'f uext \<Rightarrow> 'f input \<Rightarrow> (bool \<times> 'f input) option" where
  "unformat_token X i =
     (case u_args i of
        A_chars token_chars # va \<Rightarrow>
          do { (p, i) \<leftarrow> arg_ptr (i\<lparr>u_args := va\<rparr>);
               (s, i) \<leftarrow> token_loop X (case token_chars of None \<Rightarrow> ascii ''a-zA-Z0-9_'' | Some t \<Rightarrow> t) [] i;
               if s = [] then Some (False, i)
               else if \<not> u_malloc X (length s + 1) then Some (False, i)
               else do { i \<leftarrow> put_var p (St_str (s @ [0])) i; Some (True, i) } }
      | _ \<Rightarrow> None)"

section \<open>Floating point numbers\<close>

record fscan =
  fs_values :: "u64 list"
  fs_digits :: "u64 list"
  fs_index :: nat
  fs_signs :: "bool list"
  fs_sign :: nat
  fs_input :: u64

definition put_sign :: "bool \<Rightarrow> fscan \<Rightarrow> fscan option" where
  "put_sign b k =
     (if fs_sign k < 2 then Some (k\<lparr>fs_signs := (fs_signs k)[fs_sign k := b], fs_sign := fs_sign k + 1, fs_input := fs_input k + 1\<rparr>)
      else None)"

text \<open>Whether a sign belongs to the number (\<^const>\<open>Some\<close> \<^const>\<open>True\<close>), ends it, or is an error.\<close>

definition sign_use :: "fscan \<Rightarrow> bool option" where
  "sign_use k =
     (if fs_index k = 2 \<and> fs_digits k ! 2 = 0 then Some True
      else if fs_index k < 2 \<and> fs_digits k ! 0 > 0 then Some False
      else if fs_input k > 0 then None
      else Some True)"

partial_function (option) float_loop :: "'f uext \<Rightarrow> fscan \<Rightarrow> 'f input \<Rightarrow> (fscan option \<times> 'f input) option" where
  "float_loop X k i =
     do { (c, i) \<leftarrow> unformat_get_input X i;
          if c = UNFORMAT_END_OF_INPUT then Some (Some k, i)
          else if c = 0x2d \<or> c = 0x2b
          then (case sign_use k of
                  None \<Rightarrow> Some (None, i)
                | Some own \<Rightarrow>
                   (if \<not> own then Some (Some k, unformat_put_input i)
                    else do { k \<leftarrow> put_sign (c = 0x2d) k; float_loop X k i }))
          else if c = 0x65 \<or> c = 0x45
          then (if fs_input k = 0 then Some (None, i)
                else float_loop X (k\<lparr>fs_index := 2, fs_sign := 1, fs_input := fs_input k + 1\<rparr>) i)
          else if c = 0x2e
          then (if fs_index k > 0 then Some (None, i)
                else float_loop X (k\<lparr>fs_index := 1, fs_input := fs_input k + 1\<rparr>) i)
          else if 0x30 \<le> c \<and> c \<le> 0x39
          then (let old = fs_values k ! fs_index k; tmp = old * 10 + c - 0x30 in
                if tmp < old then Some (None, i)
                else float_loop X (k\<lparr>fs_values := (fs_values k)[fs_index k := tmp],
                       fs_digits := (fs_digits k)[fs_index k := fs_digits k ! fs_index k + 1],
                       fs_input := fs_input k + 1\<rparr>) i)
          else Some (Some k, unformat_put_input i) }"

definition unformat_float :: "'f uext \<Rightarrow> 'f input \<Rightarrow> (bool \<times> 'f input) option" where
  "unformat_float X i =
     do { (r, i) \<leftarrow> float_loop X \<lparr>fs_values = [0, 0, 0], fs_digits = [0, 0, 0], fs_index = 0,
              fs_signs = [False, False], fs_sign = 0, fs_input = 0\<rparr> i;
          case r of None \<Rightarrow> Some (False, i)
          | Some k \<Rightarrow>
             if fs_digits k ! 0 + fs_digits k ! 1 = 0 then Some (False, i)
             else
               let D = u_f64 X;
                   f0 = d_of_int D (uint (fs_values k ! 0));
                   f0 = (if fs_signs k ! 0 then d_neg D f0 else f0);
                   f1 = times_power_of_ten D (d_of_int D (uint (fs_values k ! 1))) (c_int (- uint (fs_digits k ! 1)));
                   f0 = d_add D f0 f1;
                   expon = (if fs_signs k ! 1 then - (fs_values k ! 2) else fs_values k ! 2);
                   f0 = times_power_of_ten D f0 (c_int (sint expon)) in
               do { (p, i) \<leftarrow> arg_ptr i; i \<leftarrow> put_var p (St_float f0) i; Some (True, i) } }"

section \<open>Matching a format\<close>

text \<open>\<^verbatim>\<open>match_input_with_format\<close>; the outcome \<^const>\<open>None\<close> is the null pointer.\<close>

fun match_input_with_format :: "'f uext \<Rightarrow> bytes \<Rightarrow> 'f input \<Rightarrow> (bytes option \<times> 'f input) option" where
  "match_input_with_format X [] i = Some (Some [], i)"
| "match_input_with_format X (cf # f) i =
     (if cf = 0 \<or> cf = c_percent \<or> cf = c_space then Some (Some (cf # f), i)
      else do { (ci, i) \<leftarrow> unformat_get_input X i;
                if scast cf \<noteq> ci then Some (None, i) else match_input_with_format X f i })"

text \<open>The length of a conversion: the bytes of the variable, all ones for the default, and the letter.\<close>

definition unformat_length :: "bytes \<Rightarrow> u64 \<times> u8 \<times> bytes" where
  "unformat_length f =
     (let cf = fc f; f = tl f in
      if cf = 0x77 then (8, fc f, tl f)
      else if cf = 0x6c then (if fc f = 0x6c then (8, fc (tl f), tl (tl f)) else (8, fc f, tl f))
      else if cf = 0x4c then (8, fc f, tl f)
      else (- 1, cf, f))"

text \<open>\<^verbatim>\<open>%=\<close> and \<^verbatim>\<open>%|\<close> set a variable, or bits of it.\<close>

definition unformat_set :: "bool \<Rightarrow> 'f input \<Rightarrow> (bool \<times> 'f input) option" where
  "unformat_set bits i =
     do { (p, i) \<leftarrow> arg_ptr i;
          (val, i) \<leftarrow> arg_uint i;
          val \<leftarrow> (if bits then (case u_mem i p of Some (St_int _ old) \<Rightarrow> Some (val OR ucast old) | _ \<Rightarrow> None) else Some val);
          i \<leftarrow> put_var p (St_int 4 (ucast val)) i;
          Some (True, i) }"

definition unformat_letter :: "'f uext \<Rightarrow> u64 \<Rightarrow> u8 \<Rightarrow> bytes \<Rightarrow> 'f input \<Rightarrow> (bool \<times> 'f input) option" where
  "unformat_letter X data_bytes cf f i =
     (if cf = 0x44 then do { (n, i) \<leftarrow> arg_uint i; unformat_integer X 10 True (scast n) i }
      else if cf = 0x64 then unformat_integer X 10 True data_bytes i
      else if cf = 0x75 then unformat_integer X 10 False data_bytes i
      else if cf = 0x62 then unformat_integer X 2 False data_bytes i
      else if cf = 0x6f then unformat_integer X 8 False data_bytes i
      else if cf = 0x58 then do { (n, i) \<leftarrow> arg_uint i; unformat_integer X 16 False (scast n) i }
      else if cf = 0x78 then unformat_integer X 16 False data_bytes i
      else if cf = 0x66 then unformat_float X i
      else if cf = 0x73 \<or> cf = 0x76 then unformat_string X (fc f) cf i
      else if cf = 0x55 then (case u_args i of A_fun u # va \<Rightarrow> u_user X u (i\<lparr>u_args := va\<rparr>) | _ \<Rightarrow> None)
      else if cf = 0x3d then unformat_set False i
      else if cf = 0x7c then unformat_set True i
      else Some (False, i))"

definition unformat_percent :: "'f uext \<Rightarrow> bytes \<Rightarrow> 'f input \<Rightarrow> (bytes option \<times> 'f input) option" where
  "unformat_percent X f i =
     (case unformat_length f of (data_bytes, cf, f) \<Rightarrow>
        do { (n, i) \<leftarrow> unformat_letter X data_bytes cf f i; Some (if n then Some f else None, i) })"

text \<open>
  The loop of \<^verbatim>\<open>va_unformat\<close>: \<open>skip\<close> is the default for white space in the input, \<open>pct\<close> and \<open>lit\<close> say what the
  last round matched. \<open>body\<close> is what follows the inspection of the format.
\<close>

definition unformat_body ::
  "'f uext \<Rightarrow> (bool \<Rightarrow> bool \<Rightarrow> bytes \<Rightarrow> 'f input \<Rightarrow> (bool \<times> 'f input) option) \<Rightarrow> bool \<Rightarrow> bool \<Rightarrow> bool \<Rightarrow> bool \<Rightarrow> bool \<Rightarrow>
     u8 \<Rightarrow> bytes \<Rightarrow> 'f input \<Rightarrow> (bool \<times> 'f input) option" where
  "unformat_body X next skip pct lit here is_percent cf f i =
     do { (n, i) \<leftarrow> (if here then unformat_skip_white_space X 0 i else Some (0, i));
          if cf = 0
          then Some (\<not> (here \<and> \<not> pct \<and> \<not> lit \<and> n = 0 \<and> u_index i \<noteq> UNFORMAT_END_OF_INPUT), i)
          else if cf = c_space \<and> \<not> skip
          then (if n = 0 then Some (False, i) else next is_percent False f i)
          else if is_percent
          then do { (r, i) \<leftarrow> unformat_percent X f i;
                    case r of None \<Rightarrow> Some (False, i) | Some f \<Rightarrow> next is_percent False f i }
          else do { (r, i) \<leftarrow> match_input_with_format X f i;
                    case r of None \<Rightarrow> Some (False, i)
                    | Some g \<Rightarrow> next is_percent (length g < length f) g i } }"

primrec unformat_loop ::
  "'f uext \<Rightarrow> bytes \<Rightarrow> nat \<Rightarrow> bool \<Rightarrow> bool \<Rightarrow> bool \<Rightarrow> bytes \<Rightarrow> 'f input \<Rightarrow> (bool \<times> 'f input) option" where
  "unformat_loop X fmt 0 skip pct lit f i = None"
| "unformat_loop X fmt (Suc n) skip pct lit f i =
     (let cf = fc f; here = (f = fmt \<or> skip); next = unformat_loop X fmt n skip in
      if is_white_space (ucast cf)
      then unformat_body X next skip pct lit True False cf (dropWhile (\<lambda>c. is_white_space (ucast c)) (tl f)) i
      else if cf = c_percent
      then
        let f = tl f; c = fc f in
        if c = 0x5f
        then let skip = (\<not> skip); f = tl f in
             do { i \<leftarrow> (if \<not> skip \<and> \<not> (length fmt = length f + 2 \<or> fc f = 0)
                       then map_option snd (unformat_skip_white_space X 0 i) else Some i);
                  unformat_loop X fmt n skip pct lit f i }
        else if c = c_percent then unformat_body X next skip pct lit here False cf f i
        else if c = 0 then Some (False, i)
        else unformat_body X next skip pct lit here True cf f i
      else unformat_body X next skip pct lit here False cf f i)"

definition va_unformat :: "'f uext \<Rightarrow> bytes \<Rightarrow> 'f input \<Rightarrow> (bool \<times> 'f input) option" where
  "va_unformat X fmt i =
     (if length (u_marks i) = max_marks then Some (False, i)
      else do { (ok, i) \<leftarrow> unformat_loop X fmt (length fmt + 1) True False False fmt (i\<lparr>u_marks := u_marks i @ [u_index i]\<rparr>);
                Some (ok, i\<lparr>u_index := (if ok then u_index i else last (u_marks i)), u_marks := butlast (u_marks i)\<rparr>) })"

definition unformat :: "'f uext \<Rightarrow> bytes \<Rightarrow> uarg list \<Rightarrow> 'f input \<Rightarrow> (bool \<times> 'f input) option" where
  "unformat X fmt va i = va_unformat X fmt (i\<lparr>u_args := va\<rparr>)"

definition unformat_user :: "'f uext \<Rightarrow> nat \<Rightarrow> uarg list \<Rightarrow> 'f input \<Rightarrow> (bool \<times> 'f input) option" where
  "unformat_user X func va i =
     (let l = length (u_marks i) in
      if l = max_marks then Some (False, i)
      else do { (ok, i) \<leftarrow> u_user X func (i\<lparr>u_marks := u_marks i @ [u_index i], u_args := va\<rparr>);
                i \<leftarrow> (if \<not> ok \<and> u_index i \<noteq> UNFORMAT_END_OF_INPUT
                      then do { m \<leftarrow> rd (u_marks i) l; Some (i\<lparr>u_index := m\<rparr>) } else Some i);
                Some (ok, i\<lparr>u_marks := take l (u_marks i)\<rparr>) })"

section \<open>Inputs\<close>

text \<open>\<^verbatim>\<open>unformat_init_string\<close>: a string that does not fit leaves the input empty.\<close>

definition fill_with :: "bytes \<Rightarrow> 'f input \<Rightarrow> 'f input" where
  "fill_with s i = i\<lparr>u_buffer := s @ drop (length s) (u_buffer i), u_len := of_nat (length s)\<rparr>"

definition unformat_init_string :: "bytes \<Rightarrow> 'f input \<Rightarrow> 'f input" where
  "unformat_init_string s i = fill_with (buff_add buffer_size [] s) (unformat_init i)"

definition unformat_init_cstring :: "bytes \<Rightarrow> 'f input \<Rightarrow> 'f input" where
  "unformat_init_cstring s i = unformat_init_string s i"

definition unformat_init_unix_env :: "bytes option \<Rightarrow> 'f input \<Rightarrow> bool \<times> 'f input" where
  "unformat_init_unix_env val i = (case val of None \<Rightarrow> (False, i) | Some s \<Rightarrow> (True, unformat_init_string s i))"

fun command_line :: "bytes \<Rightarrow> bytes list \<Rightarrow> bytes" where
  "command_line s [] = s"
| "command_line s (a # as) =
     (let s = buff_add buffer_size s a in
      command_line (if as \<noteq> [] then buff_add1 buffer_size s c_space else s) as)"

definition unformat_init_command_line :: "bytes list \<Rightarrow> 'f input \<Rightarrow> 'f input" where
  "unformat_init_command_line argv i = fill_with (command_line [] (tl argv)) (unformat_init i)"

text \<open>\<^verbatim>\<open>unix_file_fill_buffer\<close>: the result of \<^verbatim>\<open>read\<close> is kept in an unsigned variable.\<close>

definition unix_file_fill_buffer :: "'f input \<Rightarrow> 'f input \<times> u64" where
  "unix_file_fill_buffer i =
     (let room = buffer_size - unat (u_len i) in
      case u_source i of
        [] \<Rightarrow> (i, UNFORMAT_END_OF_INPUT)
      | None # src \<Rightarrow> (i\<lparr>u_source := src, u_len := u_len i + (- 1)\<rparr>, u_index i)
      | Some data # src \<Rightarrow>
         (let got = take room data; k = unat (u_len i);
              src' = (if length data \<le> room then src else Some (drop room data) # src) in
          if got = [] then (i\<lparr>u_source := src'\<rparr>, UNFORMAT_END_OF_INPUT)
          else (i\<lparr>u_source := src', u_buffer := take k (u_buffer i) @ got @ drop (k + length got) (u_buffer i),
                  u_len := u_len i + of_nat (length got)\<rparr>, u_index i)))"

definition unformat_init_unix_file :: "bytes option list \<Rightarrow> 'f uext \<Rightarrow> 'f input \<Rightarrow> 'f uext \<times> 'f input" where
  "unformat_init_unix_file src X i =
     (X\<lparr>u_fill := Some unix_file_fill_buffer\<rparr>, (unformat_init i)\<lparr>u_source := src\<rparr>)"

section \<open>Showing the input\<close>

definition show_char :: "nat \<Rightarrow> bytes \<Rightarrow> u8 \<Rightarrow> bytes" where
  "show_char sz s c =
     (if c = 0x0d then buff_add sz s [0x5c, 0x72]
      else if c = 0x0a then buff_add sz s [0x5c, 0x6e]
      else if c = 0x09 then buff_add sz s [0x5c, 0x74]
      else buff_add1 sz s c)"

text \<open>\<^verbatim>\<open>format_unformat_error\<close> shows up to 30 bytes of the buffer, also those behind the input.\<close>

definition format_unformat_error :: "nat \<Rightarrow> 'f input \<Rightarrow> bytes" where
  "format_unformat_error sz i =
     (let l = buffer_size; k = unat (u_index i) in
      if k < l
      then let n = l - k;
               p = take (if n > 30 then 30 else n) (drop k (u_buffer i));
               p = (if n \<le> 30 then rev (dropWhile (\<lambda>c. is_white_space (ucast c)) (rev p)) else p);
               s = foldl (show_char sz) [] p in
           if n > 30 then buff_add sz s (ascii ''...'') else s
      else [])"

definition format_unformat_input :: "nat \<Rightarrow> 'f input \<Rightarrow> bytes" where
  "format_unformat_input sz i =
     (if u_index i = UNFORMAT_END_OF_INPUT then buff_add sz [] (ascii ''{END_OF_INPUT}'')
      else buff_add sz [] (take (unat (u_len i - u_index i)) (drop (unat (u_index i)) (u_buffer i))))"

end
