(* ===== verification/UnformatSpec.thy ===== *)
theory UnformatSpec
  imports Unformat
begin

text \<open>
  What backing up restores, and that numbers are read as they were written: a match that fails leaves the
  input as it was, and a number that \<^verbatim>\<open>format\<close> has written is the number that \<^verbatim>\<open>unformat\<close> stores.
\<close>

section \<open>Backing up\<close>

text \<open>All but the position, the arguments and the variables is as before.\<close>

definition kept :: "'f input \<Rightarrow> 'f input \<Rightarrow> bool" where
  "kept i i' \<longleftrightarrow> u_buffer i' = u_buffer i \<and> u_len i' = u_len i \<and> u_marks i' = u_marks i \<and> u_source i' = u_source i"

definition whole :: "'f uext \<Rightarrow> 'f input \<Rightarrow> bool" where
  "whole X i \<longleftrightarrow> u_fill X = None \<and> (\<exists>ms. u_marks i = 0 # ms)"

lemma kept_refl [simp]: "kept i i"
  by (simp add: kept_def)

lemma kept_trans [trans]: "kept i j \<Longrightarrow> kept j k \<Longrightarrow> kept i k"
  by (simp add: kept_def)

lemma kept_upd [simp]:
  "kept i (j\<lparr>u_index := n\<rparr>) = kept i j" "kept i (j\<lparr>u_args := va\<rparr>) = kept i j" "kept i (j\<lparr>u_mem := m\<rparr>) = kept i j"
  "kept (j\<lparr>u_args := va\<rparr>) i = kept j i"
  by (simp_all add: kept_def)

lemma kept_put [simp]: "kept i (unformat_put_input j) = kept i j"
  by (simp add: unformat_put_input_def)

lemma whole_kept: "whole X i \<Longrightarrow> kept i j \<Longrightarrow> whole X j"
  by (auto simp: whole_def kept_def)

lemma whole_args [simp]: "whole X (i\<lparr>u_args := va\<rparr>) = whole X i"
  by (simp add: whole_def)

lemma check_kept: "whole X i \<Longrightarrow> kept i (snd (unformat_check_input X i))"
  by (auto simp: unformat_check_input_def unformat_fill_input_def whole_def Let_def kept_def)

lemma get_kept: "unformat_get_input X i = Some (c, j) \<Longrightarrow> whole X i \<Longrightarrow> kept i j \<and> whole X j"
  using check_kept [of X i] whole_kept [of X i]
  by (auto simp: unformat_get_input_def bind_eq_Some_conv split: prod.splits if_splits)

lemma arg_kept: "arg_ptr i = Some (a, j) \<Longrightarrow> kept i j" "arg_uint i = Some (n, j) \<Longrightarrow> kept i j" "put_var a v i = Some j \<Longrightarrow> kept i j"
  by (auto simp: arg_ptr_def arg_uint_def put_var_def split: list.splits uarg.splits if_splits)

lemma arg_whole:
  "arg_ptr i = Some (a, j) \<Longrightarrow> whole X i \<Longrightarrow> whole X j" "arg_uint i = Some (n, j) \<Longrightarrow> whole X i \<Longrightarrow> whole X j"
  using arg_kept whole_kept by blast+

text \<open>Every function of the parser keeps the input.\<close>

definition keeps :: "'f uext \<Rightarrow> 'f input \<Rightarrow> 'f input \<Rightarrow> bool" where
  "keeps X i j \<longleftrightarrow> kept i j \<and> whole X j"

lemma keeps_trans: "keeps X i j \<Longrightarrow> keeps X j k \<Longrightarrow> keeps X i k"
  by (auto simp: keeps_def intro: kept_trans)

lemma keepsI: "whole X i \<Longrightarrow> kept i j \<Longrightarrow> keeps X i j"
  by (simp add: keeps_def whole_kept)

lemma keeps_put [simp]: "keeps X i (unformat_put_input j) = keeps X i j"
  by (auto simp: keeps_def whole_def unformat_put_input_def)

lemma get_keeps: "unformat_get_input X i = Some (c, j) \<Longrightarrow> whole X i \<Longrightarrow> keeps X i j"
  by (simp add: keeps_def get_kept)

lemma arg_keeps:
  "arg_ptr i = Some (a, j) \<Longrightarrow> whole X i \<Longrightarrow> keeps X i j" "arg_uint i = Some (n, j) \<Longrightarrow> whole X i \<Longrightarrow> keeps X i j"
  "put_var a v i = Some j \<Longrightarrow> whole X i \<Longrightarrow> keeps X i j"
  by (simp_all add: arg_kept keepsI)

lemma keeps_whole: "keeps X i j \<Longrightarrow> whole X j"
  by (simp add: keeps_def)

lemma keeps_step: "keeps X i j \<Longrightarrow> (whole X j \<Longrightarrow> keeps X j k) \<Longrightarrow> keeps X i k"
  using keeps_trans keeps_whole by blast

lemma skip_keeps: "unformat_skip_white_space X n i = Some r \<Longrightarrow> whole X i \<Longrightarrow> keeps X i (snd r)"
proof (induction X n i r rule: unformat_skip_white_space.raw_induct [rotated, consumes 1])
  case (1 rec X n i r)
  show ?case
    by (rule postD [OF _ 1(2)], intro post_intros)
      (use 1(1,3) get_keeps [of X i] in \<open>auto simp: post_def Let_def intro: keeps_step\<close>)
qed

lemma int_loop_keeps: "int_loop X base is_signed v n_digits n_input sign i = Some r \<Longrightarrow> whole X i \<Longrightarrow> keeps X i (snd r)"
proof (induction X base is_signed v n_digits n_input sign i r rule: int_loop.raw_induct [rotated, consumes 1])
  case (1 rec X base is_signed v n_digits n_input sign i r)
  show ?case
    by (rule postD [OF _ 1(2)], intro post_intros)
      (use 1(1,3) get_keeps [of X i] in \<open>auto simp: post_def Let_def intro: keeps_step\<close>)
qed

lemma string_loop_keeps: "string_loop X delim want paren is_paren backslash s i = Some r \<Longrightarrow> whole X i \<Longrightarrow> keeps X i (snd (snd (snd r)))"
proof (induction X delim want paren is_paren backslash s i r rule: string_loop.raw_induct [rotated, consumes 1])
  case (1 rec X delim want paren is_paren backslash s i r)
  show ?case
    by (rule postD [OF _ 1(2)], intro post_intros)
      (use 1(1,3) get_keeps [of X i] in \<open>auto simp: post_def Let_def intro: keeps_step\<close>)
qed

lemma hex_loop_keeps: "hex_loop X n d s i = Some r \<Longrightarrow> whole X i \<Longrightarrow> keeps X i (snd (snd r))"
proof (induction X n d s i r rule: hex_loop.raw_induct [rotated, consumes 1])
  case (1 rec X n d s i r)
  show ?case
    by (rule postD [OF _ 1(2)], intro post_intros)
      (use 1(1,3) get_keeps [of X i] in \<open>auto simp: post_def Let_def intro: keeps_step\<close>)
qed

lemma token_loop_keeps: "token_loop X tc s i = Some r \<Longrightarrow> whole X i \<Longrightarrow> keeps X i (snd r)"
proof (induction X tc s i r rule: token_loop.raw_induct [rotated, consumes 1])
  case (1 rec X tc s i r)
  show ?case
    by (rule postD [OF _ 1(2)], intro post_intros)
      (use 1(1,3) get_keeps [of X i] in \<open>auto simp: post_def Let_def intro: keeps_step\<close>)
qed

lemma float_loop_keeps: "float_loop X k i = Some r \<Longrightarrow> whole X i \<Longrightarrow> keeps X i (snd r)"
proof (induction X k i r rule: float_loop.raw_induct [rotated, consumes 1])
  case (1 rec X k i r)
  show ?case
    by (rule postD [OF _ 1(2)], intro post_intros)
      (use 1(1,3) get_keeps [of X i] in \<open>auto simp: post_def Let_def intro: keeps_step\<close>)
qed


lemmas loops_keep = skip_keeps int_loop_keeps string_loop_keeps hex_loop_keeps token_loop_keeps float_loop_keeps

lemma post_let [post_intros]: "(\<And>y. y = x \<Longrightarrow> post (f y) P) \<Longrightarrow> post (let y = x in f y) P"
  by simp

lemma keeps_refl: "whole X i \<Longrightarrow> keeps X i i"
  by (simp add: keepsI)

lemma keeps_args [simp]: "keeps X i (j\<lparr>u_args := va\<rparr>) = keeps X i j"
  by (simp add: keeps_def)

lemma keeps_post: "keeps X i j \<Longrightarrow> (whole X j \<Longrightarrow> post m (\<lambda>r. keeps X j (snd r))) \<Longrightarrow> post m (\<lambda>r. keeps X i (snd r))"
  by (auto simp: post_def intro: keeps_step)

text \<open>One more step keeps what the steps before have kept.\<close>

lemma steps_keep:
  "unformat_get_input X j = Some (c, k) \<Longrightarrow> keeps X i j \<Longrightarrow> keeps X i k"
  "arg_ptr j = Some (a, k) \<Longrightarrow> keeps X i j \<Longrightarrow> keeps X i k"
  "arg_uint j = Some (n, k) \<Longrightarrow> keeps X i j \<Longrightarrow> keeps X i k"
  "put_var p v j = Some k \<Longrightarrow> keeps X i j \<Longrightarrow> keeps X i k"
  "unformat_skip_white_space X n1 j = Some r1 \<Longrightarrow> keeps X i j \<Longrightarrow> keeps X i (snd r1)"
  "int_loop X base is_signed v1 nd ni sign j = Some r2 \<Longrightarrow> keeps X i j \<Longrightarrow> keeps X i (snd r2)"
  "string_loop X dl want paren is_paren bs s j = Some r3 \<Longrightarrow> keeps X i j \<Longrightarrow> keeps X i (snd (snd (snd r3)))"
  "hex_loop X n2 d s j = Some r4 \<Longrightarrow> keeps X i j \<Longrightarrow> keeps X i (snd (snd r4))"
  "token_loop X tc s j = Some r5 \<Longrightarrow> keeps X i j \<Longrightarrow> keeps X i (snd r5)"
  "float_loop X fk j = Some r6 \<Longrightarrow> keeps X i j \<Longrightarrow> keeps X i (snd r6)"
  by (blast intro: keeps_step get_keeps arg_keeps loops_keep)+

lemma match_keeps: "match_input_with_format X f i = Some r \<Longrightarrow> whole X i \<Longrightarrow> keeps X i (snd r)"
proof (induction X f i arbitrary: r rule: match_input_with_format.induct)
  case (2 X cf f i)
  have "post (match_input_with_format X (cf # f) i) (\<lambda>r. keeps X i (snd r))"
    unfolding match_input_with_format.simps
    by (intro post_intros) (use 2(1,3) in \<open>auto simp: post_def keepsI dest!: get_keeps intro: keeps_step\<close>)
  then show ?case using 2(2) by (rule postD)
qed (simp add: keepsI)

lemma integer_keeps: "whole X i \<Longrightarrow> post (unformat_integer X base is_signed data_bytes i) (\<lambda>r. keeps X i (snd r))"
  unfolding unformat_integer_def
  by (intro post_intros) (auto dest: keeps_refl dest!: steps_keep)

lemma string_keeps: "whole X i \<Longrightarrow> post (unformat_string X dl cf i) (\<lambda>r. keeps X i (snd r))"
  unfolding unformat_string_def
  by (intro post_intros) (auto dest: keeps_refl dest!: steps_keep)

lemma float_keeps: "whole X i \<Longrightarrow> post (unformat_float X i) (\<lambda>r. keeps X i (snd r))"
  unfolding unformat_float_def
  by (intro post_intros) (auto dest: keeps_refl dest!: steps_keep)

lemma set_keeps: "whole X i \<Longrightarrow> post (unformat_set b i) (\<lambda>r. keeps X i (snd r))"
  unfolding unformat_set_def
  by (intro post_intros) (auto dest: keeps_refl dest!: steps_keep)

text \<open>The functions the library has for \<^verbatim>\<open>%U\<close>.\<close>

lemma hex_string_keeps: "whole X i \<Longrightarrow> post (unformat_hex_string X i) (\<lambda>r. keeps X i (snd r))"
  unfolding unformat_hex_string_def
  by (intro post_intros) (auto dest: keeps_refl dest!: steps_keep)

lemma token_keeps: "whole X i \<Longrightarrow> post (unformat_token X i) (\<lambda>r. keeps X i (snd r))"
  unfolding unformat_token_def
  by (cases "u_args i"; simp add: post_intros split: uarg.split)
    (intro allI impI post_intros; auto simp: keepsI dest: keeps_refl dest!: steps_keep)

lemma eof_keeps: "whole X i \<Longrightarrow> post (unformat_eof X i) (\<lambda>r. keeps X i (snd r))"
  using check_kept [of X i] by (auto simp: unformat_eof_def post_def keepsI split: prod.splits)

text \<open>A parser that is called by \<^verbatim>\<open>%U\<close> is asked to do the same.\<close>

definition users_keep :: "'f uext \<Rightarrow> bool" where
  "users_keep X \<longleftrightarrow> (\<forall>u i. whole X i \<longrightarrow> post (u_user X u i) (\<lambda>r. kept i (snd r)))"


lemma letter_keeps:
  assumes "users_keep X" "whole X i"
  shows "post (unformat_letter X data_bytes cf f i) (\<lambda>r. keeps X i (snd r))"
proof -
  have "post (do { (n, i) \<leftarrow> arg_uint i; unformat_integer X base sg (scast n) i }) (\<lambda>r. keeps X i (snd r))" for base sg
    by (intro post_intros keeps_post [OF _ integer_keeps]) (use assms(2) arg_keeps in auto)
  moreover have "post (case u_args i of A_fun u # va \<Rightarrow> u_user X u (i\<lparr>u_args := va\<rparr>) | _ \<Rightarrow> None) (\<lambda>r. keeps X i (snd r))"
  proof -
    have "post (u_user X u (i\<lparr>u_args := va\<rparr>)) (\<lambda>r. keeps X i (snd r))" for u va
      using assms(1) [unfolded users_keep_def, rule_format, of "i\<lparr>u_args := va\<rparr>" u] assms(2)
      by (auto simp: post_def keepsI)
    then show ?thesis by (simp add: post_None split: list.split uarg.split)
  qed
  ultimately show ?thesis
    unfolding unformat_letter_def
    using assms(2) by (auto intro!: post_if integer_keeps float_keeps string_keeps set_keeps post_Some keepsI)
qed

lemma percent_keeps:
  assumes "users_keep X" "whole X i"
  shows "post (unformat_percent X f i) (\<lambda>r. keeps X i (snd r))"
  unfolding unformat_percent_def
  by (intro post_intros) (use letter_keeps [OF assms] in \<open>auto simp: post_def\<close>)

lemma format_steps_keep:
  "match_input_with_format X f j = Some r \<Longrightarrow> keeps X i j \<Longrightarrow> keeps X i (snd r)"
  "unformat_percent X f j = Some r' \<Longrightarrow> users_keep X \<Longrightarrow> keeps X i j \<Longrightarrow> keeps X i (snd r')"
  by (blast intro: keeps_step match_keeps percent_keeps [THEN postD])+

lemma body_keeps:
  assumes "users_keep X" "whole X i"
    and next_keeps: "\<And>a b g j. whole X j \<Longrightarrow> post (next a b g j) (\<lambda>r. keeps X j (snd r))"
  shows "post (unformat_body X next skip pct lit here is_percent cf f i) (\<lambda>r. keeps X i (snd r))"
proof -
  have "keeps X i j" if "(if here then unformat_skip_white_space X 0 i else Some (0, i)) = Some (n, j)" for n j
    using that assms(2) loops_keep(1) [of X 0 i "(n, j)"] by (auto simp: keepsI split: if_splits)
  then show ?thesis
    unfolding unformat_body_def
    by (intro post_intros) (use assms(1) in \<open>auto dest!: format_steps_keep intro!: keeps_post [OF _ next_keeps]\<close>)
qed

lemma loop_keeps:
  assumes "users_keep X"
  shows "whole X i \<Longrightarrow> post (unformat_loop X fmt n skip pct lit f i) (\<lambda>r. keeps X i (snd r))"
proof (induction n arbitrary: skip pct lit f i)
  case (Suc n)
  have "keeps X i j" if "(if b then map_option snd (unformat_skip_white_space X 0 i) else Some i) = Some j" for b j
    using that Suc.prems loops_keep(1) by (auto simp: keepsI split: if_splits)
  then show ?case
    unfolding unformat_loop.simps
    by (intro post_intros)
      (use Suc.prems in \<open>auto simp: keepsI intro!: body_keeps [OF assms _ Suc.IH] keeps_post [OF _ Suc.IH]\<close>)
qed (simp add: post_None)



section \<open>Numbers as they are written\<close>

lemma format_digits_num: "2 \<le> b \<Longrightarrow> format_digits b up n d = map (format_digit b up) (num_digits b n) @ d"
proof (induction b up n d rule: format_digits.induct)
  case (1 b up n d)
  show ?case
  proof (cases "n div b = 0")
    case True
    then have "n < b" using 1(2) by (simp add: div_eq_0_iff)
    then show ?thesis using True by (subst format_digits.simps, subst num_digits.simps) simp
  next
    case False
    then have "\<not> n < b" by auto
    then show ?thesis using 1 False by (subst format_digits.simps, subst num_digits.simps) (simp add: Let_def)
  qed
qed

lemma low_32: "take_bit 32 (x::u64) = ucast (ucast x :: u32)"
  by (rule bit_word_eqI) (auto simp: bit_take_bit_iff bit_unsigned_iff)

lemma ucast_neg: "(ucast (- (x::u64)) :: u32) = - ucast x"
  by (simp add: word_uint_eq_iff uint_word_ariths unsigned_ucast_eq take_bit_eq_mod mod_minus_eq mod_mod_cancel)

lemma sint_scast_32: "sint (scast (u::u32) :: u64) = sint u"
  by (rule sint_up_scast) (simp add: is_up)

lemma ucast_scast_32: "(ucast (scast (u::u32) :: u64) :: u32) = u"
proof (rule bit_word_eqI)
  fix n assume "n < LENGTH(32)"
  then have "n < 31 \<or> n = 31" by auto
  then show "bit (ucast (scast u :: u64) :: u32) n = bit u n"
    by (auto simp: bit_unsigned_iff bit_signed_iff min_def)
qed

lemmas scast_32 = sint_scast_32 ucast_scast_32

lemma unat_ucast_64: "unat (ucast (u::u32) :: u64) = unat u"
  using unsigned_less [of u, where ?'a = nat] by (simp add: unsigned_ucast_eq take_bit_nat_eq_self)

lemma and_low_32: "(x::u64) AND 4294967295 = take_bit 32 x"
  by (simp add: take_bit_eq_mask mask_eq_exp_minus_1)

text \<open>The number a conversion shows: its sign and its amount, for an \<^verbatim>\<open>int\<close> and for 64 bits.\<close>

lemma format_integer_32:
  assumes "2 \<le> b"
  shows "format_integer sz out (scast (u::u32)) \<lparr>o_base = b, o_bits = 32, o_signed = sg, o_upper = False\<rparr> =
    (let neg = sg \<and> sint u < 0 in
     buff_add sz (if neg then buff_add1 sz out c_minus else out)
       (map (format_digit b False) (num_digits b (unat (if neg then - u else u)))))"
proof -
  have "unat (take_bit 32 (- (scast u :: u64))) = unat (- u)"
    by (simp only: low_32 ucast_neg scast_32 unat_ucast_64)
  moreover have "unat (take_bit 32 (scast u :: u64)) = unat u"
    by (simp only: low_32 scast_32 unat_ucast_64)
  ultimately show ?thesis
    using assms by (simp add: format_integer_def Let_def scast_32 and_low_32 format_digits_num) 
qed

lemma format_integer_64:
  assumes "2 \<le> b"
  shows "format_integer sz out v \<lparr>o_base = b, o_bits = 64, o_signed = sg, o_upper = False\<rparr> =
    (let neg = sg \<and> sint v < 0 in
     buff_add sz (if neg then buff_add1 sz out c_minus else out)
       (map (format_digit b False) (num_digits b (unat (if neg then - v else v)))))"
  using assms by (simp add: format_integer_def Let_def format_digits_num)


section \<open>Reading them\<close>

lemma digit_read:
  assumes "d < b" "b = 10 \<or> b = 16"
  shows "int_digit (of_nat b) (ucast (format_digit b False d)) = Some (of_nat d) \<and>
    (ucast (format_digit b False d) :: u64) \<notin> {UNFORMAT_END_OF_INPUT, 0x2d, 0x2b} \<and>
    \<not> is_white_space (ucast (format_digit b False d))"
proof -
  have "d = 0 \<or> d = 1 \<or> d = 2 \<or> d = 3 \<or> d = 4 \<or> d = 5 \<or> d = 6 \<or> d = 7 \<or> d = 8 \<or> d = 9 \<or> d = 10 \<or> d = 11 \<or>
    d = 12 \<or> d = 13 \<or> d = 14 \<or> d = 15" using assms by arith
  then show ?thesis using assms(2)
    by (elim disjE) (simp_all add: format_digit_def int_digit_def is_white_space_def)
qed

text \<open>The input is a text in memory that is read from its start.\<close>

definition source :: "bytes \<Rightarrow> 'f uext \<Rightarrow> 'f input \<Rightarrow> bool" where
  "source txt X i \<longleftrightarrow> whole X i \<and> length txt \<le> buffer_size \<and> u_len i = of_nat (length txt) \<and>
     length txt \<le> length (u_buffer i) \<and> take (length txt) (u_buffer i) = txt"

lemma source_index [simp]: "source txt X (i\<lparr>u_index := n\<rparr>) = source txt X i"
  by (simp add: source_def whole_def)

lemma small_unat: "n \<le> buffer_size \<Longrightarrow> unat (of_nat n :: u64) = n"
  by (simp add: buffer_size_def unat_of_nat)

lemma get_at:
  assumes "source txt X i" "u_index i = of_nat k" "k < length txt"
  shows "unformat_get_input X i = Some (ucast (txt ! k), i\<lparr>u_index := of_nat (k + 1)\<rparr>)"
proof -
  have l: "unat (of_nat k :: u64) = k" "unat (of_nat (length txt) :: u64) = length txt" "k < buffer_size"
    using assms by (auto simp: source_def small_unat)
  then have "(of_nat k :: u64) < of_nat (length txt)" "\<not> (of_nat (length txt) :: u64) \<le> of_nat k"
    using assms(3) by (simp_all add: word_less_nat_alt word_le_nat_alt)
  moreover have "u_buffer i ! k = txt ! k" using assms(1,3) unfolding source_def by (metis nth_take)
  ultimately show ?thesis
    using assms l by (simp add: unformat_get_input_def unformat_check_input_def source_def rd_def add.commute)
qed

lemma get_end:
  assumes "source txt X i" "u_index i = of_nat (length txt) \<or> u_index i = UNFORMAT_END_OF_INPUT"
  shows "unformat_get_input X i = Some (UNFORMAT_END_OF_INPUT, i\<lparr>u_index := UNFORMAT_END_OF_INPUT\<rparr>)"
proof -
  have "(of_nat (length txt) :: u64) \<le> UNFORMAT_END_OF_INPUT" by simp
  moreover have "of_nat (length txt) \<noteq> UNFORMAT_END_OF_INPUT"
    using assms(1) small_unat [of "length txt"] by (auto simp: source_def buffer_size_def unsigned_minus_1_eq_mask mask_eq_exp_minus_1 dest: arg_cong [of _ _ unat])
  ultimately show ?thesis
    using assms by (auto simp: unformat_get_input_def unformat_check_input_def unformat_fill_input_def source_def whole_def Let_def not_less)
qed


lemma put_back: "unformat_put_input (i\<lparr>u_index := of_nat (k + 1)\<rparr>) = i\<lparr>u_index := of_nat k\<rparr>"
  by (simp add: unformat_put_input_def)

lemma skip_returns:
  "source txt X i \<Longrightarrow> u_index i = of_nat k \<Longrightarrow> k \<le> length txt \<Longrightarrow>
     \<exists>m e. unformat_skip_white_space X n i = Some (m, i\<lparr>u_index := e\<rparr>)"
proof (induction "length txt - k" arbitrary: k n i rule: less_induct)
  case less
  show ?case
  proof (cases "k < length txt")
    case True
    note get = get_at [OF less.prems(1,2) True]
    let ?j = "i\<lparr>u_index := of_nat (k + 1)\<rparr>"
    have "\<exists>m e. unformat_skip_white_space X (n + 1) ?j = Some (m, ?j\<lparr>u_index := e\<rparr>)"
      using less.prems True by (intro less.hyps [of "k + 1"]) auto
    then show ?thesis using get
      by (subst unformat_skip_white_space.simps) (auto simp: unformat_put_input_def simp del: of_nat_add)
  next
    case False
    then have "unformat_get_input X i = Some (UNFORMAT_END_OF_INPUT, i\<lparr>u_index := UNFORMAT_END_OF_INPUT\<rparr>)"
      using less.prems by (intro get_end) auto
    then show ?thesis by (subst unformat_skip_white_space.simps) auto
  qed
qed

text \<open>A byte that does not belong to a number.\<close>

definition stops :: "nat \<Rightarrow> bytes \<Rightarrow> bool" where
  "stops b rest \<longleftrightarrow> rest = [] \<or> is_white_space (ucast (hd rest))"

lemma white_cases: "is_white_space (ucast (c::u8)) \<Longrightarrow> c = 0x20 \<or> c = 0x09 \<or> c = 0x0a \<or> c = 0x0d"
proof -
  assume "is_white_space (ucast c)"
  then have "(ucast (ucast c :: u64) :: u8) \<in> {0x20, 0x09, 0x0a, 0x0d}" unfolding is_white_space_def by auto
  moreover have "(ucast (ucast c :: u64) :: u8) = c" by (rule bit_word_eqI) (auto simp: bit_unsigned_iff)
  ultimately show ?thesis by auto
qed

lemma white_stops:
  assumes "is_white_space (ucast (c::u8))"
  shows "int_digit b (ucast c) = None" "(ucast c :: u64) \<notin> {UNFORMAT_END_OF_INPUT, 0x2d, 0x2b}"
  using white_cases [OF assms] by (elim disjE; simp add: int_digit_def)+

definition digits_value :: "nat \<Rightarrow> nat \<Rightarrow> nat list \<Rightarrow> nat" where
  "digits_value b v ds = foldl (\<lambda>a d. a * b + d) v ds"

lemma digits_value_simps [simp]: "digits_value b v [] = v" "digits_value b v (d # ds) = digits_value b (v * b + d) ds"
  by (simp_all add: digits_value_def)

lemma digits_value_le: "0 < b \<Longrightarrow> v \<le> digits_value b v ds"
proof (induction ds arbitrary: v)
  case (Cons d ds)
  have "v \<le> v * b + d" using Cons.prems by (cases b) auto
  then show ?case using Cons.IH [of "v * b + d"] Cons.prems by simp
qed simp

lemma int_loop_digits:
  assumes b: "b = 10 \<or> b = 16" and rest: "rest = [] \<or> is_white_space (ucast (hd rest))"
  shows "\<forall>d \<in> set ds. d < b \<Longrightarrow> source (pre @ map (format_digit b False) ds @ rest) X i \<Longrightarrow> u_index i = of_nat (length pre) \<Longrightarrow>
    digits_value b v ds < 2 ^ 64 \<Longrightarrow>
    \<exists>e. int_loop X (of_nat b) sg (of_nat v) nd ni sn i =
      Some (Some (of_nat (digits_value b v ds), nd + of_nat (length ds), sn), i\<lparr>u_index := e\<rparr>) \<and>
      (e = of_nat (length pre + length ds) \<or> e = UNFORMAT_END_OF_INPUT)"
proof (induction ds arbitrary: pre v nd ni i)
  case Nil
  show ?case
  proof (cases rest)
    case Nil
    then have "unformat_get_input X i = Some (UNFORMAT_END_OF_INPUT, i\<lparr>u_index := UNFORMAT_END_OF_INPUT\<rparr>)"
      using Nil.prems by (intro get_end [of pre]) auto
    then show ?thesis by (subst int_loop.simps) auto
  next
    case (Cons c cs)
    then have g: "unformat_get_input X i = Some (ucast c, i\<lparr>u_index := of_nat (length pre + 1)\<rparr>)"
      using get_at [OF Nil.prems(2,3)] by (simp del: of_nat_add)
    then show ?thesis using g rest Cons white_stops [of c]
      by (subst int_loop.simps) (auto simp: unformat_put_input_def)
  qed
next
  case (Cons d ds)
  let ?c = "format_digit b False d" and ?j = "i\<lparr>u_index := of_nat (length (pre @ [format_digit b False d]))\<rparr>"
  have d: "d < b" using Cons.prems(1) by simp
  note c = digit_read [OF d b]
  have g: "unformat_get_input X i = Some (ucast ?c, i\<lparr>u_index := of_nat (length pre + 1)\<rparr>)"
    using get_at [OF Cons.prems(2,3)] by (simp add: nth_append del: of_nat_add)
  have lt: "v * b + d < 2 ^ 64" using digits_value_le [of b "v * b + d" ds] Cons.prems(4) b by auto
  have new: "of_nat b * of_nat v + of_nat d = (of_nat (v * b + d) :: u64)" by (simp add: mult.commute)
  have "v \<le> v * b + d" using b by auto
  then have ok: "\<not> (of_nat (v * b + d) :: u64) < of_nat v"
    using lt by (simp add: word_less_nat_alt unat_of_nat del: of_nat_add of_nat_mult)
  have db: "\<not> (of_nat b :: u64) \<le> of_nat d" using d b by (auto simp: word_le_nat_alt unat_of_nat)
  have "\<exists>e. int_loop X (of_nat b) sg (of_nat (v * b + d)) (nd + 1) (ni + 1) sn ?j =
      Some (Some (of_nat (digits_value b (v * b + d) ds), nd + 1 + of_nat (length ds), sn), ?j\<lparr>u_index := e\<rparr>) \<and>
      (e = of_nat (length (pre @ [?c]) + length ds) \<or> e = UNFORMAT_END_OF_INPUT)"
    using Cons.prems by (intro Cons.IH) (auto simp del: of_nat_add)
  then show ?case using g c new ok db by (subst int_loop.simps) (auto simp: Let_def ac_simps)
qed


text \<open>A number in front of white space or of the end, read at its start.\<close>

definition number_text :: "nat \<Rightarrow> bool \<Rightarrow> nat \<Rightarrow> bytes" where
  "number_text b neg m = (if neg then [c_minus] else []) @ map (format_digit b False) (num_digits b m)"

lemma integer_read:
  assumes b: "b = 10 \<or> b = 16" and rest: "stops b rest" and m: "m < 2 ^ 64" and neg: "neg \<longrightarrow> sg"
    and src: "source (number_text b neg m @ rest) X i" "u_index i = 0"
    and args: "u_args i = A_ptr p # va" "p \<noteq> 0" and k: "k = (if data_bytes = - 1 then 4 else data_bytes)" "k \<in> {1, 2, 4, 8}"
  shows "\<exists>e. unformat_integer X (of_nat b) sg data_bytes i = Some (True, i\<lparr>u_index := e, u_args := va,
      u_mem := (u_mem i)(p \<mapsto> St_int k (take_bit (8 * unat k) (if neg then - of_nat m else of_nat m)))\<rparr>) \<and>
    (e = of_nat (length (number_text b neg m)) \<or> e = UNFORMAT_END_OF_INPUT)"
proof -
  let ?ds = "num_digits b m" let ?sgn = "if neg then [c_minus] else [] :: bytes"
  have ds: "\<forall>d \<in> set ?ds. d < b" "digits_value b 0 ?ds = m"
    using b num_digits_less [of b _ m] num_digits_value by (auto simp: digits_value_def)
  have r: "rest = [] \<or> is_white_space (ucast (hd rest))" using rest by (simp add: stops_def)
  have src': "source (?sgn @ map (format_digit b False) ?ds @ rest) X i"
    using src(1) by (simp add: number_text_def split: if_splits)
  have step: "int_loop X (of_nat b) sg 0 0 0 False i =
      int_loop X (of_nat b) sg 0 0 (if neg then 1 else 0) neg (i\<lparr>u_index := of_nat (length ?sgn)\<rparr>)"
  proof (cases neg)
    case True
    then have "unformat_get_input X i = Some (0x2d, i\<lparr>u_index := 1\<rparr>)"
      using get_at [OF src', of 0] src(2) by simp
    then show ?thesis using True neg by (subst int_loop.simps) simp
  next
    case False
    then show ?thesis using src(2) by (cases i) simp
  qed
  obtain e where e: "int_loop X (of_nat b) sg 0 0 (if neg then 1 else 0) neg (i\<lparr>u_index := of_nat (length ?sgn)\<rparr>) =
      Some (Some (of_nat m, 0 + of_nat (length ?ds), neg), i\<lparr>u_index := of_nat (length ?sgn), u_index := e\<rparr>)"
    "e = of_nat (length ?sgn + length ?ds) \<or> e = UNFORMAT_END_OF_INPUT"
    using int_loop_digits [OF b r ds(1), of ?sgn X "i\<lparr>u_index := of_nat (length ?sgn)\<rparr>" 0 sg 0 "if neg then 1 else 0" neg]
      ds(2) m src' by auto
  have "length ?ds \<le> buffer_size" using src' by (simp add: source_def)
  then have "(0::u64) < of_nat (length ?ds)" by (simp add: word_less_nat_alt small_unat)
  moreover have "\<not> (of_nat b :: u64) < 2" "\<not> 64 < (of_nat b :: u64)" using b by auto
  ultimately show ?thesis
    using e args k unfolding unformat_integer_def step number_text_def
    by (auto simp: arg_ptr_def put_var_def Let_def)
qed


section \<open>What \<^verbatim>\<open>format\<close> writes, \<^verbatim>\<open>unformat\<close> reads\<close>

text \<open>The integer conversions that the two functions share, with the bytes of the variable.\<close>

definition conversions :: "(bytes \<times> nat) list" where
  "conversions = [([], 4), (ascii ''l'', 8), (ascii ''ll'', 8), (ascii ''L'', 8), (ascii ''w'', 8)]"

definition conversion_base :: "u8 \<Rightarrow> nat" where
  "conversion_base c = (if c = 0x78 then 16 else 10)"

lemma conversion_simps: "ascii ''l'' = [0x6c]" "ascii ''ll'' = [0x6c, 0x6c]" "ascii ''L'' = [0x4c]" "ascii ''w'' = [0x77]"
  by (simp_all add: ascii_def)

definition amount :: "nat \<Rightarrow> u8 \<Rightarrow> u64 \<Rightarrow> bool \<times> nat" where
  "amount k c v =
     (if k = 4
      then let u = (ucast v :: u32); neg = (c = 0x64 \<and> sint u < 0) in (neg, unat (if neg then - u else u))
      else let neg = (c = 0x64 \<and> sint v < 0) in (neg, unat (if neg then - v else v)))"

lemma number_text_length:
  assumes "b = 10 \<or> b = 16" "m < 2 ^ 64"
  shows "length (num_digits b m) \<le> 20 \<and> number_text b neg m \<noteq> []"
proof -
  have "m < b ^ 20" using assms by auto
  then show ?thesis using num_digits_length [of b m 20] assms(1) by (auto simp: number_text_def)
qed

lemma format_number_text:
  assumes c: "c \<in> {0x64, 0x75, 0x78}" and l: "(l, k) \<in> set conversions" and sz: "21 \<le> sz"
    and am: "amount k c v = (neg, m)"
  shows "format X sz (c_percent # l @ [c]) [if k = 4 then F_int (ucast v) else F_64 v] = Some (number_text (conversion_base c) neg m)"
proof -
  let ?b = "conversion_base c"
  have b: "?b = 10 \<or> ?b = 16" "2 \<le> ?b" by (auto simp: conversion_base_def)
  have m: "m < 2 ^ 64"
    using am unsigned_less [where ?'a = nat, of "ucast v :: u32"] unsigned_less [where ?'a = nat, of "- ucast v :: u32"]
      unsigned_less [where ?'a = nat, of v] unsigned_less [where ?'a = nat, of "- v"]
    by (auto simp: amount_def Let_def split: if_splits)
  have fit: "buff_add sz (if neg then buff_add1 sz [] c_minus else []) (map (format_digit ?b False) (num_digits ?b m)) =
      number_text ?b neg m"
    using number_text_length [OF b(1) m] sz by (auto simp: buff_add_def buff_add1_def number_text_def)
  have num: "format_number sz [] c h [if k = 4 then F_int (ucast v) else F_64 v] = Some (number_text ?b neg m, [])"
    if "h = 0 \<longleftrightarrow> k = 4" for h
    using c am that fit b
    by (auto simp: format_number_def arg_int_def arg_64_def format_integer_32 format_integer_64 conversion_base_def
        amount_def Let_def split: if_splits)
  have f: "l @ [c] \<noteq> []" "fc (l @ [c]) \<notin> {c_percent, c_minus, c_plus, c_equal, c_0, c_star, c_dot, 0}" "\<not> isdigit (fc (l @ [c]))"
    using c l by (auto simp: conversions_def conversion_simps fc_def isdigit_def)
  have widths: "parse_widths fi (l @ [c]) va = Some (fi\<lparr>fi_width0 := 0\<rparr>, l @ [c], va)" for fi and va :: "'a farg list"
    using f by (cases "l @ [c]") (auto simp: parse_widths_def parse_width_def fc_def)
  have long: "\<exists>h. parse_long fi (l @ [c]) = (fi\<lparr>fi_long := h\<rparr>, [c]) \<and> (h = 0 \<longleftrightarrow> k = 4)" if "fi_long fi = 0" for fi
    using c l that by (cases fi) (auto simp: conversions_def conversion_simps parse_long_def fc_def)
  have known: "known_letter c" "c \<noteq> 0" "fc [c] = c" using c by (auto simp: known_letter_def fc_def)
  have letter: "format_letter X sz [] fi c [if k = 4 then F_int (ucast v) else F_64 v] = Some (number_text ?b neg m, [])"
    if "fi_long fi = 0 \<longleftrightarrow> k = 4" for fi
    using c num [OF that] by (auto simp: format_letter_def)
  obtain h where h: "parse_long \<lparr>fi_justify = c_plus, fi_width0 = 0, fi_width1 = 0, fi_long = 0, fi_pad = c_space\<rparr> (l @ [c]) =
      (\<lparr>fi_justify = c_plus, fi_width0 = 0, fi_width1 = 0, fi_long = h, fi_pad = c_space\<rparr>, [c])" "h = 0 \<longleftrightarrow> k = 4"
    using long [of "\<lparr>fi_justify = c_plus, fi_width0 = 0, fi_width1 = 0, fi_long = 0, fi_pad = c_space\<rparr>"] by auto
  have "format_percent X sz [] (l @ [c]) [if k = 4 then F_int (ucast v) else F_64 v] = Some (number_text ?b neg m, [], [])"
    using f widths h known letter by (simp add: format_percent_def justify_def Let_def)
  then show ?thesis by (simp add: format_def va_format_def fc_def)
qed


lemma amount_value:
  assumes "amount k c v = (neg, m)" "unat v < 2 ^ (8 * k)" "k = 4 \<or> k = 8"
  shows "m < 2 ^ 64 \<and> take_bit (8 * k) (if neg then - of_nat m else of_nat m) = v"
proof -
  have low: "(ucast (of_nat (unat (w::u32)) :: u64) :: u32) = w" for w
  proof -
    have "(of_nat (unat w) :: u64) = ucast w"
      using unsigned_less [of w, where ?'a = nat] by (simp add: word_unat_eq_iff unat_of_nat unat_ucast_64)
    moreover have "(ucast (ucast w :: u64) :: u32) = w" by (rule bit_word_eqI) (auto simp: bit_unsigned_iff)
    ultimately show ?thesis by simp
  qed
  have m: "unat (w::u32) < 2 ^ 64" for w using unsigned_less [of w, where ?'a = nat] by simp
  have full: "take_bit 64 (x::u64) = x" for x by (rule bit_word_eqI) (simp add: bit_take_bit_iff)
  show ?thesis
  proof (cases "k = 4")
    case True
    have "take_bit 32 v = v" using assms(2) True by (simp add: word_unat_eq_iff unsigned_take_bit_eq take_bit_nat_eq_self)
    then show ?thesis using assms(1) True m low
      by (auto simp: amount_def Let_def low_32 ucast_neg split: if_splits)
  next
    case False
    then show ?thesis using assms(1,3) unsigned_less [of v, where ?'a = nat] unsigned_less [of "- v", where ?'a = nat] full
      by (auto simp: amount_def Let_def split: if_splits)
  qed
qed

lemma source_args [simp]:
  "source txt X (i\<lparr>u_args := va\<rparr>) = source txt X i" "source txt X (i\<lparr>u_mem := mem\<rparr>) = source txt X i"
  by (simp_all add: source_def whole_def)

lemma first_not_white:
  assumes "b = 10 \<or> b = 16"
  shows "\<not> is_white_space (ucast (number_text b neg m ! 0)) \<and> (ucast (number_text b neg m ! 0) :: u64) \<noteq> UNFORMAT_END_OF_INPUT \<and>
    number_text b neg m \<noteq> []"
proof -
  obtain d ds where d: "num_digits b m = d # ds" by (cases "num_digits b m") auto
  then have "d < b" using num_digits_less [of b d m] assms by auto
  then show ?thesis using digit_read [OF _ assms] d by (auto simp: number_text_def is_white_space_def)
qed

lemma skip_nothing:
  assumes "source txt X i" "u_index i = 0" "txt \<noteq> []" "\<not> is_white_space (ucast (txt ! 0))" "(ucast (txt ! 0) :: u64) \<noteq> UNFORMAT_END_OF_INPUT"
  shows "unformat_skip_white_space X n i = Some (n, i)"
proof -
  have "unformat_get_input X i = Some (ucast (txt ! 0), i\<lparr>u_index := 1\<rparr>)" using get_at [of "txt" X i 0] assms by simp
  moreover have "i\<lparr>u_index := 0\<rparr> = i" using assms(2) by (cases i) simp
  ultimately show ?thesis using assms(4,5)
    by (subst unformat_skip_white_space.simps) (simp add: unformat_put_input_def)
qed

lemma conversion_read:
  assumes c: "c \<in> {0x64, 0x75, 0x78}" and l: "(l, k) \<in> set conversions"
    and rest: "stops b rest" and b: "b = conversion_base c" and m: "m < 2 ^ 64" and neg: "neg \<longrightarrow> c = 0x64"
    and src: "source (number_text b neg m @ rest) X i" "u_index i = 0" and args: "u_args i = [A_ptr p]" "p \<noteq> 0"
  shows "\<exists>e. unformat_percent X (l @ [c]) i = Some (Some [], i\<lparr>u_index := e, u_args := [],
      u_mem := (u_mem i)(p \<mapsto> St_int (of_nat k) (take_bit (8 * k) (if neg then - of_nat m else of_nat m)))\<rparr>) \<and>
    (e = of_nat (length (number_text b neg m)) \<or> e = UNFORMAT_END_OF_INPUT)"
proof -
  have b': "b = 10 \<or> b = 16" using b by (simp add: conversion_base_def)
  obtain db where db: "unformat_length (l @ [c]) = (db, c, [])" "of_nat k = (if db = - 1 then 4 else db)"
    using c l that by (auto simp: conversions_def conversion_simps unformat_length_def fc_def Let_def)
  have k: "(of_nat k :: u64) \<in> {1, 2, 4, 8}" "unat (of_nat k :: u64) = k" using l by (auto simp: conversions_def)
  have letter: "unformat_letter X db c [] i = unformat_integer X (of_nat b) (c = 0x64) db i"
    using c b by (auto simp: unformat_letter_def conversion_base_def)
  from integer_read [OF b' rest m neg src args db(2) k(1), unfolded k(2)]
  show ?thesis unfolding unformat_percent_def db(1) using letter by auto
qed

lemma conversion_end:
  assumes "source txt X i" "u_index i = of_nat n \<or> u_index i = UNFORMAT_END_OF_INPUT" "n \<le> length txt" "fmt \<noteq> []"
  shows "\<exists>e. unformat_loop X fmt (Suc q) True True False [] i = Some (True, i\<lparr>u_index := e\<rparr>)"
proof -
  have "\<exists>m e. unformat_skip_white_space X 0 i = Some (m, i\<lparr>u_index := e\<rparr>)"
    using assms(2)
  proof
    assume "u_index i = of_nat n"
    then show ?thesis using skip_returns [OF assms(1) _ assms(3)] by blast
  next
    assume "u_index i = UNFORMAT_END_OF_INPUT"
    then show ?thesis using get_end [OF assms(1)] by (subst unformat_skip_white_space.simps) auto
  qed
  then show ?thesis using assms(4) by (auto simp: fc_def unformat_body_def is_white_space_def Let_def)
qed

text \<open>C39: format_unformat_number. A number that \<^verbatim>\<open>format\<close> writes with \<^verbatim>\<open>%d\<close>, \<^verbatim>\<open>%u\<close> or \<^verbatim>\<open>%x\<close>, as an \<^verbatim>\<open>int\<close> or with one of the lengths
  \<^verbatim>\<open>l\<close>, \<^verbatim>\<open>ll\<close>, \<^verbatim>\<open>L\<close> and \<^verbatim>\<open>w\<close>, is read back by \<^verbatim>\<open>unformat\<close> with the same conversion: every value of the type, negative
  numbers and the smallest one included, at the end of the input or in front of white space. \<^verbatim>\<open>unformat\<close> returns 1
  and the variable holds the number.\<close>

theorem format_unformat_number:
  assumes "c \<in> {0x64, 0x75, 0x78}" "(l, k) \<in> set conversions" "unat v < 2 ^ (8 * k)" "21 \<le> sz"
    "u_fill Y = None" "p \<noteq> 0" "stops (conversion_base c) rest" "length rest \<le> 1000"
  shows "\<exists>out j. format X sz (c_percent # l @ [c]) [if k = 4 then F_int (ucast v) else F_64 v] = Some out \<and>
    unformat Y (c_percent # l @ [c]) [A_ptr p] (unformat_init_string (out @ rest) i) = Some (True, j) \<and>
    u_mem j p = Some (St_int (of_nat k) v)"
proof -
  let ?b = "conversion_base c" let ?fmt = "c_percent # l @ [c]"
  obtain neg m where am: "amount k c v = (neg, m)" by fastforce
  have k: "k = 4 \<or> k = 8" using assms(2) by (auto simp: conversions_def)
  note val = amount_value [OF am assms(3) k]
  have b: "?b = 10 \<or> ?b = 16" by (simp add: conversion_base_def)
  have neg: "neg \<longrightarrow> c = 0x64" using am by (auto simp: amount_def Let_def split: if_splits)
  let ?txt = "number_text ?b neg m"
  have len: "length (?txt @ rest) \<le> buffer_size"
    using number_text_length [OF b, of m] val assms(8) by (auto simp: number_text_def buffer_size_def)
  let ?i = "(unformat_init_string (?txt @ rest) i)\<lparr>u_args := [A_ptr p], u_marks := [0]\<rparr>"
  have src: "source (?txt @ rest) Y ?i" "u_index ?i = 0"
    using len assms(5) by (auto simp: unformat_init_string_def fill_with_def unformat_init_def buff_add_def source_def whole_def)
  note first = first_not_white [OF b, of neg m]
  have skip: "unformat_skip_white_space Y 0 ?i = Some (0, ?i)"
    using first by (intro skip_nothing [OF src]) (auto simp: nth_append)
  obtain e where e: "unformat_percent Y (l @ [c]) ?i = Some (Some [], ?i\<lparr>u_index := e, u_args := [],
      u_mem := (u_mem ?i)(p \<mapsto> St_int (of_nat k) v)\<rparr>)" "e = of_nat (length ?txt) \<or> e = UNFORMAT_END_OF_INPUT"
    using conversion_read [OF assms(1,2,7) refl _ neg src _ assms(6)] val by auto
  let ?j = "?i\<lparr>u_index := e, u_args := [], u_mem := (u_mem ?i)(p \<mapsto> St_int (of_nat k) v)\<rparr>"
  have src_j: "source (?txt @ rest) Y ?j" using src(1) by (simp add: source_def whole_def)
  have "u_index ?j = of_nat (length ?txt) \<or> u_index ?j = UNFORMAT_END_OF_INPUT" using e(2) by simp
  from conversion_end [OF src_j this, of ?fmt "length l + 1"]
  obtain e' where end_: "unformat_loop Y ?fmt (Suc (length l + 1)) True True False [] ?j = Some (True, ?j\<lparr>u_index := e'\<rparr>)"
    by (auto simp del: unformat_loop.simps)
  have f: "fc (l @ [c]) \<notin> {0x5f, c_percent, 0}"
    using assms(1,2) by (auto simp: conversions_def conversion_simps fc_def)
  have "unformat_loop Y ?fmt (length ?fmt + 1) True False False ?fmt ?i = Some (True, ?j\<lparr>u_index := e'\<rparr>)"
  proof -
    have "length ?fmt + 1 = Suc (Suc (length l + 1))" by simp
    then show ?thesis using f skip e(1) end_
      by (simp only: unformat_loop.simps(2) [of _ _ "Suc (length l + 1)"])
        (simp add: fc_def [of ?fmt] is_white_space_def unformat_body_def Let_def del: unformat_loop.simps)
  qed
  then have "unformat Y ?fmt [A_ptr p] (unformat_init_string (?txt @ rest) i) =
      Some (True, ?j\<lparr>u_index := e', u_marks := []\<rparr>)"
    by (simp add: unformat_def va_unformat_def max_marks_def unformat_init_string_def fill_with_def unformat_init_def)
  moreover have "format X sz ?fmt [if k = 4 then F_int (ucast v) else F_64 v] = Some ?txt"
    by (rule format_number_text [OF assms(1,2,4) am])
  ultimately show ?thesis by fastforce
qed


section \<open>Concrete inputs\<close>

definition ops_sample :: "int f64ops" where
  "ops_sample = \<lparr>d_of_int = id, d_to_int = id, d_add = (+), d_sub = (-), d_mul = (*), d_neg = uminus, d_lt = (<), d_eq = (=),
     d_isnan = (\<lambda>_. False), d_isinf = (\<lambda>_. False), d_bits = word_of_int, d_of_bits = uint, d_ten = (\<lambda>n. 10 ^ nat n),
     d_tenth = 0, d_half = 0, d_log2 = 0\<rparr>"

definition ext_sample :: "int uext" where
  "ext_sample = \<lparr>u_fill = None, u_user = (\<lambda>_ i. Some (True, i)), u_malloc = (\<lambda>_. True), u_f64 = ops_sample\<rparr>"

definition input_sample :: "bytes \<Rightarrow> int input" where
  "input_sample s = unformat_init_string s
     \<lparr>u_buffer = [], u_len = 0, u_index = 0, u_marks = [], u_source = [], u_args = [], u_mem = Map.empty\<rparr>"

lemma input_sample_source: "length s \<le> buffer_size \<Longrightarrow> source s ext_sample ((input_sample s)\<lparr>u_marks := [0]\<rparr>)"
  by (simp add: input_sample_def unformat_init_string_def fill_with_def unformat_init_def buff_add_def source_def whole_def ext_sample_def)

lemma input_sample_sel: "u_index (input_sample s) = 0" "u_marks (input_sample s) = []"
  by (simp_all add: input_sample_def unformat_init_string_def fill_with_def unformat_init_def)


lemma format_unformat_number_witness:
  "\<exists>out j. format \<lparr>x_f64 = ops_sample, x_user = (\<lambda>_ _ _. None)\<rparr> 64 [c_percent, 0x64] [F_int 4294967254 :: int farg] = Some out \<and>
    unformat ext_sample [c_percent, 0x64] [A_ptr 1] (unformat_init_string (out @ [c_space]) (input_sample [])) = Some (True, j) \<and>
    u_mem j 1 = Some (St_int 4 (2 ^ 32 - 42))"
proof -
  have "stops (conversion_base 0x64) [c_space]" by (simp add: stops_def is_white_space_def)
  then show ?thesis
    using format_unformat_number [where c = "0x64" and l = "[]" and k = 4 and v = "2 ^ 32 - 42" and sz = 64 and Y = ext_sample
        and p = 1 and rest = "[c_space]" and i = "input_sample []"
        and X = "\<lparr>x_f64 = ops_sample, x_user = (\<lambda>_ _ _. None)\<rparr> :: int fext"]
    by (simp add: conversions_def ext_sample_def)
qed

text \<open>
  When the first mark is not at the start of the buffer, running out of input moves the marks and the position,
  but not the bytes: the input \<open>ab\<close> is read again from \<open>a\<close> after a match that failed at \<open>b\<close>.
\<close>

lemma unformat_loses_input:
  "snd (unformat_fill_input ext_sample ((input_sample [97, 98])\<lparr>u_index := 2, u_marks := [1]\<rparr>)) =
     (input_sample [97, 98])\<lparr>u_index := UNFORMAT_END_OF_INPUT, u_len := 1, u_marks := [0]\<rparr>"
  by (simp add: unformat_fill_input_def ext_sample_def input_sample_def unformat_init_string_def fill_with_def
      unformat_init_def buff_add_def buffer_size_def Let_def)

end
