(* ===== verification/Spec2Isabelle.thy ===== *)
theory Spec2Isabelle
  imports Base64 Md5 AvlSpec BlobmsgCheck Kvlist Vlist UloopSpec UstreamSpec JsonHeap JsonScriptRun UnformatSpec
begin

text \<open>
  A verification development for libubox, the utility library of OpenWrt: data structures, the binary
  message format and the event loop that its daemons are built on. All sources named here are under
  \<^verbatim>\<open>src/src/\<close>; every definition keeps the name of the function, macro or type it translates, with a
  prime where C has leading underscores.

  How the program is built and which theory models which part:

  \<^item> \<open>Prelude\<close>: words, memory blocks with bounds-checked reads and writes, C strings, loops in the
    option monad. Nothing of it is libubox; the value \<^verbatim>\<open>None\<close> everywhere stands for a fault (an access
    outside a block, a NULL pointer, \<^verbatim>\<open>abort\<close>) or a loop that does not end, so a theorem that a call
    returns \<^verbatim>\<open>Some\<close> says that it ends and stays inside its memory.
  \<^item> \<open>Utils\<close> (\<^verbatim>\<open>utils.h\<close>, \<^verbatim>\<open>utils.c\<close>): byte order, bit fields, \<^verbatim>\<open>calloc_a\<close>.
  \<^item> \<open>Base64\<close> (\<^verbatim>\<open>base64.c\<close>) and \<open>Md5\<close> (\<^verbatim>\<open>md5.c\<close>): coders on byte arrays; the round trip and the exact
    set of accepted texts, and the equivalence with the digest of RFC 1321 for any split of the input.
  \<^item> \<open>ListHead\<close> (\<^verbatim>\<open>list.h\<close>): circular lists as a heap of links; \<open>dll h head xs\<close> is the list a head stands
    for and each operation refines the one on \<open>xs\<close>. The locale \<open>insertion_queue\<close> holds what a queue
    needs that is kept in order by inserting before the first element that must wait.
  \<^item> \<open>Avl\<close>, \<open>AvlTree\<close>, \<open>AvlDelete\<close>, \<open>AvlMap\<close>, \<open>AvlApi\<close>, \<open>AvlIter\<close>, \<open>AvlSpec\<close> (\<^verbatim>\<open>avl.c\<close>, \<^verbatim>\<open>avl.h\<close>, \<^verbatim>\<open>avl-cmp.c\<close>):
    AVL trees with parent pointers, threaded through a list, duplicates behind their leader. \<open>Avl\<close>
    has the operations; \<open>AvlTree\<close> and \<open>AvlDelete\<close> relate the heap to a binary tree seen from the node
    that is worked on (a zipper) and prove rebalancing; \<open>AvlMap\<close> adds the list and the groups of equal
    keys; \<open>AvlApi\<close> and \<open>AvlIter\<close> the searches and the loops; \<open>AvlSpec\<close> states the results on the sorted
    sequence of nodes. The locale \<open>comparator\<close> is the contract of the user's comparison.
  \<^item> \<open>Blob\<close>, \<open>BlobRepr\<close>, \<open>BlobSpec\<close> (\<^verbatim>\<open>blob.h\<close>, \<^verbatim>\<open>blob.c\<close>): attributes in a growing buffer. \<open>blob_repr\<close>
    reads a buffer as the stack of containers that are open with the bytes written into each; the
    locale \<open>blob_grower\<close> is the contract of the callback that enlarges the buffer, interpreted on the
    \<^verbatim>\<open>realloc\<close> version of the library.
  \<^item> \<open>Blobmsg\<close>, \<open>BlobmsgSpec\<close>, \<open>BlobmsgCheck\<close> (\<^verbatim>\<open>blobmsg.h\<close>, \<^verbatim>\<open>blobmsg.c\<close>): named and typed fields on top of
    blobs: building, validation, parsing by policy.
  \<^item> \<open>Kvlist\<close> (\<^verbatim>\<open>kvlist.h\<close>, \<^verbatim>\<open>kvlist.c\<close>): a store on top of the AVL trees, and the locale \<open>string_map\<close> it
    provides.
  \<^item> \<open>Uloop\<close>, \<open>UloopSpec\<close> (\<^verbatim>\<open>uloop.h\<close>, \<^verbatim>\<open>uloop.c\<close>): the event loop of the epoll build on top of the lists:
    timers, processes, descriptors, signals. The kernel and the callbacks are a record of functions.
  \<^item> \<open>Vlist\<close> (\<^verbatim>\<open>vlist.h\<close>, \<^verbatim>\<open>vlist.c\<close>): trees whose nodes carry a version, and the flush of the old ones.
  \<^item> \<open>Ustream\<close>, \<open>UstreamSpec\<close> (\<^verbatim>\<open>ustream.h\<close>, \<^verbatim>\<open>ustream.c\<close>): buffered streams; a chain of buffers stands for
    the queue of its bytes.
  \<^item> \<open>CText\<close>: characters and decimal numbers as C reads and writes them, and postconditions of fallible
    computations. \<open>Json\<close>, \<open>JsonSpec\<close>, \<open>JsonRound\<close>, \<open>JsonHeap\<close> (\<^verbatim>\<open>json.h\<close>, \<^verbatim>\<open>json.c\<close>): JSON values. \<open>Json\<close>
    has the parser and the printer on values as trees; the parser calls itself through a type of calls
    with fuel, and \<open>JsonSpec\<close> shows that twice the length of the text and two is enough and that the
    result is well-formed; \<open>JsonRound\<close> that the printer writes what the parser reads back; \<open>JsonHeap\<close>
    has the editing operations on linked nodes and what deleting a tree frees.
  \<^item> \<open>JsonScript\<close>, \<open>JsonScriptSpec\<close>, \<open>JsonScriptRun\<close> (\<^verbatim>\<open>json_script.h\<close>, \<^verbatim>\<open>json_script.c\<close>): the interpreter of
    scripts. A script is the tree of its attributes; \<^verbatim>\<open>__json_process_cmd\<close> and \<^verbatim>\<open>__json_script_run\<close> are
    \<open>process_command\<close> and \<open>script_run\<close>, and the functions that call each other are bodies that take
    the callee, tied by fuel. \<open>JsonScriptSpec\<close> gives the meaning of conditions and of \<open>%variables%\<close> in
    strings, \<open>JsonScriptRun\<close> the fuel that is enough: the depth of the values, once for every file.
  \<^item> \<open>Format\<close>, \<open>Unformat\<close>, \<open>UnformatSpec\<close> (\<^verbatim>\<open>format.h\<close>, \<^verbatim>\<open>format.c\<close>, \<^verbatim>\<open>unformat.c\<close>): formatted output into buffers and
    the parser of formatted input. The two functions \<^verbatim>\<open>do_percent\<close> are \<open>format_percent\<close> and
    \<open>unformat_percent\<close>; \<^verbatim>\<open>double\<close> is a record of operations; the loops over the format have the length of
    the format as fuel. \<open>UnformatSpec\<close> shows what backing up restores and that numbers are read back.
  Bounds. Loops that the code itself bounds are structural or well-founded recursion; loops over linked
  structures are \<^verbatim>\<open>partial_function\<close>s without fuel, and the theorems show that they return. Lengths are
  words of the width the code has; the hypotheses \<open>< 2 ^ 24\<close> (blob lengths), \<open>< 2 ^ 31\<close> (\<^verbatim>\<open>int\<close> results)
  and the window of 2147000 seconds (timer differences in \<^verbatim>\<open>int\<close> milliseconds) are where the code wraps
  around. \<^verbatim>\<open>long\<close> seconds are unbounded integers.

  Not modelled: the kqueue build of \<^verbatim>\<open>uloop.c\<close> and the system calls of the event loop themselves;
  \<^verbatim>\<open>usock.c\<close>, \<^verbatim>\<open>ulog.c\<close>, \<^verbatim>\<open>runqueue.c\<close> (processes and sockets of the operating system around calls that
  are modelled); the file functions of \<^verbatim>\<open>json.c\<close>; \<^verbatim>\<open>blobmsg_json.c\<close>, \<^verbatim>\<open>jsonrpc.c\<close>, \<^verbatim>\<open>jshn.c\<close>, \<^verbatim>\<open>ustream-fd.c\<close>; the Lua binding, the examples and the tests.
\<close>

end
